(* ===== verification/Prelude.thy ===== *)
theory Prelude
  imports Main "HOL-Library.Monad_Syntax" "HOL-Library.Word" "HOL-Library.Multiset" "HOL-Library.Signed_Division"
begin

text \<open>
  Shared vocabulary of the development: how the C++ of src/ is read as HOL terms.
  An array access is checked (\<open>rd\<close>, \<open>wr\<close>): the option monad's \<open>None\<close> stands for a
  run of the program that has no defined result, because it reads or writes outside an
  array or because a loop never ends.  A component that leaves the program through
  \<^verbatim>\<open>exit\<close> or \<^verbatim>\<open>assert\<close> returns a value of \<open>'a result\<close>, whose left summand names
  the way out.  The loops \<^verbatim>\<open>for (x : xs)\<close> and \<^verbatim>\<open>for (i = lo; i < hi; i++)\<close> are \<open>foldM\<close>
  over the list of the values the loop variable takes.
\<close>

named_theorems ret_intros "introduction rules for total correctness of option programs"

section \<open>Ways out of the program\<close>

datatype fault = Exit int | AssertFailed | NoDefinedResult

type_synonym 'a result = "fault + 'a"

definition rbind :: "'a result \<Rightarrow> ('a \<Rightarrow> 'b result) \<Rightarrow> 'b result" where
  "rbind m f = (case m of Inl e \<Rightarrow> Inl e | Inr x \<Rightarrow> f x)"

definition of_opt :: "'a option \<Rightarrow> 'a result" where
  "of_opt m = (case m of None \<Rightarrow> Inl NoDefinedResult | Some x \<Rightarrow> Inr x)"

definition assert_that :: "bool \<Rightarrow> unit result" where
  "assert_that b = (if b then Inr () else Inl AssertFailed)"

lemma rbind_simps [simp]: "rbind (Inl e) f = Inl e" "rbind (Inr x) f = f x"
  by (simp_all add: rbind_def)

lemma rbind_eq_Inr: "rbind m f = Inr y \<longleftrightarrow> (\<exists>x. m = Inr x \<and> f x = Inr y)"
  by (cases m) simp_all

lemma of_opt_simps [simp]: "of_opt None = Inl NoDefinedResult" "of_opt (Some x) = Inr x"
  by (simp_all add: of_opt_def)

lemma assert_that_simps [simp]: "assert_that True = Inr ()" "assert_that False = Inl AssertFailed"
  by (simp_all add: assert_that_def)

section \<open>Arithmetic\<close>

definition int32 :: "int \<Rightarrow> int option" where
  \<comment> \<open>the result of an arithmetic operation on 32-bit ints; overflow has no defined result\<close>
  "int32 x = (if - (2 ^ 31) \<le> x \<and> x < 2 ^ 31 then Some x else None)"

definition count32 :: "nat \<Rightarrow> nat option" where
  \<comment> \<open>a count that is stored in a \<^verbatim>\<open>NodeID_\<close>, a 32-bit int; a larger one has no result here, although where the
    code converts or adds atomically it goes on with another number\<close>
  "count32 k = (if k < 2 ^ 31 then Some k else None)"

lemma count32_simps [simp]:
  "count32 k = Some m \<longleftrightarrow> m = k \<and> k < 2 ^ 31" "Some m = count32 k \<longleftrightarrow> m = k \<and> k < 2 ^ 31"
  "k < 2 ^ 31 \<Longrightarrow> count32 k = Some k"
  by (auto simp: count32_def)

definition div_trunc :: "int \<Rightarrow> int \<Rightarrow> int option" where
  \<comment> \<open>\<^verbatim>\<open>/\<close> rounds towards zero and is undefined for the divisor 0\<close>
  "div_trunc a b = (if b = 0 then None else Some (a sdiv b))"

lemma those_map_Some [simp]: "those (map Some xs) = Some xs"
  by (induction xs) simp_all

section \<open>Total correctness in the option monad\<close>

definition returns :: "'a option \<Rightarrow> ('a \<Rightarrow> bool) \<Rightarrow> bool" where
  "returns m P \<longleftrightarrow> (case m of None \<Rightarrow> False | Some x \<Rightarrow> P x)"

lemma returns_simps [simp]: "returns None P \<longleftrightarrow> False" "returns (Some x) P \<longleftrightarrow> P x"
  by (simp_all add: returns_def)

lemma returns_iff: "returns m P \<longleftrightarrow> (\<exists>x. m = Some x \<and> P x)"
  by (cases m) simp_all

lemma returns_ex: "returns m P \<Longrightarrow> \<exists>x. m = Some x \<and> P x"
  by (simp add: returns_iff)

lemma returns_pair: "returns m (\<lambda>(a, b). P a b) \<Longrightarrow> \<exists>a b. m = Some (a, b) \<and> P a b"
  by (cases m) auto

lemma returns_triple: "returns m (\<lambda>(a, b, c). P a b c) \<Longrightarrow> \<exists>a b c. m = Some (a, b, c) \<and> P a b c"
  by (cases m) auto

lemma returns_mono: "returns m P \<Longrightarrow> (\<And>x. P x \<Longrightarrow> Q x) \<Longrightarrow> returns m Q"
  by (auto simp: returns_iff)

lemma returns_conj: "returns m P \<Longrightarrow> returns m Q \<Longrightarrow> returns m (\<lambda>x. P x \<and> Q x)"
  by (auto simp: returns_iff)

lemma returns_bind [ret_intros]:
  "returns m (\<lambda>x. returns (f x) P) \<Longrightarrow> returns (m \<bind> f) P"
  by (cases m) simp_all

lemma returns_Some [ret_intros]: "P x \<Longrightarrow> returns (Some x) P"
  by simp

lemma returns_if [ret_intros]:
  "(b \<Longrightarrow> returns m P) \<Longrightarrow> (\<not> b \<Longrightarrow> returns m' P) \<Longrightarrow> returns (if b then m else m') P"
  by simp

section \<open>Arrays\<close>

definition rd :: "'a list \<Rightarrow> nat \<Rightarrow> 'a option" where
  "rd xs i = (if i < length xs then Some (xs ! i) else None)"

definition wr :: "'a list \<Rightarrow> nat \<Rightarrow> 'a \<Rightarrow> 'a list option" where
  "wr xs i x = (if i < length xs then Some (xs[i := x]) else None)"

definition uninit :: "nat \<Rightarrow> 'a list" where
  \<comment> \<open>the storage \<^verbatim>\<open>new T[n]\<close> returns: n cells whose contents are not known\<close>
  "uninit n = replicate n undefined"

lemma rd_in [simp]: "i < length xs \<Longrightarrow> rd xs i = Some (xs ! i)"
  by (simp add: rd_def)

lemma wr_in [simp]: "i < length xs \<Longrightarrow> wr xs i x = Some (xs[i := x])"
  by (simp add: wr_def)

lemma rd_out: "length xs \<le> i \<Longrightarrow> rd xs i = None"
  by (simp add: rd_def)

lemma wr_out: "length xs \<le> i \<Longrightarrow> wr xs i x = None"
  by (simp add: wr_def)

lemma rd_eq_Some: "rd xs i = Some x \<longleftrightarrow> i < length xs \<and> x = xs ! i"
  by (auto simp: rd_def)

lemma wr_eq_Some: "wr xs i x = Some ys \<longleftrightarrow> i < length xs \<and> ys = xs[i := x]"
  by (auto simp: wr_def)

lemma returns_rd [ret_intros]: "i < length xs \<Longrightarrow> P (xs ! i) \<Longrightarrow> returns (rd xs i) P"
  by simp

lemma returns_wr [ret_intros]: "i < length xs \<Longrightarrow> P (xs[i := x]) \<Longrightarrow> returns (wr xs i x) P"
  by simp

lemma length_uninit [simp]: "length (uninit n) = n"
  by (simp add: uninit_def)

lemma in_set_update_iff:
  "i < length xs \<Longrightarrow> x \<in> set (xs[i := y]) \<longleftrightarrow> x = y \<or> (\<exists>j < length xs. j \<noteq> i \<and> xs ! j = x)"
  by (auto simp: in_set_conv_nth nth_list_update)

lemma sum_list_map_update:
  fixes f :: "'a \<Rightarrow> 'b::comm_monoid_add"
  shows "i < length ts \<Longrightarrow> sum_list (map f (ts[i := x])) + f (ts ! i) = sum_list (map f ts) + f x"
  by (induction ts arbitrary: i) (auto simp: ac_simps split: nat.splits)

lemma takeWhile_sorted: "sorted xs \<Longrightarrow> takeWhile (\<lambda>x. x \<le> b) xs = filter (\<lambda>x. x \<le> b) xs"
  by (induction xs) (auto intro!: sym [OF filter_False] dest: order.trans)

lemma sum_list_counts:
  fixes f :: "nat \<Rightarrow> 'a::comm_semiring_1"
  assumes "\<And>v. v \<in> set vs \<Longrightarrow> v < n"
  shows "(\<Sum>v \<leftarrow> vs. f v) = (\<Sum>v < n. of_nat (count_list vs v) * f v)"
  using assms
proof (induction vs)
  case (Cons w vs)
  have "(\<Sum>v < n. of_nat (count_list (w # vs) v) * f v) = (\<Sum>v < n. (if v = w then f v else 0) + of_nat (count_list vs v) * f v)"
    by (intro sum.cong) (auto simp: algebra_simps)
  also have "\<dots> = (\<Sum>v < n. if v = w then f v else 0) + (\<Sum>v < n. of_nat (count_list vs v) * f v)" by (rule sum.distrib)
  also have "(\<Sum>v < n. if v = w then f v else 0) = f w" using Cons.prems by simp
  finally show ?case using Cons by simp
qed simp

fun max_element :: "('a \<Rightarrow> 'b::linorder) \<Rightarrow> 'a \<Rightarrow> 'a list \<Rightarrow> 'a" where
  \<comment> \<open>\<^verbatim>\<open>std::max_element\<close>: the first of the greatest\<close>
  "max_element f best [] = best"
| "max_element f best (x # xs) = max_element f (if f best < f x then x else best) xs"

section \<open>Loops\<close>

primrec foldM :: "('a \<Rightarrow> 's \<Rightarrow> 's option) \<Rightarrow> 'a list \<Rightarrow> 's \<Rightarrow> 's option" where
  "foldM f [] s = Some s"
| "foldM f (x # xs) s = f x s \<bind> foldM f xs"

lemma foldM_Nil_fun [simp]: "foldM f [] = Some"
  by (rule ext) simp

lemma foldM_append: "foldM f (xs @ ys) s = foldM f xs s \<bind> foldM f ys"
proof (induction xs arbitrary: s)
  case Nil
  then show ?case by simp
next
  case (Cons x xs)
  then show ?case by (cases "f x s") simp_all
qed

lemma foldM_concat: "foldM f (concat (map g xs)) s = foldM (\<lambda>x. foldM f (g x)) xs s"
proof (induction xs arbitrary: s)
  case Nil
  then show ?case by simp
next
  case (Cons x xs)
  then show ?case by (cases "foldM f (g x) s") (simp_all add: foldM_append)
qed

lemma foldM_map: "foldM f (map g xs) s = foldM (\<lambda>x. f (g x)) xs s"
proof (induction xs arbitrary: s)
  case Nil
  then show ?case by simp
next
  case (Cons x xs)
  then show ?case by (cases "f (g x) s") simp_all
qed

lemma foldM_cong:
  "(\<And>x s. x \<in> set xs \<Longrightarrow> f x s = g x s) \<Longrightarrow> foldM f xs s = foldM g xs s"
proof (induction xs arbitrary: s)
  case Nil
  then show ?case by simp
next
  case (Cons x xs)
  then show ?case by (cases "g x s") simp_all
qed

lemma foldM_Some: "foldM (\<lambda>x s. Some (g x s)) xs s = Some (fold g xs s)"
  by (induction xs arbitrary: s) simp_all

text \<open>A loop whose body always returns is a fold.\<close>

lemma foldM_fold:
  assumes "\<And>x s. x \<in> set xs \<Longrightarrow> I s \<Longrightarrow> f x s = Some (g x s) \<and> I (g x s)" and "I s"
  shows "foldM f xs s = Some (fold g xs s) \<and> I (fold g xs s)"
  using assms by (induction xs arbitrary: s) simp_all

text \<open>
  The loop rule: an invariant indexed by the number of iterations done.  It gives total
  correctness, because \<open>returns\<close> says that the body has a defined result.
\<close>

lemma foldM_take:
  assumes init: "I 0 s"
    and step: "\<And>i s. i < length xs \<Longrightarrow> I i s \<Longrightarrow> returns (f (xs ! i) s) (I (Suc i))"
    and k: "k \<le> length xs"
  shows "returns (foldM f (take k xs) s) (I k)"
  using k
proof (induction k)
  case 0
  show ?case using init by simp
next
  case (Suc k)
  then have "returns (foldM f (take k xs) s) (I k)" by simp
  then obtain s' where s': "foldM f (take k xs) s = Some s'" "I k s'"
    by (auto simp: returns_iff)
  from step [of k s'] Suc.prems s'(2) have "returns (f (xs ! k) s') (I (Suc k))" by simp
  with s'(1) Suc.prems show ?case
    by (auto simp: take_Suc_conv_app_nth foldM_append returns_iff)
qed

lemma foldM_rule:
  assumes "I 0 s"
    and "\<And>i s. i < length xs \<Longrightarrow> I i s \<Longrightarrow> returns (f (xs ! i) s) (I (Suc i))"
    and "\<And>s. I (length xs) s \<Longrightarrow> P s"
  shows "returns (foldM f xs s) P"
  using foldM_take [of I s xs f "length xs"] assms by (auto simp: returns_iff)

lemma foldM_upt_rule:
  assumes "I 0 s"
    and "\<And>i s. i < n \<Longrightarrow> I i s \<Longrightarrow> returns (f i s) (I (Suc i))"
    and "\<And>s. I n s \<Longrightarrow> P s"
  shows "returns (foldM f [0..<n] s) P"
  by (rule foldM_rule [where I = I]) (use assms in auto)

text \<open>The same rule with the set of elements already handled.\<close>

lemma foldM_set_rule:
  assumes "I {} s"
    and "\<And>x D s. x \<in> set xs \<Longrightarrow> D \<subseteq> set xs \<Longrightarrow> I D s \<Longrightarrow> returns (f x s) (I (insert x D))"
    and "\<And>s. I (set xs) s \<Longrightarrow> P s"
  shows "returns (foldM f xs s) P"
proof (rule foldM_rule [where I = "\<lambda>i. I (set (take i xs))"])
  show "I (set (take 0 xs)) s" using assms(1) by simp
next
  fix i s
  assume i: "i < length xs" and I: "I (set (take i xs)) s"
  have "returns (f (xs ! i) s) (I (insert (xs ! i) (set (take i xs))))"
    by (rule assms(2)) (use i I in \<open>auto dest: in_set_takeD\<close>)
  then show "returns (f (xs ! i) s) (I (set (take (Suc i) xs)))"
    using i by (simp add: take_Suc_conv_app_nth)
next
  fix s
  assume "I (set (take (length xs) xs)) s"
  then show "P s" using assms(3) by simp
qed

text \<open>An invariant that does not count iterations.\<close>

lemma foldM_inv:
  assumes "I s" and "\<And>x s. x \<in> set xs \<Longrightarrow> I s \<Longrightarrow> returns (f x s) I"
  shows "returns (foldM f xs s) I"
  by (rule foldM_rule [where I = "\<lambda>_. I"]) (use assms in auto)

lemma identity_loop: "foldM (\<lambda>n p. wr p n n) [0..<k] (uninit k) = Some [0..<k]"
proof -
  have "returns (foldM (\<lambda>n p. wr p n n) [0..<k] (uninit k)) (\<lambda>p. p = [0..<k])"
    by (rule foldM_upt_rule [where I = "\<lambda>i p. length p = k \<and> (\<forall>j < i. p ! j = j)"])
      (auto simp: nth_list_update less_Suc_eq intro: nth_equalityI)
  then show ?thesis by (auto simp: returns_iff)
qed

section \<open>Block copies\<close>

definition copy_cells :: "'a list \<Rightarrow> nat \<Rightarrow> 'a list \<Rightarrow> nat \<Rightarrow> 'a list option" where
  \<comment> \<open>\<^verbatim>\<open>std::copy(src, src+n, dst+at)\<close>\<close>
  "copy_cells src n dst at = foldM (\<lambda>i b. do { x \<leftarrow> rd src i; wr b (at + i) x }) [0..<n] dst"

lemma copy_cells_eq:
  assumes "n \<le> length src" "at + n \<le> length dst"
  shows "copy_cells src n dst at = Some (take at dst @ take n src @ drop (at + n) dst)"
  using assms
proof (induction n)
  case 0
  then show ?case by (simp add: copy_cells_def)
next
  case (Suc n)
  then have "copy_cells src n dst at = Some (take at dst @ take n src @ drop (at + n) dst)" by simp
  moreover have "wr (take at dst @ take n src @ drop (at + n) dst) (at + n) (src ! n)
      = Some (take at dst @ take (Suc n) src @ drop (Suc (at + n)) dst)"
    using Suc.prems
    by (simp add: wr_def list_update_append take_Suc_conv_app_nth Cons_nth_drop_Suc [symmetric])
  ultimately show ?case using Suc.prems by (simp add: copy_cells_def foldM_append)
qed

section \<open>Slices and prefix sums\<close>

definition segment :: "'a list \<Rightarrow> nat \<Rightarrow> nat \<Rightarrow> 'a list" where
  \<comment> \<open>the cells a pointer visits that starts at offset i of a block and stops at offset j\<close>
  "segment b i j = take (j - i) (drop i b)"

definition prefix_sums :: "nat list \<Rightarrow> nat list" where
  "prefix_sums ds = map (\<lambda>i. sum_list (take i ds)) [0..<Suc (length ds)]"

lemma length_segment [simp]: "j \<le> length b \<Longrightarrow> length (segment b i j) = j - i"
  by (auto simp: segment_def)

lemma nth_segment: "i + k < j \<Longrightarrow> j \<le> length b \<Longrightarrow> segment b i j ! k = b ! (i + k)"
  by (simp add: segment_def add.commute)

lemma set_segment_subset: "set (segment b i j) \<subseteq> set b"
  by (auto simp: segment_def dest: in_set_takeD in_set_dropD)

lemma segment_map: "segment (map f b) i j = map f (segment b i j)"
  by (simp add: segment_def take_map drop_map)

lemma segment_eq_iff:
  assumes "j \<le> length b" "j \<le> length c"
  shows "segment b i j = segment c i j \<longleftrightarrow> (\<forall>k. i \<le> k \<and> k < j \<longrightarrow> b ! k = c ! k)"
proof
  assume eq: "segment b i j = segment c i j"
  show "\<forall>k. i \<le> k \<and> k < j \<longrightarrow> b ! k = c ! k"
  proof (intro allI impI)
    fix k
    assume k: "i \<le> k \<and> k < j"
    then have "segment b i j ! (k - i) = b ! k" "segment c i j ! (k - i) = c ! k"
      using assms by (simp_all add: nth_segment)
    with eq show "b ! k = c ! k" by simp
  qed
next
  assume "\<forall>k. i \<le> k \<and> k < j \<longrightarrow> b ! k = c ! k"
  with assms show "segment b i j = segment c i j"
    by (auto intro!: nth_equalityI simp: nth_segment)
qed

lemma segment_below:
  assumes "j \<le> k" "k \<le> length b" "k \<le> length c" "take k b = take k c"
  shows "segment b i j = segment c i j"
proof -
  have "b ! m = c ! m" if "m < j" for m
    using assms that nth_take [of m k b] nth_take [of m k c] by simp
  then show ?thesis using assms by (simp add: segment_eq_iff)
qed

lemma take_segment: "k \<le> j - i \<Longrightarrow> take k (segment b i j) = segment b i (i + k)"
  by (simp add: segment_def min_def)

lemma segment_middle:
  assumes "length xs = i" "i \<le> j" "j - i \<le> length ys"
  shows "segment (xs @ ys @ zs) i j = take (j - i) ys"
  using assms by (simp add: segment_def)

text \<open>A loop over the cells of a block is a loop over its slice.\<close>

lemma foldM_reads:
  assumes "j \<le> length b"
  shows "foldM (\<lambda>it s. do { u \<leftarrow> rd b it; f u s }) [i..<j] s = foldM f (segment b i j) s"
proof -
  have "segment b i j = map ((!) b) [i..<j]"
    by (rule nth_equalityI) (use assms in \<open>auto simp: nth_segment\<close>)
  moreover have "foldM (\<lambda>it s. do { u \<leftarrow> rd b it; f u s }) [i..<j] s = foldM (\<lambda>it. f (b ! it)) [i..<j] s"
    by (rule foldM_cong) (use assms in simp)
  ultimately show ?thesis by (simp add: foldM_map)
qed

lemma length_prefix_sums [simp]: "length (prefix_sums ds) = Suc (length ds)"
  by (simp add: prefix_sums_def)

lemma nth_prefix_sums: "i \<le> length ds \<Longrightarrow> prefix_sums ds ! i = sum_list (take i ds)"
  by (simp add: prefix_sums_def nth_append del: upt_Suc)

lemma prefix_sums_0 [simp]: "prefix_sums ds ! 0 = 0"
  by (simp add: nth_prefix_sums)

lemma prefix_sums_Suc:
  "i < length ds \<Longrightarrow> prefix_sums ds ! Suc i = prefix_sums ds ! i + ds ! i"
  by (simp add: nth_prefix_sums take_Suc_conv_app_nth)

lemma prefix_sums_last [simp]: "prefix_sums ds ! length ds = sum_list ds"
  by (simp add: nth_prefix_sums)

lemma sum_list_take_mono: "i \<le> j \<Longrightarrow> sum_list (take i ds) \<le> sum_list (take j (ds :: nat list))"
proof -
  assume "i \<le> j"
  then have "take j ds = take i ds @ take (j - i) (drop i ds)"
    by (metis le_add_diff_inverse take_add)
  then show ?thesis by simp
qed

lemma prefix_sums_mono:
  "i \<le> j \<Longrightarrow> j \<le> length ds \<Longrightarrow> prefix_sums ds ! i \<le> prefix_sums ds ! j"
  by (simp add: nth_prefix_sums sum_list_take_mono)

lemma prefix_sums_le_total: "i \<le> length ds \<Longrightarrow> prefix_sums ds ! i \<le> sum_list ds"
  using prefix_sums_mono [of i "length ds" ds] by simp

lemma sorted_prefix_sums: "sorted (prefix_sums ds)"
  unfolding sorted_iff_nth_mono by (auto intro: prefix_sums_mono)

text \<open>
  The rows of a matrix in compressed form: stored one after the other, row i lies between
  two consecutive prefix sums of the row lengths.
\<close>

lemma segment_concat:
  assumes "i < length rows"
  shows "segment (concat rows) (prefix_sums (map length rows) ! i)
           (prefix_sums (map length rows) ! Suc i) = rows ! i"
proof -
  have len: "prefix_sums (map length rows) ! i = length (concat (take i rows))"
    using assms by (simp add: nth_prefix_sums length_concat take_map)
  have rows: "rows = take i rows @ rows ! i # drop (Suc i) rows"
    using assms by (simp add: id_take_nth_drop)
  have "concat rows = concat (take i rows) @ rows ! i @ concat (drop (Suc i) rows)"
    by (subst rows) simp
  then have dr: "drop (length (concat (take i rows))) (concat rows)
      = rows ! i @ concat (drop (Suc i) rows)"
    by (metis append_eq_conv_conj)
  show ?thesis
    using assms by (simp add: segment_def prefix_sums_Suc len dr)
qed

lemma nth_concat_rows:
  assumes "i < length rows" "k < length (rows ! i)"
  shows "concat rows ! (prefix_sums (map length rows) ! i + k) = rows ! i ! k"
proof -
  let ?P = "prefix_sums (map length rows)"
  have "?P ! Suc i \<le> length (concat rows)"
    using prefix_sums_le_total [of "Suc i" "map length rows"] assms by (simp add: length_concat)
  then have "segment (concat rows) (?P ! i) (?P ! Suc i) ! k = concat rows ! (?P ! i + k)"
    using assms by (intro nth_segment) (simp_all add: prefix_sums_Suc)
  then show ?thesis using segment_concat [OF assms(1)] by simp
qed

text \<open>Every cell of the stored matrix lies in exactly one row.\<close>

lemma prefix_sums_locate:
  assumes "p < sum_list ds"
  shows "\<exists>i k. i < length ds \<and> k < ds ! i \<and> p = prefix_sums ds ! i + k"
  using assms
proof (induction ds rule: rev_induct)
  case Nil
  then show ?case by simp
next
  case (snoc d ds)
  have pre: "prefix_sums (ds @ [d]) ! i = prefix_sums ds ! i" if "i \<le> length ds" for i
    using that by (simp add: nth_prefix_sums)
  show ?case
  proof (cases "p < sum_list ds")
    case True
    then obtain i k where "i < length ds" "k < ds ! i" "p = prefix_sums ds ! i + k"
      using snoc.IH by blast
    then show ?thesis by (intro exI [of _ i] exI [of _ k]) (simp add: nth_append pre)
  next
    case False
    then show ?thesis using snoc.prems
      by (intro exI [of _ "length ds"] exI [of _ "p - sum_list ds"])
        (simp add: pre)
  qed
qed

lemma prefix_sums_disjoint:
  assumes "i < length ds" "j < length ds" "k < ds ! i" "l < ds ! j"
    and "prefix_sums ds ! i + k = prefix_sums ds ! j + l"
  shows "i = j \<and> k = l"
proof -
  have apart: "prefix_sums ds ! a + m < prefix_sums ds ! b"
    if "a < b" "b < length ds" "m < ds ! a" for a b m
  proof -
    have "prefix_sums ds ! a + m < prefix_sums ds ! Suc a"
      using that by (simp add: prefix_sums_Suc)
    also have "\<dots> \<le> prefix_sums ds ! b" using that by (intro prefix_sums_mono) auto
    finally show ?thesis .
  qed
  consider "i < j" | "i = j" | "j < i" by linarith
  then show ?thesis
    using apart [of i j k] apart [of j i l] assms by cases auto
qed

end
