(* ===== verification/Graph.thy ===== *)
theory Graph
  imports Prelude
begin

text \<open>
  src/graph.h without its shared-memory constructor (that is theory SharedGraph): the edge
  types, the class \<^verbatim>\<open>CSRGraph\<close> and its accessors.  A vertex id is a \<open>nat\<close>; a pointer into
  the neighbour array is its offset in that array, so \<open>csr_out_index\<close> is the list of the
  offsets of \<^verbatim>\<open>out_index_\<close> in the block \<open>csr_out_neighbors\<close>.  A null pointer is the empty
  list, of which every read is undefined.  \<open>csr_num_edges\<close> is \<open>None\<close> where a constructor
  leaves \<^verbatim>\<open>num_edges_\<close> uninitialised.
\<close>

section \<open>Edges\<close>

datatype node_weight = NodeWeight (nw_v: nat) (nw_w: int)

definition nw_of_node :: "nat \<Rightarrow> node_weight" where
  "nw_of_node v = NodeWeight v 1"

definition nw_less :: "node_weight \<Rightarrow> node_weight \<Rightarrow> bool" where
  "nw_less a b = (if nw_v a = nw_v b then nw_w a < nw_w b else nw_v a < nw_v b)"

definition nw_eq :: "node_weight \<Rightarrow> node_weight \<Rightarrow> bool" where
  \<comment> \<open>the weights are not compared\<close>
  "nw_eq a b \<longleftrightarrow> nw_v a = nw_v b"

definition nw_eq_node :: "node_weight \<Rightarrow> nat \<Rightarrow> bool" where
  "nw_eq_node a n \<longleftrightarrow> nw_v a = n"

instantiation node_weight :: linorder
begin

definition less_node_weight :: "node_weight \<Rightarrow> node_weight \<Rightarrow> bool" where
  "less_node_weight a b = nw_less a b"

definition less_eq_node_weight :: "node_weight \<Rightarrow> node_weight \<Rightarrow> bool" where
  "less_eq_node_weight a b \<longleftrightarrow> nw_less a b \<or> a = b"

instance
  by standard
    (auto simp: less_node_weight_def less_eq_node_weight_def nw_less_def
      intro: node_weight.expand split: if_splits)

end

datatype ('s, 'd) edge_pair = EdgePair (e_u: 's) (e_v: 'd)

definition ep_less :: "('s::linorder, 'd::linorder) edge_pair \<Rightarrow> ('s, 'd) edge_pair \<Rightarrow> bool" where
  "ep_less a b = (if e_u a = e_u b then e_v a < e_v b else e_u a < e_u b)"

instantiation edge_pair :: (linorder, linorder) linorder
begin

definition less_edge_pair :: "('a, 'b) edge_pair \<Rightarrow> ('a, 'b) edge_pair \<Rightarrow> bool" where
  "less_edge_pair a b = ep_less a b"

definition less_eq_edge_pair :: "('a, 'b) edge_pair \<Rightarrow> ('a, 'b) edge_pair \<Rightarrow> bool" where
  "less_eq_edge_pair a b \<longleftrightarrow> ep_less a b \<or> a = b"

instance
  by standard
    (auto simp: less_edge_pair_def less_eq_edge_pair_def ep_less_def
      intro: edge_pair.expand split: if_splits)

end

section \<open>The class CSRGraph\<close>

record 'd csr_graph =
  csr_directed :: bool
  csr_num_nodes :: int
  csr_num_edges :: "int option"
  csr_out_index :: "nat list"
  csr_out_neighbors :: "'d list"
  csr_in_index :: "nat list"
  csr_in_neighbors :: "'d list"

definition csr_default :: "'d csr_graph" where
  "csr_default = \<lparr>csr_directed = False, csr_num_nodes = -1, csr_num_edges = Some (-1),
     csr_out_index = [], csr_out_neighbors = [], csr_in_index = [], csr_in_neighbors = []\<rparr>"

definition csr_undirected :: "int \<Rightarrow> nat list \<Rightarrow> 'd list \<Rightarrow> 'd csr_graph" where
  \<comment> \<open>the assignment of \<^verbatim>\<open>num_edges_\<close> is commented out in the source\<close>
  "csr_undirected num_nodes index neighs = \<lparr>csr_directed = False, csr_num_nodes = num_nodes,
     csr_num_edges = None, csr_out_index = index, csr_out_neighbors = neighs,
     csr_in_index = index, csr_in_neighbors = neighs\<rparr>"

definition pointer_diff :: "nat list \<Rightarrow> nat \<Rightarrow> nat \<Rightarrow> int option" where
  \<comment> \<open>\<^verbatim>\<open>index[i] - index[j]\<close>\<close>
  "pointer_diff index i j = do { a \<leftarrow> rd index i; b \<leftarrow> rd index j; Some (int a - int b) }"

definition csr_from_directed ::
  "int \<Rightarrow> nat list \<Rightarrow> 'd list \<Rightarrow> nat list \<Rightarrow> 'd list \<Rightarrow> 'd csr_graph option" where
  "csr_from_directed num_nodes out_index out_neighs in_index in_neighs = do {
     m \<leftarrow> pointer_diff out_index (nat num_nodes) 0;
     Some \<lparr>csr_directed = True, csr_num_nodes = num_nodes, csr_num_edges = Some m,
       csr_out_index = out_index, csr_out_neighbors = out_neighs,
       csr_in_index = in_index, csr_in_neighbors = in_neighs\<rparr> }"

definition csr_move :: "'d csr_graph \<Rightarrow> 'd csr_graph \<times> 'd csr_graph" where
  \<comment> \<open>the move constructor: the new graph and what is left of the other\<close>
  "csr_move other = (other, other\<lparr>csr_num_edges := Some (-1), csr_num_nodes := -1,
     csr_out_index := [], csr_out_neighbors := [], csr_in_index := [], csr_in_neighbors := []\<rparr>)"

definition csr_move_assign :: "bool \<Rightarrow> 'd csr_graph \<Rightarrow> 'd csr_graph \<Rightarrow> 'd csr_graph \<times> 'd csr_graph" where
  \<comment> \<open>\<open>same\<close> is the test \<^verbatim>\<open>this == &other\<close>; \<^verbatim>\<open>ReleaseResources\<close> frees nothing\<close>
  "csr_move_assign same this other = (if same then (this, this) else csr_move other)"

definition num_edges :: "'d csr_graph \<Rightarrow> int option" where
  "num_edges g = csr_num_edges g"

definition num_edges_directed :: "'d csr_graph \<Rightarrow> int option" where
  "num_edges_directed g = do {
     m \<leftarrow> csr_num_edges g; Some (if csr_directed g then m else 2 * m) }"

definition out_degree :: "'d csr_graph \<Rightarrow> nat \<Rightarrow> int option" where
  "out_degree g v = pointer_diff (csr_out_index g) (v + 1) v"

definition in_degree :: "'d csr_graph \<Rightarrow> nat \<Rightarrow> int option" where
  "in_degree g v = pointer_diff (csr_in_index g) (v + 1) v"

definition neighborhood :: "nat list \<Rightarrow> nat \<Rightarrow> nat \<Rightarrow> (nat \<times> nat) option" where
  \<comment> \<open>\<open>begin()\<close> and \<open>end()\<close> of a \<^verbatim>\<open>Neighborhood\<close>; \<open>max_offset\<close> is unsigned\<close>
  "neighborhood g_index n start_offset = do {
     b \<leftarrow> rd g_index n;
     e \<leftarrow> rd g_index (n + 1);
     let max_offset = nat ((int e - int b) mod 2 ^ 64);
     Some (b + min start_offset max_offset, e) }"

definition visit_cells :: "'d list \<Rightarrow> nat \<times> nat \<Rightarrow> 'd list option" where
  \<comment> \<open>the cells a range-for visits; a walk that leaves the block is undefined\<close>
  "visit_cells block r = (case r of (b, e) \<Rightarrow>
     if b \<le> e \<and> e \<le> length block then Some (segment block b e) else None)"

definition out_neigh :: "'d csr_graph \<Rightarrow> nat \<Rightarrow> nat \<Rightarrow> 'd list option" where
  "out_neigh g n start_offset =
     neighborhood (csr_out_index g) n start_offset \<bind> visit_cells (csr_out_neighbors g)"

definition in_neigh :: "'d csr_graph \<Rightarrow> nat \<Rightarrow> nat \<Rightarrow> 'd list option" where
  "in_neigh g n start_offset =
     neighborhood (csr_in_index g) n start_offset \<bind> visit_cells (csr_in_neighbors g)"

definition vertices :: "'d csr_graph \<Rightarrow> nat list" where
  \<comment> \<open>\<^verbatim>\<open>Range(num_nodes())\<close>, also the loop \<^verbatim>\<open>for (n=0; n < num_nodes(); n++)\<close>\<close>
  "vertices g = [0..<nat (csr_num_nodes g)]"

definition GenIndex :: "nat list \<Rightarrow> nat list option" where
  \<comment> \<open>\<open>index[n] = neighs + offsets[n]\<close>, as offsets from the base \<open>neighs\<close> of the block; the length is a \<^verbatim>\<open>NodeID_\<close>\<close>
  "GenIndex offsets = do {
     k \<leftarrow> count32 (length offsets);
     Some (map (\<lambda>n. 0 + offsets ! n) [0..<k]) }"

definition VertexOffsets :: "'d csr_graph \<Rightarrow> bool \<Rightarrow> int list option" where
  \<comment> \<open>the counter of the loop is a \<^verbatim>\<open>NodeID_\<close> and runs up to \<^verbatim>\<open>num_nodes_+1\<close>\<close>
  "VertexOffsets g in_graph = do {
     k \<leftarrow> count32 (nat (csr_num_nodes g + 1));
     foldM (\<lambda>n offsets. do {
        d \<leftarrow> pointer_diff (if in_graph then csr_in_index g else csr_out_index g) n 0;
        wr offsets n d }) [0..<k] (uninit (nat (csr_num_nodes g + 1))) }"

section \<open>Well-formed graphs\<close>

text \<open>
  An index is well formed for n rows of a block when it has n+1 offsets in ascending order,
  all inside the block.
\<close>

definition index_wf :: "nat \<Rightarrow> nat list \<Rightarrow> 'd list \<Rightarrow> bool" where
  "index_wf n index block \<longleftrightarrow> length index = Suc n \<and> sorted index \<and> index ! n \<le> length block \<and>
     length block < 2 ^ 64"

definition row :: "nat list \<Rightarrow> 'd list \<Rightarrow> nat \<Rightarrow> 'd list" where
  "row index block u = segment block (index ! u) (index ! Suc u)"

definition nodes :: "'d csr_graph \<Rightarrow> nat" where
  "nodes g = nat (csr_num_nodes g)"

definition adj :: "'d csr_graph \<Rightarrow> nat \<Rightarrow> 'd list" where
  "adj g = row (csr_out_index g) (csr_out_neighbors g)"

definition inv_adj :: "'d csr_graph \<Rightarrow> nat \<Rightarrow> 'd list" where
  "inv_adj g = row (csr_in_index g) (csr_in_neighbors g)"

definition csr_wf :: "('d \<Rightarrow> nat) \<Rightarrow> 'd csr_graph \<Rightarrow> bool" where
  \<comment> \<open>\<open>nid\<close> is the vertex a neighbour entry names (the identity, or \<open>nw_v\<close>)\<close>
  "csr_wf nid g \<longleftrightarrow> csr_num_nodes g \<ge> 0 \<and>
     index_wf (nodes g) (csr_out_index g) (csr_out_neighbors g) \<and>
     index_wf (nodes g) (csr_in_index g) (csr_in_neighbors g) \<and>
     (\<forall>u < nodes g. (\<forall>v \<in> set (adj g u). nid v < nodes g) \<and> (\<forall>v \<in> set (inv_adj g u). nid v < nodes g))"

lemma index_wf_step:
  assumes "index_wf n index block" "u < n"
  shows "u < length index" "Suc u < length index" "index ! u \<le> index ! Suc u"
    "index ! Suc u \<le> length block" "index ! Suc u < 2 ^ 64"
proof -
  show "u < length index" "Suc u < length index" using assms by (auto simp: index_wf_def)
  have s: "sorted index" and l: "length index = Suc n" using assms by (auto simp: index_wf_def)
  show "index ! u \<le> index ! Suc u" using s l assms(2) by (simp add: sorted_nth_mono)
  have "index ! Suc u \<le> index ! n" using s l assms(2) by (intro sorted_nth_mono) auto
  then show "index ! Suc u \<le> length block" "index ! Suc u < 2 ^ 64"
    using assms by (auto simp: index_wf_def)
qed

lemma length_row: "index_wf n index block \<Longrightarrow> u < n \<Longrightarrow> length (row index block u) = index ! Suc u - index ! u"
  using index_wf_step [of n index block u] by (simp add: row_def)

lemma neighborhood_wf:
  assumes wf: "index_wf n index block" and u: "u < n"
  shows "neighborhood index u k \<bind> visit_cells block = Some (drop k (row index block u))"
proof -
  note s = index_wf_step [OF wf u]
  have "(int (index ! Suc u) - int (index ! u)) mod 2 ^ 64 = int (index ! Suc u - index ! u)"
    using s by (subst mod_pos_pos_trivial) auto
  then have "neighborhood index u k
      = Some (index ! u + min k (index ! Suc u - index ! u), index ! Suc u)"
    using s by (simp add: neighborhood_def Let_def)
  moreover have "segment block (index ! u + min k (index ! Suc u - index ! u)) (index ! Suc u)
      = drop k (row index block u)"
    using s by (auto simp: row_def segment_def drop_take min_def add.commute)
  ultimately show ?thesis using s by (simp add: visit_cells_def)
qed

lemma neighborhood_bounds:
  assumes "index_wf n index block" "u < n"
  shows "neighborhood index u 0 = Some (index ! u, index ! Suc u)"
  using index_wf_step [OF assms] by (simp add: neighborhood_def Let_def)

lemma csr_wf_index:
  "csr_wf nid g \<Longrightarrow> index_wf (nodes g) (csr_out_index g) (csr_out_neighbors g)"
  "csr_wf nid g \<Longrightarrow> index_wf (nodes g) (csr_in_index g) (csr_in_neighbors g)"
  by (simp_all add: csr_wf_def)

lemma out_neigh_wf:
  "csr_wf nid g \<Longrightarrow> u < nodes g \<Longrightarrow> out_neigh g u k = Some (drop k (adj g u))"
  unfolding out_neigh_def adj_def by (rule neighborhood_wf) (auto simp: csr_wf_def)

lemma in_neigh_wf:
  "csr_wf nid g \<Longrightarrow> u < nodes g \<Longrightarrow> in_neigh g u k = Some (drop k (inv_adj g u))"
  unfolding in_neigh_def inv_adj_def by (rule neighborhood_wf) (auto simp: csr_wf_def)

lemma out_degree_wf:
  assumes "csr_wf nid g" "u < nodes g"
  shows "out_degree g u = Some (int (length (adj g u)))"
proof -
  note wf = csr_wf_index(1) [OF assms(1)]
  show ?thesis
    using index_wf_step [OF wf assms(2)] length_row [OF wf assms(2)]
    by (simp add: out_degree_def pointer_diff_def adj_def)
qed

lemma vertices_nodes: "vertices g = [0..<nodes g]"
  by (simp add: vertices_def nodes_def)

lemma adj_range: "csr_wf nid g \<Longrightarrow> u < nodes g \<Longrightarrow> v \<in> set (adj g u) \<Longrightarrow> nid v < nodes g"
  by (simp add: csr_wf_def)

lemma inv_adj_range: "csr_wf nid g \<Longrightarrow> u < nodes g \<Longrightarrow> v \<in> set (inv_adj g u) \<Longrightarrow> nid v < nodes g"
  by (simp add: csr_wf_def)

lemma GenIndex_Some: "GenIndex offsets = Some index \<longleftrightarrow> length offsets < 2 ^ 31 \<and> index = offsets"
  by (auto simp: GenIndex_def count32_def map_nth)

lemma GenIndex_eq [simp]: "length offsets < 2 ^ 31 \<Longrightarrow> GenIndex offsets = Some offsets"
  by (simp add: GenIndex_Some)

section \<open>Graphs given by their rows\<close>

text \<open>A graph built by a constructor from prefix sums and the concatenation of its rows.\<close>

definition csr_of_rows :: "'d list list \<Rightarrow> 'd csr_graph" where
  "csr_of_rows rows =
     csr_undirected (int (length rows)) (prefix_sums (map length rows)) (concat rows)"

lemma index_wf_rows:
  "length (concat rows) < 2 ^ 64 \<Longrightarrow>
   index_wf (length rows) (prefix_sums (map length rows)) (concat rows)"
  using prefix_sums_last [of "map length rows"]
  by (simp add: index_wf_def sorted_prefix_sums length_concat)

lemma row_of_rows:
  "u < length rows \<Longrightarrow> row (prefix_sums (map length rows)) (concat rows) u = rows ! u"
  by (simp add: row_def segment_concat)

lemma csr_of_rows_simps [simp]:
  "nodes (csr_of_rows rows) = length rows"
  "u < length rows \<Longrightarrow> adj (csr_of_rows rows) u = rows ! u"
  "u < length rows \<Longrightarrow> inv_adj (csr_of_rows rows) u = rows ! u"
  by (simp_all add: csr_of_rows_def csr_undirected_def nodes_def adj_def inv_adj_def row_of_rows)

lemma csr_of_rows_directed [simp]: "\<not> csr_directed (csr_of_rows rows)"
  by (simp add: csr_of_rows_def csr_undirected_def)

lemma csr_of_rows_wf:
  assumes "length (concat rows) < 2 ^ 64"
    and "\<And>r v. r \<in> set rows \<Longrightarrow> v \<in> set r \<Longrightarrow> nid v < length rows"
  shows "csr_wf nid (csr_of_rows rows)"
proof -
  let ?g = "csr_of_rows rows"
  have "csr_num_nodes ?g \<ge> 0" "index_wf (nodes ?g) (csr_out_index ?g) (csr_out_neighbors ?g)"
    "index_wf (nodes ?g) (csr_in_index ?g) (csr_in_neighbors ?g)"
    using index_wf_rows [OF assms(1)] by (simp_all add: csr_of_rows_def csr_undirected_def nodes_def)
  moreover have "nid v < length rows" if "u < length rows" "v \<in> set (rows ! u)" for u v
    using assms(2) [OF nth_mem [OF that(1)] that(2)] .
  ultimately show ?thesis by (simp add: csr_wf_def)
qed

text \<open>A directed graph has inverse rows of its own.\<close>

definition csr_of_both :: "'d list list \<Rightarrow> 'd list list \<Rightarrow> 'd csr_graph" where
  "csr_of_both rows irows = \<lparr>csr_directed = True, csr_num_nodes = int (length rows),
     csr_num_edges = Some (int (length (concat rows))),
     csr_out_index = prefix_sums (map length rows), csr_out_neighbors = concat rows,
     csr_in_index = prefix_sums (map length irows), csr_in_neighbors = concat irows\<rparr>"

lemma csr_from_directed_rows:
  "csr_from_directed (int (length rows)) (prefix_sums (map length rows)) (concat rows)
     (prefix_sums (map length irows)) (concat irows) = Some (csr_of_both rows irows)"
proof -
  have "pointer_diff (prefix_sums (map length rows)) (length rows) 0 = Some (int (length (concat rows)))"
    using prefix_sums_last [of "map length rows"] by (simp add: pointer_diff_def length_concat)
  then show ?thesis by (simp add: csr_from_directed_def csr_of_both_def)
qed

lemma csr_of_both_simps [simp]:
  "nodes (csr_of_both rows irows) = length rows"
  "u < length rows \<Longrightarrow> adj (csr_of_both rows irows) u = rows ! u"
  "u < length irows \<Longrightarrow> inv_adj (csr_of_both rows irows) u = irows ! u"
  "csr_directed (csr_of_both rows irows)"
  "num_edges_directed (csr_of_both rows irows) = Some (int (length (concat rows)))"
  by (simp_all add: csr_of_both_def nodes_def adj_def inv_adj_def row_of_rows num_edges_directed_def)

lemma csr_of_both_wf:
  assumes len: "length (concat rows) < 2 ^ 64" "length (concat irows) < 2 ^ 64" "length irows = length rows"
    and r: "\<And>r v. r \<in> set rows \<union> set irows \<Longrightarrow> v \<in> set r \<Longrightarrow> nid v < length rows"
  shows "csr_wf nid (csr_of_both rows irows)"
proof -
  let ?g = "csr_of_both rows irows"
  have "csr_num_nodes ?g \<ge> 0" "index_wf (nodes ?g) (csr_out_index ?g) (csr_out_neighbors ?g)"
    using index_wf_rows [OF len(1)] by (simp_all add: csr_of_both_def nodes_def)
  moreover have "index_wf (nodes ?g) (csr_in_index ?g) (csr_in_neighbors ?g)"
    using index_wf_rows [OF len(2)] len(3) by (simp add: csr_of_both_def nodes_def)
  moreover have "nid v < length rows" if "u < length rows" "v \<in> set (rows ! u) \<union> set (irows ! u)" for u v
    using that len(3) r [of "rows ! u" v] r [of "irows ! u" v] by auto
  ultimately show ?thesis using len(3) by (simp add: csr_wf_def)
qed

section \<open>The interface the kernels use\<close>

text \<open>
  What a kernel relies on: the neighbour lists stay in the vertex range and, for the
  undirected graphs the builder makes, are symmetric.  \<open>arcs\<close> is the edge relation that
  reachability and connectivity speak about.
\<close>

definition arcs :: "nat \<Rightarrow> (nat \<Rightarrow> nat list) \<Rightarrow> (nat \<times> nat) set" where
  "arcs n nb = {(u, v). u < n \<and> v \<in> set (nb u)}"

locale graph_view =
  fixes size_of :: "'g \<Rightarrow> nat"
    and neigh :: "'g \<Rightarrow> nat \<Rightarrow> nat list"
    and valid :: "'g \<Rightarrow> bool"
  assumes neigh_less: "valid g \<Longrightarrow> u < size_of g \<Longrightarrow> v \<in> set (neigh g u) \<Longrightarrow> v < size_of g"
begin

lemma arcs_less: "valid g \<Longrightarrow> (u, v) \<in> arcs (size_of g) (neigh g) \<Longrightarrow> u < size_of g \<and> v < size_of g"
  using neigh_less by (auto simp: arcs_def)

lemma reach_less:
  assumes "(s, v) \<in> (arcs (size_of g) (neigh g))\<^sup>*" "valid g" "s < size_of g"
  shows "v < size_of g"
  using assms by (induction rule: rtrancl_induct) (auto dest: arcs_less)

end

locale undirected_view = graph_view +
  assumes neigh_sym: "valid g \<Longrightarrow> u < size_of g \<Longrightarrow> v \<in> set (neigh g u) \<Longrightarrow> u \<in> set (neigh g v)"
begin

lemma arcs_sym: "valid g \<Longrightarrow> sym (arcs (size_of g) (neigh g))"
  by (auto simp: sym_def arcs_def intro: neigh_sym neigh_less)

lemma reach_equiv:
  assumes "valid g"
  shows "equivp (\<lambda>u v. (u, v) \<in> (arcs (size_of g) (neigh g))\<^sup>*)"
proof (rule equivpI)
  show "reflp (\<lambda>u v. (u, v) \<in> (arcs (size_of g) (neigh g))\<^sup>*)" by (simp add: reflp_def)
  have "sym ((arcs (size_of g) (neigh g))\<^sup>*)" using arcs_sym [OF assms] by (rule sym_rtrancl)
  then show "symp (\<lambda>u v. (u, v) \<in> (arcs (size_of g) (neigh g))\<^sup>*)" by (auto simp: symp_def sym_def)
  show "transp (\<lambda>u v. (u, v) \<in> (arcs (size_of g) (neigh g))\<^sup>*)" by (auto simp: transp_def)
qed

end

definition graph_ok :: "nat csr_graph \<Rightarrow> bool" where
  "graph_ok g \<longleftrightarrow> csr_wf (\<lambda>v. v) g"

definition graph_sym :: "nat csr_graph \<Rightarrow> bool" where
  "graph_sym g \<longleftrightarrow> graph_ok g \<and> (\<forall>u < nodes g. \<forall>v \<in> set (adj g u). u \<in> set (adj g v))"

definition both_rows :: "nat csr_graph \<Rightarrow> bool" where
  \<comment> \<open>the inverse rows are the inverse of the rows\<close>
  "both_rows g \<longleftrightarrow> graph_ok g \<and>
     (\<forall>u < nodes g. \<forall>v < nodes g. v \<in> set (adj g u) \<longleftrightarrow> u \<in> set (inv_adj g v))"

interpretation gv: graph_view nodes adj graph_ok
proof unfold_locales
  show "v < nodes g" if "graph_ok g" "u < nodes g" "v \<in> set (adj g u)" for g u v
    using adj_range [OF that(1) [unfolded graph_ok_def] that(2,3)] .
qed

interpretation gu: undirected_view nodes adj graph_sym
proof unfold_locales
  fix g u v
  assume g: "graph_sym g" "u < nodes g" "v \<in> set (adj g u)"
  from g show "v < nodes g" by (auto simp: graph_sym_def intro: gv.neigh_less [of g u v])
  from g show "u \<in> set (adj g v)" by (simp add: graph_sym_def)
qed

lemmas graph_ok_neigh = out_neigh_wf [where nid = "\<lambda>v. v", folded graph_ok_def]
  in_neigh_wf [where nid = "\<lambda>v. v", folded graph_ok_def]
  out_degree_wf [where nid = "\<lambda>v. v", folded graph_ok_def]

lemma graph_sym_ok [intro]: "graph_sym g \<Longrightarrow> graph_ok g"
  by (simp add: graph_sym_def)

text \<open>Examples: a test of symmetry that evaluates on concrete rows.\<close>

definition sym_rows :: "nat list list \<Rightarrow> bool" where
  "sym_rows rows = list_all (\<lambda>u. list_all (\<lambda>v. v < length rows \<and> u \<in> set (rows ! v)) (rows ! u)) [0..<length rows]"

lemma sym_rows_graph:
  assumes s: "sym_rows rows" and len: "length (concat rows) < 2 ^ 64"
  shows "graph_sym (csr_of_rows rows)" "both_rows (csr_of_rows rows)"
    "graph_ok ((csr_of_rows rows)\<lparr>csr_num_edges := m\<rparr>)" "both_rows ((csr_of_rows rows)\<lparr>csr_num_edges := m\<rparr>)"
proof -
  have "\<forall>u < length rows. \<forall>v \<in> set (rows ! u). v < length rows \<and> u \<in> set (rows ! v)"
    using s unfolding sym_rows_def list_all_iff set_upt by (meson atLeastLessThan_iff le0)
  then have r: "v < length rows" "u \<in> set (rows ! v)" if "u < length rows" "v \<in> set (rows ! u)" for u v
    using that by blast+
  have "v < length rows" if "x \<in> set rows" "v \<in> set x" for x v
    using that r(1) unfolding in_set_conv_nth [of x] by blast
  then have ok: "graph_ok (csr_of_rows rows)" unfolding graph_ok_def by (rule csr_of_rows_wf [OF len])
  have "u \<in> set (adj (csr_of_rows rows) v)" if uv: "u < length rows" "v \<in> set (adj (csr_of_rows rows) u)" for u v
  proof -
    have "v \<in> set (rows ! u)" using uv by simp
    from r [OF uv(1) this] show ?thesis by simp
  qed
  then show "graph_sym (csr_of_rows rows)" using ok by (simp add: graph_sym_def)
  have "v \<in> set (adj (csr_of_rows rows) u) \<longleftrightarrow> u \<in> set (inv_adj (csr_of_rows rows) v)"
    if uv: "u < length rows" "v < length rows" for u v
    unfolding csr_of_rows_simps(2) [OF uv(1)] csr_of_rows_simps(3) [OF uv(2)]
    using r(2) [OF uv(1), of v] r(2) [OF uv(2), of u] by blast
  then show b: "both_rows (csr_of_rows rows)"
    unfolding both_rows_def csr_of_rows_simps(1) using ok by blast
  have same: "nodes (g\<lparr>csr_num_edges := m\<rparr>) = nodes g" "adj (g\<lparr>csr_num_edges := m\<rparr>) = adj g"
    "inv_adj (g\<lparr>csr_num_edges := m\<rparr>) = inv_adj g" for g :: "nat csr_graph"
    by (simp_all add: nodes_def adj_def inv_adj_def)
  show "graph_ok ((csr_of_rows rows)\<lparr>csr_num_edges := m\<rparr>)"
    using ok by (simp add: graph_ok_def csr_wf_def same)
  then show "both_rows ((csr_of_rows rows)\<lparr>csr_num_edges := m\<rparr>)"
    using b unfolding both_rows_def same by blast
qed

section \<open>Properties\<close>

text \<open>C35: A well-formed graph can be walked for ever.  From a vertex in range every accessor returns, and every
  vertex it hands out is again in range: the out- and in-neighbour lists from any start offset, the
  degrees, and the neighbour lists of the neighbours found.\<close>

lemma accessors_closed:
  assumes g: "csr_wf nid g" and u: "u < nodes g"
  shows "\<exists>ns is. out_neigh g u k = Some ns \<and> in_neigh g u k = Some is \<and>
    length ns \<le> length (adj g u) \<and> out_degree g u = Some (int (length (adj g u))) \<and>
    in_degree g u = Some (int (length (inv_adj g u))) \<and>
    (\<forall>v \<in> set ns \<union> set is. nid v \<in> set (vertices g) \<and>
       out_neigh g (nid v) 0 = Some (adj g (nid v)) \<and> in_neigh g (nid v) 0 = Some (inv_adj g (nid v)))"
proof -
  have less: "nid v < nodes g" if "v \<in> set (drop k (adj g u)) \<union> set (drop k (inv_adj g u))" for v
    using that g u by (auto dest!: in_set_dropD intro: adj_range inv_adj_range)
  have "in_degree g u = Some (int (length (inv_adj g u)))"
    using index_wf_step [OF csr_wf_index(2) [OF g] u] length_row [OF csr_wf_index(2) [OF g] u]
    by (simp add: in_degree_def pointer_diff_def inv_adj_def)
  moreover have "out_neigh g (nid v) 0 = Some (adj g (nid v)) \<and> in_neigh g (nid v) 0 = Some (inv_adj g (nid v)) \<and>
      nid v \<in> set (vertices g)" if "v \<in> set (drop k (adj g u)) \<union> set (drop k (inv_adj g u))" for v
    using less [OF that] out_neigh_wf [OF g, of "nid v" 0] in_neigh_wf [OF g, of "nid v" 0]
    by (simp add: vertices_nodes)
  ultimately show ?thesis
    by (simp add: out_neigh_wf [OF g u] in_neigh_wf [OF g u] out_degree_wf [OF g u])
qed

lemma accessors_closed_witness:
  "\<exists>ns. out_neigh (csr_of_rows [[1], [0, 1 :: nat]]) 1 1 = Some ns \<and> (\<forall>v \<in> set ns. v \<in> set (vertices (csr_of_rows [[1], [0, 1 :: nat]])))"
proof -
  have "csr_wf (\<lambda>v. v) (csr_of_rows [[1], [0, 1 :: nat]])"
    by (rule csr_of_rows_wf) auto
  from accessors_closed [OF this, of 1 1] show ?thesis by auto
qed

end
