(* ===== verification/Atomics.thy ===== *)
theory Atomics
  imports Prelude
begin

text \<open>
  The wrappers of src/platform_atomics.h.  Each atomic operation is one indivisible step on
  the value of its cell: it returns the cell's new value with the operation's result.  The
  models of parallel sections interleave these steps; the serial build of the program
  (no OpenMP) runs the same operations one after the other.
\<close>

definition fetch_and_add :: "'a::plus \<Rightarrow> 'a \<Rightarrow> 'a \<times> 'a" where
  "fetch_and_add x inc = (let orig_val = x in (x + inc, orig_val))"

definition compare_and_swap :: "'a \<Rightarrow> 'a \<Rightarrow> 'a \<Rightarrow> 'a \<times> bool" where
  "compare_and_swap x old_val new_val = (if x = old_val then (new_val, True) else (x, False))"

lemma fetch_and_add_simps [simp]:
  "fst (fetch_and_add x inc) = x + inc" "snd (fetch_and_add x inc) = x"
  by (simp_all add: fetch_and_add_def)

lemma compare_and_swap_same [simp]: "compare_and_swap x x y = (y, True)"
  by (simp add: compare_and_swap_def)

lemma compare_and_swap_success: "snd (compare_and_swap x old y) \<longleftrightarrow> x = old"
  by (simp add: compare_and_swap_def)

end
