(* ===== verification/PVector.thy ===== *)
theory PVector
  imports Prelude
begin

text \<open>
  The class \<^verbatim>\<open>pvector\<close> of src/pvector.h.  The three pointers of the class are kept apart:
  \<open>pv_start\<close> is the storage it points to (\<open>None\<close> for \<^verbatim>\<open>nullptr\<close>), the two end pointers are
  offsets into that storage (\<open>None\<close> for \<^verbatim>\<open>nullptr\<close>).  In this fork \<open>reserve\<close> leaves the
  program, whatever its argument, and \<open>resize\<close> and a growing \<open>push_back\<close> go through it.
\<close>

section \<open>State and constructors\<close>

record 'a pvector =
  pv_start :: "'a list option"
  pv_end_size :: "nat option"
  pv_end_capacity :: "nat option"

definition pv_default :: "'a pvector" where
  "pv_default = \<lparr>pv_start = None, pv_end_size = None, pv_end_capacity = None\<rparr>"

definition pv_sized :: "nat \<Rightarrow> 'a pvector" where
  "pv_sized num_elements =
     \<lparr>pv_start = Some (uninit num_elements), pv_end_size = Some num_elements,
      pv_end_capacity = Some num_elements\<rparr>"

definition pv_end_offset :: "'a pvector \<Rightarrow> nat option \<Rightarrow> nat result" where
  \<comment> \<open>the pointer difference \<^verbatim>\<open>p - pv_start\<close>: defined within one block, or between two null pointers\<close>
  "pv_end_offset v p = (case (pv_start v, p) of
      (None, None) \<Rightarrow> Inr 0
    | (Some _, Some e) \<Rightarrow> Inr e
    | _ \<Rightarrow> Inl NoDefinedResult)"

definition pv_size :: "'a pvector \<Rightarrow> nat result" where
  "pv_size v = pv_end_offset v (pv_end_size v)"

definition pv_capacity :: "'a pvector \<Rightarrow> nat result" where
  "pv_capacity v = pv_end_offset v (pv_end_capacity v)"

definition pv_fill :: "'a pvector \<Rightarrow> 'a \<Rightarrow> 'a pvector result" where
  \<comment> \<open>one store for each cell before \<open>pv_end_size\<close>; the iterations write different cells\<close>
  "pv_fill v init_val = rbind (pv_size v) (\<lambda>n.
     rbind (of_opt (foldM (\<lambda>i b. wr b i init_val) [0..<n] (case pv_start v of None \<Rightarrow> [] | Some b \<Rightarrow> b)))
       (\<lambda>b. Inr (v\<lparr>pv_start := map_option (\<lambda>_. b) (pv_start v)\<rparr>)))"

definition pv_filled :: "nat \<Rightarrow> 'a \<Rightarrow> 'a pvector result" where
  "pv_filled num_elements init_val = pv_fill (pv_sized num_elements) init_val"

definition pv_copy_range :: "'a list \<Rightarrow> 'a pvector result" where
  \<comment> \<open>the range constructor, on the cells between \<open>copy_begin\<close> and \<open>copy_end\<close>\<close>
  "pv_copy_range src =
     (let v = pv_sized (length src) in
      rbind (pv_capacity v) (\<lambda>n.
      rbind (of_opt (foldM (\<lambda>i b. do { x \<leftarrow> rd src i; wr b i x }) [0..<n]
               (case pv_start v of None \<Rightarrow> [] | Some b \<Rightarrow> b)))
        (\<lambda>b. Inr (v\<lparr>pv_start := Some b\<rparr>))))"

definition pv_move :: "'a pvector \<Rightarrow> 'a pvector \<times> 'a pvector" where
  \<comment> \<open>the move constructor: the new vector and what is left of the other\<close>
  "pv_move other = (\<lparr>pv_start = pv_start other, pv_end_size = pv_end_size other,
                     pv_end_capacity = pv_end_capacity other\<rparr>,
     other\<lparr>pv_start := None, pv_end_size := None, pv_end_capacity := None\<rparr>)"

definition pv_move_assign :: "bool \<Rightarrow> 'a pvector \<Rightarrow> 'a pvector \<Rightarrow> 'a pvector \<times> 'a pvector" where
  \<comment> \<open>\<open>same\<close> is the test \<^verbatim>\<open>this == &other\<close>; the storage of \<open>this\<close> is freed\<close>
  "pv_move_assign same this other =
     (if same then (this, this)
      else (this\<lparr>pv_start := pv_start other, pv_end_size := pv_end_size other,
                 pv_end_capacity := pv_end_capacity other\<rparr>,
            other\<lparr>pv_start := None, pv_end_size := None, pv_end_capacity := None\<rparr>))"

section \<open>Operations\<close>

definition pv_reserve :: "'a pvector \<Rightarrow> nat \<Rightarrow> 'a pvector result" where
  \<comment> \<open>the first statement is \<^verbatim>\<open>exit(-1)\<close>: the growing code after it is never reached\<close>
  "pv_reserve v num_elements = Inl (Exit (-1))"

definition pv_leak :: "'a pvector \<Rightarrow> 'a pvector" where
  "pv_leak v = v\<lparr>pv_start := None\<rparr>"

definition pv_empty :: "'a pvector \<Rightarrow> bool" where
  \<comment> \<open>a comparison of two pointers, which is defined in every state\<close>
  "pv_empty v = (case (pv_end_size v, pv_start v) of
      (None, None) \<Rightarrow> True | (Some e, Some b) \<Rightarrow> e = 0 | _ \<Rightarrow> False)"

definition pv_clear :: "'a pvector \<Rightarrow> 'a pvector" where
  "pv_clear v = v\<lparr>pv_end_size := (case pv_start v of None \<Rightarrow> None | Some b \<Rightarrow> Some 0)\<rparr>"

definition pv_resize :: "'a pvector \<Rightarrow> nat \<Rightarrow> 'a pvector result" where
  "pv_resize v num_elements = rbind (pv_reserve v num_elements) (\<lambda>v'.
     Inr (v'\<lparr>pv_end_size := map_option (\<lambda>b. num_elements) (pv_start v')\<rparr>))"

definition pv_get :: "'a pvector \<Rightarrow> nat \<Rightarrow> 'a result" where
  "pv_get v n = (case pv_start v of None \<Rightarrow> Inl NoDefinedResult | Some b \<Rightarrow> of_opt (rd b n))"

definition pv_set :: "'a pvector \<Rightarrow> nat \<Rightarrow> 'a \<Rightarrow> 'a pvector result" where
  "pv_set v n x = (case pv_start v of None \<Rightarrow> Inl NoDefinedResult
     | Some b \<Rightarrow> rbind (of_opt (wr b n x)) (\<lambda>b'. Inr (v\<lparr>pv_start := Some b'\<rparr>)))"

definition growth_factor :: nat where
  "growth_factor = 2"

definition pv_push_back :: "'a pvector \<Rightarrow> 'a \<Rightarrow> 'a pvector result" where
  "pv_push_back v val =
     rbind (pv_size v) (\<lambda>sz. rbind (pv_capacity v) (\<lambda>cap.
     rbind (if sz = cap
            then pv_reserve v (if cap = 0 then 1 else cap * growth_factor)
            else Inr v)
       (\<lambda>v'. case pv_end_size v' of None \<Rightarrow> Inl NoDefinedResult
          | Some e \<Rightarrow> rbind (pv_set v' e val) (\<lambda>v''. Inr (v''\<lparr>pv_end_size := Some (e + 1)\<rparr>)))))"

definition pv_swap :: "'a pvector \<Rightarrow> 'a pvector \<Rightarrow> 'a pvector \<times> 'a pvector" where
  "pv_swap v other =
     (v\<lparr>pv_start := pv_start other, pv_end_size := pv_end_size other, pv_end_capacity := pv_end_capacity other\<rparr>,
      other\<lparr>pv_start := pv_start v, pv_end_size := pv_end_size v, pv_end_capacity := pv_end_capacity v\<rparr>)"

section \<open>Invariant and contents\<close>

text \<open>A vector is well formed when its size is at most its capacity and the storage has that capacity.\<close>

definition pv_wf :: "'a pvector \<Rightarrow> bool" where
  "pv_wf v = (case (pv_start v, pv_end_size v, pv_end_capacity v) of
      (None, None, None) \<Rightarrow> True
    | (Some b, Some e, Some c) \<Rightarrow> e \<le> c \<and> length b = c
    | _ \<Rightarrow> False)"

definition pv_list :: "'a pvector \<Rightarrow> 'a list" where
  \<comment> \<open>what iterating from \<open>begin()\<close> to \<open>end()\<close> visits\<close>
  "pv_list v = (case (pv_start v, pv_end_size v) of (Some b, Some e) \<Rightarrow> take e b | _ \<Rightarrow> [])"

lemma pv_wf_cases [consumes 1, case_names null block]:
  assumes "pv_wf v"
  obtains "pv_start v = None" "pv_end_size v = None" "pv_end_capacity v = None"
  | b e where "pv_start v = Some b" "pv_end_size v = Some e" "pv_end_capacity v = Some (length b)"
      "e \<le> length b"
  using assms by (auto simp: pv_wf_def split: option.splits)

lemmas pv_defs = pv_default_def pv_sized_def pv_size_def pv_capacity_def pv_end_offset_def
  pv_get_def pv_set_def pv_wf_def pv_list_def

lemma pv_wf_default: "pv_wf pv_default" and pv_list_default: "pv_list pv_default = []"
  by (simp_all add: pv_defs)

lemma pv_size_wf: "pv_wf v \<Longrightarrow> pv_size v = Inr (length (pv_list v))"
  by (cases rule: pv_wf_cases) (auto simp: pv_defs)

lemma fill_loop: "n \<le> length b \<Longrightarrow> foldM (\<lambda>i b. wr b i x) [0..<n] b = Some (replicate n x @ drop n b)"
proof (induction n)
  case 0
  then show ?case by simp
next
  case (Suc n)
  then have IH: "foldM (\<lambda>i b. wr b i x) [0..<n] b = Some (replicate n x @ drop n b)" by simp
  have "wr (replicate n x @ drop n b) n x = Some (replicate (Suc n) x @ drop (Suc n) b)"
    using Suc.prems
    by (simp add: wr_def list_update_append Cons_nth_drop_Suc [symmetric] replicate_append_same)
  with IH show ?case by (simp add: foldM_append)
qed

lemma pv_filled_list:
  "\<exists>v. pv_filled n x = Inr v \<and> pv_wf v \<and> pv_list v = replicate n x"
  by (simp add: pv_filled_def pv_fill_def pv_defs fill_loop)

lemma pv_set_list:
  assumes "pv_wf v" "n < length (pv_list v)"
  shows "\<exists>v'. pv_set v n x = Inr v' \<and> pv_wf v' \<and> pv_list v' = (pv_list v)[n := x]"
  using assms
  by (cases rule: pv_wf_cases) (auto simp: pv_defs wr_def take_update_swap)

lemma pv_get_list:
  assumes "pv_wf v" "n < length (pv_list v)"
  shows "pv_get v n = Inr (pv_list v ! n)"
  using assms by (cases rule: pv_wf_cases) (auto simp: pv_defs)

lemma copy_loop:
  "n \<le> length src \<Longrightarrow> length b = length src \<Longrightarrow>
   foldM (\<lambda>i b. do { x \<leftarrow> rd src i; wr b i x }) [0..<n] b = Some (take n src @ drop n b)"
proof (induction n)
  case 0
  then show ?case by simp
next
  case (Suc n)
  then show ?case
    by (simp add: foldM_append wr_def list_update_append take_Suc_conv_app_nth
      Cons_nth_drop_Suc [symmetric])
qed

lemma pv_copy_range_list:
  "\<exists>v. pv_copy_range src = Inr v \<and> pv_wf v \<and> pv_list v = src"
  by (simp add: pv_copy_range_def pv_defs copy_loop)

lemma pv_move_list:
  "pv_wf v \<Longrightarrow> pv_list (fst (pv_move v)) = pv_list v \<and> pv_wf (fst (pv_move v)) \<and>
     pv_wf (snd (pv_move v)) \<and> pv_list (snd (pv_move v)) = []"
  by (cases rule: pv_wf_cases) (auto simp: pv_move_def pv_defs)

lemma pv_clear_list: "pv_wf v \<Longrightarrow> pv_wf (pv_clear v) \<and> pv_list (pv_clear v) = []"
  by (cases rule: pv_wf_cases) (auto simp: pv_clear_def pv_defs)

lemma pv_empty_list: "pv_wf v \<Longrightarrow> pv_empty v \<longleftrightarrow> pv_list v = []"
  by (cases rule: pv_wf_cases) (auto simp: pv_empty_def pv_defs)

lemma pv_swap_list:
  "pv_list (fst (pv_swap v w)) = pv_list w" "pv_list (snd (pv_swap v w)) = pv_list v"
  by (simp_all add: pv_swap_def pv_list_def)

section \<open>Properties\<close>

text \<open>A vector never grows.  With room left, \<open>push_back\<close> appends and keeps the invariant; at its capacity
  it leaves the program with \<^verbatim>\<open>exit(-1)\<close>, because \<open>reserve\<close> does so before it compares anything, and for the
  same reason every \<open>resize\<close> does, even one that shrinks.\<close>

lemma pv_push_back_or_exit:
  assumes "pv_wf v"
  shows "pv_resize v n = Inl (Exit (-1)) \<and>
    (if pv_capacity v = Inr (length (pv_list v)) then pv_push_back v x = Inl (Exit (-1))
     else \<exists>v'. pv_push_back v x = Inr v' \<and> pv_wf v' \<and> pv_list v' = pv_list v @ [x] \<and> pv_capacity v' = pv_capacity v)"
  using assms
proof (cases rule: pv_wf_cases)
  case null
  then show ?thesis by (simp add: pv_resize_def pv_reserve_def pv_push_back_def pv_defs)
next
  case (block b e)
  have "take (Suc e) (b[e := x]) = take e b @ [x]" if "e < length b"
    using that by (simp add: take_Suc_conv_app_nth)
  then show ?thesis
    using block by (auto simp: pv_resize_def pv_reserve_def pv_push_back_def pv_defs Let_def)
qed

lemma pv_push_back_or_exit_witness:
  "pv_push_back \<lparr>pv_start = Some [1, 2], pv_end_size = Some 2, pv_end_capacity = Some 2\<rparr> (3 :: nat) = Inl (Exit (-1)) \<and>
   (\<exists>v'. pv_push_back \<lparr>pv_start = Some [1, 2], pv_end_size = Some 1, pv_end_capacity = Some 2\<rparr> (3 :: nat) = Inr v' \<and> pv_list v' = [1, 3])"
  using pv_push_back_or_exit [of "\<lparr>pv_start = Some [1, 2], pv_end_size = Some 2, pv_end_capacity = Some 2\<rparr>" 0 "3 :: nat"]
    pv_push_back_or_exit [of "\<lparr>pv_start = Some [1, 2], pv_end_size = Some 1, pv_end_capacity = Some 2\<rparr>" 0 "3 :: nat"]
  by (auto simp: pv_defs)

end
