(* ===== verification/Builder.thy ===== *)
theory Builder
  imports Graph Atomics PVector
begin

text \<open>
  src/builder.h up to the squished CSR arrays: degree counting, prefix sums, \<^verbatim>\<open>MakeCSR\<close> and
  \<^verbatim>\<open>SquishCSR\<close>.  The template parameters become arguments: \<open>'d\<close> is \<^verbatim>\<open>DestID_\<close>, \<open>nid\<close> its
  conversion to a vertex id, \<open>get_source\<close> the overloaded \<^verbatim>\<open>GetSource\<close>, \<open>eq\<close> its operator ==.
  The parallel loops run in the order of their index here; the order does not matter for
  the squished graph (theory Construction).
\<close>

section \<open>Reading the edge list\<close>

definition FindMaxNodeID :: "('d \<Rightarrow> nat) \<Rightarrow> (nat, 'd) edge_pair list \<Rightarrow> nat" where
  "FindMaxNodeID nid el = fold (\<lambda>e max_seen. max (max max_seen (e_u e)) (nid (e_v e))) el 0"

definition GetSource :: "(nat, nat) edge_pair \<Rightarrow> nat" where
  "GetSource e = e_u e"

definition GetSourceW :: "(nat, node_weight) edge_pair \<Rightarrow> node_weight" where
  "GetSourceW e = NodeWeight (e_u e) (nw_w (e_v e))"

definition add_at :: "nat list \<Rightarrow> nat \<Rightarrow> nat \<Rightarrow> nat list option" where
  \<comment> \<open>\<^verbatim>\<open>fetch_and_add(xs[i], inc)\<close> on a cell of type \<^verbatim>\<open>NodeID_\<close>, the result discarded\<close>
  "add_at xs i inc = do { x \<leftarrow> rd xs i; y \<leftarrow> count32 (fst (fetch_and_add x inc)); wr xs i y }"

definition CountDegrees ::
  "bool \<Rightarrow> bool \<Rightarrow> nat \<Rightarrow> ('d \<Rightarrow> nat) \<Rightarrow> (nat, 'd) edge_pair list \<Rightarrow> bool \<Rightarrow> nat list option" where
  "CountDegrees symmetrize in_place num_nodes nid el transposed =
     foldM (\<lambda>e degrees. do {
        degrees \<leftarrow> (if symmetrize \<or> (\<not> symmetrize \<and> \<not> transposed)
                    then add_at degrees (e_u e) 1 else Some degrees);
        if (symmetrize \<and> \<not> in_place) \<or> (\<not> symmetrize \<and> transposed)
        then add_at degrees (nid (e_v e)) 1 else Some degrees })
       el (replicate num_nodes 0)"

section \<open>Prefix sums\<close>

definition PrefixSum :: "nat list \<Rightarrow> nat list option" where
  "PrefixSum degrees = do {
     (sums, total) \<leftarrow> foldM (\<lambda>n (sums, total). do {
          sums \<leftarrow> wr sums n total;
          d \<leftarrow> rd degrees n;
          Some (sums, total + d) }) [0..<length degrees] (uninit (length degrees + 1), 0);
     wr sums (length degrees) total }"

definition sum_range :: "nat list \<Rightarrow> nat \<Rightarrow> nat \<Rightarrow> nat option" where
  \<comment> \<open>the sum of one block\<close>
  "sum_range degrees lo hi = foldM (\<lambda>i lsum. do { d \<leftarrow> rd degrees i; Some (lsum + d) }) [lo..<hi] 0"

definition write_range :: "nat list \<Rightarrow> nat \<Rightarrow> nat \<Rightarrow> nat \<Rightarrow> nat list \<Rightarrow> nat list option" where
  \<comment> \<open>the running total of one block, from \<open>local_total\<close>\<close>
  "write_range degrees local_total lo hi prefix = do {
     (prefix, local_total) \<leftarrow> foldM (\<lambda>i (prefix, local_total). do {
          prefix \<leftarrow> wr prefix i local_total;
          d \<leftarrow> rd degrees i;
          Some (prefix, local_total + d) }) [lo..<hi] (prefix, local_total);
     Some prefix }"

definition parallel_prefix_sum :: "nat \<Rightarrow> nat list \<Rightarrow> nat list option" where
  "parallel_prefix_sum block_size degrees =
    (let num_blocks = (length degrees + block_size - 1) div block_size in do {
     local_sums \<leftarrow> foldM (\<lambda>block local_sums. do {
          lsum \<leftarrow> sum_range degrees (block * block_size)
                    (min ((block + 1) * block_size) (length degrees));
          wr local_sums block lsum }) [0..<num_blocks] (uninit num_blocks);
     (bulk_prefix, total) \<leftarrow> foldM (\<lambda>block (bulk_prefix, total). do {
          bulk_prefix \<leftarrow> wr bulk_prefix block total;
          l \<leftarrow> rd local_sums block;
          Some (bulk_prefix, total + l) }) [0..<num_blocks] (uninit (num_blocks + 1), 0);
     bulk_prefix \<leftarrow> wr bulk_prefix num_blocks total;
     prefix \<leftarrow> foldM (\<lambda>block prefix. do {
          local_total \<leftarrow> rd bulk_prefix block;
          write_range degrees local_total (block * block_size)
            (min ((block + 1) * block_size) (length degrees)) prefix })
          [0..<num_blocks] (uninit (length degrees + 1));
     last \<leftarrow> rd bulk_prefix num_blocks;
     wr prefix (length degrees) last })"

definition ParallelPrefixSum :: "nat list \<Rightarrow> nat list option" where
  "ParallelPrefixSum degrees = parallel_prefix_sum (2 ^ 20) degrees"

section \<open>Compressed rows\<close>

definition store_next :: "nat \<Rightarrow> 'd \<Rightarrow> nat list \<times> 'd list \<Rightarrow> (nat list \<times> 'd list) option" where
  \<comment> \<open>\<^verbatim>\<open>(*neighs)[fetch_and_add(offsets[b], 1)] = x\<close>\<close>
  "store_next b x s = (case s of (offsets, neighs) \<Rightarrow> do {
     old \<leftarrow> rd offsets b;
     let (new, at) = fetch_and_add old 1;
     offsets \<leftarrow> wr offsets b new;
     neighs \<leftarrow> wr neighs at x;
     Some (offsets, neighs) })"

definition MakeCSR ::
  "bool \<Rightarrow> bool \<Rightarrow> nat \<Rightarrow> ('d \<Rightarrow> nat) \<Rightarrow> ((nat, 'd) edge_pair \<Rightarrow> 'd) \<Rightarrow>
   (nat, 'd) edge_pair list \<Rightarrow> bool \<Rightarrow> (nat list \<times> 'd list \<times> nat) option" where
  \<comment> \<open>the index, the neighbour array and \<open>index_x\<close>\<close>
  "MakeCSR symmetrize in_place num_nodes nid get_source el transposed = do {
     degrees \<leftarrow> CountDegrees symmetrize in_place num_nodes nid el transposed;
     offsets \<leftarrow> ParallelPrefixSum degrees;
     m \<leftarrow> rd offsets num_nodes;
     let neighs = uninit m;
     let index_x = length offsets;
     index \<leftarrow> GenIndex offsets;
     (offsets, neighs) \<leftarrow> foldM (\<lambda>e s. do {
          s \<leftarrow> (if symmetrize \<or> (\<not> symmetrize \<and> \<not> transposed)
                then store_next (e_u e) (e_v e) s else Some s);
          if symmetrize \<or> (\<not> symmetrize \<and> transposed)
          then store_next (nid (e_v e)) (get_source e) s else Some s })
        el (offsets, neighs);
     Some (index, neighs, index_x) }"

section \<open>Squishing\<close>

fun std_unique :: "('d \<Rightarrow> 'd \<Rightarrow> bool) \<Rightarrow> 'd list \<Rightarrow> 'd list" where
  \<comment> \<open>\<^verbatim>\<open>std::unique\<close>: the first element of each run of equal neighbours\<close>
  "std_unique eq (a # b # xs) =
     (if eq a b then std_unique eq (a # xs) else a # std_unique eq (b # xs))"
| "std_unique eq xs = xs"

definition squish_row :: "('d::linorder \<Rightarrow> nat) \<Rightarrow> ('d \<Rightarrow> 'd \<Rightarrow> bool) \<Rightarrow> nat \<Rightarrow> 'd list \<Rightarrow> 'd list" where
  \<comment> \<open>sort, unique, and \<^verbatim>\<open>std::remove\<close> of the row's own vertex\<close>
  "squish_row nid eq n r = filter (\<lambda>x. nid x \<noteq> n) (std_unique eq (sort r))"

definition squish_in_place ::
  "('d::linorder \<Rightarrow> nat) \<Rightarrow> ('d \<Rightarrow> 'd \<Rightarrow> bool) \<Rightarrow> nat list \<Rightarrow> nat \<Rightarrow> 'd list \<times> nat list \<Rightarrow>
   ('d list \<times> nat list) option" where
  \<comment> \<open>one iteration of the first loop: the row's cells are rewritten in the block of the graph,
    the cells from \<open>new_end\<close> on keep no known value\<close>
  "squish_in_place nid eq index n s = (case s of (block, diffs) \<Rightarrow> do {
     (b, e) \<leftarrow> neighborhood index n 0;
     r \<leftarrow> visit_cells block (b, e);
     let q = squish_row nid eq n r;
     d \<leftarrow> count32 (length q);
     diffs \<leftarrow> wr diffs n d;
     Some (take b block @ q @ uninit (length r - length q) @ drop e block, diffs) })"

definition SquishCSR ::
  "('d::linorder \<Rightarrow> nat) \<Rightarrow> ('d \<Rightarrow> 'd \<Rightarrow> bool) \<Rightarrow> 'd csr_graph \<Rightarrow> bool \<Rightarrow>
   (nat list \<times> 'd list \<times> nat) option" where
  \<comment> \<open>the squished index, the squished neighbour array and \<open>neighs_x\<close>\<close>
  "SquishCSR nid eq g transposed =
    (let index = (if transposed then csr_in_index g else csr_out_index g);
         block = (if transposed then csr_in_neighbors g else csr_out_neighbors g) in do {
     (block, diffs) \<leftarrow> foldM (squish_in_place nid eq index) (vertices g)
                         (block, uninit (nat (csr_num_nodes g)));
     sq_offsets \<leftarrow> ParallelPrefixSum diffs;
     neighs_x \<leftarrow> rd sq_offsets (nat (csr_num_nodes g));
     let sq_neighs = uninit neighs_x;
     sq_index \<leftarrow> GenIndex sq_offsets;
     sq_neighs \<leftarrow> foldM (\<lambda>n sq_neighs. do {
          (n_start, n_end) \<leftarrow> neighborhood index n 0;
          k \<leftarrow> rd diffs n;
          at \<leftarrow> rd sq_index n;
          copy_cells (drop n_start block) k sq_neighs at }) (vertices g) sq_neighs;
     Some (sq_index, sq_neighs, neighs_x) })"

definition MakeCSRInPlace :: "(nat, 'd::linorder) edge_pair pvector \<Rightarrow> unit result" where
  \<comment> \<open>the first \<open>resize\<close> of the shrunk edge list leaves the program, so what follows is not modelled\<close>
  "MakeCSRInPlace el =
     rbind (pv_size el) (\<lambda>n.
     rbind (pv_resize el (length (std_unique (\<lambda>a b. a = b) (sort (pv_list el)))))
       (\<lambda>_. Inr ()))"

section \<open>Prefix sums are prefix sums\<close>

lemma sum_range_eq:
  assumes "lo \<le> hi" "hi \<le> length ds"
  shows "sum_range ds lo hi = Some (prefix_sums ds ! hi - prefix_sums ds ! lo)"
proof -
  have "returns (foldM (\<lambda>i lsum. do { d \<leftarrow> rd ds i; Some (lsum + d) }) [lo..<hi] 0)
      (\<lambda>t. t + prefix_sums ds ! lo = prefix_sums ds ! hi)"
    by (rule foldM_rule [where I = "\<lambda>k t. t + prefix_sums ds ! lo = prefix_sums ds ! (lo + k)"])
      (use assms in \<open>auto simp: prefix_sums_Suc\<close>)
  then show ?thesis by (auto simp: sum_range_def returns_iff)
qed

lemma write_range_eq:
  assumes "lo \<le> hi" "hi \<le> length ds" "length pre = Suc (length ds)"
  shows "returns (write_range ds (prefix_sums ds ! lo) lo hi pre)
    (\<lambda>pre'. length pre' = length pre \<and>
       (\<forall>i. pre' ! i = (if lo \<le> i \<and> i < hi then prefix_sums ds ! i else pre ! i)))"
proof -
  have "returns (foldM (\<lambda>i (p, t). do { p \<leftarrow> wr p i t; d \<leftarrow> rd ds i; Some (p, t + d) })
        [lo..<hi] (pre, prefix_sums ds ! lo))
      (\<lambda>s. length (fst s) = length pre \<and>
       (\<forall>i. fst s ! i = (if lo \<le> i \<and> i < hi then prefix_sums ds ! i else pre ! i)))"
    by (rule foldM_rule [where I = "\<lambda>k s. length (fst s) = length pre \<and>
        snd s = prefix_sums ds ! (lo + k) \<and>
        (\<forall>i. fst s ! i = (if lo \<le> i \<and> i < lo + k then prefix_sums ds ! i else pre ! i))"])
      (use assms in \<open>auto simp: prefix_sums_Suc nth_list_update split: prod.splits\<close>)
  then show ?thesis by (auto simp: write_range_def returns_iff split: prod.splits)
qed

lemma PrefixSum_eq: "PrefixSum ds = Some (prefix_sums ds)"
proof -
  have "returns (foldM (\<lambda>n (sums, t). do { sums \<leftarrow> wr sums n t; d \<leftarrow> rd ds n; Some (sums, t + d) })
        [0..<length ds] (uninit (length ds + 1), 0))
      (\<lambda>s. length (fst s) = Suc (length ds) \<and> snd s = sum_list ds \<and>
        (\<forall>i < length ds. fst s ! i = prefix_sums ds ! i))"
    by (rule foldM_upt_rule [where I = "\<lambda>k s. length (fst s) = Suc (length ds) \<and>
        snd s = prefix_sums ds ! k \<and> (\<forall>i < k. fst s ! i = prefix_sums ds ! i)"])
      (auto simp: prefix_sums_Suc nth_list_update split: prod.splits)
  then obtain sums where s: "foldM (\<lambda>n (sums, t). do { sums \<leftarrow> wr sums n t; d \<leftarrow> rd ds n; Some (sums, t + d) })
        [0..<length ds] (uninit (length ds + 1), 0) = Some (sums, sum_list ds)"
      "length sums = Suc (length ds)" "\<forall>i < length ds. sums ! i = prefix_sums ds ! i"
    by (auto simp: returns_iff)
  have "sums[length ds := sum_list ds] = prefix_sums ds"
    using s by (intro nth_equalityI) (auto simp: nth_list_update less_Suc_eq)
  then show ?thesis using s by (simp add: PrefixSum_def)
qed

lemma parallel_prefix_sum_eq:
  assumes bs: "0 < bs"
  shows "parallel_prefix_sum bs ds = Some (prefix_sums ds)"
proof -
  let ?n = "length ds" and ?B = "(length ds + bs - 1) div bs" and ?P = "prefix_sums ds"
  define lo where "lo = (\<lambda>b. min (b * bs) ?n)"
  have cover: "?n \<le> ?B * bs"
    using bs dividend_less_div_times [of bs "?n + bs - 1"] by linarith
  have lo1: "b * bs = lo b" if "b < ?B" for b
  proof -
    have "(b + 1) * bs \<le> ?B * bs" using that by (intro mult_le_mono1) simp
    also have "\<dots> \<le> ?n + bs - 1" by (rule div_times_less_eq_dividend)
    finally have "b * bs < ?n" using bs by (simp add: add_mult_distrib)
    then show ?thesis by (simp add: lo_def)
  qed
  have lo2: "min ((b + 1) * bs) ?n = lo (Suc b)" for b by (simp add: lo_def)
  have lo_mono: "lo b \<le> lo (Suc b)" and lo_le: "lo b \<le> ?n" for b by (auto simp: lo_def min_def)
  have lo_ends: "lo 0 = 0" "lo ?B = ?n" using cover by (auto simp: lo_def)
  have locals: "returns (foldM (\<lambda>b ls. do { l \<leftarrow> sum_range ds (b * bs) (min ((b + 1) * bs) ?n);
        wr ls b l }) [0..<?B] (uninit ?B))
      (\<lambda>ls. length ls = ?B \<and> (\<forall>i < ?B. ls ! i = ?P ! lo (Suc i) - ?P ! lo i))"
  proof (rule foldM_upt_rule [where I = "\<lambda>k ls. length ls = ?B \<and>
        (\<forall>i < k. ls ! i = ?P ! lo (Suc i) - ?P ! lo i)"])
    fix b ls
    assume b: "b < ?B" and I: "length ls = ?B \<and> (\<forall>i < b. ls ! i = ?P ! lo (Suc i) - ?P ! lo i)"
    have "sum_range ds (lo b) (lo (Suc b)) = Some (?P ! lo (Suc b) - ?P ! lo b)"
      by (rule sum_range_eq) (rule lo_mono lo_le)+
    then show "returns (do { l \<leftarrow> sum_range ds (b * bs) (min ((b + 1) * bs) ?n); wr ls b l })
        (\<lambda>ls. length ls = ?B \<and> (\<forall>i < Suc b. ls ! i = ?P ! lo (Suc i) - ?P ! lo i))"
      unfolding lo1 [OF b] lo2 using I b by (simp add: nth_list_update less_Suc_eq)
  qed auto
  then obtain ls where ls: "foldM (\<lambda>b ls. do { l \<leftarrow> sum_range ds (b * bs) (min ((b + 1) * bs) ?n);
        wr ls b l }) [0..<?B] (uninit ?B) = Some ls"
      "length ls = ?B" "\<forall>i < ?B. ls ! i = ?P ! lo (Suc i) - ?P ! lo i"
    by (auto simp: returns_iff)
  have "returns (foldM (\<lambda>b (bulk, t). do { bulk \<leftarrow> wr bulk b t; l \<leftarrow> rd ls b; Some (bulk, t + l) })
        [0..<?B] (uninit (?B + 1), 0))
      (\<lambda>s. length (fst s) = Suc ?B \<and> snd s = ?P ! ?n \<and> (\<forall>i < ?B. fst s ! i = ?P ! lo i))"
  proof (rule foldM_upt_rule [where I = "\<lambda>k s. length (fst s) = Suc ?B \<and> snd s = ?P ! lo k \<and>
        (\<forall>i < k. fst s ! i = ?P ! lo i)"])
    fix b s
    assume b: "b < ?B" and I: "length (fst s) = Suc ?B \<and> snd s = ?P ! lo b \<and>
        (\<forall>i < b. fst s ! i = ?P ! lo i)"
    have "?P ! lo b \<le> ?P ! lo (Suc b)" by (intro prefix_sums_mono lo_mono lo_le)
    then show "returns (case s of (bulk, t) \<Rightarrow>
          do { bulk \<leftarrow> wr bulk b t; l \<leftarrow> rd ls b; Some (bulk, t + l) })
        (\<lambda>s. length (fst s) = Suc ?B \<and> snd s = ?P ! lo (Suc b) \<and> (\<forall>i < Suc b. fst s ! i = ?P ! lo i))"
      using I b ls by (cases s) (simp add: nth_list_update less_Suc_eq)
  qed (use lo_ends in auto)
  then obtain bulk where bulk: "foldM (\<lambda>b (bulk, t). do { bulk \<leftarrow> wr bulk b t; l \<leftarrow> rd ls b;
        Some (bulk, t + l) }) [0..<?B] (uninit (?B + 1), 0) = Some (bulk, ?P ! ?n)"
      "length bulk = Suc ?B" "\<forall>i < ?B. bulk ! i = ?P ! lo i"
    by (auto simp: returns_iff)
  let ?bulk = "bulk[?B := ?P ! ?n]"
  have "returns (foldM (\<lambda>b pre. do { t \<leftarrow> rd ?bulk b;
        write_range ds t (b * bs) (min ((b + 1) * bs) ?n) pre }) [0..<?B] (uninit (?n + 1)))
      (\<lambda>pre. length pre = Suc ?n \<and> (\<forall>i < ?n. pre ! i = ?P ! i))"
  proof (rule foldM_upt_rule [where I = "\<lambda>k pre. length pre = Suc ?n \<and> (\<forall>i < lo k. pre ! i = ?P ! i)"])
    fix b pre
    assume b: "b < ?B" and I: "length pre = Suc ?n \<and> (\<forall>i < lo b. pre ! i = ?P ! i)"
    have "returns (write_range ds (?P ! lo b) (lo b) (lo (Suc b)) pre)
        (\<lambda>pre'. length pre' = length pre \<and>
           (\<forall>i. pre' ! i = (if lo b \<le> i \<and> i < lo (Suc b) then ?P ! i else pre ! i)))"
      by (rule write_range_eq) (use I lo_mono lo_le in auto)
    then show "returns (do { t \<leftarrow> rd ?bulk b; write_range ds t (b * bs) (min ((b + 1) * bs) ?n) pre })
        (\<lambda>pre. length pre = Suc ?n \<and> (\<forall>i < lo (Suc b). pre ! i = ?P ! i))"
      unfolding lo1 [OF b] lo2 using I b bulk by (auto simp: returns_iff)
  qed (use lo_ends in auto)
  then obtain pre where pre: "foldM (\<lambda>b pre. do { t \<leftarrow> rd ?bulk b;
        write_range ds t (b * bs) (min ((b + 1) * bs) ?n) pre }) [0..<?B] (uninit (?n + 1)) = Some pre"
      "length pre = Suc ?n" "\<forall>i < ?n. pre ! i = ?P ! i"
    by (auto simp: returns_iff)
  have "pre[?n := ?P ! ?n] = ?P"
    using pre by (intro nth_equalityI) (auto simp: nth_list_update less_Suc_eq)
  then show ?thesis
    using ls bulk pre by (simp add: parallel_prefix_sum_def Let_def)
qed

lemma ParallelPrefixSum_eq [simp]: "ParallelPrefixSum ds = Some (prefix_sums ds)"
  by (simp add: ParallelPrefixSum_def parallel_prefix_sum_eq)

text \<open>C37: The blocked prefix sum of the parallel build computes the serial one: whatever the block size, the sums
  of the blocks, their prefix sums and the sums inside each block give the running sums of all degrees.\<close>

lemma ParallelPrefixSum_serial:
  "ParallelPrefixSum degrees = PrefixSum degrees \<and> PrefixSum degrees = Some (prefix_sums degrees)"
  by (simp add: PrefixSum_eq)

end
