(* ===== verification/CSRBuild.thy ===== *)
theory CSRBuild
  imports Builder
begin

text \<open>
  What \<^verbatim>\<open>MakeCSR\<close> and \<^verbatim>\<open>SquishCSR\<close> (theory Builder) compute.  \<open>MakeCSR\<close> is a counting sort of
  the edge list by source vertex: the row of u holds, in edge-list order, what the edges
  send to u.  \<open>SquishCSR\<close> turns each row into its sorted, duplicate-free part without u.
\<close>

section \<open>The entries an edge contributes\<close>

definition edge_items ::
  "bool \<Rightarrow> ('d \<Rightarrow> nat) \<Rightarrow> ((nat, 'd) edge_pair \<Rightarrow> 'd) \<Rightarrow> bool \<Rightarrow> (nat, 'd) edge_pair \<Rightarrow> (nat \<times> 'd) list" where
  "edge_items symmetrize nid get_source transposed e =
     (if symmetrize \<or> \<not> transposed then [(e_u e, e_v e)] else []) @
     (if symmetrize \<or> transposed then [(nid (e_v e), get_source e)] else [])"

definition bucket :: "(nat \<times> 'd) list \<Rightarrow> nat \<Rightarrow> 'd list" where
  "bucket items b = map snd (filter (\<lambda>i. fst i = b) items)"

definition csr_rows ::
  "bool \<Rightarrow> nat \<Rightarrow> ('d \<Rightarrow> nat) \<Rightarrow> ((nat, 'd) edge_pair \<Rightarrow> 'd) \<Rightarrow> (nat, 'd) edge_pair list \<Rightarrow> bool \<Rightarrow> 'd list list" where
  "csr_rows symmetrize n nid get_source el transposed =
     map (bucket (concat (map (edge_items symmetrize nid get_source transposed) el))) [0..<n]"

lemma bucket_append [simp]: "bucket (xs @ ys) b = bucket xs b @ bucket ys b"
  by (simp add: bucket_def)

lemma bucket_Cons: "bucket (i # is) b = (if fst i = b then [snd i] else []) @ bucket is b"
  by (simp add: bucket_def)

lemma bucket_Nil [simp]: "bucket [] b = []"
  by (simp add: bucket_def)

lemma length_bucket: "length (bucket items b) = count_list (map fst items) b"
  by (induction items) (auto simp: bucket_Cons)

lemma set_bucket: "x \<in> set (bucket items b) \<longleftrightarrow> (b, x) \<in> set items"
  by (force simp: bucket_def)

lemma bucket_take_less:
  assumes "k < length items" "items ! k = (b, x)"
  shows "length (bucket (take k items) b) < length (bucket items b)"
proof -
  have "items = take k items @ (b, x) # drop (Suc k) items"
    using id_take_nth_drop [OF assms(1)] assms(2) by simp
  then have "bucket items b = bucket (take k items @ (b, x) # drop (Suc k) items) b" by simp
  also have "\<dots> = bucket (take k items) b @ x # bucket (drop (Suc k) items) b"
    by (simp only: bucket_append) (simp add: bucket_Cons)
  finally have "bucket items b = bucket (take k items) b @ x # bucket (drop (Suc k) items) b" .
  then show ?thesis by simp
qed

section \<open>Counting\<close>

lemma count_loop:
  assumes "\<And>b. b \<in> set bs \<Longrightarrow> b < n" and small: "\<And>b. b < n \<Longrightarrow> count_list bs b < 2 ^ 31"
  shows "foldM (\<lambda>b d. add_at d b 1) bs (replicate n 0) = Some (map (count_list bs) [0..<n])"
proof -
  have "returns (foldM (\<lambda>b d. add_at d b 1) bs (replicate n 0))
      (\<lambda>d. length d = n \<and> (\<forall>b < n. d ! b = count_list bs b))"
  proof (rule foldM_rule [where I = "\<lambda>k d. length d = n \<and> (\<forall>b < n. d ! b = count_list (take k bs) b)"])
    fix k d
    assume k: "k < length bs" and I: "length d = n \<and> (\<forall>b < n. d ! b = count_list (take k bs) b)"
    have b: "bs ! k < n" using assms(1) k by simp
    have "bs = take (Suc k) bs @ drop (Suc k) bs" by simp
    then have "count_list bs (bs ! k) = count_list (take (Suc k) bs) (bs ! k) + count_list (drop (Suc k) bs) (bs ! k)"
      by (metis count_list_append)
    then have "Suc (d ! (bs ! k)) < 2 ^ 31" using small [OF b] I k b by (simp add: take_Suc_conv_app_nth)
    then show "returns (add_at d (bs ! k) 1)
        (\<lambda>d. length d = n \<and> (\<forall>b < n. d ! b = count_list (take (Suc k) bs) b))"
      using I k b by (auto simp: add_at_def nth_list_update take_Suc_conv_app_nth)
  qed auto
  then show ?thesis by (auto simp: returns_iff intro!: nth_equalityI)
qed

text \<open>Conversely a count that returns has not overflowed.\<close>

lemma count_loop_small:
  assumes "foldM (\<lambda>b d. add_at d b 1) bs d = Some d'" "b \<in> set bs"
  shows "d ! b + count_list bs b < 2 ^ 31"
  using assms
proof (induction bs arbitrary: d)
  case (Cons a bs)
  from Cons.prems(1) have a: "a < length d" "Suc (d ! a) < 2 ^ 31"
    and rest: "foldM (\<lambda>b d. add_at d b 1) bs (d[a := Suc (d ! a)]) = Some d'"
    by (auto simp: add_at_def bind_eq_Some_conv rd_eq_Some wr_eq_Some)
  show ?case
  proof (cases "b \<in> set bs")
    case True
    then show ?thesis using Cons.IH [OF rest True] a(1) by (cases "a = b") simp_all
  next
    case False
    then show ?thesis using a Cons.prems(2) by (simp add: count_list_0_iff)
  qed
qed simp

lemma CountDegrees_loop:
  fixes nid :: "'d \<Rightarrow> nat" and get_source :: "(nat, 'd) edge_pair \<Rightarrow> 'd"
  shows "CountDegrees sy False n nid el t
    = foldM (\<lambda>b d. add_at d b 1) (map fst (concat (map (edge_items sy nid get_source t) el))) (replicate n 0)"
proof -
  let ?items = "edge_items sy nid get_source t"
  have body: "(do { d \<leftarrow> (if sy \<or> \<not> sy \<and> \<not> t then add_at d (e_u e) 1 else Some d);
        if sy \<and> \<not> False \<or> \<not> sy \<and> t then add_at d (nid (e_v e)) 1 else Some d })
      = foldM (\<lambda>b d. add_at d b 1) (map fst (?items e)) d" for e d
    by (cases sy; cases t; cases "add_at d (e_u e) 1") (simp_all add: edge_items_def)
  have "CountDegrees sy False n nid el t
      = foldM (\<lambda>b d. add_at d b 1) (concat (map (\<lambda>e. map fst (?items e)) el)) (replicate n 0)"
    unfolding CountDegrees_def foldM_concat by (rule foldM_cong) (rule body)
  then show ?thesis by (simp add: map_concat comp_def)
qed

lemma CountDegrees_eq:
  fixes nid :: "'d \<Rightarrow> nat" and get_source :: "(nat, 'd) edge_pair \<Rightarrow> 'd"
  assumes range: "\<And>e. e \<in> set el \<Longrightarrow> e_u e < n \<and> nid (e_v e) < n"
    and small: "\<And>u. u < n \<Longrightarrow> length (csr_rows sy n nid get_source el t ! u) < 2 ^ 31"
  shows "CountDegrees sy False n nid el t = Some (map length (csr_rows sy n nid get_source el t))"
proof -
  let ?items = "edge_items sy nid get_source t"
  let ?bs = "map fst (concat (map ?items el))"
  have "CountDegrees sy False n nid el t = foldM (\<lambda>b d. add_at d b 1) ?bs (replicate n 0)"
    by (rule CountDegrees_loop)
  also have "foldM (\<lambda>b d. add_at d b 1) ?bs (replicate n 0) = Some (map (count_list ?bs) [0..<n])"
  proof (rule count_loop)
    show "count_list ?bs u < 2 ^ 31" if "u < n" for u
      using small [OF that] that by (simp add: csr_rows_def length_bucket)
  qed (use range in \<open>auto simp: edge_items_def split: if_splits\<close>)
  also have "map (count_list ?bs) [0..<n] = map length (csr_rows sy n nid get_source el t)"
    by (simp add: csr_rows_def length_bucket)
  finally show ?thesis .
qed

section \<open>Filling the rows\<close>

lemma store_loop:
  fixes items :: "(nat \<times> 'd) list"
  assumes range: "\<And>i. i \<in> set items \<Longrightarrow> fst i < n"
  defines "rows \<equiv> map (bucket items) [0..<n]"
  defines "P \<equiv> prefix_sums (map length rows)"
  shows "returns (foldM (\<lambda>i. store_next (fst i) (snd i)) items (P, uninit (sum_list (map length rows))))
    (\<lambda>s. snd s = concat rows)"
proof (rule foldM_rule [where I = "\<lambda>k s. length (fst s) = Suc n \<and>
    length (snd s) = sum_list (map length rows) \<and>
    (\<forall>b < n. fst s ! b = P ! b + length (bucket (take k items) b) \<and>
      (\<forall>j < length (bucket (take k items) b). snd s ! (P ! b + j) = bucket (take k items) b ! j))"])
  show "length (fst (P, uninit (sum_list (map length rows)))) = Suc n \<and>
    length (snd (P, uninit (sum_list (map length rows)))) = sum_list (map length rows) \<and>
    (\<forall>b < n. fst (P, uninit (sum_list (map length rows))) ! b = P ! b + length (bucket (take 0 items) b) \<and>
      (\<forall>j < length (bucket (take 0 items) b).
         snd (P, uninit (sum_list (map length rows))) ! (P ! b + j) = bucket (take 0 items) b ! j))"
    by (simp add: P_def rows_def)
next
  fix k and s :: "nat list \<times> 'd list"
  assume k: "k < length items" and I: "length (fst s) = Suc n \<and>
    length (snd s) = sum_list (map length rows) \<and>
    (\<forall>b < n. fst s ! b = P ! b + length (bucket (take k items) b) \<and>
      (\<forall>j < length (bucket (take k items) b). snd s ! (P ! b + j) = bucket (take k items) b ! j))"
  obtain b x where bx: "items ! k = (b, x)" by fastforce
  then have b: "b < n" using range [OF nth_mem [OF k]] by simp
  obtain offs ne where s: "s = (offs, ne)" by (cases s)
  let ?len = "\<lambda>b. length (bucket (take k items) b)"
  have less: "?len b < length (rows ! b)"
    using bucket_take_less [OF k bx] b by (simp add: rows_def)
  have le: "?len c \<le> length (rows ! c)" if "c < n" for c
  proof -
    have "bucket items c = bucket (take k items) c @ bucket (drop k items) c"
      by (metis append_take_drop_id bucket_append)
    then show ?thesis using that by (simp add: rows_def)
  qed
  have at: "P ! b + ?len b < length ne"
  proof -
    have "P ! b + ?len b < P ! Suc b" using less b by (simp add: P_def rows_def prefix_sums_Suc)
    also have "\<dots> \<le> sum_list (map length rows)"
      unfolding P_def using b by (intro prefix_sums_le_total) (simp add: rows_def)
    finally show ?thesis using I s by simp
  qed
  have apart: "P ! c + j \<noteq> P ! b + ?len b" if "c < n" "j < ?len c" for c j
  proof
    assume eq: "P ! c + j = P ! b + ?len b"
    have "c = b \<and> j = ?len b"
      by (rule prefix_sums_disjoint [of c "map length rows" b j "?len b"])
        (use that b less le [of c] eq in \<open>auto simp: rows_def P_def\<close>)
    then show False using that by simp
  qed
  have tk: "take (Suc k) items = take k items @ [(b, x)]"
    using k bx by (simp add: take_Suc_conv_app_nth)
  have bk: "bucket (take (Suc k) items) c = bucket (take k items) c @ (if c = b then [x] else [])" for c
    by (simp add: tk bucket_Cons)
  have st: "store_next b x s = Some (offs[b := offs ! b + 1], ne[offs ! b := x])"
    using I s b at by (simp add: store_next_def fetch_and_add_def Let_def)
  show "returns (store_next (fst (items ! k)) (snd (items ! k)) s)
      (\<lambda>s. length (fst s) = Suc n \<and> length (snd s) = sum_list (map length rows) \<and>
        (\<forall>b < n. fst s ! b = P ! b + length (bucket (take (Suc k) items) b) \<and>
          (\<forall>j < length (bucket (take (Suc k) items) b).
             snd s ! (P ! b + j) = bucket (take (Suc k) items) b ! j)))"
  proof -
    have "ne[offs ! b := x] ! (P ! c + j) = bucket (take (Suc k) items) c ! j"
      if "c < n" "j < length (bucket (take (Suc k) items) c)" for c j
    proof (cases "j < ?len c")
      case True
      then show ?thesis using apart [OF that(1) True] I s b that by (simp add: bk nth_append)
    next
      case False
      then have "c = b" "j = ?len b" using that by (auto simp: bk split: if_splits)
      then show ?thesis using I s b at by (simp add: bk nth_append)
    qed
    moreover have "offs[b := offs ! b + 1] ! c = P ! c + length (bucket (take (Suc k) items) c)"
      if "c < n" for c using that I s b by (simp add: bk nth_list_update)
    ultimately show ?thesis using I bx by (simp add: st [unfolded s] s)
  qed
next
  fix s :: "nat list \<times> 'd list"
  assume I: "length (fst s) = Suc n \<and> length (snd s) = sum_list (map length rows) \<and>
    (\<forall>b < n. fst s ! b = P ! b + length (bucket (take (length items) items) b) \<and>
      (\<forall>j < length (bucket (take (length items) items) b).
         snd s ! (P ! b + j) = bucket (take (length items) items) b ! j))"
  show "snd s = concat rows"
  proof (rule nth_equalityI)
    show "length (snd s) = length (concat rows)" using I by (simp add: length_concat)
  next
    fix p
    assume "p < length (snd s)"
    then obtain i j where ij: "i < length rows" "j < length (rows ! i)" "p = P ! i + j"
      using prefix_sums_locate [of p "map length rows"] I by (auto simp: P_def)
    then show "snd s ! p = concat rows ! p"
      using I nth_concat_rows [OF ij(1,2)] by (simp add: P_def rows_def)
  qed
qed

lemma MakeCSR_eq:
  fixes nid :: "'d \<Rightarrow> nat" and get_source :: "(nat, 'd) edge_pair \<Rightarrow> 'd" and sy t :: bool
  assumes range: "\<And>e. e \<in> set el \<Longrightarrow> e_u e < n \<and> nid (e_v e) < n" and n: "Suc n < 2 ^ 31"
    and small: "\<And>u. u < n \<Longrightarrow> length (csr_rows sy n nid get_source el t ! u) < 2 ^ 31"
  defines "rows \<equiv> csr_rows sy n nid get_source el t"
  shows "MakeCSR sy False n nid get_source el t =
    Some (prefix_sums (map length rows), concat rows, Suc n)"
proof -
  let ?f = "\<lambda>i. store_next (fst i) (snd i)"
  let ?items = "concat (map (edge_items sy nid get_source t) el)"
  have rows: "rows = map (bucket ?items) [0..<n]" by (simp add: rows_def csr_rows_def)
  have body: "(do { s \<leftarrow> (if sy \<or> \<not> sy \<and> \<not> t then store_next (e_u e) (e_v e) s else Some s);
        if sy \<or> \<not> sy \<and> t then store_next (nid (e_v e)) (get_source e) s else Some s })
      = foldM ?f (edge_items sy nid get_source t e) s" for e and s :: "nat list \<times> 'd list"
    by (cases sy; cases t; cases "store_next (e_u e) (e_v e) s") (simp_all add: edge_items_def)
  have "returns (foldM ?f ?items (prefix_sums (map length rows), uninit (sum_list (map length rows))))
      (\<lambda>s. snd s = concat rows)"
    unfolding rows
    by (rule store_loop) (use range in \<open>auto simp: edge_items_def split: if_splits\<close>)
  moreover have "prefix_sums (map length rows) ! n = sum_list (map length rows)"
    using prefix_sums_last [of "map length rows"] by (simp add: rows)
  moreover have "length rows = n" by (simp add: rows)
  ultimately show ?thesis
    using CountDegrees_eq [of el n nid sy get_source t] range small n
    by (auto simp: MakeCSR_def Let_def body foldM_concat returns_iff rows_def [symmetric])
qed

section \<open>Squished rows\<close>

lemma std_unique_eq: "std_unique (\<lambda>a b. a = b) xs = remdups_adj xs"
  by (induction xs rule: remdups_adj.induct) auto

lemma strict_sorted_remdups_adj: "sorted xs \<Longrightarrow> sorted_wrt (<) (remdups_adj xs)"
  by (induction xs rule: remdups_adj.induct) (auto simp: order_less_le)

lemma squish_row_eq:
  "squish_row (\<lambda>v. v) (\<lambda>a b. a = b) n r = sorted_list_of_set (set r - {n})"
proof -
  have "sorted_wrt (<) (filter (\<lambda>v. v \<noteq> n) (remdups_adj (sort r)))"
    by (intro sorted_wrt_filter strict_sorted_remdups_adj) simp
  moreover have "set (filter (\<lambda>v. v \<noteq> n) (remdups_adj (sort r))) = set r - {n}" by auto
  ultimately have "sorted_list_of_set (set r - {n}) = filter (\<lambda>v. v \<noteq> n) (remdups_adj (sort r))"
    by (metis sorted_list_of_set_unique List.finite_set sorted_list_of_set.sorted_sorted_key_list_of_set strict_sorted_iff sorted_list_of_set.idem_if_sorted_distinct)
  then show ?thesis by (simp add: squish_row_def std_unique_eq)
qed

lemma length_std_unique: "length (std_unique eq xs) \<le> length xs"
  by (induction eq xs rule: std_unique.induct) auto

lemma length_squish_row: "length (squish_row nid eq n r) \<le> length r"
  unfolding squish_row_def
  by (rule order.trans [OF length_filter_le]) (metis length_sort length_std_unique)

lemma set_std_unique: "set (std_unique eq xs) \<subseteq> set xs"
  by (induction eq xs rule: std_unique.induct) auto

lemma set_squish_row: "set (squish_row nid eq n r) \<subseteq> set r"
  using set_std_unique [of eq "sort r"] by (auto simp: squish_row_def)

section \<open>SquishCSR\<close>

definition squished_rows ::
  "('d::linorder \<Rightarrow> nat) \<Rightarrow> ('d \<Rightarrow> 'd \<Rightarrow> bool) \<Rightarrow> nat \<Rightarrow> (nat \<Rightarrow> 'd list) \<Rightarrow> 'd list list" where
  "squished_rows nid eq n rows = map (\<lambda>u. squish_row nid eq u (rows u)) [0..<n]"

lemma length_squished_rows [simp]: "length (squished_rows nid eq n rows) = n"
  by (simp add: squished_rows_def)

lemma nth_squished_rows [simp]: "u < n \<Longrightarrow> squished_rows nid eq n rows ! u = squish_row nid eq u (rows u)"
  by (simp add: squished_rows_def)

lemma squish_in_place_step:
  fixes nid :: "'d::linorder \<Rightarrow> nat" and eq :: "'d \<Rightarrow> 'd \<Rightarrow> bool"
  assumes wf: "index_wf n index block0" and k: "k < n"
    and len: "length block = length block0" "length diffs = n"
    and rest: "\<And>p. index ! k \<le> p \<Longrightarrow> p < length block \<Longrightarrow> block ! p = block0 ! p"
    and small: "length (squish_row nid eq k (row index block0 k)) < 2 ^ 31"
  defines "q \<equiv> squish_row nid eq k (row index block0 k)"
  shows "\<exists>block'. squish_in_place nid eq index k (block, diffs) = Some (block', diffs[k := length q]) \<and>
    length block' = length block \<and> take (index ! k) block' = take (index ! k) block \<and>
    segment block' (index ! k) (index ! k + length q) = q \<and>
    (\<forall>p. index ! Suc k \<le> p \<longrightarrow> p < length block \<longrightarrow> block' ! p = block ! p)"
proof -
  let ?b = "index ! k" and ?e = "index ! Suc k"
  note s = index_wf_step [OF wf k]
  have lenr: "length (row index block0 k) = ?e - ?b" using wf k by (rule length_row)
  have q: "length q \<le> ?e - ?b" using length_squish_row [of nid eq k "row index block0 k"]
    by (simp add: q_def lenr)
  have bounds: "neighborhood index k 0 = Some (?b, ?e)"
    using s by (simp add: neighborhood_def Let_def)
  have "segment block ?b ?e = row index block0 k"
    unfolding row_def by (subst segment_eq_iff) (use s len rest in auto)
  then have vis: "visit_cells block (?b, ?e) = Some (row index block0 k)"
    using s len by (simp add: visit_cells_def)
  let ?new = "take ?b block @ q @ uninit (?e - ?b - length q) @ drop ?e block"
  have tb: "length (take ?b block) = ?b" using s len by simp
  have len_new: "length ?new = length block" using s q len by simp
  moreover have "segment ?new ?b (?b + length q) = q"
    using segment_middle [OF tb, of "?b + length q" q "uninit (?e - ?b - length q) @ drop ?e block"] by simp
  moreover have "?new ! p = block ! p" if "?e \<le> p" "p < length block" for p
  proof -
    have "length (take ?b block @ q @ uninit (?e - ?b - length q)) = ?e" using s q tb by simp
    then have "((take ?b block @ q @ uninit (?e - ?b - length q)) @ drop ?e block) ! p = drop ?e block ! (p - ?e)"
      using that by (simp only: nth_append) simp
    then show ?thesis using that by simp
  qed
  ultimately show ?thesis
    using bounds vis k len tb small
    by (intro exI [of _ ?new]) (simp add: squish_in_place_def Let_def q_def [symmetric] lenr)
qed

lemma squish_loop:
  fixes nid :: "'d::linorder \<Rightarrow> nat" and eq :: "'d \<Rightarrow> 'd \<Rightarrow> bool"
  assumes wf: "index_wf n index block0"
    and small: "\<And>u. u < n \<Longrightarrow> length (squish_row nid eq u (row index block0 u)) < 2 ^ 31"
  defines "rows \<equiv> squished_rows nid eq n (row index block0)"
  shows "returns (foldM (squish_in_place nid eq index) [0..<n] (block0, uninit n))
    (\<lambda>s. snd s = map length rows \<and>
      (\<forall>u < n. segment (fst s) (index ! u) (index ! u + length (rows ! u)) = rows ! u) \<and>
      length (fst s) = length block0)"
proof (rule foldM_upt_rule [where I = "\<lambda>k s. length (fst s) = length block0 \<and> length (snd s) = n \<and>
    (\<forall>p. index ! k \<le> p \<longrightarrow> p < length block0 \<longrightarrow> fst s ! p = block0 ! p) \<and>
    (\<forall>u < k. snd s ! u = length (rows ! u) \<and>
       segment (fst s) (index ! u) (index ! u + length (rows ! u)) = rows ! u)"])
  fix k and s :: "'d list \<times> nat list"
  assume k: "k < n" and I: "length (fst s) = length block0 \<and> length (snd s) = n \<and>
    (\<forall>p. index ! k \<le> p \<longrightarrow> p < length block0 \<longrightarrow> fst s ! p = block0 ! p) \<and>
    (\<forall>u < k. snd s ! u = length (rows ! u) \<and>
       segment (fst s) (index ! u) (index ! u + length (rows ! u)) = rows ! u)"
  obtain block diffs where s: "s = (block, diffs)" by (cases s)
  obtain block' where st: "squish_in_place nid eq index k (block, diffs) = Some (block', diffs[k := length (rows ! k)])"
    and b': "length block' = length block" "take (index ! k) block' = take (index ! k) block"
      "segment block' (index ! k) (index ! k + length (rows ! k)) = rows ! k"
      "\<forall>p. index ! Suc k \<le> p \<longrightarrow> p < length block \<longrightarrow> block' ! p = block ! p"
    using squish_in_place_step [OF wf k, of block diffs nid eq] small [OF k] I k s by (auto simp: rows_def)
  have below: "segment block' (index ! u) (index ! u + length (rows ! u)) = rows ! u" if "u < k" for u
  proof -
    have u: "u < n" using that k by simp
    have "length (rows ! u) \<le> index ! Suc u - index ! u"
      using length_squish_row [of nid eq u "row index block0 u"] length_row [OF wf u] u
      by (simp add: rows_def)
    moreover have "index ! Suc u \<le> index ! k"
      using wf that k by (auto simp: index_wf_def sorted_nth_mono)
    moreover have "index ! k \<le> length block0"
      using index_wf_step(3,4) [OF wf k] by (rule order.trans)
    ultimately have "segment block' (index ! u) (index ! u + length (rows ! u))
        = segment block (index ! u) (index ! u + length (rows ! u))"
      using b' I s index_wf_step [OF wf u]
      by (intro segment_below [where k = "index ! k"]) auto
    then show ?thesis using I s that by simp
  qed
  have "index ! k \<le> index ! Suc k" using index_wf_step [OF wf k] by simp
  then show "returns (squish_in_place nid eq index k s)
    (\<lambda>s. length (fst s) = length block0 \<and> length (snd s) = n \<and>
      (\<forall>p. index ! Suc k \<le> p \<longrightarrow> p < length block0 \<longrightarrow> fst s ! p = block0 ! p) \<and>
      (\<forall>u < Suc k. snd s ! u = length (rows ! u) \<and>
         segment (fst s) (index ! u) (index ! u + length (rows ! u)) = rows ! u))"
    using I b' below k by (simp add: s st less_Suc_eq nth_list_update)
qed (use wf in \<open>auto simp: rows_def intro!: nth_equalityI\<close>)

lemma copy_rows_loop:
  assumes src: "\<And>u. u < n \<Longrightarrow> index ! u + length (rows ! u) \<le> length block \<and>
      segment block (index ! u) (index ! u + length (rows ! u)) = rows ! u"
    and n: "length rows = n"
    and bounds: "\<And>u. u < n \<Longrightarrow> \<exists>e. neighborhood index u 0 = Some (index ! u, e)"
  shows "returns (foldM (\<lambda>u dst. do { (b, e) \<leftarrow> neighborhood index u 0; k \<leftarrow> rd (map length rows) u;
      at \<leftarrow> rd (prefix_sums (map length rows)) u; copy_cells (drop b block) k dst at })
      [0..<n] (uninit (length (concat rows)))) (\<lambda>dst. dst = concat rows)"
proof (rule foldM_upt_rule [where I = "\<lambda>k dst. length dst = length (concat rows) \<and>
    take (prefix_sums (map length rows) ! k) dst = concat (take k rows)"])
  fix u dst
  let ?P = "prefix_sums (map length rows)"
  assume u: "u < n" and I: "length dst = length (concat rows) \<and> take (?P ! u) dst = concat (take u rows)"
  obtain e where e: "neighborhood index u 0 = Some (index ! u, e)" using bounds u by blast
  have le: "?P ! u + length (rows ! u) \<le> length dst"
    using prefix_sums_le_total [of "Suc u" "map length rows"] u n I
    by (simp add: prefix_sums_Suc length_concat)
  have pre: "length (concat (take u rows)) = ?P ! u"
    using u n by (simp add: nth_prefix_sums length_concat take_map)
  have tk: "take (length (rows ! u)) (drop (index ! u) block) = rows ! u"
    using src [OF u] by (simp add: segment_def)
  have "copy_cells (drop (index ! u) block) (length (rows ! u)) dst (?P ! u)
      = Some (take (?P ! u) dst @ rows ! u @ drop (?P ! u + length (rows ! u)) dst)"
  proof -
    have "length (rows ! u) \<le> length (drop (index ! u) block)" using src [OF u] by simp linarith
    then show ?thesis using le by (subst copy_cells_eq) (simp_all add: tk)
  qed
  then show "returns (do { (b, e) \<leftarrow> neighborhood index u 0; k \<leftarrow> rd (map length rows) u;
        at \<leftarrow> rd ?P u; copy_cells (drop b block) k dst at })
      (\<lambda>dst. length dst = length (concat rows) \<and> take (?P ! Suc u) dst = concat (take (Suc u) rows))"
    using e u n I le pre by (simp add: prefix_sums_Suc take_Suc_conv_app_nth)
next
  fix dst
  assume "length dst = length (concat rows) \<and>
    take (prefix_sums (map length rows) ! n) dst = concat (take n rows)"
  then show "dst = concat rows"
    using prefix_sums_last [of "map length rows"] n by (auto simp: length_concat)
qed simp

theorem SquishCSR_eq:
  fixes nid :: "'d::linorder \<Rightarrow> nat" and eq :: "'d \<Rightarrow> 'd \<Rightarrow> bool" and t :: bool
  assumes wf: "csr_wf nid g" and n: "Suc (nodes g) < 2 ^ 31"
    and small: "\<And>u. u < nodes g \<Longrightarrow> length (squish_row nid eq u ((if t then inv_adj g else adj g) u)) < 2 ^ 31"
  defines "rows \<equiv> squished_rows nid eq (nodes g) (if t then inv_adj g else adj g)"
  shows "SquishCSR nid eq g t = Some (prefix_sums (map length rows), concat rows, length (concat rows))"
proof -
  let ?idx = "if t then csr_in_index g else csr_out_index g"
  let ?blk = "if t then csr_in_neighbors g else csr_out_neighbors g"
  let ?n = "nodes g"
  have iw: "index_wf ?n ?idx ?blk" using csr_wf_index [OF wf] by simp
  have row: "row ?idx ?blk = (if t then inv_adj g else adj g)"
    by (auto simp: adj_def inv_adj_def fun_eq_iff)
  obtain block where block: "foldM (squish_in_place nid eq ?idx) [0..<?n] (?blk, uninit ?n)
        = Some (block, map length rows)"
      "\<And>u. u < ?n \<Longrightarrow> segment block (?idx ! u) (?idx ! u + length (rows ! u)) = rows ! u"
      "length block = length ?blk"
    using squish_loop [OF iw, of nid eq] small by (auto simp: returns_iff row rows_def)
  have fits: "?idx ! u + length (rows ! u) \<le> length block" if u: "u < ?n" for u
    using length_squish_row [of nid eq u "row ?idx ?blk u"] length_row [OF iw u] u
      index_wf_step [OF iw u] block(3) by (simp add: rows_def row)
  have bounds: "\<exists>e. neighborhood ?idx u 0 = Some (?idx ! u, e)" if u: "u < ?n" for u
    using index_wf_step [OF iw u] by (simp add: neighborhood_def Let_def)
  have "returns (foldM (\<lambda>u dst. do { (b, e) \<leftarrow> neighborhood ?idx u 0; k \<leftarrow> rd (map length rows) u;
      at \<leftarrow> rd (prefix_sums (map length rows)) u; copy_cells (drop b block) k dst at })
      [0..<?n] (uninit (length (concat rows)))) (\<lambda>dst. dst = concat rows)"
    by (rule copy_rows_loop) (use fits block(2) bounds in \<open>auto simp: rows_def\<close>)
  moreover have "prefix_sums (map length rows) ! ?n = length (concat rows)"
    using prefix_sums_last [of "map length rows"] by (simp add: rows_def length_concat)
  moreover have "?n < length (prefix_sums (map length rows))" by (simp add: rows_def)
  moreover have "GenIndex (prefix_sums (map length rows)) = Some (prefix_sums (map length rows))"
    by (rule GenIndex_eq) (use n in \<open>simp add: rows_def\<close>)
  ultimately show ?thesis
    using block(1)
    by (simp add: SquishCSR_def Let_def vertices_nodes nodes_def [symmetric] returns_iff)
qed

end
