(* ===== verification/SharedMemory.thy ===== *)
theory SharedMemory
  imports Graph
begin

text \<open>
  The mapped region that src/dmalloc.h returns and src/graph.h fills: an array of 32-bit
  words (\<^verbatim>\<open>int *_mmap_pointer\<close>), with the stores that were done on it in their order.
  64-bit values take two words, the low one first (x86).  A store outside the mapping has
  no defined result.  Opening and mapping the device are left out: they are system calls.
\<close>

unbundle bit_operations_syntax

section \<open>Words, stores and loads\<close>

record shm =
  shm_words :: "32 word list"
  shm_stores :: "(nat \<times> 32 word) list"

definition store32 :: "nat \<Rightarrow> 32 word \<Rightarrow> shm \<Rightarrow> shm option" where
  "store32 a w s = do {
     ws \<leftarrow> wr (shm_words s) a w;
     Some (s\<lparr>shm_words := ws, shm_stores := shm_stores s @ [(a, w)]\<rparr>) }"

definition store64 :: "nat \<Rightarrow> 64 word \<Rightarrow> shm \<Rightarrow> shm option" where
  "store64 a w s = do {
     s \<leftarrow> store32 a (ucast w) s;
     store32 (a + 1) (ucast (drop_bit 32 w)) s }"

definition join64 :: "32 word \<Rightarrow> 32 word \<Rightarrow> 64 word" where
  "join64 lo hi = push_bit 32 (ucast hi) OR ucast lo"

definition read64 :: "32 word list \<Rightarrow> nat \<Rightarrow> 64 word option" where
  "read64 ws a = do { lo \<leftarrow> rd ws a; hi \<leftarrow> rd ws (a + 1); Some (join64 lo hi) }"

definition replay :: "(nat \<times> 32 word) list \<Rightarrow> 32 word list \<Rightarrow> 32 word list" where
  \<comment> \<open>the words after a sequence of stores\<close>
  "replay L ws = fold (\<lambda>(a, w) ws. ws[a := w]) L ws"

lemma join64_split: "join64 (ucast w) (ucast (drop_bit 32 w)) = w"
proof (rule bit_eqI)
  fix n
  assume "possible_bit TYPE(64 word) n"
  then have n: "n < 64" by simp
  show "bit (join64 (ucast w) (ucast (drop_bit 32 w))) n \<longleftrightarrow> bit w n"
    using n by (cases "n < 32")
      (auto simp: join64_def bit_or_iff bit_push_bit_iff bit_ucast_iff bit_drop_bit_eq)
qed

lemma length_replay [simp]: "length (replay L ws) = length ws"
  by (induction L arbitrary: ws) (auto simp: replay_def split: prod.splits)

lemma replay_append: "replay (L @ M) ws = replay M (replay L ws)"
  by (simp add: replay_def)

lemma replay_Cons: "replay ((a, w) # L) ws = replay L (ws[a := w])"
  by (simp add: replay_def)

lemma replay_Nil [simp]: "replay [] ws = ws"
  by (simp add: replay_def)

lemma replay_outside: "(\<And>a w. (a, w) \<in> set L \<Longrightarrow> a \<noteq> p) \<Longrightarrow> replay L ws ! p = ws ! p"
proof (induction L arbitrary: ws)
  case Nil
  then show ?case by simp
next
  case (Cons x L)
  obtain a w where x: "x = (a, w)" by (cases x)
  have "replay L (ws[a := w]) ! p = ws[a := w] ! p" using Cons.prems by (intro Cons.IH) auto
  moreover have "a \<noteq> p" using Cons.prems x by auto
  ultimately show ?case by (simp add: x replay_Cons)
qed

section \<open>Writing a part of the region\<close>

text \<open>
  \<open>writes lo hi s s'\<close>: from s to s' only words between lo and hi were stored to.  The log of
  stores explains the words, which the hand-over to the workers is about.
\<close>

definition writes :: "nat \<Rightarrow> nat \<Rightarrow> shm \<Rightarrow> shm \<Rightarrow> bool" where
  "writes lo hi s s' \<longleftrightarrow> (\<exists>L. shm_stores s' = shm_stores s @ L \<and>
     shm_words s' = replay L (shm_words s) \<and> (\<forall>(a, w) \<in> set L. lo \<le> a \<and> a < hi))"

lemma writes_refl [simp]: "writes lo hi s s"
  by (auto simp: writes_def intro: exI [of _ "[]"])

lemma writes_trans:
  assumes "writes lo hi s t" "writes lo hi t u"
  shows "writes lo hi s u"
proof -
  obtain L M where "shm_stores t = shm_stores s @ L" "shm_words t = replay L (shm_words s)"
    "\<forall>(a, w) \<in> set L. lo \<le> a \<and> a < hi" "shm_stores u = shm_stores t @ M"
    "shm_words u = replay M (shm_words t)" "\<forall>(a, w) \<in> set M. lo \<le> a \<and> a < hi"
    using assms by (auto simp: writes_def)
  then show ?thesis by (auto simp: writes_def replay_append intro: exI [of _ "L @ M"])
qed

lemma writes_widen: "writes lo hi s t \<Longrightarrow> lo' \<le> lo \<Longrightarrow> hi \<le> hi' \<Longrightarrow> writes lo' hi' s t"
  by (fastforce simp: writes_def)

lemma writes_length: "writes lo hi s t \<Longrightarrow> length (shm_words t) = length (shm_words s)"
  by (auto simp: writes_def)

lemma writes_outside:
  assumes "writes lo hi s t" "p < lo \<or> hi \<le> p"
  shows "shm_words t ! p = shm_words s ! p"
proof -
  obtain L where "shm_words t = replay L (shm_words s)" "\<forall>(a, w) \<in> set L. lo \<le> a \<and> a < hi"
    using assms(1) by (auto simp: writes_def)
  then show ?thesis using assms(2) by (auto intro!: replay_outside)
qed

lemma read64_cong:
  "length ws = length ws' \<Longrightarrow> ws ! a = ws' ! a \<Longrightarrow> ws ! (a + 1) = ws' ! (a + 1) \<Longrightarrow>
   read64 ws a = read64 ws' a"
  by (simp add: read64_def rd_def)

lemma writes_read64:
  "writes lo hi s t \<Longrightarrow> a + 1 < lo \<or> hi \<le> a \<Longrightarrow> read64 (shm_words t) a = read64 (shm_words s) a"
  by (rule read64_cong) (auto simp: writes_length writes_outside)

lemma store32_returns:
  assumes "a < length (shm_words s)"
    and "\<And>t. writes a (a + 1) s t \<Longrightarrow> shm_words t = (shm_words s)[a := w] \<Longrightarrow> P t"
  shows "returns (store32 a w s) P"
proof -
  let ?t = "s\<lparr>shm_words := (shm_words s)[a := w], shm_stores := shm_stores s @ [(a, w)]\<rparr>"
  have "writes a (a + 1) s ?t" by (auto simp: writes_def replay_def)
  then have "P ?t" by (rule assms(2)) simp
  then show ?thesis using assms(1) by (simp add: store32_def)
qed

lemma store64_returns:
  assumes "a + 1 < length (shm_words s)"
    and "\<And>t. writes a (a + 2) s t \<Longrightarrow> read64 (shm_words t) a = Some w \<Longrightarrow> P t"
  shows "returns (store64 a w s) P"
  unfolding store64_def
proof (rule returns_bind, rule store32_returns)
  show "a < length (shm_words s)" using assms(1) by simp
  fix t
  assume t: "writes a (a + 1) s t" "shm_words t = (shm_words s)[a := ucast w]"
  show "returns (store32 (a + 1) (ucast (drop_bit 32 w)) t) P"
  proof (rule store32_returns)
    show "a + 1 < length (shm_words t)" using assms(1) t by simp
    fix u
    assume u: "writes (a + 1) (a + 1 + 1) t u"
      "shm_words u = (shm_words t)[a + 1 := ucast (drop_bit 32 w)]"
    have "writes a (a + 2) s u"
      using writes_trans [of a "a + 2" s t u] writes_widen [OF t(1), of a "a + 2"]
        writes_widen [OF u(1), of a "a + 2"] by simp
    moreover have "read64 (shm_words u) a = Some w"
      using assms(1) t(2) u(2) by (simp add: read64_def join64_split)
    ultimately show "P u" by (rule assms(2))
  qed
qed

text \<open>Arrays of 32-bit and of 64-bit values.\<close>

lemma store32_array:
  assumes "base + n \<le> length (shm_words s)"
    and body: "\<And>i t. i < n \<Longrightarrow> writes base (base + n) s t \<Longrightarrow> f i t = store32 (base + i) (v i) t"
    and P: "\<And>t. writes base (base + n) s t \<Longrightarrow> (\<And>i. i < n \<Longrightarrow> shm_words t ! (base + i) = v i) \<Longrightarrow> P t"
  shows "returns (foldM f [0..<n] s) P"
proof (rule foldM_upt_rule [where I = "\<lambda>k t. writes base (base + n) s t \<and>
    (\<forall>i < k. shm_words t ! (base + i) = v i)"])
  fix i t
  assume i: "i < n" and I: "writes base (base + n) s t \<and> (\<forall>i' < i. shm_words t ! (base + i') = v i')"
  show "returns (f i t) (\<lambda>t. writes base (base + n) s t \<and> (\<forall>i' < Suc i. shm_words t ! (base + i') = v i'))"
    unfolding body [OF i conjunct1 [OF I]]
  proof (rule store32_returns)
    show "base + i < length (shm_words t)"
      using assms(1) i writes_length [OF conjunct1 [OF I]] by linarith
    fix u
    assume u: "writes (base + i) (base + i + 1) t u" "shm_words u = (shm_words t)[base + i := v i]"
    have "writes base (base + n) s u"
      using I writes_widen [OF u(1), of base "base + n"] i by (auto intro: writes_trans)
    moreover have "base + i < length (shm_words t)"
      using assms(1) i writes_length [OF conjunct1 [OF I]] by linarith
    ultimately show "writes base (base + n) s u \<and> (\<forall>i' < Suc i. shm_words u ! (base + i') = v i')"
      using I u(2) by (auto simp: nth_list_update less_Suc_eq)
  qed
qed (use P in auto)

lemma store64_array:
  assumes "base + 2 * n \<le> length (shm_words s)"
    and body: "\<And>i t. i < n \<Longrightarrow> writes base (base + 2 * n) s t \<Longrightarrow> f i t = store64 (base + 2 * i) (v i) t"
    and P: "\<And>t. writes base (base + 2 * n) s t \<Longrightarrow>
      (\<And>i. i < n \<Longrightarrow> read64 (shm_words t) (base + 2 * i) = Some (v i)) \<Longrightarrow> P t"
  shows "returns (foldM f [0..<n] s) P"
proof (rule foldM_upt_rule [where I = "\<lambda>k t. writes base (base + 2 * n) s t \<and>
    (\<forall>i < k. read64 (shm_words t) (base + 2 * i) = Some (v i))"])
  fix i t
  assume i: "i < n" and I: "writes base (base + 2 * n) s t \<and>
    (\<forall>i' < i. read64 (shm_words t) (base + 2 * i') = Some (v i'))"
  show "returns (f i t) (\<lambda>t. writes base (base + 2 * n) s t \<and>
      (\<forall>i' < Suc i. read64 (shm_words t) (base + 2 * i') = Some (v i')))"
    unfolding body [OF i conjunct1 [OF I]]
  proof (rule store64_returns)
    show "base + 2 * i + 1 < length (shm_words t)"
      using assms(1) i writes_length [OF conjunct1 [OF I]] by linarith
    fix u
    assume u: "writes (base + 2 * i) (base + 2 * i + 2) t u"
      "read64 (shm_words u) (base + 2 * i) = Some (v i)"
    have "writes base (base + 2 * n) s u"
      using I writes_widen [OF u(1), of base "base + 2 * n"] i by (auto intro: writes_trans)
    moreover have "read64 (shm_words u) (base + 2 * i') = Some (v i')" if "i' < i" for i'
      using I that writes_read64 [OF u(1), of "base + 2 * i'"] by simp
    ultimately show "writes base (base + 2 * n) s u \<and>
        (\<forall>i' < Suc i. read64 (shm_words u) (base + 2 * i') = Some (v i'))"
      using u(2) by (auto simp: less_Suc_eq)
  qed
qed (use P in auto)

end
