(* ===== verification/SharedGraph.thy ===== *)
theory SharedGraph
  imports SharedMemory
begin

text \<open>
  The constructor of \<^verbatim>\<open>CSRGraph\<close> that puts a graph into the shared region (src/graph.h,
  lines 177 to 424): the master lays it out word by word, a worker waits for the
  synchronisation word and finds the rows again.  Pointers into the region are word offsets.
  Offsets are computed with 64-bit words, as \<^verbatim>\<open>size_t\<close> is.  The instance is the unweighted
  one, whose \<^verbatim>\<open>DestID_\<close> is a 32-bit vertex id.
\<close>

section \<open>The layout\<close>

definition INT64_T :: "64 word" where "INT64_T = 8"
definition INT_SZ :: "64 word" where "INT_SZ = 4"
definition SIZE_T :: "64 word" where "SIZE_T = 8"
definition DESTID :: "64 word" where "DESTID = 4"

definition num_nodes_at :: nat where
  "num_nodes_at = 1"

definition index_x_at :: nat where
  "index_x_at = unat (1 + INT64_T div INT_SZ)"

definition neigh_size_at :: nat where
  "neigh_size_at = unat (1 + INT64_T div INT_SZ + SIZE_T div INT_SZ)"

definition neighbors_at :: nat where
  "neighbors_at = unat (1 + INT64_T div INT_SZ + (2 * SIZE_T) div INT_SZ)"

definition index_index_at :: "64 word \<Rightarrow> nat" where
  "index_index_at neigh_size =
     unat (1 + INT64_T div INT_SZ + (2 * SIZE_T) div INT_SZ + (neigh_size * DESTID) div INT_SZ)"

definition row_at :: "64 word \<Rightarrow> 64 word \<Rightarrow> 64 word \<Rightarrow> nat" where
  "row_at neigh_size index_x sum_local =
     unat (1 + INT64_T div INT_SZ + (2 * SIZE_T) div INT_SZ + (neigh_size * DESTID) div INT_SZ +
       (index_x * SIZE_T) div INT_SZ + (sum_local * DESTID) div INT_SZ)"

section \<open>Operations\<close>

definition assign_rows ::
  "32 word list \<Rightarrow> 64 word \<Rightarrow> 64 word \<Rightarrow> nat list \<times> nat list \<Rightarrow> (nat list \<times> nat list) option" where
  \<comment> \<open>the loop over \<open>sum_local\<close> that both \<open>assign_sizes\<close> and \<open>assign_data\<close> contain: it sets
    \<open>out_index_\<close> and \<open>in_index_\<close>\<close>
  "assign_rows mmap index_x neigh_size s = (case s of (out_index, in_index) \<Rightarrow> do {
     let base = row_at neigh_size index_x 0;
     out_index \<leftarrow> wr out_index 0 base;
     in_index \<leftarrow> wr in_index 0 base;
     (out_index, in_index, sum_local) \<leftarrow> foldM (\<lambda>i (out_index, in_index, sum_local). do {
          out_index \<leftarrow> wr out_index i (row_at neigh_size index_x sum_local);
          in_index \<leftarrow> wr in_index i (row_at neigh_size index_x sum_local);
          c \<leftarrow> read64 mmap (index_index_at neigh_size + 2 * i);
          Some (out_index, in_index, sum_local + c) }) [0..<unat index_x] (out_index, in_index, 0);
     Some (out_index, in_index) })"

definition assign_sizes ::
  "32 word list \<Rightarrow> 64 word \<Rightarrow> 64 word \<Rightarrow> int \<Rightarrow> (nat list \<times> nat list) option" where
  \<comment> \<open>the two arrays come from \<open>malloc\<close>\<close>
  "assign_sizes mmap index_x neigh_size host_id =
     (let out_index = uninit (unat index_x); in_index = uninit (unat index_x) in
      if host_id > 0 then assign_rows mmap index_x neigh_size (out_index, in_index)
      else Some (out_index, in_index))"

definition store_row_sizes :: "nat list \<Rightarrow> 64 word \<Rightarrow> 64 word \<Rightarrow> shm \<Rightarrow> shm option" where
  \<comment> \<open>the first loop of \<open>assign_data\<close>\<close>
  "store_row_sizes index index_x neigh_size s = foldM (\<lambda>i s. do {
     b \<leftarrow> rd index (i + 1);
     a \<leftarrow> rd index i;
     store64 (index_index_at neigh_size + 2 * i) (word_of_int (int b - int a)) s })
     [0..<unat (index_x - 1)] s"

definition store_rows ::
  "nat list \<Rightarrow> nat list \<Rightarrow> 64 word \<Rightarrow> 64 word \<Rightarrow> nat list \<Rightarrow> shm \<Rightarrow> shm option" where
  \<comment> \<open>the third loop: \<open>index\<close> holds offsets into the master's own array \<open>block\<close>.  The bound
    of the inner loop is read once: the loop does not store to it.\<close>
  "store_rows index block index_x neigh_size out_index s = foldM (\<lambda>i s. do {
     c \<leftarrow> read64 (shm_words s) (index_index_at neigh_size + 2 * i);
     foldM (\<lambda>j s. do {
       p \<leftarrow> rd index i;
       x \<leftarrow> rd block (p + j);
       q \<leftarrow> rd out_index i;
       store32 (q + j) (word_of_nat x) s }) [0..<unat c] s }) [0..<unat (index_x - 1)] s"

definition store_neighs :: "nat list \<Rightarrow> 64 word \<Rightarrow> shm \<Rightarrow> shm option" where
  \<comment> \<open>the fourth loop; \<open>in_neighbors_\<close> is the same pointer as \<open>out_neighbors_\<close>\<close>
  "store_neighs neighs neigh_size s = foldM (\<lambda>i s. do {
     x \<leftarrow> rd neighs i;
     s \<leftarrow> store32 (neighbors_at + i) (word_of_nat x) s;
     store32 (neighbors_at + i) (word_of_nat x) s }) [0..<unat neigh_size] s"

definition assign_data ::
  "nat list \<Rightarrow> 64 word \<Rightarrow> nat list \<Rightarrow> 64 word \<Rightarrow> nat list \<times> nat list \<Rightarrow> shm \<Rightarrow>
   ((nat list \<times> nat list) \<times> shm) option" where
  "assign_data index index_x neighs neigh_size ptrs s = do {
     s \<leftarrow> store_row_sizes index index_x neigh_size s;
     (out_index, in_index) \<leftarrow> assign_rows (shm_words s) index_x neigh_size ptrs;
     s \<leftarrow> store_rows index neighs index_x neigh_size out_index s;
     in_index \<leftarrow> foldM (\<lambda>i in_index. do { p \<leftarrow> rd out_index i; wr in_index i p })
                  [0..<unat (index_x - 1)] in_index;
     s \<leftarrow> store_neighs neighs neigh_size s;
     s \<leftarrow> store32 0 1 s;
     Some ((out_index, in_index), s) }"

partial_function (option) wait_for_master :: "(nat \<Rightarrow> 32 word list) \<Rightarrow> nat \<Rightarrow> nat option" where
  \<comment> \<open>\<^verbatim>\<open>while (_synch_var[0] != 1) {}\<close> over the contents of the region that its reads return, one for each poll.
     The word is a plain int, so a compiler may read it only once: then every \<open>mem t ! 0\<close> is \<open>mem 0 ! 0\<close>\<close>
  "wait_for_master mem t = (if mem t ! 0 \<noteq> 1 then wait_for_master mem (t + 1) else Some t)"

definition trunc_half :: "int \<Rightarrow> int" where
  \<comment> \<open>\<^verbatim>\<open>d / 2\<close>, which rounds toward zero\<close>
  "trunc_half d = sgn d * (\<bar>d\<bar> div 2)"

definition finish_graph ::
  "bool \<Rightarrow> int \<Rightarrow> nat list \<times> nat list \<Rightarrow> 32 word list \<Rightarrow> nat csr_graph result" where
  \<comment> \<open>the end of the constructor; the index pointers point into the region itself\<close>
  "finish_graph validate_graph num_nodes ptrs mmap =
     (if validate_graph then Inl (Exit (-1))
      else rbind (of_opt (pointer_diff (fst ptrs) (nat num_nodes) 0)) (\<lambda>d.
        Inr \<lparr>csr_directed = False, csr_num_nodes = num_nodes, csr_num_edges = Some (trunc_half d),
          csr_out_index = fst ptrs, csr_out_neighbors = map unat mmap,
          csr_in_index = snd ptrs, csr_in_neighbors = map unat mmap\<rparr>))"

definition master_stores ::
  "int \<Rightarrow> nat list \<Rightarrow> 64 word \<Rightarrow> nat list \<Rightarrow> 64 word \<Rightarrow> shm \<Rightarrow> ((nat list \<times> nat list) \<times> shm) option" where
  \<comment> \<open>what the constructor does for host 0 up to the flush of the cache\<close>
  "master_stores num_nodes index index_x neighs neigh_size s = do {
     s \<leftarrow> store64 num_nodes_at (word_of_int num_nodes) s;
     s \<leftarrow> store64 index_x_at index_x s;
     s \<leftarrow> store64 neigh_size_at neigh_size s;
     ptrs \<leftarrow> assign_sizes (shm_words s) index_x neigh_size 0;
     assign_data index index_x neighs neigh_size ptrs s }"

definition master_graph ::
  "int \<Rightarrow> nat list \<Rightarrow> 64 word \<Rightarrow> nat list \<Rightarrow> 64 word \<Rightarrow> bool \<Rightarrow> shm \<Rightarrow> (nat csr_graph \<times> shm) result" where
  "master_graph num_nodes index index_x neighs neigh_size validate_graph s =
     rbind (of_opt (master_stores num_nodes index index_x neighs neigh_size s)) (\<lambda>(ptrs, s).
     rbind (finish_graph validate_graph num_nodes ptrs (shm_words s)) (\<lambda>g. Inr (g, s)))"

definition worker_graph ::
  "int \<Rightarrow> bool \<Rightarrow> (nat \<Rightarrow> 32 word list) \<Rightarrow> nat csr_graph result" where
  \<comment> \<open>any other host; it reads the region as it is when the wait ends\<close>
  "worker_graph host_id validate_graph mem =
     rbind (of_opt (do {
         t \<leftarrow> wait_for_master mem 0;
         n \<leftarrow> read64 (mem t) num_nodes_at;
         index_x \<leftarrow> read64 (mem t) index_x_at;
         neigh_size \<leftarrow> read64 (mem t) neigh_size_at;
         ptrs \<leftarrow> assign_sizes (mem t) index_x neigh_size host_id;
         Some (sint n, ptrs, mem t) }))
       (\<lambda>(n, ptrs, mmap). finish_graph validate_graph n ptrs mmap)"

section \<open>Offsets\<close>

lemmas offset_defs = INT64_T_def INT_SZ_def SIZE_T_def DESTID_def num_nodes_at_def index_x_at_def
  neigh_size_at_def neighbors_at_def index_index_at_def row_at_def

lemma header_offsets [simp]:
  "num_nodes_at = 1" "index_x_at = 3" "neigh_size_at = 5" "neighbors_at = 7"
  by (simp_all add: offset_defs unat_div)

lemma unat_small: "n < 2 ^ 64 \<Longrightarrow> unat (word_of_nat n :: 64 word) = n"
  by (rule of_nat_inverse) simp_all

lemma word_scale:
  assumes "k * c < 2 ^ 64" "0 < d" "d < 2 ^ 64"
  shows "(word_of_nat k * word_of_nat c) div word_of_nat d = (word_of_nat ((k * c) div d) :: 64 word)"
proof -
  have "(word_of_nat k * word_of_nat c :: 64 word) = word_of_nat (k * c)" by simp
  also have "\<dots> div word_of_nat d = word_of_nat ((k * c) div d)"
    using assms order.strict_trans1 [OF div_le_dividend, of "k * c" "2 ^ 64" d]
    by (intro iffD2 [OF word_unat_eq_iff]) (simp add: unat_div unat_small del: of_nat_mult)
  finally show ?thesis .
qed

lemma row_at_nat:
  assumes "7 + m + 2 * x + k < 2 ^ 60"
  shows "row_at (word_of_nat m) (word_of_nat x) (word_of_nat k) = 7 + m + 2 * x + k"
proof -
  have "(word_of_nat m * 4) div 4 = (word_of_nat m :: 64 word)"
    "(word_of_nat k * 4) div 4 = (word_of_nat k :: 64 word)"
    "(word_of_nat x * 8) div 4 = (word_of_nat (2 * x) :: 64 word)"
    using assms word_scale [of m 4 4] word_scale [of k 4 4] word_scale [of x 8 4] by simp_all
  then have "row_at (word_of_nat m) (word_of_nat x) (word_of_nat k)
      = unat (word_of_nat (7 + m + 2 * x + k) :: 64 word)"
    by (simp add: row_at_def offset_defs)
  then show ?thesis using assms unat_small [of "7 + m + 2 * x + k"] by simp
qed

lemma index_index_at_nat:
  assumes "7 + m < 2 ^ 60"
  shows "index_index_at (word_of_nat m) = 7 + m"
  using row_at_nat [of m 0 0] assms by (simp add: row_at_def index_index_at_def)

section \<open>What the master leaves in the region\<close>

text \<open>
  For the rows of a graph: the first word of the area of the rows, the condition that the region
  has room for it (which the code never tests), and the contents of the region.
\<close>

definition cells :: "nat list list \<Rightarrow> nat" where
  "cells rows = length (concat rows)"

definition rows_base :: "nat list list \<Rightarrow> nat" where
  "rows_base rows = 7 + cells rows + 2 * Suc (length rows)"

definition fits :: "nat list list \<Rightarrow> nat \<Rightarrow> bool" where
  "fits rows size_words \<longleftrightarrow> rows_base rows + cells rows \<le> size_words \<and> size_words < 2 ^ 60"

definition small_ids :: "nat list list \<Rightarrow> bool" where
  "small_ids rows \<longleftrightarrow> (\<forall>r \<in> set rows. \<forall>v \<in> set r. v < 2 ^ 32)"

definition row_starts :: "nat list list \<Rightarrow> nat list" where
  "row_starts rows = map (\<lambda>p. rows_base rows + p) (prefix_sums (map length rows))"

definition layout :: "nat list list \<Rightarrow> 32 word list \<Rightarrow> bool" where
  "layout rows ws \<longleftrightarrow>
     read64 ws 1 = Some (word_of_nat (length rows)) \<and>
     read64 ws 3 = Some (word_of_nat (Suc (length rows))) \<and>
     read64 ws 5 = Some (word_of_nat (cells rows)) \<and>
     (\<forall>i < length rows. read64 ws (7 + cells rows + 2 * i) = Some (word_of_nat (length (rows ! i)))) \<and>
     (\<forall>p < cells rows. ws ! (7 + p) = word_of_nat (concat rows ! p)) \<and>
     (\<forall>p < cells rows. ws ! (rows_base rows + p) = word_of_nat (concat rows ! p))"

lemma prefix_le_cells: "i \<le> length rows \<Longrightarrow> prefix_sums (map length rows) ! i \<le> cells rows"
  using prefix_sums_le_total [of i "map length rows"] by (simp add: cells_def length_concat)

lemma prefix_last_cells [simp]: "prefix_sums (map length rows) ! length rows = cells rows"
  using prefix_sums_last [of "map length rows"] by (simp add: cells_def length_concat)

lemma length_row_le_cells: "i < length rows \<Longrightarrow> length (rows ! i) \<le> cells rows"
  using prefix_le_cells [of "Suc i" rows] by (simp add: prefix_sums_Suc)

lemma read64_in: "a + 1 < length ws \<Longrightarrow> \<exists>w. read64 ws a = Some w"
  by (simp add: read64_def)

lemma row_at_fits:
  assumes "fits rows size_words" "k \<le> cells rows"
  shows "row_at (word_of_nat (cells rows)) (word_of_nat (Suc (length rows))) (word_of_nat k)
      = rows_base rows + k"
  using assms row_at_nat [of "cells rows" "Suc (length rows)" k]
  by (simp add: fits_def rows_base_def del: of_nat_Suc)

lemma index_index_at_fits:
  "fits rows size_words \<Longrightarrow> index_index_at (word_of_nat (cells rows)) = 7 + cells rows"
  by (simp add: index_index_at_nat fits_def rows_base_def)

lemma unat_counts_fits:
  assumes "fits rows size_words"
  shows "unat (word_of_nat (Suc (length rows)) :: 64 word) = Suc (length rows)"
    "unat (word_of_nat (Suc (length rows)) - 1 :: 64 word) = length rows"
    "unat (word_of_nat (cells rows) :: 64 word) = cells rows"
    "i < length rows \<Longrightarrow> unat (word_of_nat (length (rows ! i)) :: 64 word) = length (rows ! i)"
proof -
  show "unat (word_of_nat (Suc (length rows)) :: 64 word) = Suc (length rows)"
    by (rule unat_small) (use assms in \<open>simp add: fits_def rows_base_def\<close>)
  have "(word_of_nat (Suc (length rows)) - 1 :: 64 word) = word_of_nat (length rows)" by simp
  then show "unat (word_of_nat (Suc (length rows)) - 1 :: 64 word) = length rows"
    using assms by (simp only:, intro unat_small) (simp add: fits_def rows_base_def)
  show "unat (word_of_nat (cells rows) :: 64 word) = cells rows"
    by (rule unat_small) (use assms in \<open>simp add: fits_def rows_base_def\<close>)
  show "unat (word_of_nat (length (rows ! i)) :: 64 word) = length (rows ! i)" if "i < length rows"
    by (rule unat_small) (use assms length_row_le_cells [OF that] in \<open>simp add: fits_def rows_base_def\<close>)
qed

section \<open>The loops of the master\<close>

lemma store_row_sizes_returns:
  assumes f: "fits rows (length (shm_words s))"
    and P: "\<And>t. writes (7 + cells rows) (rows_base rows) s t \<Longrightarrow>
      (\<And>i. i < length rows \<Longrightarrow>
        read64 (shm_words t) (7 + cells rows + 2 * i) = Some (word_of_nat (length (rows ! i)))) \<Longrightarrow> P t"
  shows "returns (store_row_sizes (prefix_sums (map length rows)) (word_of_nat (Suc (length rows)))
      (word_of_nat (cells rows)) s) P"
  unfolding store_row_sizes_def unat_counts_fits(2) [OF f]
proof (rule store64_array [where base = "7 + cells rows" and v = "\<lambda>i. word_of_nat (length (rows ! i))"])
  show "7 + cells rows + 2 * length rows \<le> length (shm_words s)"
    using f by (simp add: fits_def rows_base_def)
next
  fix i t
  assume i: "i < length rows"
  let ?ps = "prefix_sums (map length rows)"
  have "word_of_int (int (?ps ! (i + 1)) - int (?ps ! i)) = (word_of_nat (length (rows ! i)) :: 64 word)"
    using i by (simp add: prefix_sums_Suc)
  then show "(do { b \<leftarrow> rd ?ps (i + 1); a \<leftarrow> rd ?ps i;
      store64 (index_index_at (word_of_nat (cells rows)) + 2 * i) (word_of_int (int b - int a)) t })
    = store64 (7 + cells rows + 2 * i) (word_of_nat (length (rows ! i))) t"
    using i f by (simp add: index_index_at_fits)
next
  fix t
  assume "writes (7 + cells rows) (7 + cells rows + 2 * length rows) s t"
    "\<And>i. i < length rows \<Longrightarrow> read64 (shm_words t) (7 + cells rows + 2 * i) = Some (word_of_nat (length (rows ! i)))"
  then show "P t" by (intro P) (auto intro: writes_widen simp: rows_base_def)
qed

lemma assign_rows_eq:
  assumes f: "fits rows (length ws)" and len: "length out = Suc (length rows)" "length inn = Suc (length rows)"
    and sizes: "\<And>i. i < length rows \<Longrightarrow> read64 ws (7 + cells rows + 2 * i) = Some (word_of_nat (length (rows ! i)))"
  shows "assign_rows ws (word_of_nat (Suc (length rows))) (word_of_nat (cells rows)) (out, inn)
    = Some (row_starts rows, row_starts rows)"
proof -
  let ?n = "length rows" and ?m = "word_of_nat (cells rows) :: 64 word"
  let ?x = "word_of_nat (Suc (length rows)) :: 64 word"
  let ?ps = "prefix_sums (map length rows)" and ?R = "rows_base rows"
  have "returns (foldM (\<lambda>i (out, inn, sum_local). do { out \<leftarrow> wr out i (row_at ?m ?x sum_local);
        inn \<leftarrow> wr inn i (row_at ?m ?x sum_local); c \<leftarrow> read64 ws (index_index_at ?m + 2 * i);
        Some (out, inn, sum_local + c) }) [0..<Suc ?n] (out[0 := row_at ?m ?x 0], inn[0 := row_at ?m ?x 0], 0))
      (\<lambda>s. fst s = row_starts rows \<and> fst (snd s) = row_starts rows)"
  proof (rule foldM_upt_rule [where I = "\<lambda>k s. length (fst s) = Suc ?n \<and> length (fst (snd s)) = Suc ?n \<and>
      (\<forall>j < k. fst s ! j = ?R + ?ps ! j \<and> fst (snd s) ! j = ?R + ?ps ! j) \<and>
      (k \<le> ?n \<longrightarrow> snd (snd s) = word_of_nat (?ps ! k))"])
    fix i and s :: "nat list \<times> nat list \<times> 64 word"
    assume i: "i < Suc ?n" and I: "length (fst s) = Suc ?n \<and> length (fst (snd s)) = Suc ?n \<and>
      (\<forall>j < i. fst s ! j = ?R + ?ps ! j \<and> fst (snd s) ! j = ?R + ?ps ! j) \<and>
      (i \<le> ?n \<longrightarrow> snd (snd s) = word_of_nat (?ps ! i))"
    obtain o' i' c where s: "s = (o', i', c)" by (cases s)
    have at: "row_at ?m ?x (word_of_nat (?ps ! i)) = ?R + ?ps ! i"
      using i by (intro row_at_fits [OF f] prefix_le_cells) simp
    obtain w where w: "read64 ws (7 + cells rows + 2 * i) = Some w"
      using read64_in [of "7 + cells rows + 2 * i" ws] f i by (auto simp: fits_def rows_base_def)
    have "c + w = word_of_nat (?ps ! Suc i)" if "Suc i \<le> ?n"
      using sizes [of i] that w I s by (simp add: prefix_sums_Suc)
    then show "returns ((\<lambda>(out, inn, sum_local). do { out \<leftarrow> wr out i (row_at ?m ?x sum_local);
        inn \<leftarrow> wr inn i (row_at ?m ?x sum_local); c \<leftarrow> read64 ws (index_index_at ?m + 2 * i);
        Some (out, inn, sum_local + c) }) s)
      (\<lambda>s. length (fst s) = Suc ?n \<and> length (fst (snd s)) = Suc ?n \<and>
        (\<forall>j < Suc i. fst s ! j = ?R + ?ps ! j \<and> fst (snd s) ! j = ?R + ?ps ! j) \<and>
        (Suc i \<le> ?n \<longrightarrow> snd (snd s) = word_of_nat (?ps ! Suc i)))"
      using I i w
      by (simp add: s at index_index_at_fits [OF f] nth_list_update less_Suc_eq del: of_nat_Suc)
  next
    fix s :: "nat list \<times> nat list \<times> 64 word"
    assume "length (fst s) = Suc ?n \<and> length (fst (snd s)) = Suc ?n \<and>
      (\<forall>j < Suc ?n. fst s ! j = ?R + ?ps ! j \<and> fst (snd s) ! j = ?R + ?ps ! j) \<and>
      (Suc ?n \<le> ?n \<longrightarrow> snd (snd s) = word_of_nat (?ps ! Suc ?n))"
    then show "fst s = row_starts rows \<and> fst (snd s) = row_starts rows"
      by (auto simp: row_starts_def intro!: nth_equalityI)
  qed (use len in simp_all)
  then show ?thesis
    using len by (auto simp: assign_rows_def Let_def unat_counts_fits(1) [OF f] returns_iff
      simp del: upt_Suc of_nat_Suc split: prod.splits)
qed

lemma concat_row_cell:
  assumes "i < length rows" "j < length (rows ! i)"
  shows "prefix_sums (map length rows) ! i + j < cells rows"
    "concat rows ! (prefix_sums (map length rows) ! i + j) = rows ! i ! j"
proof -
  have "prefix_sums (map length rows) ! Suc i \<le> cells rows" using assms by (intro prefix_le_cells) simp
  then show "prefix_sums (map length rows) ! i + j < cells rows" using assms by (simp add: prefix_sums_Suc)
  show "concat rows ! (prefix_sums (map length rows) ! i + j) = rows ! i ! j"
    using nth_concat_rows [OF assms] by simp
qed

lemma store_rows_returns:
  assumes f: "fits rows (length (shm_words s))"
    and sizes: "\<And>i. i < length rows \<Longrightarrow>
      read64 (shm_words s) (7 + cells rows + 2 * i) = Some (word_of_nat (length (rows ! i)))"
    and P: "\<And>t. writes (rows_base rows) (rows_base rows + cells rows) s t \<Longrightarrow>
      (\<And>p. p < cells rows \<Longrightarrow> shm_words t ! (rows_base rows + p) = word_of_nat (concat rows ! p)) \<Longrightarrow> P t"
  shows "returns (store_rows (prefix_sums (map length rows)) (concat rows)
      (word_of_nat (Suc (length rows))) (word_of_nat (cells rows)) (row_starts rows) s) P"
  unfolding store_rows_def unat_counts_fits(2) [OF f]
proof (rule foldM_upt_rule [where I = "\<lambda>k t. writes (rows_base rows) (rows_base rows + cells rows) s t \<and>
    (\<forall>p < prefix_sums (map length rows) ! k. shm_words t ! (rows_base rows + p) = word_of_nat (concat rows ! p))"])
  fix i t
  let ?R = "rows_base rows" and ?ps = "prefix_sums (map length rows)"
  assume i: "i < length rows" and I: "writes ?R (?R + cells rows) s t \<and>
    (\<forall>p < ?ps ! i. shm_words t ! (?R + p) = word_of_nat (concat rows ! p))"
  have in_cells: "?ps ! i + length (rows ! i) \<le> cells rows"
    using i prefix_le_cells [of "Suc i" rows] by (simp add: prefix_sums_Suc)
  have lt: "length (shm_words t) = length (shm_words s)" using I by (auto simp: writes_length)
  have c: "read64 (shm_words t) (7 + cells rows + 2 * i) = Some (word_of_nat (length (rows ! i)))"
    using sizes [OF i] I i writes_read64 [of ?R "?R + cells rows" s t "7 + cells rows + 2 * i"]
    by (simp add: rows_base_def)
  let ?body = "\<lambda>j u. do { p \<leftarrow> rd ?ps i; x \<leftarrow> rd (concat rows) (p + j); q \<leftarrow> rd (row_starts rows) i;
      store32 (q + j) (word_of_nat x) u }"
  have "returns (foldM ?body [0..<length (rows ! i)] t)
    (\<lambda>t. writes ?R (?R + cells rows) s t \<and>
      (\<forall>p < ?ps ! Suc i. shm_words t ! (?R + p) = word_of_nat (concat rows ! p)))"
  proof (rule store32_array [where base = "?R + ?ps ! i" and v = "\<lambda>j. word_of_nat (rows ! i ! j)"])
    show "?R + ?ps ! i + length (rows ! i) \<le> length (shm_words t)"
      using in_cells f lt by (simp add: fits_def)
    show "?body j u = store32 (?R + ?ps ! i + j) (word_of_nat (rows ! i ! j)) u"
      if j: "j < length (rows ! i)" for j u
      using i concat_row_cell [OF i j] by (simp add: row_starts_def cells_def)
  next
    fix u
    assume u: "writes (?R + ?ps ! i) (?R + ?ps ! i + length (rows ! i)) t u"
      "\<And>j. j < length (rows ! i) \<Longrightarrow> shm_words u ! (?R + ?ps ! i + j) = word_of_nat (rows ! i ! j)"
    have "writes ?R (?R + cells rows) s u"
      using I writes_widen [OF u(1), of ?R "?R + cells rows"] in_cells by (auto intro: writes_trans)
    moreover have "shm_words u ! (?R + p) = word_of_nat (concat rows ! p)" if p: "p < ?ps ! Suc i" for p
    proof (cases "p < ?ps ! i")
      case True
      then show ?thesis using I writes_outside [OF u(1), of "?R + p"] by simp
    next
      case False
      define j where "j = p - ?ps ! i"
      have j: "p = ?ps ! i + j" "j < length (rows ! i)"
        using False p i by (auto simp: j_def prefix_sums_Suc)
      show ?thesis using u(2) [OF j(2)] concat_row_cell [OF i j(2)] j(1) by (simp add: add.assoc)
    qed
    ultimately show "writes ?R (?R + cells rows) s u \<and>
      (\<forall>p < ?ps ! Suc i. shm_words u ! (?R + p) = word_of_nat (concat rows ! p))" by blast
  qed
  then show "returns (do { c \<leftarrow> read64 (shm_words t) (index_index_at (word_of_nat (cells rows)) + 2 * i);
      foldM ?body [0..<unat c] t })
    (\<lambda>t. writes ?R (?R + cells rows) s t \<and>
      (\<forall>p < ?ps ! Suc i. shm_words t ! (?R + p) = word_of_nat (concat rows ! p)))"
    using c by (simp add: index_index_at_fits [OF f] unat_counts_fits(4) [OF f i] del: unat_of_nat)
qed (use P in \<open>auto simp: cells_def\<close>)

lemma store_neighs_returns:
  assumes f: "fits rows (length (shm_words s))"
    and P: "\<And>t. writes 7 (7 + cells rows) s t \<Longrightarrow>
      (\<And>p. p < cells rows \<Longrightarrow> shm_words t ! (7 + p) = word_of_nat (concat rows ! p)) \<Longrightarrow> P t"
  shows "returns (store_neighs (concat rows) (word_of_nat (cells rows)) s) P"
  unfolding store_neighs_def unat_counts_fits(3) [OF f]
proof (rule foldM_upt_rule [where I = "\<lambda>k t. writes 7 (7 + cells rows) s t \<and>
    (\<forall>p < k. shm_words t ! (7 + p) = word_of_nat (concat rows ! p))"])
  fix i t
  assume i: "i < cells rows" and I: "writes 7 (7 + cells rows) s t \<and>
    (\<forall>p < i. shm_words t ! (7 + p) = word_of_nat (concat rows ! p))"
  let ?w = "word_of_nat (concat rows ! i) :: 32 word"
  have room: "7 + i < length (shm_words s)" using f i by (simp add: fits_def rows_base_def)
  have "returns (do { t \<leftarrow> store32 (7 + i) ?w t; store32 (7 + i) ?w t })
    (\<lambda>t. writes 7 (7 + cells rows) s t \<and>
      (\<forall>p < Suc i. shm_words t ! (7 + p) = word_of_nat (concat rows ! p)))"
  proof (rule returns_bind, rule store32_returns)
    show lt: "7 + i < length (shm_words t)" using room I by (auto simp: writes_length)
    fix u
    assume u: "writes (7 + i) (7 + i + 1) t u" "shm_words u = (shm_words t)[7 + i := ?w]"
    show "returns (store32 (7 + i) ?w u) (\<lambda>t. writes 7 (7 + cells rows) s t \<and>
      (\<forall>p < Suc i. shm_words t ! (7 + p) = word_of_nat (concat rows ! p)))"
    proof (rule store32_returns)
      show "7 + i < length (shm_words u)" using lt u by simp
      fix v
      assume v: "writes (7 + i) (7 + i + 1) u v" "shm_words v = (shm_words u)[7 + i := ?w]"
      have tv: "writes (7 + i) (7 + i + 1) t v" using u(1) v(1) by (rule writes_trans)
      have "writes 7 (7 + cells rows) t v" by (rule writes_widen [OF tv]) (use i in simp_all)
      then have "writes 7 (7 + cells rows) s v" by (rule writes_trans [OF conjunct1 [OF I]])
      then show "writes 7 (7 + cells rows) s v \<and>
        (\<forall>p < Suc i. shm_words v ! (7 + p) = word_of_nat (concat rows ! p))"
        using I u(2) v(2) lt by (auto simp: nth_list_update less_Suc_eq)
    qed
  qed
  then show "returns (do { x \<leftarrow> rd (concat rows) i; t \<leftarrow> store32 (neighbors_at + i) (word_of_nat x) t;
      store32 (neighbors_at + i) (word_of_nat x) t })
    (\<lambda>t. writes 7 (7 + cells rows) s t \<and>
      (\<forall>p < Suc i. shm_words t ! (7 + p) = word_of_nat (concat rows ! p)))"
    using i by (simp add: cells_def)
qed (use P in auto)

section \<open>The master as a whole\<close>

lemma layout_word0:
  assumes "layout rows ws"
  shows "layout rows (ws[0 := w])"
proof -
  have "read64 (ws[0 := w]) a = read64 ws a" if "0 < a" for a
    using that by (intro read64_cong) simp_all
  then show ?thesis using assms by (simp add: layout_def rows_base_def)
qed

definition published :: "nat list list \<Rightarrow> shm \<Rightarrow> shm \<Rightarrow> bool" where
  \<comment> \<open>the region holds the rows, and the synchronisation word was stored last\<close>
  "published rows s t \<longleftrightarrow> (\<exists>u. writes 1 (rows_base rows + cells rows) s u \<and> layout rows (shm_words u) \<and>
     shm_words t = (shm_words u)[0 := 1] \<and> shm_stores t = shm_stores u @ [(0, 1)])"

lemma assign_sizes_master: "assign_sizes ws x m 0 = Some (uninit (unat x), uninit (unat x))"
  by (simp add: assign_sizes_def Let_def)

lemma assign_data_returns:
  assumes f: "fits rows (length (shm_words s))" and ptrs: "length (fst ptrs) = Suc (length rows)" "length (snd ptrs) = Suc (length rows)"
    and P: "\<And>t u. writes 7 (rows_base rows + cells rows) s u \<Longrightarrow>
      (\<And>i. i < length rows \<Longrightarrow> read64 (shm_words u) (7 + cells rows + 2 * i) = Some (word_of_nat (length (rows ! i)))) \<Longrightarrow>
      (\<And>p. p < cells rows \<Longrightarrow> shm_words u ! (7 + p) = word_of_nat (concat rows ! p)) \<Longrightarrow>
      (\<And>p. p < cells rows \<Longrightarrow> shm_words u ! (rows_base rows + p) = word_of_nat (concat rows ! p)) \<Longrightarrow>
      shm_words t = (shm_words u)[0 := 1] \<Longrightarrow> shm_stores t = shm_stores u @ [(0, 1)] \<Longrightarrow>
      P ((row_starts rows, row_starts rows), t)"
  shows "returns (assign_data (prefix_sums (map length rows)) (word_of_nat (Suc (length rows))) (concat rows)
      (word_of_nat (cells rows)) ptrs s) P"
  unfolding assign_data_def
proof (rule returns_bind, rule store_row_sizes_returns [OF f])
  let ?n = "length rows" and ?m = "cells rows" and ?R = "rows_base rows"
  fix s1
  assume s1: "writes (7 + ?m) ?R s s1"
    "\<And>i. i < ?n \<Longrightarrow> read64 (shm_words s1) (7 + ?m + 2 * i) = Some (word_of_nat (length (rows ! i)))"
  have f1: "fits rows (length (shm_words s1))" using f s1 by (simp add: writes_length)
  obtain out inn where pt: "ptrs = (out, inn)" by (cases ptrs)
  have rows1: "assign_rows (shm_words s1) (word_of_nat (Suc ?n)) (word_of_nat ?m) ptrs
      = Some (row_starts rows, row_starts rows)"
    using ptrs s1(2) f1 unfolding pt by (intro assign_rows_eq) simp_all
  have again: "foldM (\<lambda>i in_index. do { p \<leftarrow> rd (row_starts rows) i; wr in_index i p })
      [0..<?n] (row_starts rows) = Some (row_starts rows)"
  proof -
    have "returns (foldM (\<lambda>i in_index. do { p \<leftarrow> rd (row_starts rows) i; wr in_index i p })
        [0..<?n] (row_starts rows)) (\<lambda>b. b = row_starts rows)"
    proof (rule foldM_upt_rule [where I = "\<lambda>k b. b = row_starts rows"])
      fix i b
      assume "i < ?n" "b = row_starts rows"
      moreover have "i < length (row_starts rows)" if "i < ?n" using that by (simp add: row_starts_def)
      ultimately show "returns (do { p \<leftarrow> rd (row_starts rows) i; wr b i p }) (\<lambda>b. b = row_starts rows)"
        by simp
    qed simp_all
    then show ?thesis by (auto simp: returns_iff)
  qed
  have "returns (store_rows (prefix_sums (map length rows)) (concat rows) (word_of_nat (Suc ?n))
      (word_of_nat ?m) (row_starts rows) s1)
    (\<lambda>s2. returns (store_neighs (concat rows) (word_of_nat ?m) s2)
      (\<lambda>s3. returns (store32 0 1 s3) (\<lambda>t. P ((row_starts rows, row_starts rows), t))))"
  proof (rule store_rows_returns [OF f1 s1(2)], simp)
    fix s2
    assume s2: "writes ?R (?R + ?m) s1 s2"
      "\<And>p. p < ?m \<Longrightarrow> shm_words s2 ! (?R + p) = word_of_nat (concat rows ! p)"
    have f2: "fits rows (length (shm_words s2))" using f1 s2 by (simp add: writes_length)
    show "returns (store_neighs (concat rows) (word_of_nat ?m) s2)
      (\<lambda>s3. returns (store32 0 1 s3) (\<lambda>t. P ((row_starts rows, row_starts rows), t)))"
    proof (rule store_neighs_returns [OF f2])
      fix s3
      assume s3: "writes 7 (7 + ?m) s2 s3"
        "\<And>p. p < ?m \<Longrightarrow> shm_words s3 ! (7 + p) = word_of_nat (concat rows ! p)"
      have len3: "0 < length (shm_words s3)"
        using f2 writes_length [OF s3(1)] unfolding fits_def rows_base_def by linarith
      have w1: "writes 7 (?R + ?m) s s1"
        by (rule writes_widen [OF s1(1)]) (simp_all add: rows_base_def)
      have w2: "writes 7 (?R + ?m) s1 s2"
        by (rule writes_widen [OF s2(1)]) (simp_all add: rows_base_def)
      have w3: "writes 7 (?R + ?m) s2 s3"
        by (rule writes_widen [OF s3(1)]) (simp_all add: rows_base_def)
      have sizes: "read64 (shm_words s3) (7 + ?m + 2 * i) = Some (word_of_nat (length (rows ! i)))"
        if "i < ?n" for i
        using s1(2) [OF that] writes_read64 [OF s2(1), of "7 + ?m + 2 * i"]
          writes_read64 [OF s3(1), of "7 + ?m + 2 * i"] that by (simp add: rows_base_def)
      have cells3: "shm_words s3 ! (?R + p) = word_of_nat (concat rows ! p)" if "p < ?m" for p
        using s2(2) [OF that] writes_outside [OF s3(1), of "?R + p"] by (simp add: rows_base_def)
      show "returns (store32 0 1 s3) (\<lambda>t. P ((row_starts rows, row_starts rows), t))"
        using len3 P [OF writes_trans [OF w1 writes_trans [OF w2 w3]] sizes s3(2) cells3]
        by (simp add: store32_def)
    qed
  qed
  then show "returns (do { (out_index, in_index) \<leftarrow> assign_rows (shm_words s1) (word_of_nat (Suc ?n)) (word_of_nat ?m) ptrs;
      s \<leftarrow> store_rows (prefix_sums (map length rows)) (concat rows) (word_of_nat (Suc ?n)) (word_of_nat ?m) out_index s1;
      in_index \<leftarrow> foldM (\<lambda>i in_index. do { p \<leftarrow> rd out_index i; wr in_index i p })
        [0..<unat (word_of_nat (Suc ?n) - 1 :: 64 word)] in_index;
      s \<leftarrow> store_neighs (concat rows) (word_of_nat ?m) s;
      s \<leftarrow> store32 0 1 s;
      Some ((out_index, in_index), s) }) P"
    unfolding rows1 unat_counts_fits(2) [OF f] by (auto simp: again returns_iff)
qed

lemma master_stores_published:
  assumes f: "fits rows (length (shm_words s))"
  shows "returns (master_stores (int (length rows)) (prefix_sums (map length rows))
      (word_of_nat (Suc (length rows))) (concat rows) (word_of_nat (cells rows)) s)
    (\<lambda>(ptrs, t). ptrs = (row_starts rows, row_starts rows) \<and> published rows s t)"
  unfolding master_stores_def header_offsets assign_sizes_master bind.bind_lunit
proof (rule returns_bind, rule store64_returns)
  let ?n = "length rows" and ?m = "cells rows" and ?R = "rows_base rows"
  have room: "7 < length (shm_words s)" using f by (simp add: fits_def rows_base_def)
  then show "1 + 1 < length (shm_words s)" by simp
  fix s1
  assume s1: "writes 1 (1 + 2) s s1" "read64 (shm_words s1) 1 = Some (word_of_int (int ?n))"
  show "returns (do { s \<leftarrow> store64 3 (word_of_nat (Suc ?n)) s1; s \<leftarrow> store64 5 (word_of_nat ?m) s;
      assign_data (prefix_sums (map length rows)) (word_of_nat (Suc ?n)) (concat rows) (word_of_nat ?m)
        (uninit (unat (word_of_nat (Suc ?n) :: 64 word)), uninit (unat (word_of_nat (Suc ?n) :: 64 word))) s })
    (\<lambda>(ptrs, t). ptrs = (row_starts rows, row_starts rows) \<and> published rows s t)"
  proof (rule returns_bind, rule store64_returns)
    show "3 + 1 < length (shm_words s1)" using room s1 by (simp add: writes_length)
    fix s2
    assume s2: "writes 3 (3 + 2) s1 s2" "read64 (shm_words s2) 3 = Some (word_of_nat (Suc ?n))"
    show "returns (do { s \<leftarrow> store64 5 (word_of_nat ?m) s2;
        assign_data (prefix_sums (map length rows)) (word_of_nat (Suc ?n)) (concat rows) (word_of_nat ?m)
          (uninit (unat (word_of_nat (Suc ?n) :: 64 word)), uninit (unat (word_of_nat (Suc ?n) :: 64 word))) s })
      (\<lambda>(ptrs, t). ptrs = (row_starts rows, row_starts rows) \<and> published rows s t)"
    proof (rule returns_bind, rule store64_returns)
      show "5 + 1 < length (shm_words s2)" using room s1 s2 by (simp add: writes_length)
      fix s3
      assume s3: "writes 5 (5 + 2) s2 s3" "read64 (shm_words s3) 5 = Some (word_of_nat ?m)"
      have f3: "fits rows (length (shm_words s3))" using f s1 s2 s3 by (simp add: writes_length)
      have w: "writes 1 (?R + ?m) s s1" "writes 1 (?R + ?m) s1 s2" "writes 1 (?R + ?m) s2 s3"
        by (rule writes_widen [OF s1(1)] writes_widen [OF s2(1)] writes_widen [OF s3(1)];
            simp add: rows_base_def)+
      show "returns (assign_data (prefix_sums (map length rows)) (word_of_nat (Suc ?n)) (concat rows) (word_of_nat ?m)
          (uninit (unat (word_of_nat (Suc ?n) :: 64 word)), uninit (unat (word_of_nat (Suc ?n) :: 64 word))) s3)
        (\<lambda>(ptrs, t). ptrs = (row_starts rows, row_starts rows) \<and> published rows s t)"
      proof (rule assign_data_returns [OF f3])
        fix t u :: shm
        assume u: "writes 7 (?R + ?m) s3 u"
          "\<And>i. i < ?n \<Longrightarrow> read64 (shm_words u) (7 + ?m + 2 * i) = Some (word_of_nat (length (rows ! i)))"
          "\<And>p. p < ?m \<Longrightarrow> shm_words u ! (7 + p) = word_of_nat (concat rows ! p)"
          "\<And>p. p < ?m \<Longrightarrow> shm_words u ! (?R + p) = word_of_nat (concat rows ! p)"
          and t: "shm_words t = (shm_words u)[0 := 1]" "shm_stores t = shm_stores u @ [(0, 1)]"
        have "writes 1 (?R + ?m) s3 u" by (rule writes_widen [OF u(1)]) simp_all
        then have "writes 1 (?R + ?m) s u" using w by (blast intro: writes_trans)
        moreover have "layout rows (shm_words u)"
          using u(2-4) s1(2) s2(2) s3(2) writes_read64 [OF s2(1), of 1] writes_read64 [OF s3(1), of 1]
            writes_read64 [OF u(1), of 1] writes_read64 [OF s3(1), of 3] writes_read64 [OF u(1), of 3]
            writes_read64 [OF u(1), of 5]
          by (simp add: layout_def)
        ultimately show "(\<lambda>(ptrs, t). ptrs = (row_starts rows, row_starts rows) \<and> published rows s t)
            ((row_starts rows, row_starts rows), t)"
          using t by (auto simp: published_def)
      qed (simp_all add: unat_counts_fits(1) [OF f] del: unat_of_nat of_nat_Suc)
    qed
  qed
qed

section \<open>What a worker sees\<close>

lemma published_words:
  assumes "published rows s t" "fits rows (length (shm_words s))"
  shows "layout rows (shm_words t)" "shm_words t ! 0 = 1" "length (shm_words t) = length (shm_words s)"
proof -
  obtain u where u: "writes 1 (rows_base rows + cells rows) s u" "layout rows (shm_words u)"
    "shm_words t = (shm_words u)[0 := 1]" using assms(1) by (auto simp: published_def)
  have "0 < length (shm_words u)"
    using assms(2) writes_length [OF u(1)] unfolding fits_def rows_base_def by linarith
  then show "layout rows (shm_words t)" "shm_words t ! 0 = 1" "length (shm_words t) = length (shm_words s)"
    using u by (simp_all add: layout_word0 writes_length)
qed

text \<open>
  The stores of the master, taken in their order: only the last one touches the
  synchronisation word.
\<close>

lemma published_prefix:
  assumes "published rows s t" "shm_words s ! 0 \<noteq> 1"
    and log: "shm_stores t = shm_stores s @ L"
    and seen: "replay (take k L) (shm_words s) ! 0 = 1"
  shows "replay (take k L) (shm_words s) = shm_words t"
proof -
  obtain u where u: "writes 1 (rows_base rows + cells rows) s u"
    "shm_words t = (shm_words u)[0 := 1]" "shm_stores t = shm_stores u @ [(0, 1)]"
    using assms(1) by (auto simp: published_def)
  obtain M where M: "shm_stores u = shm_stores s @ M" "shm_words u = replay M (shm_words s)"
    "\<forall>(a, w) \<in> set M. 1 \<le> a \<and> a < rows_base rows + cells rows" using u(1) by (auto simp: writes_def)
  have L: "L = M @ [(0, 1)]" using log u(3) M(1) by simp
  have "length L \<le> k"
  proof (rule ccontr)
    assume "\<not> length L \<le> k"
    then have "take k L = take k M" using L by simp
    moreover have "replay (take k M) (shm_words s) ! 0 = shm_words s ! 0"
      by (rule replay_outside) (use M(3) in \<open>auto dest!: in_set_takeD\<close>)
    ultimately show False using seen assms(2) by simp
  qed
  then show ?thesis using L u(2) M(2) by (simp add: replay_append replay_def)
qed

lemma wait_for_master_returns:
  assumes "i \<le> t" "mem t ! 0 = 1"
  shows "\<exists>t'. wait_for_master mem i = Some t' \<and> mem t' ! 0 = 1"
  using assms(1)
proof (induction i rule: inc_induct)
  case base
  then show ?case using assms(2) by (simp add: wait_for_master.simps)
next
  case (step i)
  then show ?case by (cases "mem i ! 0 = 1") (simp_all add: wait_for_master.simps [of mem i])
qed

lemma wait_for_master_seen:
  assumes "wait_for_master mem i = Some t"
  shows "i \<le> t \<and> mem t ! 0 = 1"
  by (rule wait_for_master.raw_induct [where P = "\<lambda>mem i t. i \<le> t \<and> mem t ! 0 = 1", OF _ assms])
    (auto split: if_splits dest: Suc_leD)

lemma wait_for_master_diverges:
  "wait_for_master mem i = None \<longleftrightarrow> (\<forall>t \<ge> i. mem t ! 0 \<noteq> 1)"
proof
  show "wait_for_master mem i = None \<Longrightarrow> \<forall>t \<ge> i. mem t ! 0 \<noteq> 1"
    using wait_for_master_returns [of i _ mem] by fastforce
  show "\<forall>t \<ge> i. mem t ! 0 \<noteq> 1 \<Longrightarrow> wait_for_master mem i = None"
    using wait_for_master_seen [of mem i] by (cases "wait_for_master mem i") auto
qed

text \<open>A wait that reads the word only once goes on at once or never.\<close>

lemma wait_for_master_hoisted:
  assumes "\<And>t. mem t ! 0 = mem 0 ! 0"
  shows "wait_for_master mem 0 = (if mem 0 ! 0 = 1 then Some 0 else None)"
proof (cases "mem 0 ! 0 = 1")
  case True
  then show ?thesis by (simp add: wait_for_master.simps)
next
  case False
  then have "\<forall>t \<ge> 0. mem t ! 0 \<noteq> 1" using assms by metis
  then show ?thesis using False by (simp add: wait_for_master_diverges)
qed

definition region_graph :: "nat list list \<Rightarrow> 32 word list \<Rightarrow> nat csr_graph" where
  \<comment> \<open>the graph object over a region that holds the rows\<close>
  "region_graph rows ws = \<lparr>csr_directed = False, csr_num_nodes = int (length rows),
     csr_num_edges = Some (int (cells rows div 2)),
     csr_out_index = row_starts rows, csr_out_neighbors = map unat ws,
     csr_in_index = row_starts rows, csr_in_neighbors = map unat ws\<rparr>"

lemma finish_graph_region:
  "finish_graph False (int (length rows)) (row_starts rows, row_starts rows) ws
    = Inr (region_graph rows ws)"
proof -
  have "pointer_diff (row_starts rows) (length rows) 0 = Some (int (cells rows))"
    by (simp add: pointer_diff_def row_starts_def)
  moreover have "trunc_half (int k) = int (k div 2)" for k
    by (cases k) (simp_all add: trunc_half_def zdiv_int)
  ultimately show ?thesis by (simp add: finish_graph_def region_graph_def)
qed

lemma region_graph_rows:
  assumes lay: "layout rows ws" and f: "fits rows (length ws)" and ids: "small_ids rows"
    and range: "\<And>r v. r \<in> set rows \<Longrightarrow> v \<in> set r \<Longrightarrow> v < length rows"
  shows "graph_ok (region_graph rows ws)" "nodes (region_graph rows ws) = length rows"
    "u < length rows \<Longrightarrow> adj (region_graph rows ws) u = rows ! u"
    "u < length rows \<Longrightarrow> inv_adj (region_graph rows ws) u = rows ! u"
proof -
  let ?n = "length rows" and ?ps = "prefix_sums (map length rows)" and ?R = "rows_base rows"
  show nds: "nodes (region_graph rows ws) = ?n" by (simp add: nodes_def region_graph_def)
  have row: "row (row_starts rows) (map unat ws) u = rows ! u" if u: "u < ?n" for u
  proof (rule nth_equalityI)
    have le: "?ps ! Suc u \<le> cells rows" using u by (intro prefix_le_cells) simp
    then have end_in: "?R + ?ps ! Suc u \<le> length ws" using f by (simp add: fits_def)
    show len: "length (row (row_starts rows) (map unat ws) u) = length (rows ! u)"
      using u end_in by (simp add: row_def row_starts_def prefix_sums_Suc)
    fix j
    assume "j < length (row (row_starts rows) (map unat ws) u)"
    then have j: "j < length (rows ! u)" using len by simp
    note cell = concat_row_cell [OF u j]
    have "row (row_starts rows) (map unat ws) u ! j = unat (ws ! (?R + (?ps ! u + j)))"
      using u j end_in by (simp add: row_def row_starts_def nth_segment prefix_sums_Suc add.assoc)
    also have "\<dots> = unat (word_of_nat (rows ! u ! j) :: 32 word)"
      using lay cell by (simp add: layout_def)
    also have "\<dots> = rows ! u ! j"
    proof (rule of_nat_inverse [OF refl])
      show "rows ! u ! j < 2 ^ LENGTH(32)"
        using bspec [OF bspec [OF ids [unfolded small_ids_def] nth_mem [OF u]] nth_mem [OF j]] by simp
    qed
    finally show "row (row_starts rows) (map unat ws) u ! j = rows ! u ! j" .
  qed
  then show adj: "adj (region_graph rows ws) u = rows ! u" and "inv_adj (region_graph rows ws) u = rows ! u"
    if "u < ?n" for u
    using that by (simp_all add: adj_def inv_adj_def region_graph_def)
  have "sorted (row_starts rows)"
    using sorted_prefix_sums [of "map length rows"] by (simp add: row_starts_def sorted_map)
  moreover have "row_starts rows ! ?n \<le> length ws" using f by (simp add: row_starts_def fits_def)
  ultimately have iw: "index_wf ?n (row_starts rows) (map unat ws)"
    using f by (simp add: index_wf_def fits_def row_starts_def)
  moreover have "v < ?n" if "u < ?n" "v \<in> set (rows ! u)" for u v
    using range [OF nth_mem [OF that(1)] that(2)] .
  ultimately show "graph_ok (region_graph rows ws)"
    using row unfolding graph_ok_def csr_wf_def nds
    by (simp add: region_graph_def adj_def inv_adj_def)
qed

section \<open>Properties\<close>

lemma fits_counts: "fits rows size_words \<Longrightarrow> length rows < 2 ^ 62"
  by (simp add: fits_def rows_base_def)

lemma worker_graph_layout:
  assumes lay: "layout rows (mem t)" and f: "fits rows (length (mem t))"
    and t: "wait_for_master mem 0 = Some t" and h: "host_id > 0"
  shows "worker_graph host_id False mem = Inr (region_graph rows (mem t))"
proof -
  let ?x = "word_of_nat (Suc (length rows)) :: 64 word"
  have "assign_sizes (mem t) ?x (word_of_nat (cells rows)) host_id = Some (row_starts rows, row_starts rows)"
    unfolding assign_sizes_def Let_def using h
    by (simp add: unat_counts_fits(1) [OF f] assign_rows_eq [OF f] lay [unfolded layout_def] del: unat_of_nat of_nat_Suc)
  moreover have "sint (word_of_nat (length rows) :: 64 word) = int (length rows)"
    using fits_counts [OF f] by (simp add: signed_of_nat signed_take_bit_int_eq_self)
  ultimately show ?thesis
    using lay t by (simp add: worker_graph_def layout_def finish_graph_region del: of_nat_Suc)
qed

text \<open>C26: The allocator's half of the hand-over.  When the region is large enough, the constructor
  for host 0 returns, leaves in the region the header, the row sizes, the neighbour array and
  the rows, all of its stores stay inside the graph's part of the region, and the
  synchronisation word is stored once, last.\<close>

lemma master_publishes:
  assumes "fits rows (length (shm_words s))"
  shows "\<exists>t L. master_stores (int (length rows)) (prefix_sums (map length rows))
      (word_of_nat (Suc (length rows))) (concat rows) (word_of_nat (cells rows)) s
      = Some ((row_starts rows, row_starts rows), t) \<and> layout rows (shm_words t) \<and>
    shm_stores t = shm_stores s @ L @ [(0, 1)] \<and>
    (\<forall>(a, w) \<in> set L. 1 \<le> a \<and> a < rows_base rows + cells rows)"
  using master_stores_published [OF assms] published_words(1) [OF _ assms]
  by (fastforce simp: returns_iff published_def writes_def)

lemma master_publishes_witness:
  "\<exists>t L. master_stores 2 [0, 1, 2] 3 [1, 0] 2 \<lparr>shm_words = replicate 17 0, shm_stores = []\<rparr>
      = Some ((row_starts [[1], [0]], row_starts [[1], [0]]), t) \<and> layout [[1], [0]] (shm_words t) \<and>
    shm_stores t = [] @ L @ [(0, 1)] \<and> (\<forall>(a, w) \<in> set L. 1 \<le> a \<and> a < 17)"
proof -
  have "fits [[1], [0]] (length (shm_words \<lparr>shm_words = replicate 17 0, shm_stores = []\<rparr>))"
    by (simp add: fits_def rows_base_def cells_def)
  moreover have "prefix_sums (map length [[1], [0 :: nat]]) = [0, 1, 2]" by (simp add: prefix_sums_def)
  ultimately show ?thesis
    using master_publishes [of "[[1], [0]]" "\<lparr>shm_words = replicate 17 0, shm_stores = []\<rparr>"]
    by (simp add: rows_base_def cells_def)
qed

text \<open>C25: The hand-over itself.  The region starts without a 1 in the synchronisation word; the
  worker looks at it at times when any number of the allocator's stores have happened, in their
  order, and at some time all of them.  Then the worker's wait ends and its graph has the
  allocator's vertices, edge count and neighbour lists: no interleaving shows it a part of
  the graph.\<close>

lemma worker_sees_rows:
  assumes f: "fits rows (length (shm_words s))" and ids: "small_ids rows"
    and range: "\<And>r v. r \<in> set rows \<Longrightarrow> v \<in> set r \<Longrightarrow> v < length rows"
    and fresh: "shm_words s ! 0 \<noteq> 1"
    and master: "master_stores (int (length rows)) (prefix_sums (map length rows))
      (word_of_nat (Suc (length rows))) (concat rows) (word_of_nat (cells rows)) s = Some (ptrs, t)"
    and log: "shm_stores t = shm_stores s @ L"
    and mem: "\<And>i. mem i = replay (take (k i) L) (shm_words s)"
    and progress: "length L \<le> k i"
    and host: "host_id > 0"
  shows "\<exists>g. worker_graph host_id False mem = Inr g \<and> graph_ok g \<and> nodes g = length rows \<and>
    num_edges g = Some (int (cells rows div 2)) \<and>
    (\<forall>u < length rows. out_neigh g u 0 = Some (rows ! u) \<and> in_neigh g u 0 = Some (rows ! u))"
proof -
  have pub: "published rows s t"
    using master_stores_published [OF f] master by (simp add: returns_iff)
  note w = published_words [OF pub f]
  have "mem i = shm_words t"
  proof -
    obtain u where "shm_words t = (shm_words u)[0 := 1]" "shm_stores t = shm_stores u @ [(0, 1)]"
      "writes 1 (rows_base rows + cells rows) s u" using pub by (auto simp: published_def)
    then show ?thesis using log progress mem [of i] by (auto simp: writes_def replay_append replay_def)
  qed
  then obtain t' where t': "wait_for_master mem 0 = Some t'" "mem t' ! 0 = 1"
    using wait_for_master_returns [of 0 i mem] w(2) by auto
  have full: "mem t' = shm_words t"
    using published_prefix [OF pub fresh log] t'(2) mem [of t'] by simp
  have f': "fits rows (length (mem t'))" using f w(3) full by simp
  have lay: "layout rows (mem t')" using w(1) full by simp
  note g = region_graph_rows [OF lay f' ids range]
  show ?thesis
    using worker_graph_layout [OF lay f' t'(1) host] g graph_ok_neigh(1,2) [OF g(1)]
    by (simp add: num_edges_def) (simp add: region_graph_def)
qed

lemma worker_sees_rows_witness:
  "\<exists>L g. worker_graph 1 False (\<lambda>i. replay (take i L) (replicate 17 0)) = Inr g \<and> graph_ok g \<and>
     nodes g = 2 \<and> num_edges g = Some 1 \<and> out_neigh g 0 0 = Some [1] \<and> out_neigh g 1 0 = Some [0]"
proof -
  let ?rows = "[[1], [0]] :: nat list list"
  let ?s = "\<lparr>shm_words = replicate 17 0, shm_stores = []\<rparr> :: shm"
  have f: "fits ?rows (length (shm_words ?s))" by (simp add: fits_def rows_base_def cells_def)
  obtain ptrs t where t: "master_stores (int (length ?rows)) (prefix_sums (map length ?rows))
      (word_of_nat (Suc (length ?rows))) (concat ?rows) (word_of_nat (cells ?rows)) ?s = Some (ptrs, t)"
    using master_stores_published [OF f] by (auto simp: returns_iff)
  have "\<exists>g. worker_graph 1 False (\<lambda>i. replay (take i (shm_stores t)) (replicate 17 0)) = Inr g \<and>
    graph_ok g \<and> nodes g = length ?rows \<and> num_edges g = Some (int (cells ?rows div 2)) \<and>
    (\<forall>u < length ?rows. out_neigh g u 0 = Some (?rows ! u) \<and> in_neigh g u 0 = Some (?rows ! u))"
    by (rule worker_sees_rows [OF f _ _ _ t, where L = "shm_stores t" and k = "\<lambda>i. i"
          and i = "length (shm_stores t)"])
      (auto simp: small_ids_def)
  then show ?thesis
    by (intro exI [of _ "shm_stores t"]) (auto simp: cells_def less_Suc_eq)
qed

text \<open>The wait has no other condition: while the region still has a 1 in its first word from an
  earlier run, the worker takes whatever the region holds then, and what the allocator stores
  later does not matter.  Here it attaches to a graph of one vertex that an earlier run left.\<close>

lemma stale_synch_attaches:
  assumes "mem 0 ! 0 = 1"
  shows "worker_graph host_id validate_graph mem = worker_graph host_id validate_graph (\<lambda>_. mem 0)"
  using assms by (simp add: worker_graph_def wait_for_master.simps)

lemma stale_synch_attaches_witness:
  "worker_graph 1 False (\<lambda>i. if i = 0 then [1, 1, 0, 2, 0, 0, 0, 0, 0, 0, 0] else replicate 17 0)
    = worker_graph 1 False (\<lambda>_. [1, 1, 0, 2, 0, 0, 0, 0, 0, 0, 0]) \<and>
   (\<exists>g. worker_graph 1 False (\<lambda>_. [1, 1, 0, 2, 0, 0, 0, 0, 0, 0, 0]) = Inr g \<and> nodes g = 1)"
proof
  let ?old = "[1, 1, 0, 2, 0, 0, 0, 0, 0, 0, 0] :: 32 word list"
  show "worker_graph 1 False (\<lambda>i. if i = 0 then ?old else replicate 17 0)
      = worker_graph 1 False (\<lambda>_. ?old)"
    using stale_synch_attaches [of "\<lambda>i. if i = 0 then ?old else replicate 17 0" 1 False] by simp
  have "layout [[]] ?old" "fits [[]] (length ?old)"
    by (simp_all add: layout_def fits_def rows_base_def cells_def read64_def join64_def)
  then have "worker_graph 1 False (\<lambda>_. ?old) = Inr (region_graph [[]] ?old)"
    by (intro worker_graph_layout [where t = 0]) (simp_all add: wait_for_master.simps)
  then show "\<exists>g. worker_graph 1 False (\<lambda>_. ?old) = Inr g \<and> nodes g = 1"
    by (simp add: region_graph_def nodes_def)
qed

end
