(* ===== verification/CommandLine.thy ===== *)
theory CommandLine
  imports Prelude
begin

text \<open>
  The option classes of src/command_line.h.  The class hierarchy is a hierarchy of extensible
  records, \<open>HandleArg\<close> of a subclass falls back to the one of its base class, and \<open>ParseArgs\<close>
  takes the handler as an argument because the method is virtual.  The results of \<^verbatim>\<open>getopt\<close>
  are an argument: the option letters with their arguments, in their order.  \<^verbatim>\<open>std::stod\<close> and
  the printing of a \<^verbatim>\<open>double\<close> are arguments as well.  The locale \<open>option_class\<close> states what a
  subclass does to the options of \<^verbatim>\<open>CLBase\<close>.
\<close>

section \<open>Numbers as text\<close>

definition digit_of :: "char \<Rightarrow> nat option" where
  "digit_of c = (if 48 \<le> (of_char c :: nat) \<and> (of_char c :: nat) \<le> 57 then Some (of_char c - 48) else None)"

fun read_digits :: "string \<Rightarrow> nat \<Rightarrow> nat" where
  "read_digits [] acc = acc"
| "read_digits (c # cs) acc = (case digit_of c of None \<Rightarrow> acc | Some d \<Rightarrow> read_digits cs (10 * acc + d))"

definition is_space :: "char \<Rightarrow> bool" where
  "is_space c = ((of_char c :: nat) \<in> {9, 10, 11, 12, 13, 32})"

definition read_int :: "string \<Rightarrow> int" where
  "read_int s = (case dropWhile is_space s of
      [] \<Rightarrow> 0
    | c # cs \<Rightarrow> if c = CHR ''-'' then - int (read_digits cs 0)
        else if c = CHR ''+'' then int (read_digits cs 0) else int (read_digits (c # cs) 0))"

definition atoi :: "string \<Rightarrow> int result" where
  \<comment> \<open>the C function has no defined result when the value does not fit an \<^verbatim>\<open>int\<close>\<close>
  "atoi s = (let v = read_int s in
     if - (2 ^ 31) \<le> v \<and> v < 2 ^ 31 then Inr v else Inl NoDefinedResult)"

definition atol :: "string \<Rightarrow> int result" where
  "atol s = (let v = read_int s in
     if - (2 ^ 63) \<le> v \<and> v < 2 ^ 63 then Inr v else Inl NoDefinedResult)"

fun nat_digits :: "nat \<Rightarrow> string" where
  "nat_digits n = (if n < 10 then [char_of (48 + n)] else nat_digits (n div 10) @ [char_of (48 + n mod 10)])"

declare nat_digits.simps [simp del]

definition to_string :: "int \<Rightarrow> string" where
  "to_string i = (if i < 0 then CHR ''-'' # nat_digits (nat (- i)) else nat_digits (nat i))"

section \<open>The base class\<close>

record cl_base =
  cl_name :: string
  cl_get_args :: string
  cl_help_strings :: "string list"
  cl_host_id :: int
  cl_munmap :: int
  cl_size_in_gib :: int
  cl_test_mode :: int
  cl_scale :: int
  cl_degree :: int
  cl_filename :: string
  cl_symmetrize :: bool
  cl_uniform :: bool
  cl_in_place :: bool

definition pad_right :: "nat \<Rightarrow> string \<Rightarrow> string" where
  "pad_right w s = s @ replicate (w - length s) CHR '' ''"

definition pad_left :: "nat \<Rightarrow> string \<Rightarrow> string" where
  "pad_left w s = replicate (w - length s) CHR '' '' @ s"

definition kBufLen :: nat where
  "kBufLen = 100"

definition AddHelpLine :: "char \<Rightarrow> string \<Rightarrow> string \<Rightarrow> string \<Rightarrow> 'a cl_base_scheme \<Rightarrow> 'a cl_base_scheme" where
  \<comment> \<open>\<^verbatim>\<open>snprintf\<close> cuts the line so that it fits the buffer with its final zero\<close>
  "AddHelpLine opt opt_arg txt def s =
     (let opt_arg = (if opt_arg \<noteq> '''' then ''<'' @ opt_arg @ ''>'' else opt_arg);
          def = (if def \<noteq> '''' then ''['' @ def @ '']'' else def);
          line = '' -'' @ [opt] @ '' '' @ pad_right 9 opt_arg @ '': '' @ pad_right 54 txt @ pad_left 10 def
      in s\<lparr>cl_help_strings := cl_help_strings s @ [take (kBufLen - 1) line]\<rparr>)"

definition cl_base_init :: "string \<Rightarrow> cl_base" where
  \<comment> \<open>the initialisers of the fields\<close>
  "cl_base_init name = \<lparr>cl_name = name, cl_get_args = ''x:l:S:T:f:g:hk:su:m'', cl_help_strings = [],
     cl_host_id = -1, cl_munmap = 0, cl_size_in_gib = 0, cl_test_mode = 0, cl_scale = -1,
     cl_degree = 16, cl_filename = '''', cl_symmetrize = False, cl_uniform = False, cl_in_place = False\<rparr>"

definition CLBase :: "string \<Rightarrow> cl_base" where
  "CLBase name = (let s = cl_base_init name in
     fold (\<lambda>(c, a, t, d). AddHelpLine c a t d)
       [(CHR ''S'', ''int'', ''specify the size in GiB of the shared memory'', ''''),
        (CHR ''T'', ''int'', ''enable test mode /dev/shmem is mounted [0]/1'', ''''),
        (CHR ''l'', ''int'', ''if you want to zero out the memory [0]/1'', ''''),
        (CHR ''x'', ''int'', ''specify the host id. 0 -> master'', ''''),
        (CHR ''h'', '''', ''print this help message'', ''''),
        (CHR ''f'', ''file'', ''load graph from file'', ''''),
        (CHR ''s'', '''', ''symmetrize input edge list'', ''false''),
        (CHR ''g'', ''scale'', ''generate 2^scale kronecker graph'', ''''),
        (CHR ''u'', ''scale'', ''generate 2^scale uniform-random graph'', ''''),
        (CHR ''k'', ''degree'', ''average degree for synthetic graph'', to_string (cl_degree s)),
        (CHR ''m'', '''', ''reduces memory usage during graph building'', ''false'')] s)"

definition PrintUsage :: "'a cl_base_scheme \<Rightarrow> 'a cl_base_scheme result" where
  \<comment> \<open>the name and the help lines are printed, then \<^verbatim>\<open>exit(0)\<close>\<close>
  "PrintUsage s = Inl (Exit 0)"

definition CLBase_HandleArg :: "char \<Rightarrow> string \<Rightarrow> 'a cl_base_scheme \<Rightarrow> 'a cl_base_scheme result" where
  "CLBase_HandleArg opt opt_arg s =
     (if opt = CHR ''x'' then rbind (atoi opt_arg) (\<lambda>v. Inr (s\<lparr>cl_host_id := v\<rparr>))
      else if opt = CHR ''l'' then rbind (atoi opt_arg) (\<lambda>v. Inr (s\<lparr>cl_munmap := v\<rparr>))
      else if opt = CHR ''S'' then rbind (atoi opt_arg) (\<lambda>v. Inr (s\<lparr>cl_size_in_gib := v\<rparr>))
      else if opt = CHR ''T'' then rbind (atoi opt_arg) (\<lambda>v. Inr (s\<lparr>cl_test_mode := v\<rparr>))
      else if opt = CHR ''f'' then Inr (s\<lparr>cl_filename := opt_arg\<rparr>)
      else if opt = CHR ''g'' then rbind (atoi opt_arg) (\<lambda>v. Inr (s\<lparr>cl_scale := v\<rparr>))
      else if opt = CHR ''h'' then PrintUsage s
      else if opt = CHR ''k'' then rbind (atoi opt_arg) (\<lambda>v. Inr (s\<lparr>cl_degree := v\<rparr>))
      else if opt = CHR ''s'' then Inr (s\<lparr>cl_symmetrize := True\<rparr>)
      else if opt = CHR ''u'' then rbind (atoi opt_arg) (\<lambda>v. Inr (s\<lparr>cl_uniform := True, cl_scale := v\<rparr>))
      else if opt = CHR ''m'' then Inr (s\<lparr>cl_in_place := True\<rparr>)
      else Inr s)"

primrec handle_all ::
  "(char \<Rightarrow> string \<Rightarrow> 's \<Rightarrow> 's result) \<Rightarrow> (char \<times> string) list \<Rightarrow> 's \<Rightarrow> 's result" where
  \<comment> \<open>the loop over what \<^verbatim>\<open>getopt\<close> returns\<close>
  "handle_all HandleArg [] s = Inr s"
| "handle_all HandleArg (o_arg # opts) s =
     rbind (HandleArg (fst o_arg) (snd o_arg) s) (handle_all HandleArg opts)"

definition ParseArgs ::
  "(char \<Rightarrow> string \<Rightarrow> 'a cl_base_scheme \<Rightarrow> 'a cl_base_scheme result) \<Rightarrow> (char \<times> string) list \<Rightarrow>
   'a cl_base_scheme \<Rightarrow> ('a cl_base_scheme \<times> bool) result" where
  "ParseArgs HandleArg opts s = rbind (handle_all HandleArg opts s) (\<lambda>s.
     if cl_filename s = '''' \<and> cl_scale s = -1 then Inr (s, False)
     else Inr (if cl_scale s \<noteq> -1 then s\<lparr>cl_symmetrize := True\<rparr> else s, True))"

section \<open>Subclasses\<close>

record cl_app = cl_base +
  cl_do_analysis :: bool
  cl_num_trials :: int
  cl_start_vertex :: int
  cl_do_verify :: bool

definition CLApp :: "string \<Rightarrow> cl_app" where
  "CLApp name = (let b = CLBase name;
       s = cl_base.extend (b\<lparr>cl_get_args := cl_get_args b @ ''an:r:v''\<rparr>)
             (cl_app.fields False 16 (-1) False) in
     fold (\<lambda>(c, a, t, d). AddHelpLine c a t d)
       [(CHR ''a'', '''', ''output analysis of last run'', ''false''),
        (CHR ''n'', ''n'', ''perform n trials'', to_string (cl_num_trials s)),
        (CHR ''r'', ''node'', ''start from node r'', ''rand''),
        (CHR ''v'', '''', ''verify the output of each run'', ''false'')] s)"

definition CLApp_HandleArg :: "char \<Rightarrow> string \<Rightarrow> 'a cl_app_scheme \<Rightarrow> 'a cl_app_scheme result" where
  "CLApp_HandleArg opt opt_arg s =
     (if opt = CHR ''a'' then Inr (s\<lparr>cl_do_analysis := True\<rparr>)
      else if opt = CHR ''n'' then rbind (atoi opt_arg) (\<lambda>v. Inr (s\<lparr>cl_num_trials := v\<rparr>))
      else if opt = CHR ''r'' then rbind (atol opt_arg) (\<lambda>v. Inr (s\<lparr>cl_start_vertex := v\<rparr>))
      else if opt = CHR ''v'' then Inr (s\<lparr>cl_do_verify := True\<rparr>)
      else CLBase_HandleArg opt opt_arg s)"

record cl_iter_app = cl_app +
  cl_num_iters :: int

definition CLIterApp :: "string \<Rightarrow> int \<Rightarrow> cl_iter_app" where
  "CLIterApp name num_iters = (let b = CLApp name;
       s = cl_app.extend (b\<lparr>cl_get_args := cl_get_args b @ ''i:''\<rparr>) (cl_iter_app.fields num_iters) in
     AddHelpLine (CHR ''i'') ''i'' ''perform i iterations'' (to_string (cl_num_iters s)) s)"

definition CLIterApp_HandleArg :: "char \<Rightarrow> string \<Rightarrow> 'a cl_iter_app_scheme \<Rightarrow> 'a cl_iter_app_scheme result" where
  "CLIterApp_HandleArg opt opt_arg s =
     (if opt = CHR ''i'' then rbind (atoi opt_arg) (\<lambda>v. Inr (s\<lparr>cl_num_iters := v\<rparr>))
      else CLApp_HandleArg opt opt_arg s)"

record 'r cl_page_rank = cl_app +
  cl_max_iters :: int
  cl_tolerance :: 'r

definition CLPageRank :: "('r \<Rightarrow> string) \<Rightarrow> string \<Rightarrow> 'r \<Rightarrow> int \<Rightarrow> 'r cl_page_rank" where
  "CLPageRank print_double name tolerance max_iters = (let b = CLApp name;
       s = cl_app.extend (b\<lparr>cl_get_args := cl_get_args b @ ''i:t:''\<rparr>) (cl_page_rank.fields max_iters tolerance) in
     fold (\<lambda>(c, a, t, d). AddHelpLine c a t d)
       [(CHR ''i'', ''i'', ''perform at most i iterations'', to_string (cl_max_iters s)),
        (CHR ''t'', ''t'', ''use tolerance t'', print_double (cl_tolerance s))] s)"

definition CLPageRank_HandleArg ::
  "(string \<Rightarrow> 'r result) \<Rightarrow> char \<Rightarrow> string \<Rightarrow> ('r, 'a) cl_page_rank_scheme \<Rightarrow> ('r, 'a) cl_page_rank_scheme result" where
  "CLPageRank_HandleArg stod opt opt_arg s =
     (if opt = CHR ''i'' then rbind (atoi opt_arg) (\<lambda>v. Inr (s\<lparr>cl_max_iters := v\<rparr>))
      else if opt = CHR ''t'' then rbind (stod opt_arg) (\<lambda>v. Inr (s\<lparr>cl_tolerance := v\<rparr>))
      else CLApp_HandleArg opt opt_arg s)"

record cl_delta = cl_app +
  cl_delta :: int

definition CLDelta :: "string \<Rightarrow> cl_delta" where
  \<comment> \<open>the instance of the kernels, where \<^verbatim>\<open>WeightT_\<close> is \<^verbatim>\<open>int32_t\<close>\<close>
  "CLDelta name = (let b = CLApp name;
       s = cl_app.extend (b\<lparr>cl_get_args := cl_get_args b @ ''d:''\<rparr>) (cl_delta.fields 1) in
     AddHelpLine (CHR ''d'') ''d'' ''delta parameter'' (to_string (cl_delta s)) s)"

definition to_int32 :: "int \<Rightarrow> int" where
  \<comment> \<open>\<^verbatim>\<open>static_cast<int32_t>\<close>\<close>
  "to_int32 v = (v + 2 ^ 31) mod 2 ^ 32 - 2 ^ 31"

definition CLDelta_HandleArg :: "char \<Rightarrow> string \<Rightarrow> 'a cl_delta_scheme \<Rightarrow> 'a cl_delta_scheme result" where
  "CLDelta_HandleArg opt opt_arg s =
     (if opt = CHR ''d'' then rbind (atol opt_arg) (\<lambda>v. Inr (s\<lparr>cl_delta := to_int32 v\<rparr>))
      else CLApp_HandleArg opt opt_arg s)"

record cl_convert = cl_base +
  cl_out_filename :: string
  cl_out_weighted :: bool
  cl_out_el :: bool
  cl_out_sg :: bool

definition CLConvert :: "string \<Rightarrow> cl_convert" where
  "CLConvert name = (let b = CLBase name;
       s = cl_base.extend (b\<lparr>cl_get_args := cl_get_args b @ ''e:b:w''\<rparr>)
             (cl_convert.fields '''' False False False) in
     fold (\<lambda>(c, a, t, d). AddHelpLine c a t d)
       [(CHR ''b'', ''file'', ''output serialized graph to file'', ''''),
        (CHR ''e'', ''file'', ''output edge list to file'', ''''),
        (CHR ''w'', ''file'', ''make output weighted'', '''')] s)"

definition CLConvert_HandleArg :: "char \<Rightarrow> string \<Rightarrow> 'a cl_convert_scheme \<Rightarrow> 'a cl_convert_scheme result" where
  "CLConvert_HandleArg opt opt_arg s =
     (if opt = CHR ''b'' then Inr (s\<lparr>cl_out_sg := True, cl_out_filename := opt_arg\<rparr>)
      else if opt = CHR ''e'' then Inr (s\<lparr>cl_out_el := True, cl_out_filename := opt_arg\<rparr>)
      else if opt = CHR ''w'' then Inr (s\<lparr>cl_out_weighted := True\<rparr>)
      else CLBase_HandleArg opt opt_arg s)"

section \<open>The defaults\<close>

lemma AddHelpLine_fields [simp]:
  "cl_filename (AddHelpLine c a t d s) = cl_filename s" "cl_scale (AddHelpLine c a t d s) = cl_scale s"
  "cl_host_id (AddHelpLine c a t d s) = cl_host_id s" "cl_size_in_gib (AddHelpLine c a t d s) = cl_size_in_gib s"
  "cl_in_place (AddHelpLine c a t d s) = cl_in_place s" "cl_symmetrize (AddHelpLine c a t d s) = cl_symmetrize s"
  "cl_munmap (AddHelpLine c a t d s) = cl_munmap s" "cl_test_mode (AddHelpLine c a t d s) = cl_test_mode s"
  "cl_base.more (AddHelpLine c a t d s) = cl_base.more s"
  by (simp_all add: AddHelpLine_def Let_def)

lemma AddHelpLine_app_fields [simp]:
  "cl_num_trials (AddHelpLine c a t d s) = cl_num_trials s" "cl_start_vertex (AddHelpLine c a t d s) = cl_start_vertex s"
  "cl_do_verify (AddHelpLine c a t d s) = cl_do_verify s" "cl_do_analysis (AddHelpLine c a t d s) = cl_do_analysis s"
  "cl_app.more (AddHelpLine c a t d s) = cl_app.more s"
  by (simp_all add: AddHelpLine_def Let_def)

lemma CLBase_defaults:
  "cl_filename (CLBase name) = ''''" "cl_scale (CLBase name) = -1" "cl_host_id (CLBase name) = -1"
  "cl_size_in_gib (CLBase name) = 0" "\<not> cl_in_place (CLBase name)" "\<not> cl_symmetrize (CLBase name)"
  "cl_munmap (CLBase name) = 0" "cl_test_mode (CLBase name) = 0"
  by (simp_all add: CLBase_def cl_base_init_def Let_def)

lemma CLApp_defaults:
  "cl_filename (CLApp name) = ''''" "cl_scale (CLApp name) = -1" "cl_host_id (CLApp name) = -1"
  "cl_size_in_gib (CLApp name) = 0" "\<not> cl_in_place (CLApp name)" "\<not> cl_symmetrize (CLApp name)"
  "cl_num_trials (CLApp name) = 16" "cl_start_vertex (CLApp name) = -1" "\<not> cl_do_verify (CLApp name)" "\<not> cl_do_analysis (CLApp name)"
  by (simp_all add: CLApp_def Let_def cl_base.extend_def cl_app.fields_def CLBase_defaults)

lemma CLDelta_defaults:
  "cl_filename (CLDelta name) = ''''" "cl_scale (CLDelta name) = -1" "cl_host_id (CLDelta name) = -1"
  "cl_size_in_gib (CLDelta name) = 0" "\<not> cl_in_place (CLDelta name)" "\<not> cl_symmetrize (CLDelta name)"
  "cl_num_trials (CLDelta name) = 16" "cl_start_vertex (CLDelta name) = -1" "\<not> cl_do_verify (CLDelta name)" "\<not> cl_do_analysis (CLDelta name)"
  "cl_delta (CLDelta name) = 1"
  by (simp_all add: CLDelta_def Let_def cl_app.extend_def cl_delta.fields_def CLApp_defaults)
    (simp_all add: AddHelpLine_def Let_def)

section \<open>Printing and reading numbers\<close>

lemma digit_of_char [simp]: "d < 10 \<Longrightarrow> digit_of (char_of (48 + d)) = Some d"
  by (simp add: digit_of_def)

lemma read_digits_append:
  "(\<And>c. c \<in> set cs \<Longrightarrow> digit_of c \<noteq> None) \<Longrightarrow>
   read_digits (cs @ ds) acc = read_digits ds (read_digits cs acc)"
proof (induction cs arbitrary: acc)
  case Nil
  then show ?case by simp
next
  case (Cons c cs)
  then obtain d where "digit_of c = Some d" by fastforce
  then show ?case using Cons by simp
qed

lemma nat_digits_digits: "c \<in> set (nat_digits n) \<Longrightarrow> digit_of c \<noteq> None"
proof (induction n rule: nat_digits.induct)
  case (1 n)
  then show ?case by (subst (asm) (2) nat_digits.simps) (auto split: if_splits)
qed

lemma read_nat_digits: "read_digits (nat_digits n) 0 = n"
proof (induction n rule: nat_digits.induct)
  case (1 n)
  then show ?case
    by (subst nat_digits.simps) (simp add: read_digits_append nat_digits_digits)
qed

lemma nat_digits_Cons: "\<exists>c cs. nat_digits n = c # cs \<and> digit_of c \<noteq> None"
proof -
  have "nat_digits n \<noteq> []" by (subst nat_digits.simps) simp
  then obtain c cs where "nat_digits n = c # cs" by (cases "nat_digits n") auto
  then show ?thesis using nat_digits_digits [of c n] by simp
qed

lemma digit_not_special:
  assumes "digit_of c \<noteq> None"
  shows "\<not> is_space c" "c \<noteq> CHR ''-''" "c \<noteq> CHR ''+''"
  using assms by (auto simp: digit_of_def is_space_def split: if_splits)

lemma read_int_to_string: "read_int (to_string v) = v"
proof (cases "v < 0")
  case True
  have "\<not> is_space CHR ''-''" by (simp add: is_space_def)
  then show ?thesis using True by (simp add: to_string_def read_int_def read_nat_digits)
next
  case False
  obtain c cs where c: "nat_digits (nat v) = c # cs" "digit_of c \<noteq> None"
    using nat_digits_Cons by blast
  show ?thesis
    using False c digit_not_special [OF c(2)] read_nat_digits [of "nat v"]
    by (simp add: to_string_def read_int_def)
qed

section \<open>Subclasses and the options of the base class\<close>

lemma ParseArgs_simps:
  "ParseArgs h opts s = Inr (s', ok) \<longleftrightarrow> (\<exists>s1. handle_all h opts s = Inr s1 \<and>
     ok = (cl_filename s1 \<noteq> '''' \<or> cl_scale s1 \<noteq> -1) \<and>
     s' = (if cl_scale s1 \<noteq> -1 then s1\<lparr>cl_symmetrize := True\<rparr> else s1))"
proof (cases "handle_all h opts s")
  case (Inr s1)
  show ?thesis
    by (cases "cl_filename s1 = ''''"; cases "cl_scale s1 = -1") (auto simp: ParseArgs_def Inr)
qed (simp add: ParseArgs_def)

lemma truncate_own [simp]:
  "cl_base.truncate (cl_do_analysis_update f s) = cl_base.truncate s"
  "cl_base.truncate (cl_num_trials_update g s) = cl_base.truncate s"
  "cl_base.truncate (cl_start_vertex_update g s) = cl_base.truncate s"
  "cl_base.truncate (cl_do_verify_update f s) = cl_base.truncate s"
  "cl_base.truncate (cl_num_iters_update g t) = cl_base.truncate t"
  "cl_base.truncate (cl_max_iters_update g u) = cl_base.truncate u"
  "cl_base.truncate (cl_tolerance_update h u) = cl_base.truncate u"
  "cl_base.truncate (cl_delta_update g v) = cl_base.truncate v"
  "cl_base.truncate (cl_out_filename_update k w) = cl_base.truncate w"
  "cl_base.truncate (cl_out_weighted_update f w) = cl_base.truncate w"
  "cl_base.truncate (cl_out_el_update f w) = cl_base.truncate w"
  "cl_base.truncate (cl_out_sg_update f w) = cl_base.truncate w"
  by (simp_all add: cl_base.truncate_def)

lemma truncate_base [simp]:
  "cl_base.truncate (cl_host_id_update g s) = cl_host_id_update g (cl_base.truncate s)"
  "cl_base.truncate (cl_munmap_update g s) = cl_munmap_update g (cl_base.truncate s)"
  "cl_base.truncate (cl_size_in_gib_update g s) = cl_size_in_gib_update g (cl_base.truncate s)"
  "cl_base.truncate (cl_test_mode_update g s) = cl_test_mode_update g (cl_base.truncate s)"
  "cl_base.truncate (cl_scale_update g s) = cl_scale_update g (cl_base.truncate s)"
  "cl_base.truncate (cl_degree_update g s) = cl_degree_update g (cl_base.truncate s)"
  "cl_base.truncate (cl_filename_update k s) = cl_filename_update k (cl_base.truncate s)"
  "cl_base.truncate (cl_symmetrize_update f s) = cl_symmetrize_update f (cl_base.truncate s)"
  "cl_base.truncate (cl_uniform_update f s) = cl_uniform_update f (cl_base.truncate s)"
  "cl_base.truncate (cl_in_place_update f s) = cl_in_place_update f (cl_base.truncate s)"
  "cl_filename (cl_base.truncate s) = cl_filename s" "cl_scale (cl_base.truncate s) = cl_scale s"
  by (simp_all add: cl_base.truncate_def)

locale option_class =
  fixes handle :: "char \<Rightarrow> string \<Rightarrow> 'a cl_base_scheme \<Rightarrow> 'a cl_base_scheme result"
    and own :: "char set"
  assumes own_law: "c \<in> own \<Longrightarrow> handle c arg s = Inr s' \<Longrightarrow> cl_base.truncate s' = cl_base.truncate s"
    and inherited_law: "c \<notin> own \<Longrightarrow> handle c arg s = Inr s' \<Longrightarrow>
      CLBase_HandleArg c arg (cl_base.truncate s) = Inr (cl_base.truncate s')"
begin

definition inherited :: "(char \<times> string) list \<Rightarrow> (char \<times> string) list" where
  "inherited opts = filter (\<lambda>p. fst p \<notin> own) opts"

lemma handle_all_base:
  "handle_all handle opts s = Inr s' \<Longrightarrow>
   handle_all CLBase_HandleArg (inherited opts) (cl_base.truncate s) = Inr (cl_base.truncate s')"
proof (induction opts arbitrary: s)
  case Nil
  then show ?case by (simp add: inherited_def)
next
  case (Cons p opts)
  then obtain s1 where s1: "handle (fst p) (snd p) s = Inr s1" "handle_all handle opts s1 = Inr s'"
    by (auto simp: rbind_eq_Inr)
  then have rest: "handle_all CLBase_HandleArg (inherited opts) (cl_base.truncate s1) = Inr (cl_base.truncate s')"
    using Cons.IH by blast
  show ?case
    using own_law [OF _ s1(1)] inherited_law [OF _ s1(1)] rest
    by (cases "fst p \<in> own") (simp_all add: inherited_def)
qed

lemma ParseArgs_base:
  assumes "ParseArgs handle opts s = Inr (s', ok)"
  shows "ParseArgs CLBase_HandleArg (inherited opts) (cl_base.truncate s) = Inr (cl_base.truncate s', ok)"
  using assms handle_all_base [of opts s] by (fastforce simp: ParseArgs_simps)

end

lemma HandleArg_base: "CLBase_HandleArg c arg s = Inr s' \<Longrightarrow>
    CLBase_HandleArg c arg (cl_base.truncate s) = Inr (cl_base.truncate s')"
  by (auto simp: CLBase_HandleArg_def PrintUsage_def rbind_eq_Inr split: if_splits)

lemmas handlers = CLApp_HandleArg_def CLIterApp_HandleArg_def CLPageRank_HandleArg_def
  CLDelta_HandleArg_def CLConvert_HandleArg_def

interpretation cl_app_options: option_class CLApp_HandleArg "set ''anrv''"
  by unfold_locales (auto simp: handlers rbind_eq_Inr dest: HandleArg_base split: if_splits)

interpretation cl_iter_options: option_class CLIterApp_HandleArg "set ''ianrv''"
  by unfold_locales (auto simp: handlers rbind_eq_Inr dest: HandleArg_base split: if_splits)

interpretation cl_pr_options: option_class "CLPageRank_HandleArg stod" "set ''itanrv''" for stod
  by unfold_locales (auto simp: handlers rbind_eq_Inr dest: HandleArg_base split: if_splits)

interpretation cl_delta_options: option_class CLDelta_HandleArg "set ''danrv''"
  by unfold_locales (auto simp: handlers rbind_eq_Inr dest: HandleArg_base split: if_splits)

interpretation cl_convert_options: option_class CLConvert_HandleArg "set ''bew''"
  by unfold_locales (auto simp: handlers rbind_eq_Inr dest: HandleArg_base split: if_splits)

section \<open>Properties\<close>

text \<open>What \<open>atoi\<close> reads back from a printed number is the number, for every \<^verbatim>\<open>int\<close>: the
  options that print their default in the help text accept it.\<close>

lemma atoi_to_string:
  assumes "- (2 ^ 31) \<le> v" "v < 2 ^ 31"
  shows "atoi (to_string v) = Inr v"
  using assms by (simp add: atoi_def read_int_to_string)

lemma atoi_to_string_witness: "atoi (to_string (-305)) = Inr (-305)"
  by (rule atoi_to_string) simp_all

text \<open>\<open>ParseArgs\<close> of any class of the hierarchy succeeds exactly when an input file or a scale was
  given, and a generated graph is always symmetrized.\<close>

lemma ParseArgs_input:
  assumes "ParseArgs HandleArg opts s = Inr (s', ok)"
  shows "(ok \<longleftrightarrow> cl_filename s' \<noteq> '''' \<or> cl_scale s' \<noteq> -1) \<and> (cl_scale s' \<noteq> -1 \<longrightarrow> cl_symmetrize s')"
proof -
  obtain s1 where "ok = (cl_filename s1 \<noteq> '''' \<or> cl_scale s1 \<noteq> -1)"
    "s' = (if cl_scale s1 \<noteq> -1 then s1\<lparr>cl_symmetrize := True\<rparr> else s1)"
    using assms by (auto simp: ParseArgs_simps)
  then show ?thesis by simp
qed

lemma ParseArgs_input_witness:
  "\<exists>s'. ParseArgs CLBase_HandleArg [(CHR ''g'', ''4''), (CHR ''x'', ''0'')] (CLBase ''bfs'') = Inr (s', True) \<and>
     cl_symmetrize s'"
proof -
  let ?s = "(CLBase ''bfs'')\<lparr>cl_scale := 4, cl_host_id := 0, cl_symmetrize := True\<rparr>"
  have "atoi ''4'' = Inr 4" "atoi ''0'' = Inr 0"
    by (simp_all add: atoi_def read_int_def is_space_def digit_of_def)
  then have run: "ParseArgs CLBase_HandleArg [(CHR ''g'', ''4''), (CHR ''x'', ''0'')] (CLBase ''bfs'') = Inr (?s, True)"
    by (simp add: ParseArgs_def CLBase_HandleArg_def)
  from ParseArgs_input [OF run] have "cl_symmetrize ?s" by simp
  with run show ?thesis by blast
qed

text \<open>The options that the kernels add leave those of \<^verbatim>\<open>CLBase\<close> alone: the base part of what
  \<^verbatim>\<open>CLApp\<close> parses is what \<^verbatim>\<open>CLBase\<close> would parse from the remaining options.\<close>

lemma CLApp_inherits:
  assumes "ParseArgs CLApp_HandleArg opts s = Inr (s', ok)"
  shows "ParseArgs CLBase_HandleArg (filter (\<lambda>p. fst p \<notin> set ''anrv'') opts) (cl_base.truncate s)
    = Inr (cl_base.truncate s', ok)"
  using cl_app_options.ParseArgs_base [OF assms] by (simp only: cl_app_options.inherited_def)

lemma CLApp_inherits_witness:
  "ParseArgs CLBase_HandleArg [(CHR ''f'', ''a.el'')] (cl_base.truncate (CLApp ''tc''))
    = Inr (cl_base.truncate ((CLApp ''tc'')\<lparr>cl_do_verify := True, cl_filename := ''a.el''\<rparr>), True)"
proof -
  have "cl_scale (CLApp ''tc'') = -1"
    by (simp add: CLApp_def CLBase_def cl_base_init_def Let_def AddHelpLine_def cl_base.extend_def)
  then have "ParseArgs CLApp_HandleArg [(CHR ''v'', ''''), (CHR ''f'', ''a.el'')] (CLApp ''tc'')
      = Inr ((CLApp ''tc'')\<lparr>cl_do_verify := True, cl_filename := ''a.el''\<rparr>, True)"
    by (simp add: ParseArgs_def CLApp_HandleArg_def CLBase_HandleArg_def)
  from CLApp_inherits [OF this] show ?thesis by simp
qed

end
