(* ===== verification/Generator.thy ===== *)
theory Generator
  imports Graph
begin

text \<open>
  src/generator.h.  The random sources are arguments: \<open>draws seed k\<close> is the k-th value drawn
  after the engine was seeded with \<open>seed\<close>, \<open>shuffle\<close> is \<^verbatim>\<open>std::shuffle\<close> with the engine seeded
  by \<^verbatim>\<open>kRandSeed\<close>.  The parameters of R-MAT are the three thresholds \<^verbatim>\<open>A\<close>, \<^verbatim>\<open>A+B\<close> and \<^verbatim>\<open>A+B+C\<close>
  in the order type of the drawn values.  An edge list is the list of its cells.
\<close>

section \<open>The class\<close>

definition kRandSeed :: nat where
  "kRandSeed = 27491095"

definition gen_block_size :: nat where
  "gen_block_size = 2 ^ 18"

record generator =
  gen_host_id :: int
  gen_scale :: int
  gen_num_nodes :: int
  gen_num_edges :: int

definition Generator_no_host :: "int \<Rightarrow> int \<Rightarrow> generator result" where
  "Generator_no_host scale degree = Inl (Exit (-1))"

definition Generator :: "int \<Rightarrow> int \<Rightarrow> int \<Rightarrow> generator result" where
  \<comment> \<open>a shift or product that leaves the signed 64-bit range has no defined result\<close>
  "Generator scale degree host_id =
     (if scale < 0 \<or> scale \<ge> 63 then Inl NoDefinedResult
      else let num_nodes = 2 ^ nat scale; num_edges = num_nodes * degree in
        if num_edges < - (2 ^ 63) \<or> num_edges \<ge> 2 ^ 63 then Inl NoDefinedResult
        else if num_nodes > 2 ^ 31 - 1 then Inl (Exit (-31))
        else Inr \<lparr>gen_host_id = host_id, gen_scale = scale, gen_num_nodes = num_nodes,
                  gen_num_edges = num_edges\<rparr>)"

definition PermuteIDs ::
  "(nat list \<Rightarrow> nat list) \<Rightarrow> generator \<Rightarrow> (nat, nat) edge_pair list \<Rightarrow> (nat, nat) edge_pair list option" where
  "PermuteIDs shuffle gen el = do {
     permutation \<leftarrow> foldM (\<lambda>n p. wr p n n) [0..<nat (gen_num_nodes gen)] (uninit (nat (gen_num_nodes gen)));
     let permutation = shuffle permutation;
     foldM (\<lambda>e el. do {
       x \<leftarrow> rd el e;
       u \<leftarrow> rd permutation (e_u x);
       v \<leftarrow> rd permutation (e_v x);
       wr el e (EdgePair u v) }) [0..<nat (gen_num_edges gen)] el }"

definition MakeUniformEL :: "generator \<Rightarrow> (nat, nat) edge_pair list result" where
  \<comment> \<open>the generating code after the \<^verbatim>\<open>exit\<close> is never reached\<close>
  "MakeUniformEL gen = Inl (Exit (-1))"

section \<open>R-MAT\<close>

definition rmat_step :: "'r::linorder \<Rightarrow> 'r \<Rightarrow> 'r \<Rightarrow> 'r \<Rightarrow> nat \<times> nat \<Rightarrow> nat \<times> nat" where
  \<comment> \<open>one level of the recursion: both ids get one more bit\<close>
  "rmat_step A AB ABC rand_point s = (case s of (src, dst) \<Rightarrow>
     let src = 2 * src; dst = 2 * dst in
     if rand_point < AB then (src, if rand_point > A then dst + 1 else dst)
     else (src + 1, if rand_point > ABC then dst + 1 else dst))"

definition rmat_edge :: "'r::linorder \<Rightarrow> 'r \<Rightarrow> 'r \<Rightarrow> nat \<Rightarrow> (nat \<Rightarrow> 'r) \<Rightarrow> (nat, nat) edge_pair" where
  \<comment> \<open>\<open>draw\<close> gives the values for this edge, one for each depth\<close>
  "rmat_edge A AB ABC scale draw =
     (case fold (\<lambda>depth. rmat_step A AB ABC (draw depth)) [0..<scale] (0, 0) of (src, dst) \<Rightarrow>
        EdgePair src dst)"

definition rmat_block ::
  "'r::linorder \<Rightarrow> 'r \<Rightarrow> 'r \<Rightarrow> (nat \<Rightarrow> nat \<Rightarrow> 'r) \<Rightarrow> nat \<Rightarrow> generator \<Rightarrow> nat \<Rightarrow>
   (nat, nat) edge_pair list \<Rightarrow> (nat, nat) edge_pair list option" where
  \<comment> \<open>the iteration for one block: the engine is seeded anew, the draws follow one another.
    \<open>block_size\<close> is 2 to the power of 18 in the program\<close>
  "rmat_block A AB ABC draws block_size gen b el =
    (let block = b * block_size; rng = draws (kRandSeed + b); scale = nat (gen_scale gen) in
     foldM (\<lambda>e el. wr el e (rmat_edge A AB ABC scale (\<lambda>depth. rng ((e - block) * scale + depth))))
       [block..<min (block + block_size) (nat (gen_num_edges gen))] el)"

definition rmat_blocks :: "nat \<Rightarrow> generator \<Rightarrow> nat list" where
  \<comment> \<open>the numbers of the blocks, \<^verbatim>\<open>block/block_size\<close>\<close>
  "rmat_blocks block_size gen = [0..<(nat (gen_num_edges gen) + block_size - 1) div block_size]"

definition MakeRMatEL ::
  "'r::linorder \<Rightarrow> 'r \<Rightarrow> 'r \<Rightarrow> (nat \<Rightarrow> nat \<Rightarrow> 'r) \<Rightarrow> (nat list \<Rightarrow> nat list) \<Rightarrow> generator \<Rightarrow>
   (nat, nat) edge_pair list result" where
  "MakeRMatEL A AB ABC draws shuffle gen =
     (if gen_num_edges gen < 0 then Inl NoDefinedResult
      else of_opt (do {
        el \<leftarrow> foldM (rmat_block A AB ABC draws gen_block_size gen) (rmat_blocks gen_block_size gen)
               (uninit (nat (gen_num_edges gen)));
        PermuteIDs shuffle gen el }))"

definition GenerateEL ::
  "'r::linorder \<Rightarrow> 'r \<Rightarrow> 'r \<Rightarrow> (nat \<Rightarrow> nat \<Rightarrow> 'r) \<Rightarrow> (nat list \<Rightarrow> nat list) \<Rightarrow> generator \<Rightarrow> bool \<Rightarrow>
   (nat, nat) edge_pair list result" where
  "GenerateEL A AB ABC draws shuffle gen uniform =
     (if uniform then MakeUniformEL gen else MakeRMatEL A AB ABC draws shuffle gen)"

definition InsertWeights ::
  "(nat \<Rightarrow> nat \<Rightarrow> int) \<Rightarrow> (nat, node_weight) edge_pair list \<Rightarrow> (nat, node_weight) edge_pair list option" where
  \<comment> \<open>each block of the edge list draws from an engine seeded for the block\<close>
  "InsertWeights draws el =
     foldM (\<lambda>b el. foldM (\<lambda>e el. do {
          x \<leftarrow> rd el e;
          wr el e (EdgePair (e_u x) (NodeWeight (nw_v (e_v x)) (draws (kRandSeed + b) (e - b * gen_block_size)))) })
        [b * gen_block_size..<min (b * gen_block_size + gen_block_size) (length el)] el)
       [0..<(length el + gen_block_size - 1) div gen_block_size] el"

section \<open>Blocks in any order\<close>

lemma rmat_step_bound:
  "fst s < 2 ^ d \<and> snd s < 2 ^ d \<Longrightarrow>
   fst (rmat_step A AB ABC r s) < 2 ^ Suc d \<and> snd (rmat_step A AB ABC r s) < 2 ^ Suc d"
  by (cases s) (auto simp: rmat_step_def Let_def)

lemma rmat_edge_bound: "e_u (rmat_edge A AB ABC scale draw) < 2 ^ scale \<and> e_v (rmat_edge A AB ABC scale draw) < 2 ^ scale"
proof -
  have "fst (fold (\<lambda>depth. rmat_step A AB ABC (draw depth)) [0..<d] (0, 0)) < 2 ^ d \<and>
      snd (fold (\<lambda>depth. rmat_step A AB ABC (draw depth)) [0..<d] (0, 0)) < 2 ^ d" for d
    by (induction d) (use rmat_step_bound in simp_all)
  then show ?thesis by (simp add: rmat_edge_def split: prod.splits) (metis fst_conv snd_conv)
qed

text \<open>The edge that the program writes to a cell, whatever the order of the blocks.\<close>

definition rmat_cell ::
  "'r::linorder \<Rightarrow> 'r \<Rightarrow> 'r \<Rightarrow> (nat \<Rightarrow> nat \<Rightarrow> 'r) \<Rightarrow> nat \<Rightarrow> generator \<Rightarrow> nat \<Rightarrow> (nat, nat) edge_pair" where
  "rmat_cell A AB ABC draws block_size gen e =
     rmat_edge A AB ABC (nat (gen_scale gen))
       (\<lambda>depth. draws (kRandSeed + e div block_size) (e mod block_size * nat (gen_scale gen) + depth))"

lemma rmat_block_returns:
  fixes A AB ABC :: "'r::linorder"
  assumes bs: "0 < block_size" and len: "length el = nat (gen_num_edges gen)"
  shows "returns (rmat_block A AB ABC draws block_size gen b el)
    (\<lambda>el'. length el' = length el \<and>
      (\<forall>e < length el. el' ! e = (if e div block_size = b then rmat_cell A AB ABC draws block_size gen e else el ! e)))"
proof -
  let ?lo = "b * block_size" and ?hi = "min (b * block_size + block_size) (nat (gen_num_edges gen))"
  let ?cell = "rmat_cell A AB ABC draws block_size gen"
  have inside: "e div block_size = b \<longleftrightarrow> ?lo \<le> e \<and> e < ?hi" if "e < length el" for e
  proof
    assume "e div block_size = b"
    then show "?lo \<le> e \<and> e < ?hi"
      using that len bs div_mult_mod_eq [of e block_size] mod_less_divisor [OF bs, of e] by auto
  next
    assume "?lo \<le> e \<and> e < ?hi"
    then show "e div block_size = b"
      using bs by (intro div_nat_eqI) (auto simp: mult.commute)
  qed
  have "returns (rmat_block A AB ABC draws block_size gen b el)
    (\<lambda>el'. length el' = length el \<and> (\<forall>e < length el. el' ! e = (if ?lo \<le> e \<and> e < ?hi then ?cell e else el ! e)))"
    unfolding rmat_block_def Let_def
  proof (rule foldM_rule [where I = "\<lambda>k el'. length el' = length el \<and>
      (\<forall>e < length el. el' ! e = (if ?lo \<le> e \<and> e < ?lo + k then ?cell e else el ! e))"])
    fix i el'
    assume i: "i < length [?lo..<?hi]" and I: "length el' = length el \<and>
      (\<forall>e < length el. el' ! e = (if ?lo \<le> e \<and> e < ?lo + i then ?cell e else el ! e))"
    have hi: "?lo + i < ?hi" using i by (simp only: length_upt)
    then have e: "[?lo..<?hi] ! i = ?lo + i" "?lo + i < length el" using len by (simp_all only: nth_upt)
    have "(?lo + i) div block_size = b" using inside [OF e(2)] hi by simp
    then have "rmat_edge A AB ABC (nat (gen_scale gen))
        (\<lambda>depth. draws (kRandSeed + b) (([?lo..<?hi] ! i - ?lo) * nat (gen_scale gen) + depth)) = ?cell (?lo + i)"
      unfolding rmat_cell_def e(1) using minus_mod_eq_div_mult [of "?lo + i" block_size]
      by (simp add: minus_div_mult_eq_mod [symmetric])
    then show "returns (wr el' ([?lo..<?hi] ! i) (rmat_edge A AB ABC (nat (gen_scale gen))
        (\<lambda>depth. draws (kRandSeed + b) (([?lo..<?hi] ! i - ?lo) * nat (gen_scale gen) + depth))))
      (\<lambda>el'. length el' = length el \<and>
        (\<forall>e < length el. el' ! e = (if ?lo \<le> e \<and> e < ?lo + Suc i then ?cell e else el ! e)))"
      using I e by (auto simp: nth_list_update)
  qed auto
  then show ?thesis by (rule returns_mono) (auto simp: inside)
qed

lemma rmat_blocks_returns:
  fixes A AB ABC :: "'r::linorder"
  assumes bs: "0 < block_size" and len: "length el = nat (gen_num_edges gen)"
    and all: "set bl = set (rmat_blocks block_size gen)"
  shows "foldM (rmat_block A AB ABC draws block_size gen) bl el
    = Some (map (rmat_cell A AB ABC draws block_size gen) [0..<nat (gen_num_edges gen)])"
proof -
  let ?cell = "rmat_cell A AB ABC draws block_size gen" and ?m = "nat (gen_num_edges gen)"
  have "returns (foldM (rmat_block A AB ABC draws block_size gen) bl el)
    (\<lambda>el'. el' = map ?cell [0..<?m])"
  proof (rule foldM_set_rule [where I = "\<lambda>D el'. length el' = ?m \<and> (\<forall>e < ?m. e div block_size \<in> D \<longrightarrow> el' ! e = ?cell e)"])
    fix b D el'
    assume I: "length el' = ?m \<and> (\<forall>e < ?m. e div block_size \<in> D \<longrightarrow> el' ! e = ?cell e)"
    show "returns (rmat_block A AB ABC draws block_size gen b el')
      (\<lambda>el'. length el' = ?m \<and> (\<forall>e < ?m. e div block_size \<in> insert b D \<longrightarrow> el' ! e = ?cell e))"
      by (rule returns_mono [OF rmat_block_returns [OF bs]]) (use I in auto)
  next
    fix el'
    assume I: "length el' = ?m \<and> (\<forall>e < ?m. e div block_size \<in> set bl \<longrightarrow> el' ! e = ?cell e)"
    have "e div block_size \<in> set bl" if "e < ?m" for e
    proof -
      have "e div block_size < (?m + block_size - 1) div block_size"
        using that dividend_less_div_times [OF bs, of "?m + block_size - 1"]
        by (intro less_mult_imp_div_less) linarith
      then show ?thesis by (simp add: all rmat_blocks_def)
    qed
    with I show "el' = map ?cell [0..<?m]" by (auto intro!: nth_equalityI)
  qed (use len in auto)
  then show ?thesis by (auto simp: returns_iff)
qed

section \<open>Permuting the ids\<close>

lemma PermuteIDs_eq:
  assumes len: "length el = nat (gen_num_edges gen)"
    and ids: "\<And>x. x \<in> set el \<Longrightarrow> e_u x < nat (gen_num_nodes gen) \<and> e_v x < nat (gen_num_nodes gen)"
    and perm: "length (shuffle [0..<nat (gen_num_nodes gen)]) = nat (gen_num_nodes gen)"
  defines "p \<equiv> shuffle [0..<nat (gen_num_nodes gen)]"
  shows "PermuteIDs shuffle gen el = Some (map (\<lambda>x. EdgePair (p ! e_u x) (p ! e_v x)) el)"
proof -
  let ?n = "nat (gen_num_nodes gen)" and ?m = "nat (gen_num_edges gen)"
  let ?f = "\<lambda>x. EdgePair (p ! e_u x) (p ! e_v x)"
  have p: "length p = ?n" using perm by (simp add: p_def)
  have "returns (foldM (\<lambda>e el. do { x \<leftarrow> rd el e; u \<leftarrow> rd p (e_u x); v \<leftarrow> rd p (e_v x); wr el e (EdgePair u v) })
      [0..<?m] el) (\<lambda>el'. el' = map ?f el)"
  proof (rule foldM_upt_rule [where I = "\<lambda>k el'. el' = map ?f (take k el) @ drop k el"])
    fix i el'
    assume i: "i < ?m" and I: "el' = map ?f (take i el) @ drop i el"
    have nth: "el' ! i = el ! i" "length el' = length el" using i len I by (simp_all add: nth_append)
    have "e_u (el ! i) < length p" "e_v (el ! i) < length p" using ids [of "el ! i"] i len p by auto
    moreover have "el'[i := ?f (el ! i)] = map ?f (take (Suc i) el) @ drop (Suc i) el"
      using i len unfolding I by (simp add: list_update_append take_Suc_conv_app_nth Cons_nth_drop_Suc [symmetric])
    ultimately show "returns (do { x \<leftarrow> rd el' i; u \<leftarrow> rd p (e_u x); v \<leftarrow> rd p (e_v x); wr el' i (EdgePair u v) })
      (\<lambda>el'. el' = map ?f (take (Suc i) el) @ drop (Suc i) el)"
      using i len nth by simp
  qed (use len in simp_all)
  then show ?thesis by (auto simp: PermuteIDs_def Let_def identity_loop p_def returns_iff)
qed

section \<open>Properties\<close>

lemma Generator_fields:
  assumes "Generator scale degree host = Inr gen"
  shows "gen_num_nodes gen = 2 ^ nat (gen_scale gen)" "gen_num_nodes gen < 2 ^ 31"
    "gen_num_edges gen = gen_num_nodes gen * degree" "gen_scale gen = scale" "0 \<le> scale"
  using assms by (auto simp: Generator_def Let_def split: if_splits)

text \<open>C31: The synthetic edge list.  For a generator that could be constructed with a degree that is not
  negative, and with \<^verbatim>\<open>std::shuffle\<close> returning a permutation of its argument, the R-MAT generator
  returns an edge list with all of its \<open>num_edges_\<close> cells written and every id in the vertex range,
  so that the builder's arrays are never indexed out of range.\<close>

lemma GenerateEL_in_range:
  fixes draws :: "nat \<Rightarrow> nat \<Rightarrow> 'r::linorder"
  assumes gen: "Generator scale degree host = Inr gen" and deg: "0 \<le> degree"
    and shuffle: "\<And>xs. mset (shuffle xs) = mset xs"
  shows "\<exists>el. GenerateEL A AB ABC draws shuffle gen False = Inr el \<and>
    length el = nat (2 ^ nat scale * degree) \<and> (\<forall>x \<in> set el. e_u x < 2 ^ nat scale \<and> e_v x < 2 ^ nat scale)"
proof -
  note g = Generator_fields [OF gen]
  let ?n = "nat (gen_num_nodes gen)" and ?m = "nat (gen_num_edges gen)"
  let ?el = "map (rmat_cell A AB ABC draws gen_block_size gen) [0..<?m]"
  have n: "?n = 2 ^ nat scale" using g by (simp add: nat_power_eq)
  have m: "\<not> gen_num_edges gen < 0" using g deg by (simp add: not_less)
  have blocks: "foldM (rmat_block A AB ABC draws gen_block_size gen) (rmat_blocks gen_block_size gen) (uninit ?m) = Some ?el"
    by (rule rmat_blocks_returns) (simp_all add: gen_block_size_def)
  have ids: "e_u x < ?n \<and> e_v x < ?n" if "x \<in> set ?el" for x
    using that rmat_edge_bound [of A AB ABC "nat scale"] unfolding n by (auto simp: rmat_cell_def g(4))
  have sh: "set (shuffle [0..<?n]) = {0..<?n}" "length (shuffle [0..<?n]) = ?n"
    using arg_cong [OF shuffle, of set_mset "[0..<?n]"] arg_cong [OF shuffle, of size "[0..<?n]"] by simp_all
  have perm: "PermuteIDs shuffle gen ?el = Some (map (\<lambda>x. EdgePair (shuffle [0..<?n] ! e_u x) (shuffle [0..<?n] ! e_v x)) ?el)"
    by (rule PermuteIDs_eq) (use ids sh in auto)
  have small: "shuffle [0..<?n] ! i < ?n" if "i < ?n" for i
    using nth_mem [of i "shuffle [0..<?n]"] that sh by auto
  let ?g = "\<lambda>x. EdgePair (shuffle [0..<?n] ! e_u x) (shuffle [0..<?n] ! e_v x)"
  have res: "GenerateEL A AB ABC draws shuffle gen False = Inr (map ?g ?el)"
    using m blocks perm by (simp add: GenerateEL_def MakeRMatEL_def)
  have range: "e_u x < ?n \<and> e_v x < ?n" if "x \<in> set (map ?g ?el)" for x
  proof -
    have "x \<in> ?g ` set ?el" using that by (simp only: set_map)
    then obtain y where "y \<in> set ?el" "x = ?g y" by (rule imageE)
    then show ?thesis using ids [of y] small by simp
  qed
  have "length (map ?g ?el) = nat (2 ^ nat scale * degree)" using g by simp
  then show ?thesis using res range unfolding n by blast
qed

lemma GenerateEL_in_range_witness:
  "\<exists>el. GenerateEL (57::int) 76 95 (\<lambda>seed k. 60) rev \<lparr>gen_host_id = 0, gen_scale = 2, gen_num_nodes = 4, gen_num_edges = 8\<rparr> False
     = Inr el \<and> length el = 8 \<and> (\<forall>x \<in> set el. e_u x < 4 \<and> e_v x < 4)"
  using GenerateEL_in_range [of 2 2 0 "\<lparr>gen_host_id = 0, gen_scale = 2, gen_num_nodes = 4, gen_num_edges = 8\<rparr>" rev]
  by (simp add: Generator_def)

text \<open>Blocking and reseeding make the edge list deterministic: whatever order the threads take the
  blocks in, the array they fill is the same.\<close>

lemma rmat_schedule_free:
  fixes draws :: "nat \<Rightarrow> nat \<Rightarrow> 'r::linorder"
  assumes "0 < block_size" "length el = nat (gen_num_edges gen)" "set order = set (rmat_blocks block_size gen)"
  shows "foldM (rmat_block A AB ABC draws block_size gen) order el =
    foldM (rmat_block A AB ABC draws block_size gen) (rmat_blocks block_size gen) el"
  unfolding rmat_blocks_returns [OF assms] rmat_blocks_returns [OF assms(1,2) refl] by (rule refl)

lemma rmat_schedule_free_witness:
  "foldM (rmat_block (57::int) 76 95 (\<lambda>seed k. int (seed mod 7 * k)) 2 \<lparr>gen_host_id = 0, gen_scale = 2, gen_num_nodes = 4, gen_num_edges = 5\<rparr>)
     [2, 0, 1] (uninit 5) =
   foldM (rmat_block 57 76 95 (\<lambda>seed k. int (seed mod 7 * k)) 2 \<lparr>gen_host_id = 0, gen_scale = 2, gen_num_nodes = 4, gen_num_edges = 5\<rparr>)
     [0, 1, 2] (uninit 5)"
proof -
  let ?gen = "\<lparr>gen_host_id = 0, gen_scale = 2, gen_num_nodes = 4, gen_num_edges = 5\<rparr>"
  have blocks: "rmat_blocks 2 ?gen = [0, 1, 2]" by (simp add: rmat_blocks_def upt_rec)
  show ?thesis
    by (rule rmat_schedule_free [of 2 "uninit 5" ?gen "[2, 0, 1]", unfolded blocks]) auto
qed

end
