(* ===== verification/Writer.thy ===== *)
theory Writer
  imports Graph CommandLine
begin

text \<open>
  Graph files: src/writer.h, and the part of src/reader.h that reads back what it writes.  A file
  is a list of bytes; 64-bit numbers are stored with the low byte first (x86).  The two
  instances of the templates differ in the entries of the neighbour array, so the codec of an
  entry is an argument: \<open>enc_id\<close> for \<^verbatim>\<open>NodeID\<close> and \<open>enc_wnode\<close> for \<^verbatim>\<open>NodeWeight<NodeID, SGID>\<close>.
\<close>

section \<open>Bytes\<close>

type_synonym byte = "8 word"

primrec le_bytes :: "nat \<Rightarrow> nat \<Rightarrow> byte list" where
  "le_bytes 0 x = []"
| "le_bytes (Suc k) x = word_of_nat x # le_bytes k (x div 256)"

fun of_bytes :: "byte list \<Rightarrow> nat" where
  "of_bytes [] = 0"
| "of_bytes (b # bs) = unat b + 256 * of_bytes bs"

lemma length_le_bytes [simp]: "length (le_bytes k x) = k"
  by (induction k arbitrary: x) simp_all

lemma of_le_bytes: "x < 256 ^ k \<Longrightarrow> of_bytes (le_bytes k x) = x"
proof (induction k arbitrary: x)
  case (Suc k)
  then have "x div 256 < 256 ^ k" by (simp add: less_mult_imp_div_less mult.commute)
  then show ?case using Suc.IH by (simp add: unat_of_nat)
qed simp

definition int_bytes :: "nat \<Rightarrow> int \<Rightarrow> byte list" where
  \<comment> \<open>a signed number of k bytes in two's complement\<close>
  "int_bytes k x = le_bytes k (nat (x mod 256 ^ k))"

definition of_int_bytes :: "byte list \<Rightarrow> int" where
  "of_int_bytes bs = (let x = int (of_bytes bs); m = 256 ^ length bs in if 2 * x < m then x else x - m)"

lemma length_int_bytes [simp]: "length (int_bytes k x) = k"
  by (simp add: int_bytes_def)

lemma of_int_bytes_eq:
  assumes "- (256 ^ k) \<le> 2 * x" "2 * x < 256 ^ k"
  shows "of_int_bytes (int_bytes k x) = x"
proof -
  let ?m = "256 ^ k :: int"
  have m: "0 < ?m" by simp
  have r: "0 \<le> x mod ?m" "x mod ?m < ?m" using m by simp_all
  then have "nat (x mod ?m) < 256 ^ k" by (simp add: nat_less_iff)
  then have b: "int (of_bytes (int_bytes k x)) = x mod ?m" using r by (simp add: int_bytes_def of_le_bytes)
  show ?thesis
  proof (cases "0 \<le> x")
    case True
    then show ?thesis using assms by (simp add: of_int_bytes_def b)
  next
    case False
    have "x mod ?m = (x + ?m) mod ?m" by simp
    also have "\<dots> = x + ?m" by (rule mod_pos_pos_trivial) (use assms False in simp_all)
    finally show ?thesis using assms False by (simp add: of_int_bytes_def b)
  qed
qed

section \<open>Entries of the neighbour array\<close>

definition node_id :: "int \<Rightarrow> nat option" where
  \<comment> \<open>the vertex ids of the kernels are naturals; a negative \<^verbatim>\<open>NodeID_\<close> is not in the model\<close>
  "node_id v = (if 0 \<le> v then Some (nat v) else None)"

definition enc_id :: "nat \<Rightarrow> byte list" where
  "enc_id v = le_bytes 4 v"

definition dec_id :: "byte list \<Rightarrow> nat option" where
  \<comment> \<open>a signed 32-bit int\<close>
  "dec_id bs = node_id (of_int_bytes bs)"

definition enc_wnode :: "node_weight \<Rightarrow> byte list" where
  \<comment> \<open>the object representation of the struct: the vertex, then the weight\<close>
  "enc_wnode x = le_bytes 4 (nw_v x) @ int_bytes 4 (nw_w x)"

definition dec_wnode :: "byte list \<Rightarrow> node_weight option" where
  "dec_wnode bs = do { v \<leftarrow> node_id (of_int_bytes (take 4 bs)); Some (NodeWeight v (of_int_bytes (drop 4 bs))) }"

lemma node_id_bytes:
  assumes "v < 2 ^ 31"
  shows "node_id (of_int_bytes (le_bytes 4 v)) = Some v"
proof -
  have "le_bytes 4 v = int_bytes 4 (int v)" using assms by (simp add: int_bytes_def nat_mod_as_int)
  then show ?thesis using assms of_int_bytes_eq [of 4 "int v"] by (simp add: node_id_def)
qed

locale entry_codec =
  fixes enc :: "'d \<Rightarrow> byte list" and dec :: "byte list \<Rightarrow> 'd option" and width :: nat and fits :: "'d \<Rightarrow> bool"
  assumes width_law: "length (enc x) = width"
    and dec_law: "fits x \<Longrightarrow> dec (enc x) = Some x"
begin

lemma length_cells: "length (concat (map enc xs)) = width * length xs"
  by (induction xs) (simp_all add: width_law)

lemma cell_bytes: "i < length xs \<Longrightarrow> take width (drop (width * i) (concat (map enc xs))) = enc (xs ! i)"
proof (induction xs arbitrary: i)
  case (Cons x xs)
  then show ?case by (cases i) (simp_all add: width_law)
qed simp

lemma dec_cells:
  assumes "\<And>x. x \<in> set xs \<Longrightarrow> fits x"
  shows "those (map (\<lambda>i. dec (take width (drop (width * i) (concat (map enc xs))))) [0..<length xs]) = Some xs"
proof -
  have "map (\<lambda>i. dec (take width (drop (width * i) (concat (map enc xs))))) [0..<length xs] = map Some xs"
    by (rule nth_equalityI) (use assms in \<open>simp_all add: cell_bytes dec_law\<close>)
  then show ?thesis by (simp add: those_map_Some)
qed

end

interpretation id_codec: entry_codec enc_id dec_id 4 "\<lambda>v. v < 2 ^ 31"
  by unfold_locales (simp_all only: enc_id_def dec_id_def node_id_bytes length_le_bytes)

interpretation wnode_codec: entry_codec enc_wnode dec_wnode 8 "\<lambda>x. nw_v x < 2 ^ 31 \<and> - (2 ^ 31) \<le> nw_w x \<and> nw_w x < 2 ^ 31"
proof unfold_locales
  fix x :: node_weight
  show "length (enc_wnode x) = 8" by (simp add: enc_wnode_def)
  assume x: "nw_v x < 2 ^ 31 \<and> - (2 ^ 31) \<le> nw_w x \<and> nw_w x < 2 ^ 31"
  then have "node_id (of_int_bytes (le_bytes 4 (nw_v x))) = Some (nw_v x)" by (intro node_id_bytes) simp
  moreover have "of_int_bytes (int_bytes 4 (nw_w x)) = nw_w x" by (rule of_int_bytes_eq) (use x in simp_all)
  ultimately show "dec_wnode (enc_wnode x) = Some x" by (simp add: enc_wnode_def dec_wnode_def)
qed

definition dec_offset :: "byte list \<Rightarrow> int option" where
  \<comment> \<open>a cell of type \<^verbatim>\<open>SGOffset\<close>\<close>
  "dec_offset bs = Some (of_int_bytes bs)"

interpretation offset_codec: entry_codec "int_bytes 8" dec_offset 8 "\<lambda>x. - (2 ^ 63) \<le> x \<and> x < 2 ^ 63"
  by unfold_locales (simp_all add: dec_offset_def of_int_bytes_eq)

section \<open>Writing\<close>

type_synonym files = "string \<rightharpoonup> byte list"

definition text_bytes :: "string \<Rightarrow> byte list" where
  "text_bytes s = map (\<lambda>c. word_of_nat (of_char c)) s"

definition show_wnode :: "node_weight \<Rightarrow> string" where
  \<comment> \<open>\<^verbatim>\<open>operator<<\<close> of \<^verbatim>\<open>NodeWeight\<close>\<close>
  "show_wnode x = to_string (int (nw_v x)) @ '' '' @ to_string (nw_w x)"

definition WriteEL :: "('d \<Rightarrow> string) \<Rightarrow> 'd csr_graph \<Rightarrow> string option" where
  "WriteEL show_d g = foldM (\<lambda>u out. do {
     vs \<leftarrow> out_neigh g u 0;
     Some (out @ concat (map (\<lambda>v. to_string (int u) @ '' '' @ show_d v @ [CHR 0x0A]) vs)) }) (vertices g) ''''"

definition neigh_cells :: "nat list \<Rightarrow> 'd list \<Rightarrow> int \<Rightarrow> 'd list option" where
  \<comment> \<open>the entries from \<^verbatim>\<open>out_neigh(0).begin()\<close> on\<close>
  "neigh_cells index block k = do {
     (b, e) \<leftarrow> neighborhood index 0 0;
     if 0 \<le> k then visit_cells block (b, b + nat k) else None }"

definition WriteSerializedGraph :: "('d \<Rightarrow> byte list) \<Rightarrow> 'd csr_graph \<Rightarrow> byte list option" where
  \<comment> \<open>the first two checks of the types do not fail for the instances\<close>
  "WriteSerializedGraph enc g = do {
     let directed = csr_directed g;
     let num_nodes = csr_num_nodes g;
     edges_to_write \<leftarrow> num_edges_directed g;
     offsets \<leftarrow> VertexOffsets g False;
     neighs \<leftarrow> neigh_cells (csr_out_index g) (csr_out_neighbors g) edges_to_write;
     let out = le_bytes 1 (if directed then 1 else 0) @ int_bytes 8 edges_to_write @ int_bytes 8 num_nodes @
       concat (map (int_bytes 8) offsets) @ concat (map enc neighs);
     if directed then do {
       offsets \<leftarrow> VertexOffsets g True;
       neighs \<leftarrow> neigh_cells (csr_in_index g) (csr_in_neighbors g) edges_to_write;
       Some (out @ concat (map (int_bytes 8) offsets) @ concat (map enc neighs)) }
     else Some out }"

definition WriteGraph ::
  "('d \<Rightarrow> byte list) \<Rightarrow> ('d \<Rightarrow> string) \<Rightarrow> (string \<Rightarrow> bool) \<Rightarrow> files \<Rightarrow> 'd csr_graph \<Rightarrow> string \<Rightarrow> bool \<Rightarrow> files result" where
  \<comment> \<open>\<open>can_write\<close> says which files the system lets the program open for writing\<close>
  "WriteGraph enc show_d can_write fs g filename serialized =
     (if filename = '''' then Inl (Exit (-8))
      else if \<not> can_write filename then Inl (Exit (-5))
      else if serialized then rbind (of_opt (WriteSerializedGraph enc g)) (\<lambda>bytes. Inr (fs(filename \<mapsto> bytes)))
      else rbind (of_opt (WriteEL show_d g)) (\<lambda>out. Inr (fs(filename \<mapsto> text_bytes out))))"

section \<open>Reading a serialized graph\<close>

definition GetSuffix :: "string \<Rightarrow> string result" where
  "GetSuffix filename = (if CHR ''.'' \<in> set filename
     then Inr (CHR ''.'' # rev (takeWhile (\<lambda>c. c \<noteq> CHR ''.'') (rev filename))) else Inl (Exit (-1)))"

definition file_read :: "nat \<Rightarrow> byte list \<Rightarrow> (byte list \<times> byte list) option" where
  \<comment> \<open>\<^verbatim>\<open>file.read\<close>; at the end of the file it leaves memory uninitialised\<close>
  "file_read k bs = (if k \<le> length bs then Some (take k bs, drop k bs) else None)"

definition read_cells :: "(byte list \<Rightarrow> 'd option) \<Rightarrow> nat \<Rightarrow> int \<Rightarrow> byte list \<Rightarrow> ('d list \<times> byte list) option" where
  \<comment> \<open>an array of k cells; \<^verbatim>\<open>new\<close> throws for a negative size\<close>
  "read_cells dec width k bs = (if k < 0 then None else do {
     (cs, bs) \<leftarrow> file_read (width * nat k) bs;
     xs \<leftarrow> those (map (\<lambda>i. dec (take width (drop (width * i) cs))) [0..<nat k]);
     Some (xs, bs) })"

definition to_index :: "int list \<Rightarrow> nat list option" where
  \<comment> \<open>\<^verbatim>\<open>GenIndex\<close>; a pointer before the block is undefined\<close>
  "to_index offsets = (if list_all (\<lambda>x. 0 \<le> x) offsets then GenIndex (map nat offsets) else None)"

definition read_graph :: "(byte list \<Rightarrow> 'd option) \<Rightarrow> nat \<Rightarrow> bool \<Rightarrow> byte list \<Rightarrow> 'd csr_graph option" where
  \<comment> \<open>a byte other than 0 and 1 is not a \<^verbatim>\<open>bool\<close>\<close>
  "read_graph dec width invert bs = do {
     (d, bs) \<leftarrow> file_read 1 bs;
     (m, bs) \<leftarrow> file_read 8 bs;
     (n, bs) \<leftarrow> file_read 8 bs;
     if of_bytes d > 1 then None else do {
     let directed = (of_bytes d = 1);
     let num_edges = of_int_bytes m;
     let num_nodes = of_int_bytes n;
     (offsets, bs) \<leftarrow> read_cells dec_offset 8 (num_nodes + 1) bs;
     (neighs, bs) \<leftarrow> read_cells dec width num_edges bs;
     index \<leftarrow> to_index offsets;
     if directed then do {
       (inv_index, inv_neighs) \<leftarrow> (if invert then do {
         (offsets, bs) \<leftarrow> read_cells dec_offset 8 (num_nodes + 1) bs;
         (inv_neighs, bs) \<leftarrow> read_cells dec width num_edges bs;
         inv_index \<leftarrow> to_index offsets;
         Some (inv_index, inv_neighs) } else Some ([], []));
       csr_from_directed num_nodes index neighs inv_index inv_neighs }
     else Some (csr_undirected num_nodes index neighs) } }"

definition ReadSerializedGraph ::
  "bool \<Rightarrow> (byte list \<Rightarrow> 'd option) \<Rightarrow> nat \<Rightarrow> bool \<Rightarrow> files \<Rightarrow> string \<Rightarrow> 'd csr_graph result" where
  \<comment> \<open>\<open>weighted_type\<close> says whether \<^verbatim>\<open>DestID_\<close> differs from \<^verbatim>\<open>NodeID_\<close>\<close>
  "ReadSerializedGraph weighted_type dec width invert fs filename =
     rbind (GetSuffix filename) (\<lambda>suffix.
     let weighted = (suffix = ''.wsg'') in
     if \<not> weighted \<and> weighted_type then Inl (Exit (-5))
     else if weighted \<and> \<not> weighted_type then Inl (Exit (-5))
     else case fs filename of None \<Rightarrow> Inl (Exit (-6))
       | Some bs \<Rightarrow> of_opt (read_graph dec width invert bs))"

section \<open>The round trip\<close>

lemma file_read_append: "length xs = k \<Longrightarrow> file_read k (xs @ ys) = Some (xs, ys)"
  by (simp add: file_read_def)

lemma VertexOffsets_both:
  assumes n: "Suc (length rows) < 2 ^ 31"
  shows "VertexOffsets (csr_of_both rows irows) False = Some (map int (prefix_sums (map length rows)))"
    and "length irows = length rows \<Longrightarrow> VertexOffsets (csr_of_both rows irows) True = Some (map int (prefix_sums (map length irows)))"
proof -
  have loop: "foldM (\<lambda>n offsets. do { d \<leftarrow> pointer_diff (prefix_sums ds) n 0; wr offsets n d }) [0..<Suc (length ds)] (uninit (Suc (length ds)))
      = Some (map int (prefix_sums ds))" for ds
  proof -
    have "returns (foldM (\<lambda>n offsets. do { d \<leftarrow> pointer_diff (prefix_sums ds) n 0; wr offsets n d }) [0..<Suc (length ds)] (uninit (Suc (length ds))))
        (\<lambda>os. os = map int (prefix_sums ds))"
    proof (rule foldM_upt_rule [where I = "\<lambda>i os. length os = Suc (length ds) \<and> (\<forall>j < i. os ! j = int (prefix_sums ds ! j))"])
      show "os = map int (prefix_sums ds)" if "length os = Suc (length ds) \<and> (\<forall>j < Suc (length ds). os ! j = int (prefix_sums ds ! j))" for os
        by (rule nth_equalityI) (use that in simp_all)
    qed (auto simp: pointer_diff_def nth_list_update less_Suc_eq)
    then show ?thesis by (auto simp: returns_iff)
  qed
  show "VertexOffsets (csr_of_both rows irows) False = Some (map int (prefix_sums (map length rows)))"
    using loop [of "map length rows"] n by (simp add: VertexOffsets_def csr_of_both_def nat_add_distrib)
  show "VertexOffsets (csr_of_both rows irows) True = Some (map int (prefix_sums (map length irows)))" if "length irows = length rows"
    using loop [of "map length irows"] that n by (simp add: VertexOffsets_def csr_of_both_def nat_add_distrib)
qed

lemma neigh_cells_rows:
  assumes "rows \<noteq> []" "length (concat rows) < 2 ^ 64"
  shows "neigh_cells (prefix_sums (map length rows)) (concat rows) (int (length (concat rows))) = Some (concat rows)"
proof -
  have "neighborhood (prefix_sums (map length rows)) 0 0 = Some (0, prefix_sums (map length rows) ! 1)"
    using neighborhood_bounds [OF index_wf_rows [OF assms(2)], of 0] assms(1) by simp
  then show ?thesis by (simp add: neigh_cells_def visit_cells_def segment_def)
qed

context entry_codec
begin

lemma read_cells_eq:
  assumes "\<And>x. x \<in> set xs \<Longrightarrow> fits x" "k = int (length xs)"
  shows "read_cells dec width k (concat (map enc xs) @ ys) = Some (xs, ys)"
  using file_read_append [OF length_cells, of xs ys] dec_cells [OF assms(1)] assms(2) by (simp add: read_cells_def)

end

lemma read_offsets:
  assumes "\<And>x. x \<in> set ds \<Longrightarrow> x < 2 ^ 63" "k = int (length ds)"
  shows "read_cells dec_offset 8 k (concat (map (int_bytes 8) (map int ds)) @ ys) = Some (map int ds, ys)"
  by (rule offset_codec.read_cells_eq) (use assms in \<open>auto simp flip: of_nat_power\<close>)

lemma to_index_map [simp]: "length ds < 2 ^ 31 \<Longrightarrow> to_index (map int ds) = Some ds"
  by (simp add: to_index_def list_all_iff comp_def)

lemma prefix_sums_small: "x \<in> set (prefix_sums ds) \<Longrightarrow> x \<le> sum_list ds"
  using prefix_sums_le_total by (fastforce simp: in_set_conv_nth)

context entry_codec
begin

lemma serialized_eq:
  assumes rows: "rows \<noteq> []" "length irows = length rows" "length (concat irows) = length (concat rows)"
    and small: "length rows < 2 ^ 31 - 1" "length (concat rows) < 2 ^ 63"
    and e: "\<And>x. x \<in> set (concat rows) \<union> set (concat irows) \<Longrightarrow> fits x"
  shows "WriteSerializedGraph enc (csr_of_both rows irows) \<bind> read_graph dec width True = Some (csr_of_both rows irows)"
proof -
  let ?g = "csr_of_both rows irows" and ?m = "int (length (concat rows))" and ?n = "int (length rows)"
  let ?O = "\<lambda>r. concat (map (int_bytes 8) (map int (prefix_sums (map length r))))"
  let ?tail = "?O rows @ concat (map enc (concat rows)) @ ?O irows @ concat (map enc (concat irows))"
  have ne: "irows \<noteq> []" using rows by auto
  have l: "length (concat rows) < 2 ^ 64" "length (concat irows) < 2 ^ 64" using small rows(3) by simp_all
  have w: "WriteSerializedGraph enc ?g = Some (le_bytes 1 1 @ int_bytes 8 ?m @ int_bytes 8 ?n @ ?tail)"
    using VertexOffsets_both(1) [of rows irows] VertexOffsets_both(2) [OF _ rows(2)] small(1)
      neigh_cells_rows [OF rows(1) l(1)] neigh_cells_rows [OF ne l(2)] rows(3)
    by (simp add: WriteSerializedGraph_def csr_of_both_simps(4,5)) (simp add: csr_of_both_def)
  have b: "of_bytes (le_bytes 1 1) = 1" "of_int_bytes (int_bytes 8 ?m) = ?m" "of_int_bytes (int_bytes 8 ?n) = ?n"
    using small by (simp_all add: of_le_bytes of_int_bytes_eq del: le_bytes.simps)
  have off: "read_cells dec_offset 8 (?n + 1) (?O r @ ys) = Some (map int (prefix_sums (map length r)), ys)"
    if "length r = length rows" "length (concat r) < 2 ^ 63" for r :: "'d list list" and ys
  proof (rule read_offsets)
    show "x < 2 ^ 63" if "x \<in> set (prefix_sums (map length r))" for x
      using prefix_sums_small [OF that] \<open>length (concat r) < 2 ^ 63\<close> by (simp add: length_concat)
  qed (simp add: that(1))
  have nb: "read_cells dec width ?m (concat (map enc (concat rows)) @ ys) = Some (concat rows, ys)" for ys
    by (rule read_cells_eq) (use e in auto)
  have inb: "read_cells dec width ?m (concat (map enc (concat irows)) @ ys) = Some (concat irows, ys)" for ys
    by (rule read_cells_eq) (use e rows(3) in auto)
  have "read_graph dec width True (le_bytes 1 1 @ int_bytes 8 ?m @ int_bytes 8 ?n @ ?tail) = Some ?g"
    unfolding read_graph_def
    using off [OF refl small(2)] off [OF rows(2)] small rows(2,3) nb inb [of "[]"] csr_from_directed_rows [of rows irows]
    by (simp add: file_read_append b Let_def del: le_bytes.simps map_map One_nat_def)
  then show ?thesis by (simp add: w)
qed

end

section \<open>Properties\<close>

lemma sg_round_trip:
  assumes "rows \<noteq> []" "length irows = length rows" "length (concat irows) = length (concat rows)"
    and "length rows < 2 ^ 31 - 1" "length (concat rows) < 2 ^ 63"
    and "\<And>v. v \<in> set (concat rows) \<union> set (concat irows) \<Longrightarrow> v < 2 ^ 31"
    and "GetSuffix f = Inr ''.sg''" "f \<noteq> ''''" "can_write f"
  shows "\<exists>fs'. WriteGraph enc_id (\<lambda>v. to_string (int v)) can_write fs (csr_of_both rows irows) f True = Inr fs' \<and>
    ReadSerializedGraph False dec_id 4 True fs' f = Inr (csr_of_both rows irows)"
  using id_codec.serialized_eq [OF assms(1-6)] assms(7-9)
  by (auto simp: WriteGraph_def ReadSerializedGraph_def bind_eq_Some_conv)

text \<open>C38: A directed weighted graph that is written to a .wsg file and read back is the same graph: the header,
  the offsets of both directions and every neighbour with its weight, negative weights included.  The ids, the weights and
  the length of the index are 32-bit ints.\<close>

lemma wsg_round_trip:
  assumes "rows \<noteq> []" "length irows = length rows" "length (concat irows) = length (concat rows)"
    and "length rows < 2 ^ 31 - 1" "length (concat rows) < 2 ^ 63"
    and "\<And>x. x \<in> set (concat rows) \<union> set (concat irows) \<Longrightarrow> nw_v x < 2 ^ 31 \<and> - (2 ^ 31) \<le> nw_w x \<and> nw_w x < 2 ^ 31"
    and "GetSuffix f = Inr ''.wsg''" "f \<noteq> ''''" "can_write f"
  shows "\<exists>fs'. WriteGraph enc_wnode show_wnode can_write fs (csr_of_both rows irows) f True = Inr fs' \<and>
    ReadSerializedGraph True dec_wnode 8 True fs' f = Inr (csr_of_both rows irows)"
  using wnode_codec.serialized_eq [OF assms(1-6)] assms(7-9)
  by (auto simp: WriteGraph_def ReadSerializedGraph_def bind_eq_Some_conv)

lemma wsg_round_trip_witness:
  "\<exists>fs'. WriteGraph enc_wnode show_wnode (\<lambda>f. True) Map.empty (csr_of_both [[NodeWeight 1 (-7)], []] [[], [NodeWeight 0 (-7)]]) ''g.wsg'' True = Inr fs' \<and>
    ReadSerializedGraph True dec_wnode 8 True fs' ''g.wsg'' = Inr (csr_of_both [[NodeWeight 1 (-7)], []] [[], [NodeWeight 0 (-7)]])"
  by (rule wsg_round_trip) (auto simp: GetSuffix_def)

text \<open>C39: A serialized undirected graph comes back without its number of edges.  Reading a file whose directed flag
  is off, whatever else it holds, returns an object whose \<^verbatim>\<open>num_edges_\<close> was never set, so every use of
  it is undefined: the frontier size of \<^verbatim>\<open>DeltaStep\<close> and the heuristic of \<^verbatim>\<open>DOBFS\<close> read it.\<close>

lemma serialized_undirected_edges:
  assumes "ReadSerializedGraph weighted_type dec width invert fs f = Inr g"
  shows "csr_directed g \<or> num_edges g = None \<and> num_edges_directed g = None \<and> WriteSerializedGraph enc g = None"
proof -
  obtain bs where "read_graph dec width invert bs = Some g"
    using assms by (auto simp: ReadSerializedGraph_def rbind_eq_Inr of_opt_def Let_def split: if_splits option.splits)
  then have "csr_directed g \<or> (\<exists>n index neighs. g = csr_undirected n index neighs)"
    by (auto simp: read_graph_def bind_eq_Some_conv csr_from_directed_def Let_def split: if_splits prod.splits)
  then show ?thesis
    by (auto simp: csr_undirected_def num_edges_def num_edges_directed_def WriteSerializedGraph_def Let_def)
qed

lemma serialized_undirected_edges_witness:
  "\<exists>g. ReadSerializedGraph False dec_id 4 True [''a.sg'' \<mapsto> le_bytes 1 0 @ int_bytes 8 0 @ int_bytes 8 1 @ int_bytes 8 0 @ int_bytes 8 0] ''a.sg'' = Inr g \<and>
    num_edges g = None"
proof -
  have "read_graph dec_id 4 True (le_bytes 1 0 @ int_bytes 8 0 @ int_bytes 8 1 @ int_bytes 8 0 @ int_bytes 8 0) = Some (csr_undirected 1 [0, 0] [])"
    by (simp add: read_graph_def file_read_append of_le_bytes of_int_bytes_eq read_cells_def to_index_def Let_def
      del: le_bytes.simps One_nat_def) (simp add: file_read_def dec_offset_def of_int_bytes_eq upt_rec)
  then have r: "ReadSerializedGraph False dec_id 4 True [''a.sg'' \<mapsto> le_bytes 1 0 @ int_bytes 8 0 @ int_bytes 8 1 @ int_bytes 8 0 @ int_bytes 8 0] ''a.sg''
      = Inr (csr_undirected 1 [0, 0] [])"
    by (simp add: ReadSerializedGraph_def GetSuffix_def)
  from serialized_undirected_edges [OF this, where enc = enc_id] r show ?thesis by (auto simp: csr_undirected_def)
qed

end
