(* ===== verification/Reader.thy ===== *)
theory Reader
  imports Writer PVector
begin

text \<open>
  The text formats of src/reader.h.  An input stream is the characters that are left with its
  \<open>eofbit\<close> and \<open>failbit\<close>; the extractors are those of the C++ standard.  An extractor that
  fails before it looks for a value leaves the variable alone, which is the value \<open>None\<close>.  The
  constructor of the edge's target is an argument \<open>dst\<close> of the vertex and the weight, 1 where
  the format has none.
\<close>

section \<open>Input streams\<close>

record istream =
  is_rest :: string
  is_eof :: bool
  is_fail :: bool

definition open_stream :: "string \<Rightarrow> istream" where
  "open_stream s = \<lparr>is_rest = s, is_eof = False, is_fail = False\<rparr>"

definition is_good :: "istream \<Rightarrow> bool" where
  "is_good s \<longleftrightarrow> \<not> is_eof s \<and> \<not> is_fail s"

definition skip_ws :: "istream \<Rightarrow> istream" where
  \<comment> \<open>the sentry of a formatted extractor\<close>
  "skip_ws s = (if is_good s then
      (if dropWhile is_space (is_rest s) = [] then s\<lparr>is_rest := [], is_eof := True, is_fail := True\<rparr>
       else s\<lparr>is_rest := dropWhile is_space (is_rest s)\<rparr>)
    else s\<lparr>is_fail := True\<rparr>)"

definition std_ws :: "istream \<Rightarrow> istream" where
  \<comment> \<open>\<^verbatim>\<open>std::ws\<close>, an unformatted input function: at the end of the stream it fails\<close>
  "std_ws s = (if is_good s then s\<lparr>is_rest := dropWhile is_space (is_rest s), is_eof := (dropWhile is_space (is_rest s) = [])\<rparr>
    else s\<lparr>is_fail := True\<rparr>)"

definition peek :: "istream \<Rightarrow> char option \<times> istream" where
  \<comment> \<open>\<open>None\<close> is \<^verbatim>\<open>EOF\<close>\<close>
  "peek s = (if is_good s then (case is_rest s of [] \<Rightarrow> (None, s\<lparr>is_eof := True\<rparr>) | c # cs \<Rightarrow> (Some c, s))
    else (None, s\<lparr>is_fail := True\<rparr>))"

fun drop_line :: "nat \<Rightarrow> string \<Rightarrow> string option" where
  \<comment> \<open>at most n characters up to a newline; \<open>None\<close> at the end of the stream\<close>
  "drop_line 0 s = Some s"
| "drop_line (Suc n) [] = None"
| "drop_line (Suc n) (c # cs) = (if c = CHR 0x0A then Some cs else drop_line n cs)"

definition ignore_line :: "istream \<Rightarrow> istream" where
  \<comment> \<open>\<^verbatim>\<open>in.ignore(200, '\n')\<close>\<close>
  "ignore_line s = (if is_good s then
      (case drop_line 200 (is_rest s) of Some r \<Rightarrow> s\<lparr>is_rest := r\<rparr> | None \<Rightarrow> s\<lparr>is_rest := [], is_eof := True\<rparr>)
    else s\<lparr>is_fail := True\<rparr>)"

definition getline :: "istream \<Rightarrow> string option \<times> istream" where
  "getline s = (if is_good s then
      (if is_rest s = [] then (Some [], s\<lparr>is_eof := True, is_fail := True\<rparr>)
       else case dropWhile (\<lambda>c. c \<noteq> CHR 0x0A) (is_rest s) of
           [] \<Rightarrow> (Some (is_rest s), s\<lparr>is_rest := [], is_eof := True\<rparr>)
         | c # cs \<Rightarrow> (Some (takeWhile (\<lambda>c. c \<noteq> CHR 0x0A) (is_rest s)), s\<lparr>is_rest := cs\<rparr>))
    else (None, s\<lparr>is_fail := True\<rparr>))"

definition get_char :: "istream \<Rightarrow> istream" where
  \<comment> \<open>\<^verbatim>\<open>in >> c\<close>; the program does not look at c\<close>
  "get_char s = (let s = skip_ws s in if is_fail s then s else s\<lparr>is_rest := tl (is_rest s)\<rparr>)"

definition get_word :: "istream \<Rightarrow> string \<times> istream" where
  \<comment> \<open>into a string that is empty before\<close>
  "get_word s = (let s = skip_ws s in if is_fail s then ([], s)
     else let r = dropWhile (\<lambda>c. \<not> is_space c) (is_rest s) in
       (takeWhile (\<lambda>c. \<not> is_space c) (is_rest s), s\<lparr>is_rest := r, is_eof := (r = [])\<rparr>))"

definition split_int :: "string \<Rightarrow> bool \<times> string \<times> string" where
  \<comment> \<open>is there a minus sign, what follows the sign, what follows the digits\<close>
  "split_int r = (let neg = (hd r = CHR ''-''); ds = (if neg \<or> hd r = CHR ''+'' then tl r else r) in
     (neg, ds, dropWhile (\<lambda>c. digit_of c \<noteq> None) ds))"

definition get_int :: "nat \<Rightarrow> istream \<Rightarrow> int option \<times> istream" where
  \<comment> \<open>into a signed integer of w bits: no digits give 0, a value out of range the nearest one, and both fail\<close>
  "get_int w s = (let s = skip_ws s in if is_fail s then (None, s)
     else case split_int (is_rest s) of (neg, ds, r) \<Rightarrow>
       let x = int (read_digits ds 0); x = (if neg then - x else x); s = s\<lparr>is_rest := r, is_eof := (r = [])\<rparr> in
       if ds = r then (Some 0, s\<lparr>is_fail := True\<rparr>)
       else if x < - (2 ^ (w - 1)) then (Some (- (2 ^ (w - 1))), s\<lparr>is_fail := True\<rparr>)
       else if 2 ^ (w - 1) \<le> x then (Some (2 ^ (w - 1) - 1), s\<lparr>is_fail := True\<rparr>)
       else (Some x, s))"

lemma split_int_shrinks:
  assumes "split_int x = (neg, ds, r)"
  shows "length r \<le> length x" "ds \<noteq> r \<Longrightarrow> length r < length x"
proof -
  have d: "length ds \<le> length x" "r = dropWhile (\<lambda>c. digit_of c \<noteq> None) ds"
    using assms by (auto simp: split_int_def Let_def)
  show "length r \<le> length x" using d length_dropWhile_le [of "\<lambda>c. digit_of c \<noteq> None" ds] by simp
  show "length r < length x" if "ds \<noteq> r"
  proof -
    have "takeWhile (\<lambda>c. digit_of c \<noteq> None) ds @ r = ds" by (simp add: d(2))
    then have "length r < length ds" using that by (metis append_Nil length_append length_greater_0_conv less_add_same_cancel2)
    then show ?thesis using d(1) by simp
  qed
qed

lemma skip_ws_shrinks: "length (is_rest (skip_ws s)) \<le> length (is_rest s)"
  by (simp add: skip_ws_def length_dropWhile_le)

lemma skip_ws_nonempty: "\<not> is_fail (skip_ws s) \<Longrightarrow> is_rest (skip_ws s) \<noteq> []"
  by (auto simp: skip_ws_def split: if_splits)

lemma get_char_less:
  assumes "\<not> is_fail (get_char s)"
  shows "length (is_rest (get_char s)) < length (is_rest s)"
proof -
  let ?t = "skip_ws s"
  have t: "\<not> is_fail ?t" using assms by (auto simp: get_char_def Let_def split: if_splits)
  then have "length (tl (is_rest ?t)) < length (is_rest ?t)" using skip_ws_nonempty [of s] by simp
  then show ?thesis using t skip_ws_shrinks [of s] by (simp add: get_char_def Let_def)
qed

lemma get_int_shrinks: "length (is_rest (snd (get_int w s))) \<le> length (is_rest s)"
proof -
  obtain neg ds r where p: "split_int (is_rest (skip_ws s)) = (neg, ds, r)" by (cases "split_int (is_rest (skip_ws s))")
  show ?thesis using skip_ws_shrinks [of s] split_int_shrinks(1) [OF p] by (simp add: get_int_def p Let_def)
qed

lemma get_int_less:
  assumes "\<not> is_fail (snd (get_int w s))"
  shows "length (is_rest (snd (get_int w s))) < length (is_rest s)"
proof -
  obtain neg ds r where p: "split_int (is_rest (skip_ws s)) = (neg, ds, r)" by (cases "split_int (is_rest (skip_ws s))")
  then have "ds \<noteq> r" "is_rest (snd (get_int w s)) = r" using assms by (simp_all add: get_int_def Let_def split: if_splits)
  then show ?thesis using skip_ws_shrinks [of s] split_int_shrinks(2) [OF p] by simp
qed

lemma two_ints_less:
  "\<not> is_fail (snd (get_int w (snd (get_int w s)))) \<Longrightarrow> length (is_rest (snd (get_int w (snd (get_int w s))))) < length (is_rest s)"
  using get_int_less [of w "snd (get_int w s)"] get_int_shrinks [of w s] by simp

lemma three_ints_less:
  "\<not> is_fail (snd (get_int w (snd (get_int w (snd (get_int w s)))))) \<Longrightarrow>
   length (is_rest (snd (get_int w (snd (get_int w (snd (get_int w s))))))) < length (is_rest s)"
  using two_ints_less [of w "snd (get_int w s)"] get_int_shrinks [of w s] by simp

lemma drop_line_shrinks: "drop_line n s = Some r \<Longrightarrow> length r \<le> length s"
  by (induction n s rule: drop_line.induct) (auto split: if_splits)

lemma ignore_line_less:
  assumes "fst (peek s) = Some c"
  shows "length (is_rest (ignore_line s)) < length (is_rest s)"
proof -
  obtain cs where s: "is_good s" "is_rest s = c # cs"
    using assms by (auto simp: peek_def split: if_splits list.splits)
  have "drop_line 200 (c # cs) = (if c = CHR 0x0A then Some cs else drop_line 199 cs)"
    by (simp add: eval_nat_numeral)
  then show ?thesis using s drop_line_shrinks [of 199 cs]
    by (fastforce simp: ignore_line_def split: option.splits if_splits)
qed

lemma get_char_peek:
  assumes "fst (peek s) = Some c" "\<not> is_space c"
  shows "length (is_rest (get_char (snd (peek s)))) < length (is_rest s)"
proof -
  obtain cs where "is_good s" "is_rest s = c # cs"
    using assms(1) by (auto simp: peek_def split: if_splits list.splits)
  then show ?thesis using assms(2) by (simp add: peek_def get_char_def skip_ws_def is_good_def Let_def)
qed

lemma peek_rest [simp]: "is_rest (snd (peek s)) = is_rest s"
  by (simp add: peek_def split: list.splits)

lemma peek_some: "fst (peek s) = Some c \<Longrightarrow> snd (peek s) = s"
  by (auto simp: peek_def split: if_splits list.splits)

lemma std_ws_shrinks: "length (is_rest (std_ws s)) \<le> length (is_rest s)"
  by (simp add: std_ws_def length_dropWhile_le)

lemma std_ws_good: "\<not> is_fail (std_ws s) \<Longrightarrow> \<not> is_fail s"
  by (auto simp: std_ws_def is_good_def split: if_splits)

lemma getline_rest:
  "is_rest (snd (getline s)) = (if is_good s then tl (dropWhile (\<lambda>c. c \<noteq> CHR 0x0A) (is_rest s)) else is_rest s)"
  by (cases "is_rest s = []"; cases "is_good s"; cases "dropWhile (\<lambda>c. c \<noteq> CHR 0x0A) (is_rest s)")
    (simp_all add: getline_def del: dropWhile_eq_Nil_conv)

lemma getline_shrinks:
  "length (is_rest (snd (getline s))) \<le> length (is_rest s)"
  "\<not> is_fail (snd (getline s)) \<Longrightarrow> length (is_rest (snd (getline s))) < length (is_rest s)"
proof -
  let ?d = "dropWhile (\<lambda>c. c \<noteq> CHR 0x0A) (is_rest s)"
  have d: "length ?d \<le> length (is_rest s)" by (rule length_dropWhile_le)
  have t: "length (tl ?d) \<le> length ?d - 1" by simp
  show "length (is_rest (snd (getline s))) \<le> length (is_rest s)"
    unfolding getline_rest using d t by (cases "is_good s") simp_all
  show "length (is_rest (snd (getline s))) < length (is_rest s)" if "\<not> is_fail (snd (getline s))"
  proof -
    have "is_good s \<and> is_rest s \<noteq> []" using that by (simp add: getline_def split: if_splits)
    then have "is_good s" "0 < length (is_rest s)" by simp_all
    moreover have "length (tl ?d) < length (is_rest s)" using d t calculation(2) by linarith
    ultimately show ?thesis by (simp only: getline_rest if_True)
  qed
qed

section \<open>The formats\<close>

lemma rbind_cong [fundef_cong]: "m = m' \<Longrightarrow> (\<And>x. m' = Inr x \<Longrightarrow> f x = f' x) \<Longrightarrow> rbind m f = rbind m' f'"
  by (cases m') simp_all

text \<open>The arithmetic on the numbers of an edge, where an overflow or a missing value has no defined result.\<close>

definition less_one :: "int option \<Rightarrow> int result" where
  "less_one v = of_opt (v \<bind> (\<lambda>x. int32 (x - 1)))"

type_synonym 'd int_edges = "(int, 'd) edge_pair pvector"

function ReadInEL :: "(int \<Rightarrow> int \<Rightarrow> 'd) \<Rightarrow> istream \<Rightarrow> 'd int_edges \<Rightarrow> 'd int_edges result" where
  "ReadInEL dst s el = (let u = get_int 32 s; v = get_int 32 (snd u) in
     if is_fail (snd v) then Inr el
     else rbind (of_opt (fst u)) (\<lambda>x. rbind (of_opt (fst v)) (\<lambda>y. rbind (pv_push_back el (EdgePair x (dst y 1))) (\<lambda>el.
       ReadInEL dst (snd v) el))))"
  by pat_completeness auto
termination
  by (relation "measure (\<lambda>(dst, s, el). length (is_rest s))")
    (simp, simp add: two_ints_less)

function ReadInWEL :: "(int \<Rightarrow> int \<Rightarrow> 'd) \<Rightarrow> istream \<Rightarrow> 'd int_edges \<Rightarrow> 'd int_edges result" where
  "ReadInWEL dst s el = (let u = get_int 32 s; v = get_int 32 (snd u); w = get_int 32 (snd v) in
     if is_fail (snd w) then Inr el
     else rbind (of_opt (fst u)) (\<lambda>x. rbind (of_opt (fst v)) (\<lambda>y. rbind (of_opt (fst w)) (\<lambda>z.
       rbind (pv_push_back el (EdgePair x (dst y z))) (\<lambda>el. ReadInWEL dst (snd w) el)))))"
  by pat_completeness auto
termination
  by (relation "measure (\<lambda>(dst, s, el). length (is_rest s))")
    (simp, simp add: three_ints_less)

definition gr_left :: "istream \<Rightarrow> nat" where
  "gr_left s = length (is_rest s) + (if is_eof s then 0 else 1)"

lemma gr_left_edge:
  assumes "\<not> is_eof s" "fst (peek s) = Some CHR ''a''"
  shows "gr_left (snd (get_int 32 (snd (get_int 32 (snd (get_int 32 (get_char (snd (peek s))))))))) < gr_left s"
proof -
  let ?t = "get_char (snd (peek s))"
  have "length (is_rest ?t) < length (is_rest s)"
    by (rule get_char_peek [OF assms(2)]) (simp add: is_space_def)
  moreover have "length (is_rest (snd (get_int 32 (snd (get_int 32 (snd (get_int 32 ?t))))))) \<le> length (is_rest ?t)"
    by (meson get_int_shrinks order_trans)
  ultimately show ?thesis using assms(1) by (simp add: gr_left_def)
qed

lemma gr_left_line:
  assumes "\<not> is_eof s" "\<not> is_fail s"
  shows "gr_left (ignore_line (snd (peek s))) < gr_left s"
proof (cases "fst (peek s)")
  case None
  then have "is_rest s = []" using assms by (simp add: peek_def is_good_def split: list.splits)
  then show ?thesis using assms by (simp add: gr_left_def peek_def is_good_def ignore_line_def)
next
  case (Some c)
  then show ?thesis using ignore_line_less [OF Some] peek_some [OF Some] assms(1) by (simp add: gr_left_def)
qed

definition kept :: "'a option \<Rightarrow> 'a option \<Rightarrow> 'a option" where
  \<comment> \<open>the value of a variable after an extraction\<close>
  "kept old new = (case new of None \<Rightarrow> old | Some x \<Rightarrow> Some x)"

function gr_lines ::
  "(int \<Rightarrow> int \<Rightarrow> 'd) \<Rightarrow> int option \<times> int option \<times> int option \<Rightarrow> istream \<Rightarrow> 'd int_edges \<Rightarrow> 'd int_edges result" where
  \<comment> \<open>u and v live across the lines; once the stream has failed without reaching its end the loop never ends\<close>
  "gr_lines dst uvw s el =
     (if is_eof s then Inr el
      else if is_fail s then Inl NoDefinedResult
      else if fst (peek s) = Some CHR ''a'' then
        (let u = get_int 32 (get_char (snd (peek s))); v = get_int 32 (snd u); w = get_int 32 (snd v);
             uvw = (kept (fst uvw) (fst u), kept (fst (snd uvw)) (fst v), kept (snd (snd uvw)) (fst w)) in
         rbind (less_one (fst uvw)) (\<lambda>x. rbind (less_one (fst (snd uvw))) (\<lambda>y. rbind (of_opt (snd (snd uvw))) (\<lambda>z.
           rbind (pv_push_back el (EdgePair x (dst y z))) (\<lambda>el. gr_lines dst uvw (snd w) el)))))
      else gr_lines dst uvw (ignore_line (snd (peek s))) el)"
  by pat_completeness auto
termination
  by (relation "measure (\<lambda>(dst, uvw, s, el). gr_left s)") (simp, simp add: gr_left_edge, simp add: gr_left_line)

definition ReadInGR :: "(int \<Rightarrow> int \<Rightarrow> 'd) \<Rightarrow> istream \<Rightarrow> 'd int_edges \<Rightarrow> 'd int_edges result" where
  "ReadInGR dst s el = gr_lines dst (None, None, None) s el"

function skip_comments :: "istream \<Rightarrow> istream" where
  \<comment> \<open>the lines that start with a percent sign\<close>
  "skip_comments s = (if fst (peek s) = Some CHR ''%'' then skip_comments (ignore_line (snd (peek s))) else snd (peek s))"
  by pat_completeness auto
termination
  by (relation "measure (\<lambda>s. length (is_rest s))") (simp, simp add: ignore_line_less peek_some)

definition metis_weight :: "bool \<Rightarrow> istream \<Rightarrow> int option \<times> istream" where
  "metis_weight read_weights s = (if read_weights then get_int 32 s else (Some 1, s))"

lemma metis_edge_less:
  assumes "\<not> is_fail (std_ws (snd (metis_weight rw (snd (get_int 32 s)))))"
  shows "length (is_rest (std_ws (snd (metis_weight rw (snd (get_int 32 s)))))) < length (is_rest s)"
proof -
  let ?t = "snd (metis_weight rw (snd (get_int 32 s)))"
  have "\<not> is_fail ?t" using assms by (rule std_ws_good)
  then have "length (is_rest ?t) < length (is_rest s)"
    using two_ints_less [of 32 s] get_int_less [of 32 s] by (simp add: metis_weight_def split: if_splits)
  then show ?thesis using std_ws_shrinks [of ?t] by linarith
qed

function metis_edges :: "(int \<Rightarrow> int \<Rightarrow> 'd) \<Rightarrow> bool \<Rightarrow> int \<Rightarrow> istream \<Rightarrow> 'd int_edges \<Rightarrow> 'd int_edges result" where
  "metis_edges dst read_weights u s el =
     (let v = get_int 32 s; w = metis_weight read_weights (snd v) in
      if is_fail (std_ws (snd w)) then Inr el
      else rbind (less_one (fst v)) (\<lambda>y. rbind (of_opt (fst w)) (\<lambda>z.
        rbind (pv_push_back el (EdgePair u (dst y z))) (\<lambda>el. metis_edges dst read_weights u (std_ws (snd w)) el))))"
  by pat_completeness auto
termination
  by (relation "measure (\<lambda>(dst, rw, u, s, el). length (is_rest s))") (simp, simp add: metis_edge_less)

function metis_rows ::
  "(int \<Rightarrow> int \<Rightarrow> 'd) \<Rightarrow> bool \<Rightarrow> int \<Rightarrow> int \<Rightarrow> istream \<Rightarrow> string \<Rightarrow> 'd int_edges \<Rightarrow> 'd int_edges result" where
  \<comment> \<open>\<open>line\<close> keeps its contents when there is no line to read\<close>
  "metis_rows dst read_weights num_nodes u s line el =
     (if u < num_nodes then
        (if fst (peek s) = Some CHR ''%'' then metis_rows dst read_weights num_nodes u (ignore_line (snd (peek s))) line el
         else let l = getline (snd (peek s)); line = (case fst l of None \<Rightarrow> line | Some l \<Rightarrow> l) in
           rbind (if line \<noteq> '''' then metis_edges dst read_weights u (open_stream line) el else Inr el) (\<lambda>el.
             metis_rows dst read_weights num_nodes (u + 1) (snd l) line el))
      else Inr el)"
  by pat_completeness auto
termination
proof (relation "measure (\<lambda>(dst, rw, n, u, s, line, el). nat (n - u) + length (is_rest s))", goal_cases)
  case (2 dst rw n u s line el)
  then show ?case by (simp add: ignore_line_less peek_some)
next
  case (3 dst rw n u s line el)
  then show ?case using getline_shrinks(1) [of "snd (peek s)"] by simp
qed simp

definition ReadInMetis :: "(int \<Rightarrow> int \<Rightarrow> 'd) \<Rightarrow> istream \<Rightarrow> 'd int_edges \<Rightarrow> ('d int_edges \<times> bool) result" where
  \<comment> \<open>the edges and the new value of \<open>needs_weights\<close>\<close>
  "ReadInMetis dst s el =
     (let l = getline (skip_comments s); line = (case fst l of None \<Rightarrow> '''' | Some l \<Rightarrow> l);
          n = get_int 32 (open_stream line); header_stream = std_ws (snd (get_int 32 (snd n))) in
      rbind (if \<not> is_eof header_stream then
          rbind (of_opt (fst (get_int 32 header_stream))) (\<lambda>fmt.
            if fmt = 1 then Inr True else if fmt \<noteq> 0 \<and> fmt \<noteq> 100 then Inl (Exit (-20)) else Inr False)
        else Inr False) (\<lambda>read_weights.
      rbind (of_opt (fst n)) (\<lambda>num_nodes.
      rbind (metis_rows dst read_weights num_nodes 0 (snd l) line el) (\<lambda>el. Inr (el, \<not> read_weights)))))"

function mtx_lines :: "(int \<Rightarrow> int \<Rightarrow> 'd) \<Rightarrow> bool \<Rightarrow> bool \<Rightarrow> istream \<Rightarrow> 'd int_edges \<Rightarrow> 'd int_edges result" where
  "mtx_lines dst read_weights undirected s el =
     (let l = getline s in
      if is_fail (snd l) then Inr el
      else rbind (of_opt (fst l)) (\<lambda>line.
        if line = '''' then mtx_lines dst read_weights undirected (snd l) el
        else let u = get_int 32 (open_stream line); v = get_int 32 (snd u); w = metis_weight read_weights (snd v) in
          rbind (less_one (fst u)) (\<lambda>x. rbind (less_one (fst v)) (\<lambda>y. rbind (of_opt (fst w)) (\<lambda>z.
            rbind (pv_push_back el (EdgePair x (dst y z))) (\<lambda>el.
            rbind (if undirected then pv_push_back el (EdgePair y (dst x z)) else Inr el) (\<lambda>el.
              mtx_lines dst read_weights undirected (snd l) el)))))))"
  by pat_completeness auto
termination
  by (relation "measure (\<lambda>(dst, rw, un, s, el). length (is_rest s))") (simp_all add: getline_shrinks(2))

definition ReadInMTX :: "(int \<Rightarrow> int \<Rightarrow> 'd) \<Rightarrow> istream \<Rightarrow> 'd int_edges \<Rightarrow> ('d int_edges \<times> bool) result" where
  "ReadInMTX dst s el =
     (let start = get_word s; object = get_word (snd start); format = get_word (snd object); field = get_word (snd format);
          symmetry = get_word (snd field); s = std_ws (snd symmetry) in
      if fst start \<noteq> ''%%MatrixMarket'' then Inl (Exit (-21))
      else if fst object \<noteq> ''matrix'' \<or> fst format \<noteq> ''coordinate'' then Inl (Exit (-22))
      else if fst field = ''complex'' then Inl (Exit (-23))
      else rbind (if fst field = ''pattern'' then Inr False
          else if fst field = ''real'' \<or> fst field = ''double'' \<or> fst field = ''integer'' then Inr True
          else Inl (Exit (-24))) (\<lambda>read_weights.
        rbind (if fst symmetry = ''symmetric'' then Inr True
          else if fst symmetry = ''general'' \<or> fst symmetry = ''skew-symmetric'' then Inr False
          else Inl (Exit (-25))) (\<lambda>undirected.
        let m = get_int 64 (skip_comments s); n = get_int 64 (snd m); nonzeros = get_int 64 (snd n) in
        rbind (of_opt (fst m)) (\<lambda>mv. rbind (of_opt (fst n)) (\<lambda>nv.
        if mv \<noteq> nv then Inl (Exit (-26))
        else rbind (mtx_lines dst read_weights undirected (std_ws (snd nonzeros)) el) (\<lambda>el. Inr (el, \<not> read_weights)))))))"

definition ReadFile :: "(int \<Rightarrow> int \<Rightarrow> 'd) \<Rightarrow> files \<Rightarrow> string \<Rightarrow> bool \<Rightarrow> ('d int_edges \<times> bool) result" where
  "ReadFile dst fs filename needs_weights =
     rbind (GetSuffix filename) (\<lambda>suffix. case fs filename of None \<Rightarrow> Inl (Exit (-2)) | Some bytes \<Rightarrow>
       let file = open_stream (map (\<lambda>b. char_of (unat b)) bytes) in
       if suffix = ''.el'' then rbind (ReadInEL dst file pv_default) (\<lambda>el. Inr (el, needs_weights))
       else if suffix = ''.wel'' then rbind (ReadInWEL dst file pv_default) (\<lambda>el. Inr (el, False))
       else if suffix = ''.gr'' then rbind (ReadInGR dst file pv_default) (\<lambda>el. Inr (el, False))
       else if suffix = ''.graph'' then ReadInMetis dst file pv_default
       else if suffix = ''.mtx'' then ReadInMTX dst file pv_default
       else Inl (Exit (-3)))"

section \<open>No edge is ever read\<close>

text \<open>An empty vector has no capacity, so the first \<open>push_back\<close> leaves the program.\<close>

lemma push_default [simp]: "pv_push_back pv_default x = Inl (Exit (-1))"
  by (simp add: pv_push_back_def pv_default_def pv_reserve_def pv_size_def pv_capacity_def pv_end_offset_def)

declare ReadInEL.simps [simp del] ReadInWEL.simps [simp del] gr_lines.simps [simp del] skip_comments.simps [simp del]
  metis_edges.simps [simp del] metis_rows.simps [simp del] mtx_lines.simps [simp del]

lemma ReadInEL_empty: "ReadInEL dst s pv_default = Inr el \<Longrightarrow> el = pv_default"
  by (subst (asm) ReadInEL.simps) (auto simp: Let_def rbind_eq_Inr split: if_splits)

lemma ReadInWEL_empty: "ReadInWEL dst s pv_default = Inr el \<Longrightarrow> el = pv_default"
  by (subst (asm) ReadInWEL.simps) (auto simp: Let_def rbind_eq_Inr split: if_splits)

lemma metis_edges_empty: "metis_edges dst rw u s pv_default = Inr el \<Longrightarrow> el = pv_default"
  by (subst (asm) metis_edges.simps) (auto simp: Let_def rbind_eq_Inr split: if_splits)

lemma rbind_push_default [simp]: "rbind (pv_push_back pv_default x) f = Inl (Exit (-1))"
  by simp

lemma gr_lines_empty: "gr_lines dst uvw s el = Inr el' \<Longrightarrow> el = pv_default \<Longrightarrow> el' = pv_default"
proof (induction dst uvw s el rule: gr_lines.induct)
  case (1 dst uvw s el)
  consider "is_eof s" | "\<not> is_eof s" "is_fail s" | "\<not> is_eof s" "\<not> is_fail s" "fst (peek s) = Some CHR ''a''"
    | "\<not> is_eof s" "\<not> is_fail s" "fst (peek s) \<noteq> Some CHR ''a''" by blast
  then show ?case
  proof cases
    case 4
    then have "gr_lines dst uvw (ignore_line (snd (peek s))) el = Inr el'"
      using "1.prems"(1) gr_lines.simps [of dst uvw s el] by simp
    then show ?thesis using "1.IH"(2) 4 "1.prems"(2) by blast
  qed (use "1.prems"(1) in \<open>simp_all add: gr_lines.simps [of dst uvw s pv_default] "1.prems"(2) Let_def rbind_eq_Inr\<close>)
qed

lemma ReadInGR_empty: "ReadInGR dst s pv_default = Inr el \<Longrightarrow> el = pv_default"
  unfolding ReadInGR_def by (rule gr_lines_empty [OF _ refl])

lemma metis_rows_empty: "metis_rows dst rw n u s line el = Inr el' \<Longrightarrow> el = pv_default \<Longrightarrow> el' = pv_default"
proof (induction dst rw n u s line el rule: metis_rows.induct)
  case (1 dst rw n u s line el)
  let ?l = "getline (snd (peek s))"
  let ?line = "case fst ?l of None \<Rightarrow> line | Some l \<Rightarrow> l"
  have e: "rbind (if ?line \<noteq> '''' then metis_edges dst rw u (open_stream ?line) pv_default else Inr pv_default) f = Inr el'
      \<Longrightarrow> (if ?line \<noteq> '''' then metis_edges dst rw u (open_stream ?line) pv_default else Inr pv_default) = Inr pv_default \<and>
        f pv_default = Inr el'" for f
    by (auto simp: rbind_eq_Inr split: if_splits) (frule metis_edges_empty, simp)+
  consider "\<not> u < n" | "u < n" "fst (peek s) = Some CHR ''%''" | "u < n" "fst (peek s) \<noteq> Some CHR ''%''" by blast
  then show ?case
  proof cases
    case 1
    then show ?thesis using "1.prems" by (simp add: metis_rows.simps)
  next
    case 2
    then have "metis_rows dst rw n u (ignore_line (snd (peek s))) line el = Inr el'"
      using "1.prems"(1) metis_rows.simps [of dst rw n u s line el] by simp
    then show ?thesis using "1.IH"(1) 2 "1.prems"(2) by blast
  next
    case 3
    have "metis_rows dst rw n u s line el = rbind (if ?line \<noteq> '''' then metis_edges dst rw u (open_stream ?line) pv_default else Inr pv_default)
        (\<lambda>el. metis_rows dst rw n (u + 1) (snd ?l) ?line el)"
      unfolding "1.prems"(2) metis_rows.simps [of dst rw n u s line pv_default] Let_def using 3 by (simp only: if_True if_False)
    from e [OF this [symmetric, unfolded "1.prems"(1)]] show ?thesis
      using "1.IH"(2) [OF 3 refl refl, of pv_default] unfolding "1.prems"(2) by blast
  qed
qed

lemma mtx_lines_empty: "mtx_lines dst rw und s el = Inr el' \<Longrightarrow> el = pv_default \<Longrightarrow> el' = pv_default"
proof (induction dst rw und s el rule: mtx_lines.induct)
  case (1 dst rw und s el)
  let ?l = "getline s"
  show ?case
  proof (cases "is_fail (snd ?l)")
    case True
    then show ?thesis using "1.prems" mtx_lines.simps [of dst rw und s el] by (simp add: Let_def)
  next
    case False
    then obtain line where line: "fst ?l = Some line"
      using "1.prems" mtx_lines.simps [of dst rw und s el] by (cases "fst ?l") (simp_all add: Let_def)
    have "line = ''''" using "1.prems"(1) False line
      by (rule_tac ccontr) (simp add: mtx_lines.simps [of dst rw und s pv_default] "1.prems"(2) Let_def rbind_eq_Inr)
    then have "mtx_lines dst rw und (snd ?l) el = Inr el'"
      using "1.prems"(1) mtx_lines.simps [of dst rw und s el] False line by (simp add: Let_def)
    then show ?thesis using "1.IH"(1) [OF refl False _ \<open>line = ''''\<close>] line "1.prems"(2) by simp
  qed
qed

lemma ReadInMetis_empty: "ReadInMetis dst s pv_default = Inr (el, nw) \<Longrightarrow> el = pv_default"
  by (auto simp: ReadInMetis_def Let_def rbind_eq_Inr dest: metis_rows_empty)

lemma ReadInMTX_empty: "ReadInMTX dst s pv_default = Inr (el, nw) \<Longrightarrow> el = pv_default"
  by (auto simp: ReadInMTX_def Let_def rbind_eq_Inr dest: mtx_lines_empty split: if_splits)

section \<open>Properties\<close>

text \<open>C40: No text format can be read.  Whenever \<open>ReadFile\<close> returns, for any of the five formats, the edge list is the empty
  one it started with: the first edge that is found would have to be appended to a vector without
  capacity, which leaves the program.\<close>

lemma ReadFile_no_edges:
  assumes "ReadFile dst fs filename nw = Inr (el, nw')"
  shows "el = pv_default"
proof -
  obtain suffix where suffix: "GetSuffix filename = Inr suffix" using assms by (auto simp: ReadFile_def rbind_eq_Inr)
  obtain bytes where bytes: "fs filename = Some bytes"
    using assms suffix by (cases "fs filename") (simp_all add: ReadFile_def)
  define inp where "inp = open_stream (map (\<lambda>b. char_of (unat b)) bytes)"
  have "ReadInEL dst inp pv_default = Inr el \<or> ReadInWEL dst inp pv_default = Inr el \<or> ReadInGR dst inp pv_default = Inr el \<or>
      ReadInMetis dst inp pv_default = Inr (el, nw') \<or> ReadInMTX dst inp pv_default = Inr (el, nw')"
    using assms by (simp add: ReadFile_def suffix bytes Let_def inp_def rbind_eq_Inr split: if_splits)
  then show ?thesis
    using ReadInEL_empty ReadInWEL_empty ReadInGR_empty ReadInMetis_empty ReadInMTX_empty by blast
qed

lemma ReadFile_no_edges_witness:
  "\<exists>el. ReadFile (\<lambda>v w. v) [''a.el'' \<mapsto> []] ''a.el'' False = Inr (el, False) \<and> el = pv_default"
proof -
  have r: "ReadFile (\<lambda>v w. v) [''a.el'' \<mapsto> []] ''a.el'' False = Inr (pv_default, False)"
    by (simp add: ReadFile_def GetSuffix_def ReadInEL.simps get_int_def skip_ws_def open_stream_def is_good_def)
  from ReadFile_no_edges [OF r] r show ?thesis by blast
qed

end
