(* ===== verification/Construction.thy ===== *)
theory Construction
  imports CSRBuild SharedGraph CommandLine Generator Reader
begin

text \<open>
  The flows of src/builder.h that lead from the command line to a graph: \<^verbatim>\<open>MakeGraphFromEL\<close>,
  \<^verbatim>\<open>SquishGraph\<close>, \<^verbatim>\<open>MakeGraph\<close>, for the unweighted instance \<^verbatim>\<open>Builder\<close> (\<open>DestID_\<close> is the vertex
  id).  An \<^verbatim>\<open>assert(false)\<close> is the fault \<open>AssertFailed\<close>: the makefile does not define \<^verbatim>\<open>NDEBUG\<close>.
  The memory a host maps is an argument: the region \<open>s\<close> for host 0, the successive contents
  \<open>mem\<close> for a worker.
\<close>

section \<open>The builder\<close>

record builder =
  bld_symmetrize :: bool
  bld_needs_weights :: bool
  bld_in_place :: bool
  bld_num_nodes :: int
  bld_index_x :: "64 word"
  bld_neighs_x :: "64 word"

definition SIZE_MAX :: "64 word" where
  "SIZE_MAX = -1"

definition BuilderBase :: "bool \<Rightarrow> 'a cl_base_scheme \<Rightarrow> builder result" where
  \<comment> \<open>\<open>weighted\<close> says whether \<^verbatim>\<open>DestID_\<close> differs from \<^verbatim>\<open>NodeID_\<close>\<close>
  "BuilderBase weighted cli =
     (if cl_in_place cli \<and> weighted then Inl (Exit (-30))
      else Inr \<lparr>bld_symmetrize = cl_symmetrize cli, bld_needs_weights = weighted,
                bld_in_place = cl_in_place cli, bld_num_nodes = -1,
                bld_index_x = SIZE_MAX, bld_neighs_x = SIZE_MAX\<rparr>)"

definition MakeGraphFromEL ::
  "('d \<Rightarrow> nat) \<Rightarrow> ((nat, 'd) edge_pair \<Rightarrow> 'd) \<Rightarrow> bool \<Rightarrow> builder \<Rightarrow> (nat, 'd) edge_pair list \<Rightarrow> int \<Rightarrow>
   ('d csr_graph \<times> builder) result" where
  \<comment> \<open>\<open>invert\<close> is the template parameter; \<^verbatim>\<open>FindMaxNodeID(el)+1\<close> is computed as a 32-bit int\<close>
  "MakeGraphFromEL nid get_source invert bld el host_id =
     rbind (if host_id = 0 then
        rbind (if bld_num_nodes bld = -1 then
                 if FindMaxNodeID nid el \<ge> 2 ^ 31 - 1 then Inl NoDefinedResult
                 else Inr (bld\<lparr>bld_num_nodes := int (FindMaxNodeID nid el) + 1\<rparr>)
               else Inr bld) (\<lambda>bld.
        if bld_needs_weights bld then Inl AssertFailed
        else if bld_in_place bld then Inl AssertFailed
        else rbind (of_opt (MakeCSR (bld_symmetrize bld) (bld_in_place bld) (nat (bld_num_nodes bld))
                     nid get_source el False)) (\<lambda>(index, neighs, index_x).
          if \<not> bld_symmetrize bld \<and> invert then Inl AssertFailed
          else Inr (index, neighs, bld\<lparr>bld_index_x := word_of_nat index_x\<rparr>)))
      else Inr ([], [], bld)) (\<lambda>(index, neighs, bld).
     if bld_symmetrize bld then Inr (csr_undirected (bld_num_nodes bld) index neighs, bld)
     else Inl AssertFailed)"

definition SquishGraph_no_host :: "nat csr_graph \<Rightarrow> nat csr_graph result" where
  "SquishGraph_no_host g = Inl (Exit (-1))"

definition SquishGraph ::
  "builder \<Rightarrow> nat csr_graph \<Rightarrow> int \<Rightarrow> shm result \<Rightarrow> (nat \<Rightarrow> 32 word list) \<Rightarrow> (nat csr_graph \<times> shm) result" where
  \<comment> \<open>\<open>region\<close> is what the shared constructor gets when it maps the memory\<close>
  "SquishGraph bld g host_id region mem =
     (if host_id = 0 then
        rbind (of_opt (SquishCSR (\<lambda>v. v) (\<lambda>a b. a = b) g False)) (\<lambda>(out_index, out_neighs, neighs_x).
        if bld_index_x bld = SIZE_MAX then Inl AssertFailed
        else if csr_directed g then Inl AssertFailed
        else rbind region (master_graph (csr_num_nodes g) out_index (bld_index_x bld) out_neighs (word_of_nat neighs_x) False))
      else rbind region (\<lambda>s. rbind (worker_graph host_id False mem) (\<lambda>g. Inr (g, s))))"

definition MakeGraph_no_host :: "'d csr_graph result" where
  "MakeGraph_no_host = Inl (Exit (-1))"

datatype 'd input = SerializedGraph "'d csr_graph" | EdgeList "(nat, 'd) edge_pair list"

definition edge_list :: "(int \<times> int \<Rightarrow> 'd option) \<Rightarrow> (int \<times> int) int_edges \<Rightarrow> (nat, 'd) edge_pair list option" where
  "edge_list to_dst el = those (map (\<lambda>e. do { u \<leftarrow> node_id (e_u e); v \<leftarrow> to_dst (e_v e); Some (EdgePair u v) }) (pv_list el))"

definition read_input ::
  "bool \<Rightarrow> (int \<times> int \<Rightarrow> 'd option) \<Rightarrow> (byte list \<Rightarrow> 'd option) \<Rightarrow> nat \<Rightarrow> bool \<Rightarrow> files \<Rightarrow> string \<Rightarrow> bool \<Rightarrow>
   ('d input \<times> bool) result" where
  \<comment> \<open>the graph or the edge list of a file, and the new value of \<open>needs_weights_\<close>\<close>
  "read_input weighted_type to_dst dec width invert fs filename needs_weights =
     rbind (GetSuffix filename) (\<lambda>suffix.
     if suffix = ''.sg'' \<or> suffix = ''.wsg'' then
       rbind (ReadSerializedGraph weighted_type dec width invert fs filename) (\<lambda>g. Inr (SerializedGraph g, needs_weights))
     else rbind (ReadFile Pair fs filename needs_weights) (\<lambda>(el, needs_weights).
       rbind (of_opt (edge_list to_dst el)) (\<lambda>el. Inr (EdgeList el, needs_weights))))"

definition MakeGraph ::
  "files \<Rightarrow> (int \<Rightarrow> int \<Rightarrow> int \<Rightarrow> bool \<Rightarrow> (nat, nat) edge_pair list result) \<Rightarrow>
   bool \<Rightarrow> 'a cl_base_scheme \<Rightarrow> builder \<Rightarrow> int \<Rightarrow> shm result \<Rightarrow> (nat \<Rightarrow> 32 word list) \<Rightarrow>
   (nat csr_graph \<times> shm) result" where
  \<comment> \<open>\<open>generate\<close> is the generator's constructor followed by \<open>GenerateEL\<close>\<close>
  "MakeGraph fs generate invert cli bld host_id region mem =
     rbind (if host_id = 0 then
              if cl_filename cli \<noteq> '''' then
                read_input False (\<lambda>(v, w). node_id v) dec_id 4 invert fs (cl_filename cli) (bld_needs_weights bld)
              else if cl_scale cli \<noteq> -1 then
                rbind (generate (cl_scale cli) (cl_degree cli) (cl_host_id cli) (cl_uniform cli))
                  (\<lambda>el. Inr (EdgeList el, bld_needs_weights bld))
              else Inr (EdgeList [], bld_needs_weights bld)
            else Inr (EdgeList [], bld_needs_weights bld)) (\<lambda>(inp, needs_weights). case inp of
       SerializedGraph g \<Rightarrow> Inr (g, \<lparr>shm_words = [], shm_stores = []\<rparr>)
     | EdgeList el \<Rightarrow>
       rbind (MakeGraphFromEL (\<lambda>v. v) GetSource invert (bld\<lparr>bld_needs_weights := needs_weights\<rparr>) el (cl_host_id cli)) (\<lambda>(g, bld).
       if bld_in_place bld then Inl AssertFailed
       else SquishGraph bld g (cl_host_id cli) region mem))"

section \<open>The graph that is meant\<close>

text \<open>
  The rows of the simple undirected graph of an edge list: the neighbours of u, either way,
  without u, in ascending order.  This is the contract of the builder.
\<close>

definition edge_rel :: "(nat, nat) edge_pair list \<Rightarrow> (nat \<times> nat) set" where
  "edge_rel el = (\<lambda>e. (e_u e, e_v e)) ` set el"

definition simple_neighbors :: "(nat, nat) edge_pair list \<Rightarrow> nat \<Rightarrow> nat set" where
  "simple_neighbors el u = {v. (u, v) \<in> edge_rel el \<union> (edge_rel el)\<inverse>} - {u}"

definition simple_rows :: "(nat, nat) edge_pair list \<Rightarrow> nat list list" where
  "simple_rows el = map (\<lambda>u. sorted_list_of_set (simple_neighbors el u)) [0..<Suc (FindMaxNodeID (\<lambda>v. v) el)]"

lemma FindMaxNodeID_ge:
  assumes "e \<in> set el"
  shows "e_u e \<le> FindMaxNodeID nid el" "nid (e_v e) \<le> FindMaxNodeID nid el"
proof -
  have mono: "m \<le> fold (\<lambda>e max_seen. max (max max_seen (e_u e)) (nid (e_v e))) xs m" for xs :: "(nat, 'a) edge_pair list" and m
  proof (induction xs arbitrary: m)
    case Nil
    then show ?case by simp
  next
    case (Cons x xs)
    have "m \<le> max (max m (e_u x)) (nid (e_v x))" by simp
    also have "\<dots> \<le> fold (\<lambda>e max_seen. max (max max_seen (e_u e)) (nid (e_v e))) xs \<dots>" by (rule Cons.IH)
    finally show ?case by simp
  qed
  have "e_u e \<le> fold (\<lambda>e max_seen. max (max max_seen (e_u e)) (nid (e_v e))) el m \<and>
      nid (e_v e) \<le> fold (\<lambda>e max_seen. max (max max_seen (e_u e)) (nid (e_v e))) el m" for m
    using assms
  proof (induction el arbitrary: m)
    case Nil
    then show ?case by simp
  next
    case (Cons x xs)
    then show ?case using mono [of "max (max m (e_u x)) (nid (e_v x))" xs] by auto
  qed
  then show "e_u e \<le> FindMaxNodeID nid el" "nid (e_v e) \<le> FindMaxNodeID nid el"
    by (simp_all add: FindMaxNodeID_def)
qed

lemma finite_simple_neighbors [simp]: "finite (simple_neighbors el u)"
proof -
  have "simple_neighbors el u \<subseteq> snd ` (edge_rel el \<union> (edge_rel el)\<inverse>)"
    by (force simp: simple_neighbors_def)
  then show ?thesis by (rule finite_subset) (simp add: edge_rel_def)
qed

lemma simple_neighbors_sym: "v \<in> simple_neighbors el u \<Longrightarrow> u \<in> simple_neighbors el v"
  by (auto simp: simple_neighbors_def)

lemma simple_neighbors_range: "v \<in> simple_neighbors el u \<Longrightarrow> v < Suc (FindMaxNodeID (\<lambda>v. v) el)"
  using FindMaxNodeID_ge [of _ el "\<lambda>v. v"] by (auto simp: simple_neighbors_def edge_rel_def less_Suc_eq_le)

lemma length_simple_rows [simp]: "length (simple_rows el) = Suc (FindMaxNodeID (\<lambda>v. v) el)"
  by (simp add: simple_rows_def)

lemma nth_simple_rows: "u < Suc (FindMaxNodeID (\<lambda>v. v) el) \<Longrightarrow>
    simple_rows el ! u = sorted_list_of_set (simple_neighbors el u)"
  by (simp add: simple_rows_def del: upt_Suc)

lemma simple_rows_range: "r \<in> set (simple_rows el) \<Longrightarrow> v \<in> set r \<Longrightarrow> v < length (simple_rows el)"
  unfolding length_simple_rows by (auto simp: simple_rows_def intro: simple_neighbors_range simp del: upt_Suc)

section \<open>From the edge list to the squished rows\<close>

lemma csr_rows_neighbors:
  assumes "u < n"
  shows "set (csr_rows True n (\<lambda>v. v) GetSource el False ! u) - {u} = simple_neighbors el u"
  using assms
  by (force simp: csr_rows_def set_bucket edge_items_def GetSource_def simple_neighbors_def edge_rel_def)

lemma length_concat_csr_rows:
  assumes "\<And>e. e \<in> set el \<Longrightarrow> e_u e < n \<and> e_v e < n"
  shows "length (concat (csr_rows True n (\<lambda>v. v) GetSource el False)) \<le> 2 * length el"
proof -
  let ?items = "concat (map (edge_items True (\<lambda>v. v) GetSource False) el)"
  have "(\<Sum>b < n. count_list (map fst items) b) \<le> length items" for items :: "(nat \<times> nat) list"
  proof (induction items)
    case Nil
    then show ?case by simp
  next
    case (Cons i items)
    have "(\<Sum>b < n. count_list (map fst (i # items)) b) = (\<Sum>b < n. (if b = fst i then 1 else 0) + count_list (map fst items) b)"
      by (intro sum.cong) auto
    also have "\<dots> = (\<Sum>b < n. if b = fst i then 1 else 0) + (\<Sum>b < n. count_list (map fst items) b)"
      by (rule sum.distrib)
    also have "(\<Sum>b < n. if b = fst i then 1 else 0) \<le> (1 :: nat)" by simp
    finally show ?case using Cons.IH by simp
  qed
  moreover have "length (concat (csr_rows True n (\<lambda>v. v) GetSource el False)) = (\<Sum>b < n. count_list (map fst ?items) b)"
    by (simp add: csr_rows_def length_concat length_bucket o_def interv_sum_list_conv_sum_set_nat atLeast0LessThan)
  moreover have "length ?items = 2 * length el"
    by (induction el) (simp_all add: edge_items_def)
  ultimately show ?thesis by metis
qed

lemma squished_simple_rows:
  fixes el :: "(nat, nat) edge_pair list"
  defines "n \<equiv> Suc (FindMaxNodeID (\<lambda>v. v) el)"
  defines "rows \<equiv> csr_rows True n (\<lambda>v. v) GetSource el False"
  shows "squished_rows (\<lambda>v. v) (\<lambda>a b. a = b) n (\<lambda>u. rows ! u) = simple_rows el"
  unfolding squished_rows_def simple_rows_def squish_row_eq n_def [symmetric] rows_def
  by (intro map_cong) (simp_all add: csr_rows_neighbors)

lemma simple_rows_size: "cells (simple_rows el) \<le> 2 * length el"
proof -
  let ?n = "Suc (FindMaxNodeID (\<lambda>v. v) el)"
  let ?rows = "csr_rows True ?n (\<lambda>v. v) GetSource el False"
  have r: "length ?rows = ?n" by (simp add: csr_rows_def)
  have "sum_list (map length (simple_rows el)) \<le> sum_list (map length ?rows)"
  proof -
    have "sum_list (map length (simple_rows el)) = (\<Sum>u \<leftarrow> [0..<?n]. length (squish_row (\<lambda>v. v) (\<lambda>a b. a = b) u (?rows ! u)))"
      by (simp add: squished_simple_rows [symmetric] squished_rows_def o_def del: upt_Suc)
    also have "\<dots> \<le> (\<Sum>u \<leftarrow> [0..<?n]. length (?rows ! u))"
      by (intro sum_list_mono length_squish_row)
    also have "\<dots> = sum_list (map length ?rows)"
      using r by (simp add: sum_list_sum_nth atLeast0LessThan del: upt_Suc)
    finally show ?thesis .
  qed
  also have "\<dots> = length (concat ?rows)" by (simp add: length_concat)
  also have "\<dots> \<le> 2 * length el"
    using FindMaxNodeID_ge [of _ el "\<lambda>v. v"] by (intro length_concat_csr_rows) (auto simp: less_Suc_eq_le)
  finally show ?thesis by (simp add: cells_def length_concat)
qed

text \<open>
  What the 32-bit ints of the builder can hold: the ids and the length of the index, and a degree counter for each
  vertex, which counts every entry of the list the vertex is an end of, repetitions and self-loops included.
\<close>

definition edge_ends :: "(nat, nat) edge_pair list \<Rightarrow> nat list" where
  "edge_ends el = map e_u el @ map e_v el"

definition edges_fit :: "(nat, nat) edge_pair list \<Rightarrow> bool" where
  "edges_fit el \<longleftrightarrow> FindMaxNodeID (\<lambda>v. v) el < 2 ^ 31 - 2 \<and> (\<forall>v \<in> set (edge_ends el). count_list (edge_ends el) v < 2 ^ 31)"

lemma edges_fit_short:
  assumes "FindMaxNodeID (\<lambda>v. v) el < 2 ^ 31 - 2" "length el < 2 ^ 30"
  shows "edges_fit el"
proof -
  have "count_list (edge_ends el) v < 2 ^ 31" for v
    using count_le_length [of "edge_ends el" v] assms(2) by (simp add: edge_ends_def)
  then show ?thesis using assms(1) by (simp add: edges_fit_def)
qed

lemma edges_fit_ids: "edges_fit el \<Longrightarrow> FindMaxNodeID (\<lambda>v. v) el < 2 ^ 31 - 1"
  by (simp add: edges_fit_def)

lemma edge_ends_range: "v \<in> set (edge_ends el) \<Longrightarrow> v < Suc (FindMaxNodeID (\<lambda>v. v) el)"
  using FindMaxNodeID_ge [of _ el "\<lambda>v. v"] by (auto simp: edge_ends_def less_Suc_eq_le)

lemma edges_fit_count: "edges_fit el \<Longrightarrow> count_list (edge_ends el) v < 2 ^ 31"
  by (cases "v \<in> set (edge_ends el)") (simp_all add: edges_fit_def)

lemma items_ends: "count_list (map fst (concat (map (edge_items True (\<lambda>v. v) GetSource False) el))) v = count_list (edge_ends el) v"
  by (induction el) (auto simp: edge_ends_def edge_items_def)

lemma length_csr_row: "u < n \<Longrightarrow> length (csr_rows True n (\<lambda>v. v) GetSource el False ! u) = count_list (edge_ends el) u"
  by (simp add: csr_rows_def length_bucket items_ends)

lemma edges_fit_length:
  assumes "edges_fit el"
  shows "length el < 2 ^ 61"
proof -
  let ?n = "Suc (FindMaxNodeID (\<lambda>v. v) el)"
  have "2 * length el = length (edge_ends el)" by (simp add: edge_ends_def)
  also have "\<dots> = (\<Sum>v \<in> set (edge_ends el). count_list (edge_ends el) v)" by (rule sum_count_set [symmetric]) simp_all
  also have "\<dots> \<le> (\<Sum>v \<in> {..<?n}. count_list (edge_ends el) v)"
    by (rule sum_mono2) (use edge_ends_range in \<open>auto simp del: lessThan_Suc\<close>)
  also have "\<dots> \<le> (\<Sum>v \<in> {..<?n}. 2 ^ 31 - 1)"
  proof (rule sum_mono)
    show "count_list (edge_ends el) v \<le> 2 ^ 31 - 1" for v using edges_fit_count [OF assms, of v] by linarith
  qed
  also have "\<dots> \<le> 2 ^ 31 * (2 ^ 31 - 1)"
    using assms by (simp add: edges_fit_def del: sum.lessThan_Suc)
  finally show ?thesis by simp
qed

section \<open>The two hosts\<close>

definition plain_builder :: "int \<Rightarrow> 64 word \<Rightarrow> builder" where
  \<comment> \<open>the builder of an unweighted kernel that was given a scale, and no \<^verbatim>\<open>-m\<close>\<close>
  "plain_builder num_nodes index_x = \<lparr>bld_symmetrize = True, bld_needs_weights = False,
     bld_in_place = False, bld_num_nodes = num_nodes, bld_index_x = index_x, bld_neighs_x = SIZE_MAX\<rparr>"

lemma MakeGraphFromEL_master:
  assumes fit: "edges_fit el"
  defines "n \<equiv> Suc (FindMaxNodeID (\<lambda>v. v) el)"
  shows "MakeGraphFromEL (\<lambda>v. v) GetSource invert (plain_builder (-1) x) el 0 =
    Inr (csr_of_rows (csr_rows True n (\<lambda>v. v) GetSource el False), plain_builder (int n) (word_of_nat (Suc n)))"
proof -
  let ?rows = "csr_rows True n (\<lambda>v. v) GetSource el False"
  have "MakeCSR True False n (\<lambda>v. v) GetSource el False
      = Some (prefix_sums (map length ?rows), concat ?rows, Suc n)"
  proof (rule MakeCSR_eq)
    show "e_u e < n \<and> e_v e < n" if "e \<in> set el" for e
      using FindMaxNodeID_ge [OF that, of "\<lambda>v. v"] by (simp add: n_def less_Suc_eq_le)
    show "Suc n < 2 ^ 31" using fit by (simp add: n_def edges_fit_def)
    show "length (?rows ! u) < 2 ^ 31" if "u < n" for u using edges_fit_count [OF fit] that by (simp add: length_csr_row)
  qed
  moreover have "length ?rows = n" by (simp add: csr_rows_def)
  moreover have "nat (int (FindMaxNodeID (\<lambda>v. v) el) + 1) = n" "int (FindMaxNodeID (\<lambda>v. v) el) + 1 = int n"
    by (simp_all add: n_def)
  ultimately show ?thesis
    using edges_fit_ids [OF fit] by (simp add: MakeGraphFromEL_def plain_builder_def csr_of_rows_def del: of_nat_Suc)
qed

text \<open>Conversely, when the allocator gets through, nothing has overflowed.\<close>

lemma MakeGraphFromEL_fit:
  assumes "MakeGraphFromEL (\<lambda>v. v) GetSource invert (plain_builder (-1) x) el 0 = Inr r"
  shows "edges_fit el"
proof -
  let ?n = "Suc (FindMaxNodeID (\<lambda>v. v) el)"
  obtain csr where csr: "MakeCSR True False ?n (\<lambda>v. v) GetSource el False = Some csr"
    using assms by (auto simp: MakeGraphFromEL_def plain_builder_def rbind_eq_Inr of_opt_def nat_add_distrib split: if_splits option.splits)
  then obtain degrees where deg: "CountDegrees True False ?n (\<lambda>v. v) el False = Some degrees"
    "ParallelPrefixSum degrees \<bind> GenIndex \<noteq> None"
    by (auto simp: MakeCSR_def Let_def bind_eq_Some_conv)
  have count: "count_list (edge_ends el) v < 2 ^ 31" if "v \<in> set (edge_ends el)" for v
  proof -
    let ?bs = "map fst (concat (map (edge_items True (\<lambda>v. v) GetSource False) el))"
    have "v \<in> set ?bs" using that items_ends [of el v] by (metis count_list_0_iff)
    from count_loop_small [OF deg(1) [unfolded CountDegrees_loop [where get_source = GetSource]] this]
    show ?thesis unfolding items_ends by simp
  qed
  have "degrees = map length (csr_rows True ?n (\<lambda>v. v) GetSource el False)"
  proof -
    have "CountDegrees True False ?n (\<lambda>v. v) el False = Some (map length (csr_rows True ?n (\<lambda>v. v) GetSource el False))"
    proof (rule CountDegrees_eq)
      show "e_u e < ?n \<and> e_v e < ?n" if "e \<in> set el" for e
        using FindMaxNodeID_ge [OF that, of "\<lambda>v. v"] by (simp add: less_Suc_eq_le)
      show "length (csr_rows True ?n (\<lambda>v. v) GetSource el False ! u) < 2 ^ 31" if "u < ?n" for u
        unfolding length_csr_row [OF that] using count by (cases "u \<in> set (edge_ends el)") simp_all
    qed
    then show ?thesis using deg(1) by simp
  qed
  then have "length degrees = ?n" by (simp add: csr_rows_def del: upt_Suc)
  moreover have "Suc (length degrees) < 2 ^ 31"
    using deg(2) by (auto simp: ParallelPrefixSum_def parallel_prefix_sum_eq GenIndex_Some)
  ultimately have "FindMaxNodeID (\<lambda>v. v) el < 2 ^ 31 - 2" by simp
  then show ?thesis using count by (simp add: edges_fit_def)
qed

lemma SquishCSR_master:
  assumes fit: "edges_fit el"
  defines "n \<equiv> Suc (FindMaxNodeID (\<lambda>v. v) el)"
  shows "SquishCSR (\<lambda>v. v) (\<lambda>a b. a = b) (csr_of_rows (csr_rows True n (\<lambda>v. v) GetSource el False)) False
    = Some (prefix_sums (map length (simple_rows el)), concat (simple_rows el), cells (simple_rows el))"
proof -
  let ?rows = "csr_rows True n (\<lambda>v. v) GetSource el False"
  have range: "e_u e < n \<and> e_v e < n" if "e \<in> set el" for e
    using FindMaxNodeID_ge [OF that, of "\<lambda>v. v"] by (simp add: n_def less_Suc_eq_le)
  have lr: "length ?rows = n" by (simp add: csr_rows_def)
  have "csr_wf (\<lambda>v. v) (csr_of_rows ?rows)"
  proof (rule csr_of_rows_wf)
    have "length (concat ?rows) \<le> 2 * length el" by (rule length_concat_csr_rows [OF range])
    then show "length (concat ?rows) < 2 ^ 64" using edges_fit_length [OF fit] by simp
    show "v < length ?rows" if "r \<in> set ?rows" "v \<in> set r" for r v
      using that range
      by (fastforce simp: csr_rows_def set_bucket edge_items_def GetSource_def)
  qed
  moreover have "squished_rows (\<lambda>v. v) (\<lambda>a b. a = b) n (adj (csr_of_rows ?rows)) = simple_rows el"
    unfolding squished_simple_rows [symmetric] n_def [symmetric]
    using lr by (simp add: squished_rows_def)
  moreover have "length (squish_row (\<lambda>v. v) (\<lambda>a b. a = b) u (adj (csr_of_rows ?rows) u)) < 2 ^ 31" if "u < n" for u
    using length_squish_row [of "\<lambda>v. v" "\<lambda>a b. a = b" u "?rows ! u"] edges_fit_count [OF fit, of u] that lr
    by (simp add: length_csr_row)
  moreover have "Suc n < 2 ^ 31" using fit by (simp add: n_def edges_fit_def)
  ultimately show ?thesis
    using SquishCSR_eq [of "\<lambda>v. v" "csr_of_rows ?rows" "\<lambda>a b. a = b" False] lr by (simp add: cells_def)
qed

lemma master_graph_published:
  assumes "fits rows (length (shm_words s))"
  shows "\<exists>t. master_graph (int (length rows)) (prefix_sums (map length rows)) (word_of_nat (Suc (length rows)))
      (concat rows) (word_of_nat (cells rows)) False s = Inr (region_graph rows (shm_words t), t) \<and>
    master_stores (int (length rows)) (prefix_sums (map length rows)) (word_of_nat (Suc (length rows)))
      (concat rows) (word_of_nat (cells rows)) s = Some ((row_starts rows, row_starts rows), t) \<and> published rows s t"
  using master_stores_published [OF assms]
  by (auto simp: master_graph_def returns_iff finish_graph_region)

lemma word_count_not_max: "k < 2 ^ 63 \<Longrightarrow> (word_of_nat k :: 64 word) \<noteq> SIZE_MAX"
proof
  assume k: "k < 2 ^ 63" and "(word_of_nat k :: 64 word) = SIZE_MAX"
  then have "unat (word_of_nat k :: 64 word) = unat (- 1 :: 64 word)" by (simp only: SIZE_MAX_def)
  then show False using k unat_small [of k] by (simp add: unsigned_minus_1_eq_mask mask_eq_exp_minus_1)
qed

lemma small_ids_simple_rows:
  assumes "FindMaxNodeID (\<lambda>v. v) el < 2 ^ 31 - 1"
  shows "small_ids (simple_rows el)"
proof -
  have "v < 2 ^ 32" if "r \<in> set (simple_rows el)" "v \<in> set r" for r v
    using simple_rows_range [OF that] assms by simp
  then show ?thesis by (simp add: small_ids_def)
qed

text \<open>The allocator, from the edge list to its graph.\<close>

lemma SquishGraph_master:
  assumes fit: "edges_fit el"
    and f: "fits (simple_rows el) (length (shm_words s))"
  shows "\<exists>t. rbind (MakeGraphFromEL (\<lambda>v. v) GetSource invert (plain_builder (-1) x) el 0)
      (\<lambda>(g, bld). SquishGraph bld g 0 (Inr s) mem) = Inr (region_graph (simple_rows el) (shm_words t), t) \<and>
    published (simple_rows el) s t"
proof -
  let ?n = "Suc (FindMaxNodeID (\<lambda>v. v) el)"
  have "(word_of_nat (Suc ?n) :: 64 word) \<noteq> SIZE_MAX" by (rule word_count_not_max) (use edges_fit_ids [OF fit] in simp)
  moreover have "csr_num_nodes (csr_of_rows (csr_rows True ?n (\<lambda>v. v) GetSource el False)) = int ?n"
    "\<not> csr_directed (csr_of_rows (csr_rows True ?n (\<lambda>v. v) GetSource el False))"
    by (simp_all add: csr_of_rows_def csr_undirected_def csr_rows_def)
  ultimately show ?thesis
    using master_graph_published [OF f] MakeGraphFromEL_master [OF fit, of invert x] SquishCSR_master [OF fit]
    by (auto simp: SquishGraph_def plain_builder_def simp del: of_nat_Suc)
qed

lemma SquishGraph_worker:
  assumes "host_id \<noteq> 0"
  shows "rbind (MakeGraphFromEL (\<lambda>v. v) GetSource invert (plain_builder (-1) x) [] host_id) (\<lambda>(g, bld). SquishGraph bld g host_id (Inr s) mem)
    = rbind (worker_graph host_id False mem) (\<lambda>g. Inr (g, s))"
  using assms by (simp add: MakeGraphFromEL_def SquishGraph_def plain_builder_def)

text \<open>A region that holds the simple rows gives a symmetric graph with these rows.\<close>

lemma region_graph_simple:
  assumes "layout (simple_rows el) ws" "fits (simple_rows el) (length ws)" "FindMaxNodeID (\<lambda>v. v) el < 2 ^ 31 - 1"
  defines "g \<equiv> region_graph (simple_rows el) ws"
  shows "graph_sym g" "nodes g = Suc (FindMaxNodeID (\<lambda>v. v) el)"
    "u < nodes g \<Longrightarrow> out_neigh g u 0 = Some (sorted_list_of_set (simple_neighbors el u))"
    "u < nodes g \<Longrightarrow> adj g u = sorted_list_of_set (simple_neighbors el u)"
proof -
  note g = region_graph_rows [OF assms(1,2) small_ids_simple_rows [OF assms(3)] simple_rows_range, folded g_def]
  show n: "nodes g = Suc (FindMaxNodeID (\<lambda>v. v) el)" using g(2) by simp
  show adj: "adj g u = sorted_list_of_set (simple_neighbors el u)" if "u < nodes g" for u
    using g(3) that n by (simp add: nth_simple_rows)
  then show "u < nodes g \<Longrightarrow> out_neigh g u 0 = Some (sorted_list_of_set (simple_neighbors el u))"
    using graph_ok_neigh(1) [OF g(1)] by simp
  have "u \<in> set (adj g v)" if uv: "u < nodes g" "v \<in> set (adj g u)" for u v
  proof -
    have "v \<in> simple_neighbors el u" using uv adj by simp
    moreover from this have "v < nodes g" using simple_neighbors_range n by simp
    ultimately show ?thesis using adj simple_neighbors_sym by simp
  qed
  then show "graph_sym g" using g(1) by (simp add: graph_sym_def)
qed

lemma FindMaxNodeID_attained:
  "FindMaxNodeID nid el = 0 \<or> (\<exists>e \<in> set el. FindMaxNodeID nid el = e_u e \<or> FindMaxNodeID nid el = nid (e_v e))"
proof -
  have "fold (\<lambda>e max_seen. max (max max_seen (e_u e)) (nid (e_v e))) el m = m \<or>
    (\<exists>e \<in> set el. fold (\<lambda>e max_seen. max (max max_seen (e_u e)) (nid (e_v e))) el m \<in> {e_u e, nid (e_v e)})" for m
  proof (induction el arbitrary: m)
    case Nil
    then show ?case by simp
  next
    case (Cons x xs)
    show ?case using Cons.IH [of "max (max m (e_u x)) (nid (e_v x))"] by (auto simp: max_def split: if_splits)
  qed
  from this [of 0] show ?thesis by (auto simp: FindMaxNodeID_def)
qed

lemma FindMaxNodeID_edges:
  assumes "edge_rel el \<union> (edge_rel el)\<inverse> = edge_rel el' \<union> (edge_rel el')\<inverse>"
  shows "FindMaxNodeID (\<lambda>v. v) el = FindMaxNodeID (\<lambda>v. v) el'"
proof -
  have le: "FindMaxNodeID (\<lambda>v. v) xs \<le> FindMaxNodeID (\<lambda>v. v) ys"
    if sub: "edge_rel xs \<subseteq> edge_rel ys \<union> (edge_rel ys)\<inverse>" for xs ys :: "(nat, nat) edge_pair list"
  proof (cases "FindMaxNodeID (\<lambda>v. v) xs = 0")
    case False
    then obtain e where e: "e \<in> set xs" "FindMaxNodeID (\<lambda>v. v) xs = e_u e \<or> FindMaxNodeID (\<lambda>v. v) xs = e_v e"
      using FindMaxNodeID_attained [of "\<lambda>v. v" xs] by auto
    have "(e_u e, e_v e) \<in> edge_rel ys \<union> (edge_rel ys)\<inverse>" using e(1) sub by (auto simp: edge_rel_def)
    then obtain f where "f \<in> set ys" "(e_u e, e_v e) = (e_u f, e_v f) \<or> (e_v e, e_u e) = (e_u f, e_v f)"
      by (auto simp: edge_rel_def)
    then show ?thesis using e(2) FindMaxNodeID_ge [of f ys "\<lambda>v. v"] by auto
  qed simp
  show ?thesis by (rule antisym; rule le) (use assms in blast)+
qed

text \<open>The whole flow on host 0.\<close>

lemma MakeGraph_region:
  assumes gen: "cl_filename cli = ''''" "cl_scale cli \<noteq> -1"
      "generate (cl_scale cli) (cl_degree cli) 0 (cl_uniform cli) = Inr el" and host: "cl_host_id cli = 0"
    and fit: "edges_fit el"
    and f: "fits (simple_rows el) (length (shm_words s))"
  shows "\<exists>t. MakeGraph fs generate invert cli (plain_builder (-1) SIZE_MAX) 0 (Inr s) mem
      = Inr (region_graph (simple_rows el) (shm_words t), t) \<and>
    published (simple_rows el) s t \<and> layout (simple_rows el) (shm_words t) \<and> fits (simple_rows el) (length (shm_words t))"
proof -
  obtain t where t: "rbind (MakeGraphFromEL (\<lambda>v. v) GetSource invert (plain_builder (-1) SIZE_MAX) el 0)
      (\<lambda>(g, bld). SquishGraph bld g 0 (Inr s) mem) = Inr (region_graph (simple_rows el) (shm_words t), t)"
    "published (simple_rows el) s t"
    using SquishGraph_master [OF fit f] by blast
  note w = published_words [OF t(2) f]
  have "fits (simple_rows el) (length (shm_words t))" using f w(3) by simp
  moreover have "MakeGraph fs generate invert cli (plain_builder (-1) SIZE_MAX) 0 (Inr s) mem
      = Inr (region_graph (simple_rows el) (shm_words t), t)"
    using t(1) gen host MakeGraphFromEL_master [OF fit, of invert SIZE_MAX]
    by (simp add: MakeGraph_def plain_builder_def)
  ultimately show ?thesis using w(1) t(2) by blast
qed

text \<open>A worker that polls while the allocator's stores arrive.\<close>

lemma worker_attaches:
  assumes small: "FindMaxNodeID (\<lambda>v. v) el < 2 ^ 31 - 1"
    and f: "fits (simple_rows el) (length (shm_words s))" and fresh: "shm_words s ! 0 \<noteq> 1"
    and pub: "published (simple_rows el) s t" and log: "shm_stores t = shm_stores s @ L"
    and mem: "\<And>i. mem i = replay (take (k i) L) (shm_words s)" and progress: "length L \<le> k i"
    and host: "cl_host_id cli > 0"
  shows "MakeGraph fs generate invert cli (plain_builder (-1) SIZE_MAX) (cl_host_id cli) (Inr s') mem
    = Inr (region_graph (simple_rows el) (shm_words t), s')"
proof -
  note w = published_words [OF pub f]
  have all: "mem i = shm_words t" if "length L \<le> k i" for i
  proof -
    obtain u where "shm_words t = (shm_words u)[0 := 1]" "shm_stores t = shm_stores u @ [(0, 1)]"
      "writes 1 (rows_base (simple_rows el) + cells (simple_rows el)) s u" using pub by (auto simp: published_def)
    then show ?thesis using log that mem [of i] by (auto simp: writes_def replay_append replay_def)
  qed
  obtain i' where i': "wait_for_master mem 0 = Some i'" "mem i' ! 0 = 1"
    using wait_for_master_returns [of 0 i mem] w(2) all [OF progress] by auto
  have full: "mem i' = shm_words t"
    using published_prefix [OF pub fresh log] i'(2) mem [of i'] by simp
  have f': "fits (simple_rows el) (length (shm_words t))" using f w(3) by simp
  have "worker_graph (cl_host_id cli) False mem = Inr (region_graph (simple_rows el) (shm_words t))"
    using worker_graph_layout [of "simple_rows el" mem i' "cl_host_id cli"] w(1) f' full i'(1) host by simp
  then show ?thesis
    using host SquishGraph_worker [of "cl_host_id cli" invert SIZE_MAX s' mem]
    by (simp add: MakeGraph_def MakeGraphFromEL_def SquishGraph_def plain_builder_def)
qed

section \<open>Properties\<close>

text \<open>C22: The allocator builds the graph that is meant.  Whatever edge list the generator returns, when
  its ids and the degree counters fit in 32-bit ints and the region is large enough, \<open>MakeGraph\<close> on host 0 returns a graph
  whose neighbour lists are, for every vertex, the ascending list of its neighbours in the
  undirected simple graph of the edge list: symmetrised, without duplicates and self-loops.\<close>

lemma MakeGraph_allocates:
  assumes gen: "cl_filename cli = ''''" "cl_scale cli \<noteq> -1"
      "generate (cl_scale cli) (cl_degree cli) 0 (cl_uniform cli) = Inr el" and host: "cl_host_id cli = 0"
    and fit: "edges_fit el"
    and f: "fits (simple_rows el) (length (shm_words s))"
  shows "\<exists>g t. MakeGraph fs generate invert cli (plain_builder (-1) SIZE_MAX) 0 (Inr s) mem = Inr (g, t) \<and>
    graph_sym g \<and> nodes g = Suc (FindMaxNodeID (\<lambda>v. v) el) \<and>
    (\<forall>u < nodes g. out_neigh g u 0 = Some (sorted_list_of_set (simple_neighbors el u)))"
  using MakeGraph_region [where generate = generate, OF assms] region_graph_simple [OF _ _ edges_fit_ids [OF fit]] by blast

lemma MakeGraph_allocates_witness:
  "\<exists>g t. MakeGraph Map.empty (\<lambda>sc d h u. Inr [EdgePair 0 1, EdgePair 1 0, EdgePair 2 2]) True
      ((CLBase ''tc'')\<lparr>cl_scale := 2, cl_host_id := 0\<rparr>) (plain_builder (-1) SIZE_MAX) 0
      (Inr \<lparr>shm_words = replicate 20 0, shm_stores = []\<rparr>) (\<lambda>_. []) = Inr (g, t) \<and> graph_sym g \<and> nodes g = 3 \<and>
    out_neigh g 0 0 = Some [1] \<and> out_neigh g 2 0 = Some []"
proof -
  let ?el = "[EdgePair 0 1, EdgePair 1 0, EdgePair 2 2] :: (nat, nat) edge_pair list"
  have n: "FindMaxNodeID (\<lambda>v. v) ?el = 2" by (simp add: FindMaxNodeID_def)
  have nb: "simple_neighbors ?el 0 = {1}" "simple_neighbors ?el 1 = {0}" "simple_neighbors ?el 2 = {}"
    by (auto simp: simple_neighbors_def edge_rel_def)
  have "simple_rows ?el = [[1], [0], []]"
  proof -
    have "[0..<Suc 2] = [0, 1, 2]" by (simp add: upt_rec)
    then show ?thesis unfolding simple_rows_def n by (simp only: list.map nb) simp
  qed
  then have f: "fits (simple_rows ?el) (length (shm_words \<lparr>shm_words = replicate 20 0, shm_stores = []\<rparr>))"
    by (simp add: fits_def rows_base_def cells_def)
  have cli: "cl_filename ((CLBase ''tc'')\<lparr>cl_scale := 2, cl_host_id := 0\<rparr>) = ''''"
    by (simp add: CLBase_def cl_base_init_def Let_def AddHelpLine_def)
  have "\<exists>g t. MakeGraph Map.empty (\<lambda>sc d h u. Inr ?el) True
      ((CLBase ''tc'')\<lparr>cl_scale := 2, cl_host_id := 0\<rparr>) (plain_builder (-1) SIZE_MAX) 0
      (Inr \<lparr>shm_words = replicate 20 0, shm_stores = []\<rparr>) (\<lambda>_. []) = Inr (g, t) \<and>
    graph_sym g \<and> nodes g = Suc (FindMaxNodeID (\<lambda>v. v) ?el) \<and>
    (\<forall>u < nodes g. out_neigh g u 0 = Some (sorted_list_of_set (simple_neighbors ?el u)))"
    by (rule MakeGraph_allocates [OF cli]) (use f edges_fit_short [of ?el] n in simp_all)
  then show ?thesis unfolding n using nb by force
qed

text \<open>C21: Allocator and worker agree.  A worker that runs the same \<open>MakeGraph\<close> while the allocator's
  stores arrive in their order gets, whenever its polls fall, a graph with the allocator's
  vertices and neighbour lists; its own edge list is never generated.\<close>

lemma allocator_worker_agree:
  assumes small: "FindMaxNodeID (\<lambda>v. v) el < 2 ^ 31 - 1" and len: "length el < 2 ^ 60"
    and f: "fits (simple_rows el) (length (shm_words s))" and fresh: "shm_words s ! 0 \<noteq> 1"
    and alloc: "rbind (MakeGraphFromEL (\<lambda>v. v) GetSource invert (plain_builder (-1) SIZE_MAX) el 0)
      (\<lambda>(g, bld). SquishGraph bld g 0 (Inr s) mem0) = Inr (g, t)"
    and log: "shm_stores t = shm_stores s @ L"
    and mem: "\<And>i. mem i = replay (take (k i) L) (shm_words s)" and progress: "length L \<le> k i"
    and host: "cl_host_id cli > 0"
  shows "\<exists>gw. MakeGraph fs generate invert cli (plain_builder (-1) SIZE_MAX) (cl_host_id cli) (Inr s') mem = Inr (gw, s') \<and>
    graph_sym gw \<and> nodes gw = nodes g \<and> (\<forall>u < nodes g. out_neigh gw u 0 = out_neigh g u 0)"
proof -
  have fit: "edges_fit el"
    using alloc by (auto simp: rbind_eq_Inr intro: MakeGraphFromEL_fit)
  obtain t' where "rbind (MakeGraphFromEL (\<lambda>v. v) GetSource invert (plain_builder (-1) SIZE_MAX) el 0)
      (\<lambda>(g, bld). SquishGraph bld g 0 (Inr s) mem0) = Inr (region_graph (simple_rows el) (shm_words t'), t')"
    "published (simple_rows el) s t'"
    using SquishGraph_master [OF fit f] by blast
  then have g: "g = region_graph (simple_rows el) (shm_words t)" and pub: "published (simple_rows el) s t"
    using alloc by simp_all
  note w = published_words [OF pub f]
  have "fits (simple_rows el) (length (shm_words t))" using f w(3) by simp
  then have "graph_sym g" using region_graph_simple(1) [OF w(1) _ small] g by simp
  then show ?thesis using worker_attaches [where k = k and i = i, OF small f fresh pub log mem progress host] g by blast
qed

lemma allocator_worker_agree_witness:
  "\<exists>L gw. MakeGraph Map.empty (\<lambda>sc d h u. Inl (Exit (-1))) True
      ((CLBase ''bfs'')\<lparr>cl_scale := 1, cl_host_id := 2\<rparr>) (plain_builder (-1) SIZE_MAX) 2
      (Inr \<lparr>shm_words = [], shm_stores = []\<rparr>) (\<lambda>i. replay (take i L) (replicate 17 0)) = Inr (gw, \<lparr>shm_words = [], shm_stores = []\<rparr>) \<and>
    nodes gw = 2 \<and> out_neigh gw 0 0 = Some [1]"
proof -
  let ?el = "[EdgePair 0 1] :: (nat, nat) edge_pair list"
  let ?s = "\<lparr>shm_words = replicate 17 0, shm_stores = []\<rparr> :: shm"
  let ?cli = "(CLBase ''bfs'')\<lparr>cl_scale := 1, cl_host_id := 2\<rparr>"
  have n: "FindMaxNodeID (\<lambda>v. v) ?el = 1" by (simp add: FindMaxNodeID_def)
  have nb: "simple_neighbors ?el 0 = {1}" "simple_neighbors ?el 1 = {0}"
    by (auto simp: simple_neighbors_def edge_rel_def)
  have "[0..<Suc 1] = [0, 1]" by (simp add: upt_rec)
  then have rows: "simple_rows ?el = [[1], [0]]"
    unfolding simple_rows_def n by (simp only: list.map nb) simp
  then have f: "fits (simple_rows ?el) (length (shm_words ?s))"
    by (simp add: fits_def rows_base_def cells_def)
  have small: "FindMaxNodeID (\<lambda>v. v) ?el < 2 ^ 31 - 1" "length ?el < 2 ^ 60" unfolding n by simp_all
  have fit: "edges_fit ?el" using edges_fit_short [of ?el] unfolding n by simp
  obtain t where t: "rbind (MakeGraphFromEL (\<lambda>v. v) GetSource True (plain_builder (-1) SIZE_MAX) ?el 0)
      (\<lambda>(g, bld). SquishGraph bld g 0 (Inr ?s) (\<lambda>_. [])) = Inr (region_graph (simple_rows ?el) (shm_words t), t)"
    "published (simple_rows ?el) ?s t"
    using SquishGraph_master [OF fit f] by blast
  let ?g = "region_graph (simple_rows ?el) (shm_words t)"
  note w = published_words [OF t(2) f]
  have "fits (simple_rows ?el) (length (shm_words t))" using f w(3) by simp
  note g = region_graph_simple [OF w(1) this small(1)]
  have two: "nodes ?g = 2" using g(2) unfolding n by simp
  have nb0: "out_neigh ?g 0 0 = Some [1]" using g(3) [of 0] two nb(1) by simp
  have "\<exists>gw. MakeGraph Map.empty (\<lambda>sc d h u. Inl (Exit (-1))) True ?cli (plain_builder (-1) SIZE_MAX)
      (cl_host_id ?cli) (Inr \<lparr>shm_words = [], shm_stores = []\<rparr>) (\<lambda>i. replay (take i (shm_stores t)) (shm_words ?s))
      = Inr (gw, \<lparr>shm_words = [], shm_stores = []\<rparr>) \<and> graph_sym gw \<and> nodes gw = nodes ?g \<and>
    (\<forall>u < nodes ?g. out_neigh gw u 0 = out_neigh ?g u 0)"
    by (rule allocator_worker_agree [OF small f _ t(1), where L = "shm_stores t" and k = "\<lambda>i. i" and i = "length (shm_stores t)"])
      simp_all
  then obtain gw where "MakeGraph Map.empty (\<lambda>sc d h u. Inl (Exit (-1))) True ?cli (plain_builder (-1) SIZE_MAX)
      (cl_host_id ?cli) (Inr \<lparr>shm_words = [], shm_stores = []\<rparr>) (\<lambda>i. replay (take i (shm_stores t)) (shm_words ?s))
      = Inr (gw, \<lparr>shm_words = [], shm_stores = []\<rparr>)" "nodes gw = nodes ?g"
    "\<forall>u < nodes ?g. out_neigh gw u 0 = out_neigh ?g u 0" by blast
  then show ?thesis using two nb0 by (intro exI [of _ "shm_stores t"] exI [of _ gw]) simp
qed

text \<open>There is one way through \<open>MakeGraphFromEL\<close>: it returns a graph only for a builder that
  symmetrizes and, on host 0, that neither needs weights nor builds in place.  Everything else
  ends in a failed assertion.\<close>

lemma MakeGraphFromEL_only_symmetrized:
  assumes "MakeGraphFromEL nid get_source invert bld el host_id = Inr r"
  shows "bld_symmetrize bld \<and> (host_id = 0 \<longrightarrow> \<not> bld_needs_weights bld \<and> \<not> bld_in_place bld)"
  using assms
  by (auto simp: MakeGraphFromEL_def rbind_eq_Inr of_opt_def split: if_splits option.splits)

lemma MakeGraphFromEL_only_symmetrized_witness:
  "bld_symmetrize (plain_builder (-1) SIZE_MAX) \<and> \<not> bld_in_place (plain_builder (-1) SIZE_MAX)"
proof -
  have "edges_fit [EdgePair 0 1]" by (rule edges_fit_short) (simp_all add: FindMaxNodeID_def)
  from MakeGraphFromEL_only_symmetrized [OF MakeGraphFromEL_master [OF this, of True SIZE_MAX]]
  show ?thesis by simp
qed

text \<open>C27: The order in which the threads store the edges does not matter.  Edge lists with the same
  undirected edges, in any order, with any repetitions and self-loops on the same vertices that the 32-bit
  degree counters can count, give the same arrays: \<open>SquishCSR\<close> hides the schedule of the atomic increments of \<open>MakeCSR\<close>.\<close>

lemma construction_order_free:
  assumes edges: "edge_rel el \<union> (edge_rel el)\<inverse> = edge_rel el' \<union> (edge_rel el')\<inverse>"
    and fit: "edges_fit el" "edges_fit el'"
  shows "rbind (MakeGraphFromEL (\<lambda>v. v) GetSource invert (plain_builder (-1) SIZE_MAX) el 0) (\<lambda>(g, bld). of_opt (SquishCSR (\<lambda>v. v) (\<lambda>a b. a = b) g False))
    = rbind (MakeGraphFromEL (\<lambda>v. v) GetSource invert (plain_builder (-1) SIZE_MAX) el' 0) (\<lambda>(g, bld). of_opt (SquishCSR (\<lambda>v. v) (\<lambda>a b. a = b) g False))"
proof -
  have rows: "simple_rows el = simple_rows el'"
    using FindMaxNodeID_edges [OF edges]
    by (simp_all add: simple_rows_def simple_neighbors_def edges)
  show ?thesis
    unfolding MakeGraphFromEL_master [OF fit(1)] MakeGraphFromEL_master [OF fit(2)] rbind_simps prod.case
      SquishCSR_master [OF fit(1)] SquishCSR_master [OF fit(2)] rows ..
qed

lemma construction_order_free_witness:
  "rbind (MakeGraphFromEL (\<lambda>v. v) GetSource True (plain_builder (-1) SIZE_MAX) [EdgePair 0 1, EdgePair 2 1] 0) (\<lambda>(g, bld). of_opt (SquishCSR (\<lambda>v. v) (\<lambda>a b. a = b) g False))
    = rbind (MakeGraphFromEL (\<lambda>v. v) GetSource True (plain_builder (-1) SIZE_MAX) [EdgePair 1 2, EdgePair 1 0, EdgePair 0 1] 0) (\<lambda>(g, bld). of_opt (SquishCSR (\<lambda>v. v) (\<lambda>a b. a = b) g False))"
  by (rule construction_order_free) (auto simp: edge_rel_def FindMaxNodeID_def intro!: edges_fit_short)

end
