(* ===== verification/Relabel.thy ===== *)
theory Relabel
  imports CSRBuild "HOL-Library.Product_Lexorder"
begin

text \<open>
  \<^verbatim>\<open>BuilderBase::RelabelByDegree\<close> of src/builder.h: the vertices are renumbered by descending
  degree and the rows rebuilt and sorted.  The graph it returns is isomorphic to its argument.
\<close>

section \<open>Relabelling by degree\<close>

definition degree_id_pairs :: "nat csr_graph \<Rightarrow> (int \<times> nat) list option" where
  \<comment> \<open>sorted with \<^verbatim>\<open>std::greater\<close>: by descending degree, then descending id\<close>
  "degree_id_pairs g = do {
     pairs \<leftarrow> foldM (\<lambda>n p. do { d \<leftarrow> out_degree g n; wr p n (d, n) })
       (vertices g) (uninit (nat (csr_num_nodes g)));
     Some (rev (sort pairs)) }"

definition relabel_ids :: "nat csr_graph \<Rightarrow> (int \<times> nat) list \<Rightarrow> (nat list \<times> nat list) option" where
  \<comment> \<open>the degrees in the new order, 32-bit ints now, and the new id of each vertex\<close>
  "relabel_ids g pairs = foldM (\<lambda>n (degrees, new_ids). do {
     p \<leftarrow> rd pairs n;
     d \<leftarrow> count32 (nat (fst p));
     degrees \<leftarrow> wr degrees n d;
     new_ids \<leftarrow> wr new_ids (snd p) n;
     Some (degrees, new_ids) })
     (vertices g) (uninit (nat (csr_num_nodes g)), uninit (nat (csr_num_nodes g)))"

definition relabel_vertex ::
  "nat csr_graph \<Rightarrow> nat list \<Rightarrow> nat list \<Rightarrow> nat \<Rightarrow> nat list \<times> nat list \<Rightarrow> (nat list \<times> nat list) option" where
  \<comment> \<open>one iteration of the last loop, on the offsets and the neighbour array\<close>
  "relabel_vertex g new_ids index u s = do {
     vs \<leftarrow> out_neigh g u 0;
     (offsets, neighs) \<leftarrow> foldM (\<lambda>v s. do {
          nu \<leftarrow> rd new_ids u;
          nv \<leftarrow> rd new_ids v;
          store_next nu nv s }) vs s;
     nu \<leftarrow> rd new_ids u;
     b \<leftarrow> rd index nu;
     e \<leftarrow> rd index (nu + 1);
     r \<leftarrow> visit_cells neighs (b, e);
     Some (offsets, take b neighs @ sort r @ drop e neighs) }"

definition RelabelByDegree :: "nat csr_graph \<Rightarrow> nat csr_graph result" where
  "RelabelByDegree g =
     (if csr_directed g then Inl (Exit (-11))
      else of_opt (do {
        pairs \<leftarrow> degree_id_pairs g;
        (degrees, new_ids) \<leftarrow> relabel_ids g pairs;
        offsets \<leftarrow> ParallelPrefixSum degrees;
        m \<leftarrow> rd offsets (nat (csr_num_nodes g));
        index \<leftarrow> GenIndex offsets;
        (offsets, neighs) \<leftarrow> foldM (relabel_vertex g new_ids index) (vertices g) (offsets, uninit m);
        Some (csr_undirected (csr_num_nodes g) index neighs) }))"

section \<open>The new order\<close>

definition degree_order :: "nat csr_graph \<Rightarrow> nat list" where
  \<comment> \<open>the old id at each new position\<close>
  "degree_order g = map snd (rev (sort (map (\<lambda>v. (int (length (adj g v)), v)) [0..<nodes g])))"

definition new_id :: "nat csr_graph \<Rightarrow> nat \<Rightarrow> nat" where
  "new_id g v = (LEAST i. i < nodes g \<and> degree_order g ! i = v)"

lemma degree_order_props:
  "length (degree_order g) = nodes g" "set (degree_order g) = {..<nodes g}" "distinct (degree_order g)"
proof -
  show l: "length (degree_order g) = nodes g" by (simp add: degree_order_def)
  show s: "set (degree_order g) = {..<nodes g}" by (auto simp: degree_order_def image_image)
  show "distinct (degree_order g)" by (rule card_distinct) (simp add: l s)
qed

lemma new_id_props:
  assumes "v < nodes g"
  shows "new_id g v < nodes g" "degree_order g ! new_id g v = v"
proof -
  have "v \<in> set (degree_order g)" using assms degree_order_props(2) by blast
  then have "\<exists>i. i < nodes g \<and> degree_order g ! i = v"
    by (auto simp: in_set_conv_nth degree_order_props(1))
  from LeastI_ex [OF this] show "new_id g v < nodes g" "degree_order g ! new_id g v = v"
    by (simp_all add: new_id_def)
qed

lemma new_id_order:
  assumes "i < nodes g"
  shows "degree_order g ! i < nodes g" "new_id g (degree_order g ! i) = i"
proof -
  have "degree_order g ! i \<in> set (degree_order g)" using assms by (simp add: degree_order_props(1))
  then show v: "degree_order g ! i < nodes g" using degree_order_props(2) by blast
  show "new_id g (degree_order g ! i) = i"
    using new_id_props [OF v] degree_order_props(1,3) assms by (simp add: nth_eq_iff_index_eq)
qed

lemma new_id_bij: "bij_betw (new_id g) {..<nodes g} {..<nodes g}"
  by (rule bij_betw_byWitness [where f' = "\<lambda>i. degree_order g ! i"])
    (auto simp: new_id_props new_id_order)

lemma degree_id_pairs_eq:
  assumes "graph_ok g"
  shows "degree_id_pairs g = Some (map (\<lambda>v. (int (length (adj g v)), v)) (degree_order g))"
proof -
  let ?pairs = "map (\<lambda>v. (int (length (adj g v)), v)) [0..<nodes g]"
  have "returns (foldM (\<lambda>n p. do { d \<leftarrow> out_degree g n; wr p n (d, n) }) [0..<nodes g] (uninit (nodes g)))
    (\<lambda>p. p = ?pairs)"
    by (rule foldM_upt_rule [where I = "\<lambda>k p. length p = nodes g \<and> (\<forall>i < k. p ! i = ?pairs ! i)"])
      (use graph_ok_neigh(3) [OF assms] in \<open>auto simp: nth_list_update less_Suc_eq intro!: nth_equalityI\<close>)
  then have "degree_id_pairs g = Some (rev (sort ?pairs))"
    by (auto simp: degree_id_pairs_def vertices_nodes nodes_def [symmetric] returns_iff)
  moreover have "map (\<lambda>v. (int (length (adj g v)), v)) (degree_order g) = rev (sort ?pairs)"
    unfolding degree_order_def map_map
    by (rule map_idI) auto
  ultimately show ?thesis by simp
qed

lemma relabel_ids_eq:
  assumes deg: "\<And>v. v < nodes g \<Longrightarrow> length (adj g v) < 2 ^ 31"
  shows "returns (relabel_ids g (map (\<lambda>v. (int (length (adj g v)), v)) (degree_order g)))
    (\<lambda>(degrees, ids). degrees = map (\<lambda>v. length (adj g v)) (degree_order g) \<and> length ids = nodes g \<and>
       (\<forall>v < nodes g. ids ! v = new_id g v))"
  unfolding relabel_ids_def vertices_nodes nodes_def [symmetric]
proof (rule foldM_upt_rule [where I = "\<lambda>k s. length (fst s) = nodes g \<and> length (snd s) = nodes g \<and>
    (\<forall>i < k. fst s ! i = length (adj g (degree_order g ! i)) \<and> snd s ! (degree_order g ! i) = i)"])
  fix i and s :: "nat list \<times> nat list"
  assume i: "i < nodes g" and I: "length (fst s) = nodes g \<and> length (snd s) = nodes g \<and>
    (\<forall>j < i. fst s ! j = length (adj g (degree_order g ! j)) \<and> snd s ! (degree_order g ! j) = j)"
  have ne: "degree_order g ! j \<noteq> degree_order g ! i" if "j < i" for j
    using that i degree_order_props(1,3) by (simp add: nth_eq_iff_index_eq)
  show "returns ((\<lambda>(degrees, ids). do {
      p \<leftarrow> rd (map (\<lambda>v. (int (length (adj g v)), v)) (degree_order g)) i;
      d \<leftarrow> count32 (nat (fst p));
      degrees \<leftarrow> wr degrees i d; ids \<leftarrow> wr ids (snd p) i; Some (degrees, ids) }) s)
    (\<lambda>s. length (fst s) = nodes g \<and> length (snd s) = nodes g \<and>
      (\<forall>j < Suc i. fst s ! j = length (adj g (degree_order g ! j)) \<and> snd s ! (degree_order g ! j) = j))"
    using i I ne ne [symmetric] new_id_order(1) [OF i] degree_order_props(1) [of g] deg [OF new_id_order(1) [OF i]]
    by (cases s) (auto simp: nth_list_update less_Suc_eq)
next
  fix s :: "nat list \<times> nat list"
  assume I: "length (fst s) = nodes g \<and> length (snd s) = nodes g \<and>
    (\<forall>i < nodes g. fst s ! i = length (adj g (degree_order g ! i)) \<and> snd s ! (degree_order g ! i) = i)"
  have "snd s ! v = new_id g v" if "v < nodes g" for v
    using I new_id_props [OF that] by metis
  moreover have "fst s = map (\<lambda>v. length (adj g v)) (degree_order g)"
    using I degree_order_props(1) [of g] by (intro nth_equalityI) simp_all
  ultimately show "case s of (degrees, ids) \<Rightarrow> degrees = map (\<lambda>v. length (adj g v)) (degree_order g) \<and>
      length ids = nodes g \<and> (\<forall>v < nodes g. ids ! v = new_id g v)"
    using I by (cases s) simp
qed simp

section \<open>The rebuilt rows\<close>

definition relabelled_rows :: "nat csr_graph \<Rightarrow> nat list list" where
  "relabelled_rows g = map (\<lambda>v. sort (map (new_id g) (adj g v))) (degree_order g)"

lemma length_relabelled_rows [simp]: "length (relabelled_rows g) = nodes g"
  by (simp add: relabelled_rows_def degree_order_props)

lemma relabelled_rows_new_id:
  "u < nodes g \<Longrightarrow> relabelled_rows g ! new_id g u = sort (map (new_id g) (adj g u))"
  using new_id_props [of u g] by (simp add: relabelled_rows_def degree_order_props)

lemma relabelled_degrees: "map length (relabelled_rows g) = map (\<lambda>v. length (adj g v)) (degree_order g)"
  by (simp add: relabelled_rows_def)

lemma store_row:
  assumes "b < length offsets" "offsets ! b + length xs \<le> length neighs"
  shows "foldM (store_next b) xs (offsets, neighs) = Some (offsets[b := offsets ! b + length xs],
    take (offsets ! b) neighs @ xs @ drop (offsets ! b + length xs) neighs)"
  using assms
proof (induction xs arbitrary: offsets neighs)
  case Nil
  then show ?case by simp
next
  case (Cons x xs)
  let ?p = "offsets ! b"
  have step: "store_next b x (offsets, neighs) = Some (offsets[b := ?p + 1], neighs[?p := x])"
    using Cons.prems by (simp add: store_next_def Let_def fetch_and_add_def)
  have "take (?p + 1) (neighs[?p := x]) = take ?p neighs @ [x]"
    using Cons.prems by (simp add: take_Suc_conv_app_nth)
  then show ?case
    using step Cons.IH [of "offsets[b := ?p + 1]" "neighs[?p := x]"] Cons.prems by simp
qed

lemma relabel_vertex_step:
  assumes g: "graph_ok g" and u: "u < nodes g"
    and ids: "length ids = nodes g" "\<And>v. v < nodes g \<Longrightarrow> ids ! v = new_id g v"
    and len: "length offsets = Suc (nodes g)" "length neighs = cells"
    and P: "prefix_sums (map length (relabelled_rows g)) = P" "P ! nodes g = cells"
    and at: "offsets ! new_id g u = P ! new_id g u"
  shows "relabel_vertex g ids P u (offsets, neighs) = Some (offsets[new_id g u := P ! Suc (new_id g u)],
    take (P ! new_id g u) neighs @ relabelled_rows g ! new_id g u @ drop (P ! Suc (new_id g u)) neighs)"
proof -
  let ?i = "new_id g u" and ?r = "map (new_id g) (adj g u)"
  have i: "?i < nodes g" using new_id_props [OF u] by simp
  have rowlen: "length (relabelled_rows g ! ?i) = length ?r" using relabelled_rows_new_id [OF u] by simp
  have Ps: "P ! Suc ?i = P ! ?i + length ?r"
    unfolding P(1) [symmetric] using i rowlen by (subst prefix_sums_Suc) simp_all
  have Ple: "P ! Suc ?i \<le> cells"
    unfolding P(1) [symmetric] P(2) [symmetric] using i by (intro prefix_sums_mono) simp_all
  have lenP: "length P = Suc (nodes g)" using P(1) by auto
  have "foldM (\<lambda>v s. do { nu \<leftarrow> rd ids u; nv \<leftarrow> rd ids v; store_next nu nv s }) (adj g u) (offsets, neighs)
      = foldM (store_next ?i) ?r (offsets, neighs)"
    unfolding foldM_map
    by (rule foldM_cong) (use ids u gv.neigh_less [OF g u] in simp)
  also have "\<dots> = Some (offsets[?i := P ! Suc ?i], take (P ! ?i) neighs @ ?r @ drop (P ! Suc ?i) neighs)"
    using store_row [of ?i offsets ?r neighs] len at i Ps Ple by simp
  finally have fill: "foldM (\<lambda>v s. do { nu \<leftarrow> rd ids u; nv \<leftarrow> rd ids v; store_next nu nv s }) (adj g u) (offsets, neighs)
    = Some (offsets[?i := P ! Suc ?i], take (P ! ?i) neighs @ ?r @ drop (P ! Suc ?i) neighs)" .
  let ?N = "take (P ! ?i) neighs @ ?r @ drop (P ! Suc ?i) neighs"
  have tl: "length (take (P ! ?i) neighs) = P ! ?i" using len Ps Ple by simp
  have "segment ?N (P ! ?i) (P ! Suc ?i) = ?r"
    using segment_middle [OF tl, of "P ! Suc ?i" ?r] Ps by simp
  moreover have "P ! Suc ?i \<le> length ?N" using len Ps Ple by simp
  ultimately have "visit_cells ?N (P ! ?i, P ! Suc ?i) = Some ?r" using Ps by (simp add: visit_cells_def)
  moreover have "take (P ! ?i) ?N = take (P ! ?i) neighs" "drop (P ! Suc ?i) ?N = drop (P ! Suc ?i) neighs"
    using tl Ps Ple len by simp_all
  ultimately show ?thesis
    using fill graph_ok_neigh(1) [OF g u] ids u i lenP relabelled_rows_new_id [OF u]
    by (simp add: relabel_vertex_def)
qed

lemma relabel_loop:
  assumes g: "graph_ok g" and ids: "length ids = nodes g" "\<And>v. v < nodes g \<Longrightarrow> ids ! v = new_id g v"
  defines "P \<equiv> prefix_sums (map length (relabelled_rows g))"
  shows "returns (foldM (relabel_vertex g ids P) [0..<nodes g] (P, uninit (P ! nodes g)))
    (\<lambda>s. snd s = concat (relabelled_rows g))"
proof (rule foldM_upt_rule [where I = "\<lambda>k s. length (fst s) = Suc (nodes g) \<and> length (snd s) = P ! nodes g \<and>
    (\<forall>u. k \<le> u \<and> u < nodes g \<longrightarrow> fst s ! new_id g u = P ! new_id g u) \<and>
    (\<forall>u < k. segment (snd s) (P ! new_id g u) (P ! Suc (new_id g u)) = relabelled_rows g ! new_id g u)"])
  let ?rows = "relabelled_rows g"
  have lenP: "length P = Suc (nodes g)" by (simp add: P_def)
  show "length (fst (P, uninit (P ! nodes g))) = Suc (nodes g) \<and> length (snd (P, uninit (P ! nodes g))) = P ! nodes g \<and>
    (\<forall>u. 0 \<le> u \<and> u < nodes g \<longrightarrow> fst (P, uninit (P ! nodes g)) ! new_id g u = P ! new_id g u) \<and>
    (\<forall>u < 0. segment (snd (P, uninit (P ! nodes g))) (P ! new_id g u) (P ! Suc (new_id g u)) = ?rows ! new_id g u)"
    by (simp add: lenP)
  have mono: "P ! a \<le> P ! b" if "a \<le> b" "b \<le> nodes g" for a b
    unfolding P_def using that by (intro prefix_sums_mono) simp_all
  fix k and s :: "nat list \<times> nat list"
  assume k: "k < nodes g" and I: "length (fst s) = Suc (nodes g) \<and> length (snd s) = P ! nodes g \<and>
    (\<forall>u. k \<le> u \<and> u < nodes g \<longrightarrow> fst s ! new_id g u = P ! new_id g u) \<and>
    (\<forall>u < k. segment (snd s) (P ! new_id g u) (P ! Suc (new_id g u)) = ?rows ! new_id g u)"
  obtain offs ne where s: "s = (offs, ne)" by (cases s)
  let ?i = "new_id g k" and ?r = "?rows ! new_id g k"
  let ?ne = "take (P ! ?i) ne @ ?r @ drop (P ! Suc ?i) ne"
  have i: "?i < nodes g" using new_id_props [OF k] by simp
  have Ps: "P ! Suc ?i = P ! ?i + length ?r" unfolding P_def using i by (subst prefix_sums_Suc) simp_all
  have Ple: "P ! Suc ?i \<le> length ne" using I s mono [of "Suc ?i" "nodes g"] i by simp
  have step: "relabel_vertex g ids P k (offs, ne) = Some (offs[?i := P ! Suc ?i], ?ne)"
    by (rule relabel_vertex_step [OF g k ids]) (use I s k in \<open>simp_all add: P_def\<close>)
  have len: "length ?ne = length ne" using Ps Ple by simp
  have nth: "?ne ! p = ne ! p" if "p < P ! ?i \<or> P ! Suc ?i \<le> p" "p < length ne" for p
    using that Ps Ple by (auto simp: nth_append)
  have other: "segment ?ne (P ! new_id g u) (P ! Suc (new_id g u)) = ?rows ! new_id g u" if u: "u < k" for u
  proof -
    have un: "u < nodes g" using u k by simp
    have j: "new_id g u < nodes g" using new_id_props [OF un] by simp
    have "new_id g u \<noteq> ?i" using new_id_props(2) [OF un] new_id_props(2) [OF k] u by auto
    then have apart: "P ! Suc (new_id g u) \<le> P ! ?i \<or> P ! Suc ?i \<le> P ! new_id g u"
      using mono i j by (metis Suc_leI less_imp_le_nat linorder_neqE_nat)
    have "P ! Suc (new_id g u) \<le> length ne" using I s mono [of "Suc (new_id g u)" "nodes g"] j by simp
    then have "segment ?ne (P ! new_id g u) (P ! Suc (new_id g u)) = segment ne (P ! new_id g u) (P ! Suc (new_id g u))"
      using len apart nth by (subst segment_eq_iff) auto
    then show ?thesis using I s u by simp
  qed
  have own: "segment ?ne (P ! ?i) (P ! Suc ?i) = ?r"
    using Ps Ple by (subst segment_middle) simp_all
  have offs: "offs[?i := P ! Suc ?i] ! new_id g u = P ! new_id g u" if "Suc k \<le> u" "u < nodes g" for u
  proof -
    have "new_id g u \<noteq> ?i" using new_id_props(2) [OF that(2)] new_id_props(2) [OF k] that by auto
    then show ?thesis using I s that by simp
  qed
  show "returns (relabel_vertex g ids P k s) (\<lambda>s. length (fst s) = Suc (nodes g) \<and> length (snd s) = P ! nodes g \<and>
      (\<forall>u. Suc k \<le> u \<and> u < nodes g \<longrightarrow> fst s ! new_id g u = P ! new_id g u) \<and>
      (\<forall>u < Suc k. segment (snd s) (P ! new_id g u) (P ! Suc (new_id g u)) = ?rows ! new_id g u))"
    unfolding s step returns_simps fst_conv snd_conv less_Suc_eq
    using I s len other own offs by auto
next
  fix s :: "nat list \<times> nat list"
  let ?rows = "relabelled_rows g"
  assume I: "length (fst s) = Suc (nodes g) \<and> length (snd s) = P ! nodes g \<and>
    (\<forall>u. nodes g \<le> u \<and> u < nodes g \<longrightarrow> fst s ! new_id g u = P ! new_id g u) \<and>
    (\<forall>u < nodes g. segment (snd s) (P ! new_id g u) (P ! Suc (new_id g u)) = ?rows ! new_id g u)"
  have total: "P ! nodes g = length (concat ?rows)"
    using prefix_sums_last [of "map length ?rows"] by (simp add: P_def length_concat)
  show "snd s = concat ?rows"
  proof (rule nth_equalityI)
    show "length (snd s) = length (concat ?rows)" using I total by simp
    fix p
    assume "p < length (snd s)"
    then obtain i j where ij: "i < nodes g" "j < length (?rows ! i)" "p = P ! i + j"
      using prefix_sums_locate [of p "map length ?rows"] I total by (auto simp: P_def length_concat)
    have "segment (snd s) (P ! i) (P ! Suc i) = ?rows ! i"
      using I new_id_order [OF ij(1)] by metis
    moreover have "P ! Suc i = P ! i + length (?rows ! i)" unfolding P_def using ij by (subst prefix_sums_Suc) simp_all
    moreover have "P ! Suc i \<le> length (snd s)"
      using I ij(1) prefix_sums_mono [of "Suc i" "nodes g" "map length ?rows"] by (simp add: P_def)
    ultimately have "snd s ! p = ?rows ! i ! j"
      using nth_segment [of "P ! i" j "P ! Suc i" "snd s"] ij by simp
    then show "snd s ! p = concat ?rows ! p" using nth_concat_rows [of i ?rows j] ij by (simp add: P_def)
  qed
qed

lemma RelabelByDegree_eq:
  assumes g: "graph_ok g" and und: "\<not> csr_directed g"
    and n: "nodes g < 2 ^ 31 - 1" and deg: "\<And>v. v < nodes g \<Longrightarrow> length (adj g v) < 2 ^ 31"
  shows "RelabelByDegree g = Inr (csr_of_rows (relabelled_rows g))"
proof -
  obtain ids where ids: "relabel_ids g (map (\<lambda>v. (int (length (adj g v)), v)) (degree_order g))
      = Some (map length (relabelled_rows g), ids)" "length ids = nodes g" "\<And>v. v < nodes g \<Longrightarrow> ids ! v = new_id g v"
    using relabel_ids_eq [OF deg] by (auto simp: returns_iff relabelled_degrees)
  let ?P = "prefix_sums (map length (relabelled_rows g))"
  obtain offs where "foldM (relabel_vertex g ids ?P) [0..<nodes g] (?P, uninit (?P ! nodes g))
      = Some (offs, concat (relabelled_rows g))"
    using relabel_loop [OF g ids(2,3)] by (auto simp: returns_iff)
  moreover have "int (nodes g) = csr_num_nodes g" using g by (simp add: graph_ok_def csr_wf_def nodes_def)
  moreover have "nodes g < length ?P" by simp
  moreover have "GenIndex ?P = Some ?P" by (rule GenIndex_eq) (use n in simp)
  ultimately show ?thesis
    using und ids(1) degree_id_pairs_eq [OF g]
    by (simp add: RelabelByDegree_def vertices_nodes nodes_def [symmetric] csr_of_rows_def Let_def)
qed

section \<open>The relabelled graph\<close>

lemma relabelled_rows_set:
  "u < nodes g \<Longrightarrow> set (relabelled_rows g ! new_id g u) = new_id g ` set (adj g u)"
  by (simp add: relabelled_rows_new_id)

lemma relabelled_cells:
  assumes "graph_ok g"
  shows "length (concat (relabelled_rows g)) < 2 ^ 64"
proof -
  have iw: "index_wf (nodes g) (csr_out_index g) (csr_out_neighbors g)"
    using assms csr_wf_index(1) by (auto simp: graph_ok_def)
  have part: "(\<Sum>v < k. length (adj g v)) + csr_out_index g ! 0 = csr_out_index g ! k" if "k \<le> nodes g" for k
    using that
  proof (induction k)
    case (Suc k)
    then have "length (adj g k) = csr_out_index g ! Suc k - csr_out_index g ! k"
      using length_row [OF iw, of k] by (simp add: adj_def)
    then show ?case using Suc index_wf_step(3) [OF iw, of k] by simp
  qed simp
  have "length (concat (relabelled_rows g)) = (\<Sum>v \<leftarrow> degree_order g. length (adj g v))"
    by (simp add: length_concat relabelled_rows_def o_def)
  also have "\<dots> = (\<Sum>v < nodes g. length (adj g v))"
    using degree_order_props(2,3) [of g] by (simp add: sum_list_distinct_conv_sum_set)
  also have "\<dots> \<le> csr_out_index g ! nodes g" using part [of "nodes g"] by simp
  also have "\<dots> < 2 ^ 64" using iw by (auto simp: index_wf_def)
  finally show ?thesis .
qed

lemma relabelled_graph:
  assumes g: "graph_sym g"
  defines "g' \<equiv> csr_of_rows (relabelled_rows g)"
  shows "graph_sym g'" "nodes g' = nodes g"
    "u < nodes g \<Longrightarrow> adj g' (new_id g u) = sort (map (new_id g) (adj g u))"
proof -
  have ok: "graph_ok g" using g by (rule graph_sym_ok)
  show n: "nodes g' = nodes g" by (simp add: g'_def)
  show adj: "adj g' (new_id g u) = sort (map (new_id g) (adj g u))" if "u < nodes g" for u
    using that new_id_props(1) [OF that] by (simp add: g'_def relabelled_rows_new_id)
  have arc: "\<exists>u v. i = new_id g u \<and> j = new_id g v \<and> u < nodes g \<and> v \<in> set (adj g u) \<and> v < nodes g"
    if ij: "i < nodes g" "j \<in> set (relabelled_rows g ! i)" for i j
  proof -
    let ?u = "degree_order g ! i"
    have u: "?u < nodes g" "new_id g ?u = i" using new_id_order [OF ij(1)] by simp_all
    then obtain v where "v \<in> set (adj g ?u)" "j = new_id g v"
      using ij(2) relabelled_rows_set [OF u(1)] by auto
    then show ?thesis using u gv.neigh_less [OF ok u(1)] by metis
  qed
  have "graph_ok g'"
    unfolding graph_ok_def g'_def
  proof (rule csr_of_rows_wf [OF relabelled_cells [OF ok]])
    fix r v
    assume r: "r \<in> set (relabelled_rows g)" "v \<in> set r"
    then obtain i where "i < nodes g" "r = relabelled_rows g ! i" by (auto simp: in_set_conv_nth)
    then show "v < length (relabelled_rows g)" using arc [of i v] r new_id_props(1) by auto
  qed
  moreover have "i \<in> set (adj g' j)" if i: "i < nodes g'" "j \<in> set (adj g' i)" for i j
  proof -
    obtain u v where uv: "i = new_id g u" "j = new_id g v" "u < nodes g" "v \<in> set (adj g u)" "v < nodes g"
      using arc [of i j] i n by (auto simp: g'_def)
    then have "u \<in> set (adj g v)" using gu.neigh_sym [OF g] by blast
    then show ?thesis using adj [OF uv(5)] uv(1,2) by simp
  qed
  ultimately show "graph_sym g'" by (simp add: graph_sym_def)
qed

text \<open>C28: Relabelling gives an isomorphic graph.  For an undirected graph whose degrees and index length are
  32-bit ints, parallel edges or not, the routine returns, \<open>new_id\<close>
  is a permutation of the vertices, the neighbours of a renamed vertex are the renamed neighbours
  in ascending order, and the degrees descend with the new ids.\<close>

lemma RelabelByDegree_isomorphic:
  assumes g: "graph_sym g" and und: "\<not> csr_directed g"
    and n: "nodes g < 2 ^ 31 - 1" and deg: "\<forall>v < nodes g. length (adj g v) < 2 ^ 31"
  shows "\<exists>g'. RelabelByDegree g = Inr g' \<and> graph_sym g' \<and> nodes g' = nodes g \<and>
    bij_betw (new_id g) {..<nodes g} {..<nodes g} \<and>
    (\<forall>u < nodes g. adj g' (new_id g u) = sort (map (new_id g) (adj g u))) \<and>
    (\<forall>i j. i \<le> j \<and> j < nodes g \<longrightarrow> length (adj g' j) \<le> length (adj g' i))"
proof -
  let ?g' = "csr_of_rows (relabelled_rows g)"
  let ?pairs = "map (\<lambda>v. (int (length (adj g v)), v)) [0..<nodes g]"
  have "length (adj ?g' j) \<le> length (adj ?g' i)" if ij: "i \<le> j" "j < nodes g" for i j
  proof -
    have pairs: "map (\<lambda>v. (int (length (adj g v)), v)) (degree_order g) = rev (sort ?pairs)"
      unfolding degree_order_def map_map by (rule map_idI) auto
    have deg: "length (adj ?g' k) = nat (fst (rev (sort ?pairs) ! k))" if "k < nodes g" for k
      unfolding pairs [symmetric]
      using that degree_order_props(1) [of g] by (simp add: relabelled_rows_def)
    have "rev (sort ?pairs) ! j \<le> rev (sort ?pairs) ! i"
      using ij by (simp add: rev_nth) (intro sorted_nth_mono; simp)
    then have "fst (rev (sort ?pairs) ! j) \<le> fst (rev (sort ?pairs) ! i)"
      by (auto simp: less_eq_prod_def)
    then show ?thesis using deg ij by simp
  qed
  then show ?thesis
    using RelabelByDegree_eq [OF graph_sym_ok [OF g] und n] deg relabelled_graph [OF g] new_id_bij [of g]
    by (intro exI [of _ ?g']) blast
qed

lemma path_graph: "graph_sym (csr_of_rows [[1], [0, 2], [1]])" "\<not> csr_directed (csr_of_rows [[1], [0, 2], [1 :: nat]])"
proof -
  have "graph_ok (csr_of_rows [[1], [0, 2], [1]])"
    unfolding graph_ok_def by (rule csr_of_rows_wf) auto
  then show "graph_sym (csr_of_rows [[1], [0, 2], [1]])"
    by (auto simp: graph_sym_def less_Suc_eq numeral_2_eq_2)
qed (simp add: csr_of_rows_def csr_undirected_def)

lemma RelabelByDegree_isomorphic_witness:
  "\<exists>g'. RelabelByDegree (csr_of_rows [[1], [0, 2], [1]]) = Inr g' \<and> length (adj g' 2) \<le> length (adj g' 0)"
proof -
  let ?g = "csr_of_rows [[1], [0, 2], [1]] :: nat csr_graph"
  have "\<forall>v < nodes ?g. length (adj ?g v) < 2 ^ 31" by (simp add: All_less_Suc numeral_3_eq_3)
  moreover have "nodes ?g < 2 ^ 31 - 1" by simp
  ultimately obtain g' where "RelabelByDegree ?g = Inr g'"
    "\<forall>i j. i \<le> j \<and> j < nodes ?g \<longrightarrow> length (adj g' j) \<le> length (adj g' i)"
    using RelabelByDegree_isomorphic [OF path_graph] by blast
  moreover have "nodes ?g = 3" by simp
  ultimately have "RelabelByDegree ?g = Inr g' \<and> length (adj g' 2) \<le> length (adj g' 0)" by simp
  then show ?thesis ..
qed

end
