(* ===== verification/Bench.thy ===== *)
theory Bench
  imports Graph CommandLine "HOL-Library.Product_Lexorder"
begin

text \<open>
  The helpers of src/benchmark.h: the picker of source vertices, the k largest values, and the
  loop that runs, analyses and verifies a kernel.  The random vertices a picker draws are the
  values of an argument \<open>draws\<close>; the position in this stream is the state of its engine.
\<close>

section \<open>SourcePicker\<close>

record source_picker =
  sp_given_source :: int
  sp_pos :: nat

definition SourcePicker :: "int \<Rightarrow> source_picker" where
  "SourcePicker given_source = \<lparr>sp_given_source = given_source, sp_pos = 0\<rparr>"

partial_function (option) pick_from :: "'d csr_graph \<Rightarrow> (nat \<Rightarrow> nat) \<Rightarrow> nat \<Rightarrow> (nat \<times> nat) option" where
  \<comment> \<open>\<^verbatim>\<open>do { source = udist(rng); } while (out_degree(source) == 0)\<close>, with the position reached\<close>
  "pick_from g draws i = do {
     d \<leftarrow> out_degree g (draws i);
     if d = 0 then pick_from g draws (i + 1) else Some (draws i, i + 1) }"

definition PickNext :: "'d csr_graph \<Rightarrow> (nat \<Rightarrow> nat) \<Rightarrow> source_picker \<Rightarrow> (int \<times> source_picker) option" where
  "PickNext g draws sp =
     (if sp_given_source sp \<noteq> -1 then Some (sp_given_source sp, sp)
      else do { (s, i) \<leftarrow> pick_from g draws (sp_pos sp); Some (int s, sp\<lparr>sp_pos := i\<rparr>) })"

lemma pick_from_returns:
  assumes wf: "csr_wf nid g" and range: "\<And>j. draws j < nodes g"
    and hit: "i \<le> j" "adj g (draws j) \<noteq> []"
  shows "\<exists>s k. pick_from g draws i = Some (s, k) \<and> s < nodes g \<and> adj g s \<noteq> []"
  using hit(1)
proof (induction i rule: inc_induct)
  case base
  then show ?case using hit(2) range out_degree_wf [OF wf range] by (simp add: pick_from.simps)
next
  case (step i)
  then show ?case
    using range out_degree_wf [OF wf range, of i]
    by (cases "adj g (draws i) = []") (simp_all add: pick_from.simps [of g draws i])
qed

definition fair_draws :: "'d csr_graph \<Rightarrow> (nat \<Rightarrow> nat) \<Rightarrow> bool" where
  \<comment> \<open>what a uniform distribution on the vertices gives with probability 1 on a graph with edges\<close>
  "fair_draws g draws \<longleftrightarrow> (\<forall>j. draws j < nodes g) \<and> (\<forall>i. \<exists>j \<ge> i. adj g (draws j) \<noteq> [])"

text \<open>A picker returns a vertex of the graph, the given one or a drawn one.\<close>

lemma PickNext_returns:
  assumes wf: "csr_wf nid g" and fair: "fair_draws g draws"
    and start: "sp_given_source sp = -1 \<or> 0 \<le> sp_given_source sp \<and> sp_given_source sp < int (nodes g)"
  shows "\<exists>v sp'. PickNext g draws sp = Some (int v, sp') \<and> v < nodes g \<and> sp_given_source sp' = sp_given_source sp"
proof (cases "sp_given_source sp = -1")
  case True
  obtain j where "j \<ge> sp_pos sp" "adj g (draws j) \<noteq> []" using fair by (auto simp: fair_draws_def)
  then obtain v k where "pick_from g draws (sp_pos sp) = Some (v, k)" "v < nodes g"
    using pick_from_returns [OF wf, of draws "sp_pos sp" j] fair by (auto simp: fair_draws_def)
  then show ?thesis using True by (simp add: PickNext_def)
next
  case False
  then have "nat (sp_given_source sp) < nodes g" "0 \<le> sp_given_source sp" using start by auto
  then show ?thesis using False by (intro exI [of _ "nat (sp_given_source sp)"] exI [of _ sp]) (simp add: PickNext_def)
qed

section \<open>TopK\<close>

definition topk_step ::
  "nat \<Rightarrow> 'k::linorder \<times> 'v::{linorder,zero} \<Rightarrow> ('v \<times> 'k) list \<times> 'v \<Rightarrow> (('v \<times> 'k) list \<times> 'v) option" where
  \<comment> \<open>one pair; \<^verbatim>\<open>back()\<close> of an empty vector has no defined result\<close>
  "topk_step k kvp s = (case s of (top_k, min_so_far) \<Rightarrow>
     if length top_k < k \<or> snd kvp > min_so_far then do {
       let top_k = rev (sort (top_k @ [(snd kvp, fst kvp)]));
       let top_k = (if length top_k > k then take k top_k else top_k);
       b \<leftarrow> (if top_k = [] then None else Some (last top_k));
       Some (top_k, fst b) }
     else Some (top_k, min_so_far))"

definition TopK :: "('k::linorder \<times> 'v::{linorder,zero}) list \<Rightarrow> nat \<Rightarrow> ('v \<times> 'k) list option" where
  "TopK to_sort k = do {
     (top_k, min_so_far) \<leftarrow> foldM (topk_step k) to_sort ([], 0);
     Some top_k }"

text \<open>
  The values kept are the k largest, because dropping a value below k others never changes the
  k largest of what follows.
\<close>

lemma drop_insort:
  assumes "sorted (B @ C)"
  shows "drop (Suc (length B)) (insort v (B @ C)) = drop 1 (insort v C)"
  using assms
proof (induction B)
  case Nil
  then show ?case by simp
next
  case (Cons b B)
  show ?case
  proof (cases "v \<le> b")
    case True
    then have "insort v C = v # C" using Cons.prems by (intro insort_is_Cons) (auto intro: order.trans)
    then show ?thesis using True by simp
  next
    case False
    then show ?thesis using Cons by simp
  qed
qed

lemma sort_rev: "sort (rev xs) = sort (xs :: 'a::linorder list)"
  by (rule properties_for_sort) simp_all

lemma take_rev: "take k (rev xs) = rev (drop (length xs - k) xs)"
  by (cases "k \<le> length xs") (simp_all add: rev_drop)

definition largest :: "nat \<Rightarrow> 'v::linorder list \<Rightarrow> 'v list" where
  "largest k vs = take k (rev (sort vs))"

lemma largest_step: "take k (rev (sort (v # largest k vs))) = largest k (v # vs)"
proof (cases "k < length vs")
  case False
  then have "sort (largest k vs) = sort vs" by (simp add: largest_def sort_rev sorted_sort_id)
  then show ?thesis by (simp add: largest_def)
next
  case True
  let ?B = "take (length vs - k) (sort vs)" and ?C = "drop (length vs - k) (sort vs)"
  have C: "largest k vs = rev ?C" by (simp add: largest_def take_rev)
  have sC: "sort (largest k vs) = ?C"
    unfolding C by (simp add: sort_rev sorted_sort_id sorted_wrt_drop)
  have "drop (Suc (length ?B)) (insort v (?B @ ?C)) = drop 1 (insort v ?C)"
    by (rule drop_insort) simp
  moreover have "Suc (length ?B) = length (sort (v # vs)) - k" using True by simp
  moreover have "1 = length (insort v ?C) - k" using True by simp
  ultimately show ?thesis
    using sC by (simp add: largest_def take_rev del: drop_0)
qed

lemma largest_skip:
  assumes L: "length (largest k vs) = k" "0 < k" and v: "v \<le> last (largest k vs)"
  shows "largest k (v # vs) = largest k vs"
proof -
  have s: "sorted (rev (largest k vs))"
    by (simp add: largest_def take_rev sorted_wrt_drop)
  have ne: "largest k vs \<noteq> []" using L by auto
  then have "rev (largest k vs) = last (largest k vs) # tl (rev (largest k vs))"
    by (cases "largest k vs" rule: rev_cases) simp_all
  then have "\<And>x. x \<in> set (rev (largest k vs)) \<Longrightarrow> v \<le> x"
    using s v by (metis dual_order.trans set_ConsD sorted_simps(2))
  then have "insort v (rev (largest k vs)) = v # rev (largest k vs)" by (intro insort_is_Cons) simp
  moreover have "sort (largest k vs) = rev (largest k vs)"
    using sort_rev [of "largest k vs"] s by (simp add: sorted_sort_id)
  ultimately have "take k (rev (sort (v # largest k vs))) = largest k vs" using L by simp
  then show ?thesis by (simp only: largest_step)
qed

lemma sort_append_one: "sort (xs @ [x]) = sort (x # xs)" for x :: "'a::linorder"
  by (rule properties_for_sort) (simp_all add: sorted_insort)

lemma map_fst_sort: "map fst (sort ps) = sort (map fst (ps :: ('a::linorder \<times> 'b::linorder) list))"
proof (rule properties_for_sort [symmetric])
  show "sorted (map fst (sort ps))"
    unfolding sorted_map by (rule sorted_wrt_mono_rel [OF _ sorted_sort]) (auto simp: less_eq_prod_def)
qed simp

lemma topk_invariant:
  assumes "0 < k" and v: "map fst best = largest k vs" "best \<noteq> [] \<Longrightarrow> m = fst (last best)"
  shows "returns (topk_step k (key, val) (best, m)) (\<lambda>(best', m').
    map fst best' = largest k (val # vs) \<and> (best' \<noteq> [] \<longrightarrow> m' = fst (last best')) \<and>
    mset best' \<subseteq># add_mset (val, key) (mset best))"
proof (cases "length best < k \<or> val > m")
  case False
  then have "length best = k" using arg_cong [OF v(1), of length] by (auto simp: largest_def)
  then have ne: "best \<noteq> []" using assms(1) by auto
  have "last (largest k vs) = m" using last_map [OF ne, of fst] v ne by simp
  moreover have "length (largest k vs) = k" using arg_cong [OF v(1), of length] \<open>length best = k\<close> by simp
  ultimately have "largest k (val # vs) = largest k vs"
    using False assms(1) by (intro largest_skip) auto
  moreover have "mset best \<subseteq># add_mset (val, key) (mset best)" by simp
  moreover have "topk_step k (key, val) (best, m) = Some (best, m)" using False by (simp add: topk_step_def)
  ultimately show ?thesis using v by simp
next
  case True
  let ?s = "rev (sort (best @ [(val, key)]))"
  let ?t = "if length ?s > k then take k ?s else ?s"
  have t: "?t = take k ?s" by simp
  have "0 < length (take k ?s)" using assms(1) by simp
  then have ne: "take k ?s \<noteq> []" unfolding length_greater_0_conv .
  have "map fst ?s = rev (sort (val # map fst best))"
    by (simp only: rev_map [symmetric] map_fst_sort map_append list.map fst_conv sort_append_one)
  then have "map fst (take k ?s) = take k (rev (sort (val # map fst best)))"
    by (simp only: take_map [symmetric])
  also have "\<dots> = largest k (val # vs)" by (simp only: v largest_step)
  finally have f: "map fst (take k ?s) = largest k (val # vs)" .
  have "mset (take k ?s) \<subseteq># mset ?s" by (metis append_take_drop_id mset_append mset_subset_eq_add_left)
  then have "mset (take k ?s) \<subseteq># add_mset (val, key) (mset best)" by simp
  moreover have "topk_step k (key, val) (best, m) = Some (take k ?s, fst (last (take k ?s)))"
    unfolding topk_step_def Let_def prod.case fst_conv snd_conv t
    using True ne by (simp del: take_eq_Nil)
  ultimately show ?thesis using f by simp
qed

lemma TopK_returns:
  assumes "0 < k"
  shows "returns (TopK xs k) (\<lambda>best. map fst best = largest k (map snd xs) \<and> mset best \<subseteq># mset (map prod.swap xs))"
proof -
  have "returns (foldM (topk_step k) xs ([], 0)) (\<lambda>(best, m). map fst best = largest k (map snd xs) \<and>
      mset best \<subseteq># mset (map prod.swap xs))"
  proof (rule foldM_rule [where I = "\<lambda>i (best, m). map fst best = largest k (rev (map snd (take i xs))) \<and>
      (best \<noteq> [] \<longrightarrow> m = fst (last best)) \<and> mset best \<subseteq># mset (map prod.swap (take i xs))"])
    fix i s
    assume i: "i < length xs"
      and I: "case s of (best, m) \<Rightarrow> map fst best = largest k (rev (map snd (take i xs))) \<and>
        (best \<noteq> [] \<longrightarrow> m = fst (last best)) \<and> mset best \<subseteq># mset (map prod.swap (take i xs))"
    obtain best m where s: "s = (best, m)" by (cases s)
    obtain key val where x: "xs ! i = (key, val)" by (cases "xs ! i")
    show "returns (topk_step k (xs ! i) s) (\<lambda>(best, m). map fst best = largest k (rev (map snd (take (Suc i) xs))) \<and>
        (best \<noteq> [] \<longrightarrow> m = fst (last best)) \<and> mset best \<subseteq># mset (map prod.swap (take (Suc i) xs)))"
      unfolding s x
      by (rule returns_mono [OF topk_invariant [OF assms]])
        (use I i x s in \<open>auto simp: take_Suc_conv_app_nth intro: subset_mset.order_trans\<close>)
  qed (auto simp: largest_def sort_rev)
  then show ?thesis by (auto simp: TopK_def returns_iff)
qed

section \<open>BenchmarkKernel\<close>

datatype 'r trial_event = Ran 'r | Analysed 'r | Verified bool

definition trial :: "cl_app \<Rightarrow> ('s \<Rightarrow> ('r \<times> 's) option) \<Rightarrow> ('r \<Rightarrow> 's \<Rightarrow> (bool \<times> 's) option) \<Rightarrow> nat \<Rightarrow>
    's \<times> 'r trial_event list \<Rightarrow> ('s \<times> 'r trial_event list) option" where
  \<comment> \<open>one iteration: the kernel, the analysis of the last run, the verifier\<close>
  "trial cli kern verify iter s = do {
     (result, st) \<leftarrow> kern (fst s);
     let log = snd s @ [Ran result];
     let log = (if cl_do_analysis cli \<and> int iter = cl_num_trials cli - 1 then log @ [Analysed result] else log);
     if cl_do_verify cli then do { (ok, st) \<leftarrow> verify result st; Some (st, log @ [Verified ok]) }
     else Some (st, log) }"

definition BenchmarkKernel ::
  "cl_app \<Rightarrow> ('s \<Rightarrow> ('r \<times> 's) option) \<Rightarrow> ('r \<Rightarrow> 's \<Rightarrow> (bool \<times> 's) option) \<Rightarrow> 's \<Rightarrow> ('s \<times> 'r trial_event list) option" where
  \<comment> \<open>\<open>'s\<close> is what the closures keep between their runs, such as a picker\<close>
  "BenchmarkKernel cli kern verify s =
     foldM (trial cli kern verify) [0..<nat (cl_num_trials cli)] (s, [])"

definition log_ok :: "cl_app \<Rightarrow> ('r \<Rightarrow> bool) \<Rightarrow> nat \<Rightarrow> 'r trial_event list \<Rightarrow> bool" where
  \<comment> \<open>k runs, each with a right result, and as many passed verifications when they were asked for\<close>
  "log_ok cli R k log \<longleftrightarrow> (\<forall>r. Ran r \<in> set log \<longrightarrow> R r) \<and> Verified False \<notin> set log \<and>
     length (filter (\<lambda>e. \<exists>r. e = Ran r) log) = k \<and>
     length (filter (\<lambda>e. e = Verified True) log) = (if cl_do_verify cli then k else 0)"

definition good_trial :: "cl_app \<Rightarrow> ('s \<Rightarrow> bool) \<Rightarrow> ('r \<Rightarrow> bool) \<Rightarrow> ('s \<Rightarrow> ('r \<times> 's) option) \<Rightarrow>
    ('r \<Rightarrow> 's \<Rightarrow> (bool \<times> 's) option) \<Rightarrow> 's \<Rightarrow> bool" where
  \<comment> \<open>a run from s returns a right result, which the verifier accepts if it is called\<close>
  "good_trial cli I R kern verify s \<longleftrightarrow> (\<exists>r s'. kern s = Some (r, s') \<and> R r \<and>
     (if cl_do_verify cli then \<exists>s''. verify r s' = Some (True, s'') \<and> I s'' else I s'))"

lemma BenchmarkKernel_verifies:
  assumes kern: "\<And>s. I s \<Longrightarrow> good_trial cli I R kern verify s" and "I s"
  shows "returns (BenchmarkKernel cli kern verify s)
    (\<lambda>(s', log). I s' \<and> log_ok cli R (nat (cl_num_trials cli)) log)"
  unfolding BenchmarkKernel_def
proof (rule foldM_upt_rule [where I = "\<lambda>i (s', log). I s' \<and> log_ok cli R i log"])
  fix i and sl :: "'a \<times> 'b trial_event list"
  assume "case sl of (s', log) \<Rightarrow> I s' \<and> log_ok cli R i log"
  moreover obtain s' log where sl: "sl = (s', log)" by (cases sl)
  ultimately have I: "I s'" "log_ok cli R i log" by auto
  obtain r t where r: "kern s' = Some (r, t)" "R r"
    "if cl_do_verify cli then \<exists>t'. verify r t = Some (True, t') \<and> I t' else I t"
    using kern [OF I(1)] by (auto simp: good_trial_def)
  then show "returns (trial cli kern verify i sl) (\<lambda>(s', log). I s' \<and> log_ok cli R (Suc i) log)"
    using I by (auto simp: sl trial_def Let_def log_ok_def split: if_splits)
qed (use assms in \<open>auto simp: log_ok_def\<close>)

section \<open>Properties\<close>

text \<open>C30: TopK returns the k largest values in descending order, each with a key it had in the input.
  Ties between equal values are broken by the order of arrival once k values are held.\<close>

lemma TopK_largest:
  assumes "0 < k"
  shows "\<exists>best. TopK to_sort k = Some best \<and> map fst best = take k (rev (sort (map snd to_sort))) \<and>
    mset best \<subseteq># mset (map prod.swap to_sort)"
  using TopK_returns [OF assms, of to_sort] by (simp add: returns_iff largest_def)

lemma TopK_largest_witness:
  "\<exists>best. TopK [(10 :: nat, 4 :: int), (11, 9), (12, 4), (13, 7)] 3 = Some best \<and> map fst best = [9, 7, 4]"
  using TopK_largest [of 3 "[(10 :: nat, 4 :: int), (11, 9), (12, 4), (13, 7)]"] by auto

text \<open>A benchmark run returns when the kernel does: it makes the requested number of runs, every result
  is right, and with \<^verbatim>\<open>-v\<close> each run is verified and no verification fails.  The state the closures keep
  between runs, such as the pickers of source vertices, satisfies its invariant throughout.\<close>

lemma BenchmarkKernel_passes:
  assumes "\<And>s. I s \<Longrightarrow> good_trial cli I R kern verify s" and "I s"
  shows "\<exists>s' log. BenchmarkKernel cli kern verify s = Some (s', log) \<and> I s' \<and> log_ok cli R (nat (cl_num_trials cli)) log"
  using BenchmarkKernel_verifies [of I cli R kern verify s] assms by (auto simp: returns_iff)

lemma BenchmarkKernel_passes_witness:
  "\<exists>s' log. BenchmarkKernel ((CLApp ''k'')\<lparr>cl_do_verify := True\<rparr>) (\<lambda>s. Some (s, Suc s)) (\<lambda>r s. Some (0 < r, s)) 1 = Some (s', log) \<and>
    Verified False \<notin> set log \<and> 0 < s'"
proof -
  have "good_trial ((CLApp ''k'')\<lparr>cl_do_verify := True\<rparr>) (\<lambda>s. 0 < s) (\<lambda>r. 0 < r) (\<lambda>s. Some (s, Suc s)) (\<lambda>r s. Some (0 < r, s)) s"
    if "0 < s" for s :: nat
    using that by (simp add: good_trial_def)
  then show ?thesis
    using BenchmarkKernel_passes [of "\<lambda>s. 0 < s" "(CLApp ''k'')\<lparr>cl_do_verify := True\<rparr>" "\<lambda>r. 0 < r" "\<lambda>s. Some (s, Suc s)" "\<lambda>r s. Some (0 < r, s)" 1]
    by (auto simp: log_ok_def)
qed

end
