(* ===== verification/TC.thy ===== *)
theory TC
  imports Relabel Bench
begin

text \<open>
  The triangle counting kernel, src/tc.cc: \<^verbatim>\<open>OrderedCount\<close> with its early exits and its
  running iterator, the relabelling heuristic, and the verifier.  The iterator is an offset
  into the neighbour array and every dereference is checked.  \<open>size_t\<close> totals are 64-bit words.
\<close>

section \<open>OrderedCount\<close>

function scan :: "nat list \<Rightarrow> nat \<Rightarrow> nat \<Rightarrow> nat option" where
  \<comment> \<open>\<^verbatim>\<open>while (*it < w) it++;\<close>\<close>
  "scan block w it =
     (if it < length block then if block ! it < w then scan block w (it + 1) else Some it else None)"
  by pat_completeness auto
termination
  by (relation "measure (\<lambda>(block, w, it). length block - it)") auto

declare scan.simps [simp del]

fun tc_inner :: "nat list \<Rightarrow> nat \<Rightarrow> nat list \<Rightarrow> nat \<Rightarrow> 64 word \<Rightarrow> 64 word option" where
  \<comment> \<open>the loop over the neighbours w of v\<close>
  "tc_inner block v [] it tot = Some tot"
| "tc_inner block v (w # ws) it tot =
     (if w > v then Some tot
      else do {
        it \<leftarrow> scan block w it;
        x \<leftarrow> rd block it;
        tc_inner block v ws it (if w = x then tot + 1 else tot) })"

fun tc_middle :: "nat csr_graph \<Rightarrow> nat \<Rightarrow> nat list \<Rightarrow> 64 word \<Rightarrow> 64 word option" where
  \<comment> \<open>the loop over the neighbours v of u\<close>
  "tc_middle g u [] tot = Some tot"
| "tc_middle g u (v # vs) tot =
     (if v > u then Some tot
      else do {
        (it, e) \<leftarrow> neighborhood (csr_out_index g) u 0;
        ws \<leftarrow> out_neigh g v 0;
        tot \<leftarrow> tc_inner (csr_out_neighbors g) v ws it tot;
        tc_middle g u vs tot })"

definition OrderedCount :: "nat csr_graph \<Rightarrow> 64 word option" where
  "OrderedCount g = foldM (\<lambda>u tot. do { vs \<leftarrow> out_neigh g u 0; tc_middle g u vs tot }) (vertices g) 0"

section \<open>The heuristic and the verifier\<close>

definition WorthRelabelling ::
  "(int \<Rightarrow> int \<Rightarrow> int \<Rightarrow> bool) \<Rightarrow> (nat \<Rightarrow> nat) \<Rightarrow> nat csr_graph \<Rightarrow> bool option" where
  \<comment> \<open>\<open>skewed tot num median\<close> is the comparison of doubles at the end\<close>
  "WorthRelabelling skewed draws g = do {
     m \<leftarrow> num_edges g;
     if csr_num_nodes g = 0 then None
     else let average_degree = m div csr_num_nodes g in
     if average_degree < 10 then Some False
     else do {
       let num_samples = min 1000 (csr_num_nodes g);
       (samples, sample_total, sp) \<leftarrow> foldM (\<lambda>trial (samples, sample_total, sp). do {
            (v, sp) \<leftarrow> PickNext g draws sp;
            d \<leftarrow> out_degree g (nat v);
            samples \<leftarrow> wr samples trial d;
            Some (samples, sample_total + d, sp) })
          [0..<nat num_samples] (uninit (nat num_samples), 0, SourcePicker (-1));
       median \<leftarrow> rd (sort samples) (nat (num_samples div 2));
       Some (skewed sample_total num_samples median) } }"

definition Hybrid ::
  "(int \<Rightarrow> int \<Rightarrow> int \<Rightarrow> bool) \<Rightarrow> (nat \<Rightarrow> nat) \<Rightarrow> nat csr_graph \<Rightarrow> 64 word result" where
  "Hybrid skewed draws g = rbind (of_opt (WorthRelabelling skewed draws g)) (\<lambda>worth.
     if worth then rbind (RelabelByDegree g) (\<lambda>g'. of_opt (OrderedCount g'))
     else of_opt (OrderedCount g))"

fun set_intersection :: "nat list \<Rightarrow> nat list \<Rightarrow> nat list" where
  \<comment> \<open>\<^verbatim>\<open>std::set_intersection\<close> of two sorted ranges\<close>
  "set_intersection (x # xs) (y # ys) =
     (if x < y then set_intersection xs (y # ys)
      else if y < x then set_intersection (x # xs) ys
      else x # set_intersection xs ys)"
| "set_intersection xs ys = []"

definition TCVerifier :: "nat csr_graph \<Rightarrow> 64 word \<Rightarrow> bool option" where
  \<comment> \<open>the buffer of the intersection has room for one row\<close>
  "TCVerifier g test_total = do {
     tot \<leftarrow> foldM (\<lambda>u tot. do {
        vs \<leftarrow> out_neigh g u 0;
        foldM (\<lambda>v tot. do {
          xs \<leftarrow> out_neigh g u 0;
          ys \<leftarrow> out_neigh g v 0;
          let new_end = set_intersection xs ys;
          if int (length new_end) \<le> csr_num_nodes g then Some (tot + word_of_nat (length new_end)) else None }) vs tot })
       (vertices g) 0;
     Some (tot div 6 = test_total) }"

section \<open>What is counted\<close>

definition simple_graph :: "nat csr_graph \<Rightarrow> bool" where
  \<comment> \<open>what the comment of the kernel requires of its input\<close>
  "simple_graph g \<longleftrightarrow> graph_sym g \<and>
     (\<forall>u < nodes g. sorted_wrt (<) (adj g u) \<and> u \<notin> set (adj g u))"

definition ordered_triangles :: "nat csr_graph \<Rightarrow> (nat \<times> nat \<times> nat) set" where
  "ordered_triangles g = {(u, v, w). u < nodes g \<and> w < v \<and> v < u \<and>
     v \<in> set (adj g u) \<and> w \<in> set (adj g u) \<and> w \<in> set (adj g v)}"

definition triangles :: "nat csr_graph \<Rightarrow> nat set set" where
  \<comment> \<open>the cliques of size 3\<close>
  "triangles g = {S. card S = 3 \<and> S \<subseteq> {..<nodes g} \<and> (\<forall>x \<in> S. \<forall>y \<in> S. x \<noteq> y \<longrightarrow> y \<in> set (adj g x))}"

section \<open>The inner loop\<close>

lemma scan_row:
  assumes "i \<le> j" "b + j < length block" "w \<le> block ! (b + j)"
    and "\<And>k. k < i \<Longrightarrow> block ! (b + k) < w"
  shows "\<exists>m. i \<le> m \<and> m \<le> j \<and> scan block w (b + i) = Some (b + m) \<and> w \<le> block ! (b + m) \<and>
    (\<forall>k < m. block ! (b + k) < w)"
  using assms
proof (induction i rule: inc_induct)
  case base
  then show ?case by (intro exI [of _ j]) (simp add: scan.simps)
next
  case (step i)
  show ?case
  proof (cases "block ! (b + i) < w")
    case True
    with step obtain m where "Suc i \<le> m" "m \<le> j" "scan block w (b + Suc i) = Some (b + m)"
      "w \<le> block ! (b + m)" "\<forall>k < m. block ! (b + k) < w"
      by (force simp: less_Suc_eq)
    moreover have "scan block w (b + i) = scan block w (b + Suc i)"
      using True step.hyps step.prems by (subst scan.simps) simp
    ultimately show ?thesis by (intro exI [of _ m]) simp
  next
    case False
    then show ?thesis using step by (intro exI [of _ i]) (simp add: scan.simps)
  qed
qed

lemma tc_inner_eq:
  assumes row: "\<And>k. k < length R \<Longrightarrow> block ! (b + k) = R ! k" "b + length R \<le> length block"
    and R: "sorted_wrt (<) R" and j: "j < length R" "R ! j = v" and i: "i \<le> j"
    and ws: "sorted_wrt (<) ws" and past: "\<And>k w. k < i \<Longrightarrow> w \<in> set ws \<Longrightarrow> R ! k < w"
  shows "tc_inner block v ws (b + i) t
    = Some (t + word_of_nat (length (filter (\<lambda>w. w \<in> set R) (takeWhile (\<lambda>w. w \<le> v) ws))))"
  using i ws past
proof (induction ws arbitrary: i t)
  case Nil
  then show ?case by simp
next
  case (Cons w ws)
  show ?case
  proof (cases "w > v")
    case True
    then show ?thesis by simp
  next
    case False
    have "\<exists>m. i \<le> m \<and> m \<le> j \<and> scan block w (b + i) = Some (b + m) \<and> w \<le> block ! (b + m) \<and>
        (\<forall>k < m. block ! (b + k) < w)"
    proof (rule scan_row)
      show "b + j < length block" "w \<le> block ! (b + j)" using row j False by simp_all
      show "block ! (b + k) < w" if "k < i" for k
        using that Cons.prems j row by simp
    qed (use Cons.prems in simp)
    then obtain m where m: "m \<le> j" "scan block w (b + i) = Some (b + m)" "w \<le> R ! m"
      "\<forall>k < m. R ! k < w"
      using row(1) j(1) by (metis le_less_trans less_trans)
    have mR: "m < length R" using m j by simp
    have hit: "w = R ! m \<longleftrightarrow> w \<in> set R"
    proof
      assume "w \<in> set R"
      then obtain k where k: "k < length R" "R ! k = w" by (auto simp: in_set_conv_nth)
      have "k = m"
      proof (rule ccontr)
        assume "k \<noteq> m"
        then consider "k < m" | "m < k" by linarith
        then show False
        proof cases
          case 1
          then have "R ! k < w" using m(4) by blast
          then show ?thesis using k by simp
        next
          case 2
          then have "R ! m < R ! k" using R k(1) by (simp add: sorted_wrt_iff_nth_less)
          then show ?thesis using m(3) k by simp
        qed
      qed
      then show "w = R ! m" using k by simp
    qed (use mR in simp)
    have "tc_inner block v ws (b + m) t'
        = Some (t' + word_of_nat (length (filter (\<lambda>w. w \<in> set R) (takeWhile (\<lambda>w. w \<le> v) ws))))" for t'
    proof (rule Cons.IH [OF m(1)])
      show "sorted_wrt (<) ws" using Cons.prems(2) by simp
      show "R ! k < x" if "k < m" "x \<in> set ws" for k x
        using m(4) that Cons.prems(2) by (auto intro: less_trans)
    qed
    then show ?thesis
      using False m(2) mR row hit by (auto simp: rd_def)
  qed
qed

lemma tc_count_card:
  assumes "sorted_wrt (<) ws"
  shows "length (filter P (takeWhile (\<lambda>w. w \<le> v) ws)) = card {w \<in> set ws. w \<le> (v::nat) \<and> P w}"
proof -
  have s: "sorted ws" "distinct ws" using assms by (simp_all add: strict_sorted_iff)
  have "takeWhile (\<lambda>w. w \<le> v) ws = filter (\<lambda>w. w \<le> v) ws"
    by (rule takeWhile_sorted [OF s(1)])
  then have "length (filter P (takeWhile (\<lambda>w. w \<le> v) ws)) = length (filter (\<lambda>w. w \<le> v \<and> P w) ws)"
    by (simp add: conj_commute)
  also have "\<dots> = card (set (filter (\<lambda>w. w \<le> v \<and> P w) ws))"
    using s(2) by (intro distinct_card [symmetric]) simp
  also have "set (filter (\<lambda>w. w \<le> v \<and> P w) ws) = {w \<in> set ws. w \<le> v \<and> P w}" by auto
  finally show ?thesis .
qed

section \<open>The outer loops\<close>

definition closing :: "nat csr_graph \<Rightarrow> nat \<Rightarrow> nat \<Rightarrow> nat set" where
  \<comment> \<open>the third vertices that the loop counts for u and v\<close>
  "closing g u v = {w \<in> set (adj g v). w \<le> v \<and> w \<in> set (adj g u)}"

lemma simple_graph_facts:
  assumes "simple_graph g" "u < nodes g"
  shows "graph_ok g" "sorted_wrt (<) (adj g u)" "u \<notin> set (adj g u)"
    "\<And>v. v \<in> set (adj g u) \<Longrightarrow> v < nodes g" "\<And>v. v \<in> set (adj g u) \<Longrightarrow> u \<in> set (adj g v)"
  using assms gv.neigh_less [of g u] gu.neigh_sym [of g u]
  by (auto simp: simple_graph_def)

lemma row_cells:
  assumes "graph_ok g" "u < nodes g"
  shows "neighborhood (csr_out_index g) u 0 = Some (csr_out_index g ! u, csr_out_index g ! Suc u)"
    "csr_out_index g ! u + length (adj g u) \<le> length (csr_out_neighbors g)"
    "k < length (adj g u) \<Longrightarrow> csr_out_neighbors g ! (csr_out_index g ! u + k) = adj g u ! k"
proof -
  have iw: "index_wf (nodes g) (csr_out_index g) (csr_out_neighbors g)"
    using assms(1) csr_wf_index(1) by (auto simp: graph_ok_def)
  note st = index_wf_step [OF iw assms(2)] and len = length_row [OF iw assms(2)]
  show "neighborhood (csr_out_index g) u 0 = Some (csr_out_index g ! u, csr_out_index g ! Suc u)"
    by (rule neighborhood_bounds [OF iw assms(2)])
  show "csr_out_index g ! u + length (adj g u) \<le> length (csr_out_neighbors g)"
    using st len by (simp add: adj_def)
  show "csr_out_neighbors g ! (csr_out_index g ! u + k) = adj g u ! k" if "k < length (adj g u)"
    using st len that by (simp add: adj_def row_def nth_segment)
qed

lemma tc_middle_eq:
  assumes g: "simple_graph g" and u: "u < nodes g" and vs: "set vs \<subseteq> set (adj g u)"
  shows "tc_middle g u vs t
    = Some (t + word_of_nat (\<Sum>v \<leftarrow> takeWhile (\<lambda>v. v \<le> u) vs. card (closing g u v)))"
  using vs
proof (induction vs arbitrary: t)
  case Nil
  then show ?case by simp
next
  case (Cons v vs)
  note U = simple_graph_facts [OF g u]
  have v: "v \<in> set (adj g u)" "v < nodes g" using Cons.prems U(4) by auto
  note V = simple_graph_facts [OF g v(2)]
  obtain j where j: "j < length (adj g u)" "adj g u ! j = v" using v(1) by (auto simp: in_set_conv_nth)
  have "tc_inner (csr_out_neighbors g) v (adj g v) (csr_out_index g ! u + 0) t
      = Some (t + word_of_nat (length (filter (\<lambda>w. w \<in> set (adj g u)) (takeWhile (\<lambda>w. w \<le> v) (adj g v)))))"
    by (rule tc_inner_eq [OF _ _ U(2) j]) (use row_cells [OF U(1) u] V(2) in auto)
  moreover have "length (filter (\<lambda>w. w \<in> set (adj g u)) (takeWhile (\<lambda>w. w \<le> v) (adj g v))) = card (closing g u v)"
    unfolding closing_def by (rule tc_count_card [OF V(2)])
  ultimately show ?case
    using Cons row_cells(1) [OF U(1) u] graph_ok_neigh(1) [OF U(1) v(2)] by (simp add: add.assoc)
qed

lemma sum_takeWhile_closing:
  assumes g: "simple_graph g" and u: "u < nodes g"
  shows "(\<Sum>v \<leftarrow> takeWhile (\<lambda>v. v \<le> u) (adj g u). card (closing g u v))
    = card {p. (u, p) \<in> ordered_triangles g}"
proof -
  note U = simple_graph_facts [OF g u]
  have s: "sorted (adj g u)" "distinct (adj g u)" using U(2) by (simp_all add: strict_sorted_iff)
  let ?V = "{v \<in> set (adj g u). v < u}"
  have "set (takeWhile (\<lambda>v. v \<le> u) (adj g u)) = ?V"
  proof -
    have "takeWhile (\<lambda>v. v \<le> u) (adj g u) = filter (\<lambda>v. v \<le> u) (adj g u)"
      by (rule takeWhile_sorted [OF s(1)])
    then show ?thesis using U(3) by (auto simp: order_less_le)
  qed
  then have "(\<Sum>v \<leftarrow> takeWhile (\<lambda>v. v \<le> u) (adj g u). card (closing g u v)) = (\<Sum>v \<in> ?V. card (closing g u v))"
    using s(2) by (simp add: sum_list_distinct_conv_sum_set distinct_takeWhile)
  also have "\<dots> = card (SIGMA v : ?V. closing g u v)"
    by (rule card_SigmaI [symmetric]) (simp_all add: closing_def)
  also have "(SIGMA v : ?V. closing g u v) = {p. (u, p) \<in> ordered_triangles g}"
  proof -
    have "v \<notin> set (adj g v)" if "v \<in> set (adj g u)" for v
      by (rule simple_graph_facts(3) [OF g U(4) [OF that]])
    then show ?thesis using u by (auto simp: ordered_triangles_def closing_def order_less_le)
  qed
  finally show ?thesis .
qed

lemma OrderedCount_ordered:
  assumes g: "simple_graph g"
  shows "OrderedCount g = Some (word_of_nat (card (ordered_triangles g)))"
proof -
  let ?T = "\<lambda>u. {p. (u, p) \<in> ordered_triangles g}"
  have ok: "graph_ok g" using g by (auto simp: simple_graph_def)
  have fin: "finite (?T u)" for u
  proof -
    have "?T u \<subseteq> {..<nodes g} \<times> {..<nodes g}"
      using simple_graph_facts(4) [OF g] by (auto simp: ordered_triangles_def)
    then show ?thesis by (rule finite_subset) simp
  qed
  have "returns (OrderedCount g) (\<lambda>t. t = word_of_nat (\<Sum>u < nodes g. card (?T u)))"
    unfolding OrderedCount_def vertices_nodes
  proof (rule foldM_upt_rule [where I = "\<lambda>k t. t = word_of_nat (\<Sum>u < k. card (?T u))"])
    fix u and t :: "64 word"
    assume u: "u < nodes g" and t: "t = word_of_nat (\<Sum>u < u. card (?T u))"
    show "returns (do { vs \<leftarrow> out_neigh g u 0; tc_middle g u vs t }) (\<lambda>t. t = word_of_nat (\<Sum>u < Suc u. card (?T u)))"
      using graph_ok_neigh(1) [OF ok u] tc_middle_eq [OF g u, of "adj g u" t] sum_takeWhile_closing [OF g u] t
      by simp
  qed simp_all
  moreover have "(\<Sum>u < nodes g. card (?T u)) = card (ordered_triangles g)"
  proof -
    have "(\<Sum>u < nodes g. card (?T u)) = card (SIGMA u : {..<nodes g}. ?T u)"
      by (rule card_SigmaI [symmetric]) (use fin in simp_all)
    also have "(SIGMA u : {..<nodes g}. ?T u) = ordered_triangles g"
      by (auto simp: ordered_triangles_def)
    finally show ?thesis .
  qed
  ultimately show ?thesis by (auto simp: returns_iff)
qed

section \<open>Triangles as cliques\<close>

lemma finite_triangles: "finite (triangles g)"
proof (rule finite_subset)
  show "triangles g \<subseteq> Pow {..<nodes g}" by (auto simp: triangles_def)
qed simp

lemma card_three: "x \<noteq> y \<Longrightarrow> y \<noteq> z \<Longrightarrow> x \<noteq> z \<Longrightarrow> card {x, y, z} = 3"
  by simp

lemma triangles_iff:
  assumes g: "simple_graph g" and d: "x \<noteq> y" "y \<noteq> z" "x \<noteq> z"
  shows "{x, y, z} \<in> triangles g \<longleftrightarrow> x < nodes g \<and> y \<in> set (adj g x) \<and> z \<in> set (adj g x) \<and> z \<in> set (adj g y)"
proof
  show "{x, y, z} \<in> triangles g \<Longrightarrow> x < nodes g \<and> y \<in> set (adj g x) \<and> z \<in> set (adj g x) \<and> z \<in> set (adj g y)"
    using d by (simp add: triangles_def)
  assume a: "x < nodes g \<and> y \<in> set (adj g x) \<and> z \<in> set (adj g x) \<and> z \<in> set (adj g y)"
  then have yz: "y < nodes g" "z < nodes g" "x \<in> set (adj g y)" "x \<in> set (adj g z)"
    using simple_graph_facts(4,5) [OF g, of x] by simp_all
  moreover have "y \<in> set (adj g z)" using simple_graph_facts(5) [OF g yz(1)] a by simp
  ultimately show "{x, y, z} \<in> triangles g"
    unfolding triangles_def mem_Collect_eq
    using a d by (intro conjI card_three) simp_all
qed

lemma three_sorted:
  assumes "card S = 3"
  shows "\<exists>u v w :: nat. S = {u, v, w} \<and> w < v \<and> v < u"
proof -
  have fin: "finite S" using assms by (intro card_ge_0_finite) simp
  then have "length (sorted_list_of_set S) = 3" using assms by simp
  then obtain w v u where l: "sorted_list_of_set S = [w, v, u]"
    by (auto simp only: numeral_3_eq_3 length_Suc_conv length_0_conv)
  have "sorted_wrt (<) (sorted_list_of_set S)" using fin by simp
  moreover have "S = set (sorted_list_of_set S)" using fin by simp
  ultimately show ?thesis unfolding l by (intro exI [of _ u] exI [of _ v] exI [of _ w]) auto
qed

lemma card_ordered_triangles:
  assumes g: "simple_graph g"
  shows "card (ordered_triangles g) = card (triangles g)"
proof (rule bij_betw_same_card)
  let ?h = "\<lambda>(u, v, w). {u, v, w}"
  show "bij_betw ?h (ordered_triangles g) (triangles g)"
  proof (rule bij_betw_imageI)
    show "inj_on ?h (ordered_triangles g)"
    proof (rule inj_onI)
      fix p q
      assume pq: "p \<in> ordered_triangles g" "q \<in> ordered_triangles g" "?h p = ?h q"
      obtain a b c x y z where e: "p = (a, b, c)" "q = (x, y, z)" by (metis prod_cases3)
      have o: "c < b" "b < a" "z < y" "y < x" using pq e by (auto simp: ordered_triangles_def)
      have s: "{a, b, c} = {x, y, z}" using pq(3) e by simp
      have "Max {a, b, c} = a" "Max {x, y, z} = x" "Min {a, b, c} = c" "Min {x, y, z} = z" using o by simp_all
      then have "a = x" "c = z" using s by simp_all
      moreover from this have "b = y" using s o by auto
      ultimately show "p = q" using e by simp
    qed
    show "?h ` ordered_triangles g = triangles g"
    proof
      show "?h ` ordered_triangles g \<subseteq> triangles g"
        using triangles_iff [OF g] by (auto simp: ordered_triangles_def)
      show "triangles g \<subseteq> ?h ` ordered_triangles g"
      proof
        fix S
        assume S: "S \<in> triangles g"
        then obtain u v w where o: "S = {u, v, w}" "w < v" "v < u"
          using three_sorted [of S] by (auto simp: triangles_def)
        then have "(u, v, w) \<in> ordered_triangles g"
          using triangles_iff [OF g, of u v w] S by (simp add: ordered_triangles_def)
        then show "S \<in> ?h ` ordered_triangles g" using o(1) by (intro image_eqI [of _ _ "(u, v, w)"]) simp_all
      qed
    qed
  qed
qed

lemma OrderedCount_eq:
  "simple_graph g \<Longrightarrow> OrderedCount g = Some (word_of_nat (card (triangles g)))"
  by (simp add: OrderedCount_ordered card_ordered_triangles)

section \<open>The verifier\<close>

lemma set_intersection_eq:
  "sorted_wrt (<) xs \<Longrightarrow> sorted_wrt (<) ys \<Longrightarrow>
   length (set_intersection xs ys) = card (set xs \<inter> set ys)"
proof (induction xs ys rule: set_intersection.induct)
  case (1 x xs y ys)
  consider "x < y" | "y < x" | "x = y" by linarith
  then show ?case
  proof cases
    case 1
    then have "x \<notin> set (y # ys)" using "1.prems"(2) by auto
    then have "set (x # xs) \<inter> set (y # ys) = set xs \<inter> set (y # ys)" by auto
    then show ?thesis using 1 "1.IH"(1) "1.prems" by simp
  next
    case 2
    then have "y \<notin> set (x # xs)" using "1.prems"(1) by auto
    then have "set (x # xs) \<inter> set (y # ys) = set (x # xs) \<inter> set ys" by auto
    then show ?thesis using 2 "1.IH"(2) "1.prems" by simp
  next
    case 3
    then have "set (x # xs) \<inter> set (y # ys) = insert x (set xs \<inter> set ys)" "x \<notin> set xs \<inter> set ys"
      using "1.prems" by auto
    then show ?thesis using 3 "1.IH"(3) "1.prems" by simp
  qed
qed simp_all

definition all_triples :: "nat csr_graph \<Rightarrow> (nat \<times> nat \<times> nat) set" where
  \<comment> \<open>what the verifier counts: each triangle in its six orders\<close>
  "all_triples g = {(u, v, w). u < nodes g \<and> v \<in> set (adj g u) \<and> w \<in> set (adj g u) \<inter> set (adj g v)}"

lemma card_orders:
  assumes "card S = 3"
  shows "card {(x, y, z). {x, y, z} = S} = (6 :: nat)"
proof -
  have fin: "finite S" using assms by (intro card_ge_0_finite) simp
  have "card {(x, y, z). {x, y, z} = S} = card {xs. length xs = 3 \<and> distinct xs \<and> set xs \<subseteq> S}"
  proof (rule bij_betw_same_card)
    show "bij_betw (\<lambda>(x, y, z). [x, y, z]) {(x, y, z). {x, y, z} = S} {xs. length xs = 3 \<and> distinct xs \<and> set xs \<subseteq> S}"
    proof (rule bij_betw_imageI)
      show "inj_on (\<lambda>(x, y, z). [x, y, z]) {(x, y, z). {x, y, z} = S}" by (auto simp: inj_on_def)
      show "(\<lambda>(x, y, z). [x, y, z]) ` {(x, y, z). {x, y, z} = S} = {xs. length xs = 3 \<and> distinct xs \<and> set xs \<subseteq> S}"
      proof (intro equalityI subsetI)
        fix xs
        assume "xs \<in> (\<lambda>(x, y, z). [x, y, z]) ` {(x, y, z). {x, y, z} = S}"
        then obtain x y z where xs: "xs = [x, y, z]" "set xs = S" by auto
        then have "card (set xs) = length xs" using assms by simp
        then have "distinct xs" by (rule card_distinct)
        then show "xs \<in> {xs. length xs = 3 \<and> distinct xs \<and> set xs \<subseteq> S}" using xs by simp
      next
        fix xs
        assume "xs \<in> {xs. length xs = 3 \<and> distinct xs \<and> set xs \<subseteq> S}"
        then have xs: "length xs = 3" "distinct xs" "set xs \<subseteq> S" by simp_all
        have "set xs = S" using xs assms fin by (intro card_subset_eq) (simp_all add: distinct_card)
        moreover obtain x y z where "xs = [x, y, z]"
          using xs(1) by (auto simp only: numeral_3_eq_3 length_Suc_conv length_0_conv)
        ultimately show "xs \<in> (\<lambda>(x, y, z). [x, y, z]) ` {(x, y, z). {x, y, z} = S}"
          by (intro image_eqI [of _ _ "(x, y, z)"]) auto
      qed
    qed
  qed
  also have "\<dots> = \<Prod>{card S - 3 + 1..card S}"
    using fin assms by (intro card_lists_distinct_length_eq) simp_all
  also have "\<dots> = 6" unfolding assms by (simp add: numeral_3_eq_3 atLeastAtMostSuc_conv)
  finally show ?thesis .
qed

lemma card_all_triples:
  assumes g: "simple_graph g"
  shows "card (all_triples g) = 6 * card (triangles g)"
proof -
  have parts: "all_triples g = (\<Union>S \<in> triangles g. {(x, y, z). {x, y, z} = S})"
  proof (intro equalityI subsetI)
    fix p
    assume p: "p \<in> all_triples g"
    obtain u v w where e: "p = (u, v, w)" by (metis prod_cases3)
    have a: "u < nodes g" "v \<in> set (adj g u)" "w \<in> set (adj g u)" "w \<in> set (adj g v)"
      using p e by (auto simp: all_triples_def)
    have v: "v < nodes g" using simple_graph_facts(4) [OF g a(1) a(2)] .
    have "u \<noteq> v" "u \<noteq> w" "v \<noteq> w"
      using a simple_graph_facts(3) [OF g a(1)] simple_graph_facts(3) [OF g v] by auto
    then have "{u, v, w} \<in> triangles g" using triangles_iff [OF g, of u v w] a by simp
    then show "p \<in> (\<Union>S \<in> triangles g. {(x, y, z). {x, y, z} = S})" using e by auto
  next
    fix p
    assume "p \<in> (\<Union>S \<in> triangles g. {(x, y, z). {x, y, z} = S})"
    then obtain u v w where e: "p = (u, v, w)" and t: "{u, v, w} \<in> triangles g" by auto
    have "card (set [u, v, w]) = length [u, v, w]" using t by (simp add: triangles_def)
    then have "distinct [u, v, w]" by (rule card_distinct)
    then show "p \<in> all_triples g"
      using triangles_iff [OF g, of u v w] t e by (simp add: all_triples_def)
  qed
  have six: "card {(x, y, z). {x, y, z} = S} = (6 :: nat)" if "S \<in> triangles g" for S
    using that by (intro card_orders) (simp add: triangles_def)
  have "card (all_triples g) = (\<Sum>S \<in> triangles g. card {(x, y, z). {x, y, z} = S})"
    unfolding parts
  proof (rule card_UN_disjoint)
    show "finite (triangles g)" by (rule finite_triangles)
    show "\<forall>S \<in> triangles g. finite {(x, y, z). {x, y, z} = S}"
      using six by (intro ballI card_ge_0_finite) simp
    show "\<forall>S \<in> triangles g. \<forall>T \<in> triangles g. S \<noteq> T \<longrightarrow>
      {(x, y, z). {x, y, z} = S} \<inter> {(x, y, z). {x, y, z} = T} = {}" by auto
  qed
  also have "\<dots> = 6 * card (triangles g)" using six by simp
  finally show ?thesis .
qed

lemma verifier_rows:
  assumes g: "simple_graph g" and u: "u < nodes g" and vs: "set vs \<subseteq> set (adj g u)"
  shows "foldM (\<lambda>v tot. do { xs \<leftarrow> out_neigh g u 0; ys \<leftarrow> out_neigh g v 0;
      let new_end = set_intersection xs ys;
      if int (length new_end) \<le> csr_num_nodes g then Some (tot + word_of_nat (length new_end)) else None }) vs t
    = Some (t + word_of_nat (\<Sum>v \<leftarrow> vs. card (set (adj g u) \<inter> set (adj g v))) :: 64 word)"
  using vs
proof (induction vs arbitrary: t)
  case Nil
  then show ?case by simp
next
  case (Cons v vs)
  note U = simple_graph_facts [OF g u]
  have v: "v < nodes g" using Cons.prems U(4) by auto
  note V = simple_graph_facts [OF g v]
  have len: "length (set_intersection (adj g u) (adj g v)) = card (set (adj g u) \<inter> set (adj g v))"
    by (rule set_intersection_eq [OF U(2) V(2)])
  have "card (set (adj g u) \<inter> set (adj g v)) \<le> card {..<nodes g}"
    using U(4) by (intro card_mono) auto
  then have "int (card (set (adj g u) \<inter> set (adj g v))) \<le> csr_num_nodes g"
    using u by (simp add: nodes_def)
  then show ?case
    using Cons graph_ok_neigh(1) [OF U(1) u] graph_ok_neigh(1) [OF U(1) v] by (simp add: Let_def len add.assoc)
qed

lemma TCVerifier_eq:
  assumes g: "simple_graph g" and small: "6 * card (triangles g) < 2 ^ 64"
  shows "TCVerifier g t = Some (t = word_of_nat (card (triangles g)))"
proof -
  let ?c = "\<lambda>u v. card (set (adj g u) \<inter> set (adj g v))"
  let ?body = "\<lambda>u tot. do { vs \<leftarrow> out_neigh g u 0;
      foldM (\<lambda>v tot. do { xs \<leftarrow> out_neigh g u 0; ys \<leftarrow> out_neigh g v 0;
        let new_end = set_intersection xs ys;
        if int (length new_end) \<le> csr_num_nodes g then Some (tot + word_of_nat (length new_end) :: 64 word) else None }) vs tot }"
  have ok: "graph_ok g" using g by (auto simp: simple_graph_def)
  have "returns (foldM ?body [0..<nodes g] 0) (\<lambda>t. t = word_of_nat (\<Sum>u < nodes g. \<Sum>v \<leftarrow> adj g u. ?c u v))"
  proof (rule foldM_upt_rule [where I = "\<lambda>k t. t = word_of_nat (\<Sum>u < k. \<Sum>v \<leftarrow> adj g u. ?c u v)"])
    fix u and t :: "64 word"
    assume u: "u < nodes g" and "t = word_of_nat (\<Sum>u < u. \<Sum>v \<leftarrow> adj g u. ?c u v)"
    then show "returns (?body u t) (\<lambda>t. t = word_of_nat (\<Sum>u < Suc u. \<Sum>v \<leftarrow> adj g u. ?c u v))"
      using graph_ok_neigh(1) [OF ok u] verifier_rows [OF g u, of "adj g u" t] by simp
  qed simp_all
  moreover have "(\<Sum>u < nodes g. \<Sum>v \<leftarrow> adj g u. ?c u v) = card (all_triples g)"
  proof -
    have "(\<Sum>v \<leftarrow> adj g u. ?c u v) = card (SIGMA v : set (adj g u). set (adj g u) \<inter> set (adj g v))" if "u < nodes g" for u
    proof -
      have "distinct (adj g u)" using simple_graph_facts(2) [OF g that] by (simp add: strict_sorted_iff)
      then show ?thesis by (simp add: sum_list_distinct_conv_sum_set)
    qed
    then have "(\<Sum>u < nodes g. \<Sum>v \<leftarrow> adj g u. ?c u v)
        = (\<Sum>u < nodes g. card (SIGMA v : set (adj g u). set (adj g u) \<inter> set (adj g v)))" by simp
    also have "\<dots> = card (SIGMA u : {..<nodes g}. SIGMA v : set (adj g u). set (adj g u) \<inter> set (adj g v))"
      by (rule card_SigmaI [symmetric]) simp_all
    also have "(SIGMA u : {..<nodes g}. SIGMA v : set (adj g u). set (adj g u) \<inter> set (adj g v)) = all_triples g"
      by (auto simp: all_triples_def)
    finally show ?thesis .
  qed
  ultimately have run: "foldM ?body [0..<nodes g] 0 = Some (word_of_nat (6 * card (triangles g)))"
    using card_all_triples [OF g] by (auto simp: returns_iff)
  have "(word_of_nat (6 * card (triangles g)) div 6 :: 64 word) = word_of_nat (card (triangles g))"
  proof (rule iffD2 [OF word_unat_eq_iff])
    have "unat (word_of_nat (6 * card (triangles g)) :: 64 word) = 6 * card (triangles g)"
      "unat (word_of_nat (card (triangles g)) :: 64 word) = card (triangles g)"
      by (rule of_nat_inverse [OF refl]; use small in simp)+
    then show "unat (word_of_nat (6 * card (triangles g)) div 6 :: 64 word) = unat (word_of_nat (card (triangles g)) :: 64 word)"
      by (simp only: unat_div) simp
  qed
  then show ?thesis unfolding TCVerifier_def vertices_nodes run by (simp add: eq_commute)
qed

section \<open>Relabelling keeps the count\<close>

lemma new_id_inj: "u < nodes g \<Longrightarrow> v < nodes g \<Longrightarrow> new_id g u = new_id g v \<longleftrightarrow> u = v"
  using new_id_bij [of g] by (auto simp: bij_betw_def inj_on_def)

lemma relabelled_adj:
  assumes g: "graph_sym g" and uv: "u < nodes g" "v < nodes g"
  shows "new_id g v \<in> set (adj (csr_of_rows (relabelled_rows g)) (new_id g u)) \<longleftrightarrow> v \<in> set (adj g u)"
proof -
  have "w < nodes g" if "w \<in> set (adj g u)" for w using gu.neigh_less [OF g uv(1) that] .
  then show ?thesis using relabelled_graph(3) [OF g uv(1)] new_id_inj [OF uv(2)] by auto
qed

lemma relabelled_simple:
  assumes g: "simple_graph g"
  shows "simple_graph (csr_of_rows (relabelled_rows g))"
proof -
  let ?g' = "csr_of_rows (relabelled_rows g)"
  have sym: "graph_sym g" using g by (simp add: simple_graph_def)
  note r = relabelled_graph [OF sym]
  have "sorted_wrt (<) (adj ?g' i) \<and> i \<notin> set (adj ?g' i)" if "i < nodes ?g'" for i
  proof -
    define u where "u = degree_order g ! i"
    have u: "u < nodes g" "new_id g u = i" using new_id_order [of i g] that r(2) by (simp_all add: u_def)
    note U = simple_graph_facts [OF g u(1)]
    have "inj_on (new_id g) (set (adj g u))"
      using new_id_bij [of g] U(4) by (auto simp: bij_betw_def intro: inj_on_subset)
    then have "distinct (map (new_id g) (adj g u))" using U(2) by (simp add: distinct_map strict_sorted_iff)
    then have "sorted_wrt (<) (adj ?g' i)" using r(3) [OF u(1)] u(2) by (simp add: strict_sorted_iff)
    moreover have "i \<notin> set (adj ?g' i)" using relabelled_adj [OF sym u(1) u(1)] U(3) u(2) by simp
    ultimately show ?thesis by simp
  qed
  then show ?thesis using r(1) by (simp add: simple_graph_def)
qed

lemma relabelled_triangles:
  assumes g: "simple_graph g"
  shows "card (triangles (csr_of_rows (relabelled_rows g))) = card (triangles g)"
proof (rule bij_betw_same_card [symmetric])
  let ?g' = "csr_of_rows (relabelled_rows g)" and ?n = "nodes g" and ?f = "new_id g" and ?b = "\<lambda>i. degree_order g ! i"
  have sym: "graph_sym g" using g by (simp add: simple_graph_def)
  have n: "nodes ?g' = ?n" by simp
  have inj: "inj_on ?f {..<?n}" using new_id_bij [of g] by (simp add: bij_betw_def)
  have bf: "?b (?f v) = v" if "v < ?n" for v using new_id_props(2) [OF that] .
  have fb: "?f (?b i) = i" "?b i < ?n" if "i < ?n" for i using new_id_order [OF that] by simp_all
  have injb: "inj_on ?b {..<?n}" by (rule inj_on_inverseI [where g = ?f]) (use fb in simp)
  show "bij_betw ((`) ?f) (triangles g) (triangles ?g')"
  proof (rule bij_betw_byWitness [where f' = "(`) ?b"])
    show "\<forall>S \<in> triangles g. ?b ` ?f ` S = S"
    proof
      fix S
      assume "S \<in> triangles g"
      then have "S \<subseteq> {..<?n}" by (simp add: triangles_def)
      then have "(\<lambda>v. ?b (?f v)) ` S = id ` S" using bf by (intro image_cong) auto
      then show "?b ` ?f ` S = S" by (simp add: image_image)
    qed
    show "\<forall>T \<in> triangles ?g'. ?f ` ?b ` T = T"
    proof
      fix T
      assume "T \<in> triangles ?g'"
      then have "T \<subseteq> {..<?n}" by (simp add: triangles_def)
      then have "(\<lambda>i. ?f (?b i)) ` T = id ` T" using fb by (intro image_cong) auto
      then show "?f ` ?b ` T = T" by (simp add: image_image)
    qed
    show "(`) ?f ` triangles g \<subseteq> triangles ?g'"
    proof
      fix T
      assume "T \<in> (`) ?f ` triangles g"
      then obtain S where S: "S \<in> triangles g" "T = ?f ` S" by auto
      have sub: "S \<subseteq> {..<?n}" using S by (simp add: triangles_def)
      have "card T = 3" using S card_image [OF inj_on_subset [OF inj sub]] by (simp add: triangles_def)
      moreover have "T \<subseteq> {..<?n}" using S(2) sub new_id_props(1) by auto
      moreover have "j \<in> set (adj ?g' i)" if ij: "i \<in> T" "j \<in> T" "i \<noteq> j" for i j
      proof -
        obtain x y where xy: "x \<in> S" "y \<in> S" "i = ?f x" "j = ?f y" using ij(1,2) S(2) by auto
        then have "y \<in> set (adj g x)" using S(1) ij(3) by (auto simp: triangles_def)
        moreover have "x < ?n" "y < ?n" using xy sub by auto
        ultimately show ?thesis using relabelled_adj [OF sym] xy by simp
      qed
      ultimately show "T \<in> triangles ?g'" unfolding triangles_def n by blast
    qed
    show "(`) ?b ` triangles ?g' \<subseteq> triangles g"
    proof
      fix S
      assume "S \<in> (`) ?b ` triangles ?g'"
      then obtain T where T: "T \<in> triangles ?g'" "S = ?b ` T" by auto
      have sub: "T \<subseteq> {..<?n}" using T by (simp add: triangles_def)
      have "card S = 3" using T card_image [OF inj_on_subset [OF injb sub]] by (simp add: triangles_def)
      moreover have "S \<subseteq> {..<?n}" using T(2) sub fb(2) by auto
      moreover have "y \<in> set (adj g x)" if xy: "x \<in> S" "y \<in> S" "x \<noteq> y" for x y
      proof -
        obtain i j where ij: "i \<in> T" "j \<in> T" "x = ?b i" "y = ?b j" using xy(1,2) T(2) by auto
        then have "j \<in> set (adj ?g' i)" using T(1) xy(3) by (auto simp: triangles_def)
        moreover have "i < ?n" "j < ?n" using ij sub by auto
        ultimately show ?thesis using relabelled_adj [OF sym fb(2) fb(2)] ij fb(1) by simp
      qed
      ultimately show "S \<in> triangles g" unfolding triangles_def by blast
    qed
  qed
qed

section \<open>The heuristic returns\<close>

lemma WorthRelabelling_returns:
  assumes g: "graph_ok g" and n: "0 < nodes g" and m: "num_edges g = Some m"
    and fair: "10 \<le> m div csr_num_nodes g \<Longrightarrow> fair_draws g draws"
  shows "\<exists>b. WorthRelabelling skewed draws g = Some b"
proof (cases "m div csr_num_nodes g < 10")
  case True
  then have "WorthRelabelling skewed draws g = Some False"
    using m n by (simp add: WorthRelabelling_def Let_def nodes_def)
  then show ?thesis ..
next
  case False
  then have fair: "fair_draws g draws" using fair by simp
  have wf: "csr_wf (\<lambda>v. v) g" using g by (simp add: graph_ok_def)
  let ?k = "nat (min 1000 (csr_num_nodes g))"
  let ?body = "\<lambda>trial (samples, tot, sp). do { (v, sp) \<leftarrow> PickNext g draws sp; d \<leftarrow> out_degree g (nat v);
      samples \<leftarrow> wr samples trial d; Some (samples, tot + d, sp) }"
  have "returns (foldM ?body [0..<?k] (uninit ?k, 0, SourcePicker (-1))) (\<lambda>(samples, tot, sp). length samples = ?k)"
  proof (rule foldM_upt_rule [where I = "\<lambda>i (samples, tot, sp). length samples = ?k \<and> sp_given_source sp = -1"])
    show "case (uninit ?k, 0, SourcePicker (-1)) of (samples, tot, sp) \<Rightarrow> length samples = ?k \<and> sp_given_source sp = -1"
      by (simp add: SourcePicker_def)
    fix i and s :: "int list \<times> int \<times> source_picker"
    assume i: "i < ?k" and I: "case s of (samples, tot, sp) \<Rightarrow> length samples = ?k \<and> sp_given_source sp = -1"
    obtain samples tot sp where s: "s = (samples, tot, sp)" by (cases s)
    obtain j where "sp_pos sp \<le> j" "adj g (draws j) \<noteq> []" using fair by (auto simp: fair_draws_def)
    then obtain v p where "pick_from g draws (sp_pos sp) = Some (v, p)" "v < nodes g"
      using pick_from_returns [OF wf, of draws "sp_pos sp" j] fair by (auto simp: fair_draws_def)
    then show "returns (?body i s) (\<lambda>(samples, tot, sp). length samples = ?k \<and> sp_given_source sp = -1)"
      using I i s graph_ok_neigh(3) [OF g] by (simp add: PickNext_def)
  qed auto
  then obtain samples tot sp where "foldM ?body [0..<?k] (uninit ?k, 0, SourcePicker (-1)) = Some (samples, tot, sp)"
    "length samples = ?k"
    by (auto simp: returns_iff)
  moreover have "nat (min 1000 (csr_num_nodes g) div 2) < ?k" using n by (auto simp: nodes_def min_def)
  ultimately show ?thesis
    using False m n by (simp add: WorthRelabelling_def Let_def nodes_def)
qed

section \<open>Properties\<close>

text \<open>\<open>OrderedCount\<close> counts the triangles.  On a symmetric graph with strictly ascending neighbour
  lists and no self-loops, which is what the builder makes, the early exits and the running
  iterator lose nothing, no dereference leaves the neighbour array, and the total is the number
  of cliques of size 3 (modulo the width of \<^verbatim>\<open>size_t\<close>).\<close>

lemma OrderedCount_triangles:
  assumes "simple_graph g"
  shows "OrderedCount g = Some (word_of_nat (card (triangles g)))"
  using assms by (rule OrderedCount_eq)

lemma simple_degree:
  assumes g: "simple_graph g" and n: "nodes g < 2 ^ 31 - 1" and u: "u < nodes g"
  shows "length (adj g u) < 2 ^ 31"
proof -
  have "distinct (adj g u)" using g u by (auto simp: simple_graph_def strict_sorted_iff)
  moreover have "set (adj g u) \<subseteq> {..<nodes g}" using simple_graph_facts(4) [OF g u] by blast
  ultimately have "length (adj g u) \<le> nodes g"
    using card_mono [OF finite_lessThan, of "set (adj g u)" "nodes g"] by (simp add: distinct_card)
  then show ?thesis using n by simp
qed

lemma Hybrid_eq:
  assumes g: "simple_graph g" and und: "\<not> csr_directed g" and n: "0 < nodes g" "nodes g < 2 ^ 31 - 1"
    and m: "num_edges g = Some m"
    and fair: "10 \<le> m div csr_num_nodes g \<Longrightarrow> fair_draws g draws"
  shows "Hybrid skewed draws g = Inr (word_of_nat (card (triangles g)))"
proof -
  have ok: "graph_ok g" using g by (auto simp: simple_graph_def)
  obtain b where b: "WorthRelabelling skewed draws g = Some b"
    using WorthRelabelling_returns [OF ok n(1) m fair, of skewed] by blast
  have "OrderedCount (csr_of_rows (relabelled_rows g)) = Some (word_of_nat (card (triangles g)))"
    using OrderedCount_eq [OF relabelled_simple [OF g]] relabelled_triangles [OF g] by simp
  then show ?thesis
    using b RelabelByDegree_eq [OF ok und n(2) simple_degree [OF g n(2)]] OrderedCount_eq [OF g] by (simp add: Hybrid_def)
qed

text \<open>C11: The whole kernel.  Whichever way the relabelling heuristic decides, \<open>Hybrid\<close> returns the
  number of triangles of the graph it was given, as long as the length of the index is a 32-bit int; the heuristic's loop over random vertices ends
  when the draws keep hitting vertices with an edge.\<close>

lemma Hybrid_triangles:
  assumes g: "simple_graph g" and und: "\<not> csr_directed g" and n: "0 < nodes g" "nodes g < 2 ^ 31 - 1"
    and m: "num_edges g = Some m"
    and fair: "10 \<le> m div csr_num_nodes g \<Longrightarrow> fair_draws g draws"
  shows "Hybrid skewed draws g = Inr (word_of_nat (card (triangles g)))"
  using assms by (rule Hybrid_eq)

text \<open>The verifier agrees with the kernel: it accepts exactly the number of triangles, as long as six
  times this number fits \<^verbatim>\<open>size_t\<close>, so its division by six is exact.\<close>

lemma TCVerifier_correct:
  assumes "simple_graph g" "6 * card (triangles g) < 2 ^ 64"
  shows "TCVerifier g test_total = Some (test_total = word_of_nat (card (triangles g)))"
  using assms by (rule TCVerifier_eq)

definition triangle_graph :: "nat csr_graph" where
  \<comment> \<open>an example: a triangle with a pendant vertex\<close>
  "triangle_graph = (csr_of_rows [[1, 2, 3], [0, 2], [0, 1], [0]])\<lparr>csr_num_edges := Some 4\<rparr>"

lemma triangle_graph_simps:
  "nodes triangle_graph = 4" "adj triangle_graph = adj (csr_of_rows [[1, 2, 3], [0, 2], [0, 1], [0]])"
  by (simp_all add: triangle_graph_def nodes_def adj_def csr_of_rows_def csr_undirected_def fun_eq_iff)

lemma graph_ok_num_edges: "graph_ok (g\<lparr>csr_num_edges := m\<rparr>) \<longleftrightarrow> graph_ok g"
  by (simp add: graph_ok_def csr_wf_def nodes_def adj_def inv_adj_def)

lemma triangle_graph_simple: "simple_graph triangle_graph"
proof -
  let ?g = "csr_of_rows [[1, 2, 3], [0, 2], [0, 1], [0]] :: nat csr_graph"
  have "graph_ok ?g" unfolding graph_ok_def by (rule csr_of_rows_wf) auto
  then have "graph_ok triangle_graph" by (simp only: triangle_graph_def graph_ok_num_edges)
  then show ?thesis
    by (simp add: simple_graph_def graph_sym_def triangle_graph_simps All_less_Suc numeral_eq_Suc)
qed

lemma triangle_graph_triangles: "card (triangles triangle_graph) = 1"
proof -
  have "ordered_triangles triangle_graph = {(2, 1, 0)}"
    unfolding ordered_triangles_def triangle_graph_simps
    by (auto simp: less_Suc_eq numeral_eq_Suc)
  then show ?thesis using card_ordered_triangles [OF triangle_graph_simple] by simp
qed

lemma OrderedCount_triangles_witness: "OrderedCount triangle_graph = Some 1"
  using OrderedCount_triangles [OF triangle_graph_simple] by (simp add: triangle_graph_triangles)

lemma Hybrid_triangles_witness: "Hybrid (\<lambda>_ _ _. True) (\<lambda>_. 0) triangle_graph = Inr 1"
proof -
  have "\<not> csr_directed triangle_graph" "num_edges triangle_graph = Some 4" "csr_num_nodes triangle_graph = 4"
    by (simp_all add: triangle_graph_def num_edges_def csr_of_rows_def csr_undirected_def)
  then show ?thesis
    using Hybrid_triangles [OF triangle_graph_simple] by (simp add: triangle_graph_simps triangle_graph_triangles)
qed

lemma TCVerifier_correct_witness: "TCVerifier triangle_graph 1 = Some True \<and> TCVerifier triangle_graph 2 = Some False"
  using TCVerifier_correct [OF triangle_graph_simple] by (simp add: triangle_graph_triangles)

end
