(* ===== verification/Forest.thy ===== *)
theory Forest
  imports Graph
begin

text \<open>
  The label array of the two connected-components kernels as a forest: the cell of a vertex
  holds its parent, parents are never larger, roots point to themselves.  \<open>joined\<close> is the
  connectivity the forest stands for; the operations of the kernels are stated as what they do
  to it.  \<open>path_compress\<close> is the loop of \<^verbatim>\<open>Compress\<close>, which both kernels contain.
\<close>

section \<open>Forests\<close>

definition forest :: "nat \<Rightarrow> nat list \<Rightarrow> bool" where
  "forest n cmp \<longleftrightarrow> length cmp = n \<and> (\<forall>x < n. cmp ! x \<le> x)"

definition parents :: "nat list \<Rightarrow> (nat \<times> nat) set" where
  "parents cmp = {(x, cmp ! x) | x. x < length cmp}"

definition joined :: "nat list \<Rightarrow> (nat \<times> nat) set" where
  "joined cmp = (parents cmp \<union> (parents cmp)\<inverse>)\<^sup>*"

definition link_closure :: "(nat \<times> nat) set \<Rightarrow> (nat \<times> nat) set" where
  \<comment> \<open>connectivity, ignoring the direction of edges\<close>
  "link_closure E = (E \<union> E\<inverse>)\<^sup>*"

lemma joined_closure: "joined cmp = link_closure (parents cmp)"
  by (simp add: joined_def link_closure_def)

lemma link_closure_refl [simp]: "(x, x) \<in> link_closure E"
  by (simp add: link_closure_def)

lemma link_closure_sym: "(x, y) \<in> link_closure E \<Longrightarrow> (y, x) \<in> link_closure E"
proof -
  have "sym (E \<union> E\<inverse>)" by (auto simp: sym_def)
  then show "(x, y) \<in> link_closure E \<Longrightarrow> (y, x) \<in> link_closure E"
    unfolding link_closure_def by (blast intro: symD [OF sym_rtrancl])
qed

lemma link_closure_trans: "(x, y) \<in> link_closure E \<Longrightarrow> (y, z) \<in> link_closure E \<Longrightarrow> (x, z) \<in> link_closure E"
  unfolding link_closure_def by (rule rtrancl_trans)

lemma link_closure_edge: "(x, y) \<in> E \<Longrightarrow> (x, y) \<in> link_closure E"
  unfolding link_closure_def by (rule r_into_rtrancl) simp

lemma link_closure_least:
  assumes "E \<subseteq> link_closure F"
  shows "link_closure E \<subseteq> link_closure F"
proof
  fix p
  assume "p \<in> link_closure E"
  moreover obtain x y where p: "p = (x, y)" by (cases p)
  ultimately have "(x, y) \<in> (E \<union> E\<inverse>)\<^sup>*" by (simp add: link_closure_def)
  then have "(x, y) \<in> link_closure F"
  proof (induction rule: rtrancl_induct)
    case base
    then show ?case by simp
  next
    case (step y z)
    then have "(y, z) \<in> link_closure F" using assms by (auto intro: link_closure_sym)
    then show ?case by (rule link_closure_trans [OF step.IH])
  qed
  then show "p \<in> link_closure F" using p by simp
qed

lemma link_closure_subset: "E \<subseteq> link_closure E"
proof
  fix p
  assume "p \<in> E"
  then show "p \<in> link_closure E" by (cases p) (simp add: link_closure_edge)
qed

lemma link_closure_mono: "E \<subseteq> F \<Longrightarrow> link_closure E \<subseteq> link_closure F"
  using link_closure_subset [of F] by (intro link_closure_least) (rule order.trans)

lemma link_closure_idem [simp]: "link_closure (link_closure E) = link_closure E"
  by (intro equalityI link_closure_least link_closure_subset order.refl)

lemma link_closure_union: "link_closure (link_closure E \<union> F) = link_closure (E \<union> F)"
proof (intro equalityI)
  have "link_closure E \<subseteq> link_closure (E \<union> F)" by (rule link_closure_mono) simp
  moreover have "F \<subseteq> link_closure (E \<union> F)" using link_closure_subset [of "E \<union> F"] by simp
  ultimately show "link_closure (link_closure E \<union> F) \<subseteq> link_closure (E \<union> F)"
    by (intro link_closure_least) simp
  show "link_closure (E \<union> F) \<subseteq> link_closure (link_closure E \<union> F)"
    using link_closure_subset [of E] by (intro link_closure_mono) auto
qed

lemma link_closure_absorb: "F \<subseteq> link_closure E \<Longrightarrow> link_closure (E \<union> F) = link_closure E"
  using link_closure_subset [of E] by (intro equalityI link_closure_least link_closure_mono) auto

lemma link_closure_swap: "link_closure (E \<union> {(x, y)}) = link_closure (E \<union> {(y, x)})"
proof -
  have "(E \<union> {(x, y)}) \<union> (E \<union> {(x, y)})\<inverse> = (E \<union> {(y, x)}) \<union> (E \<union> {(y, x)})\<inverse>" by auto
  then show ?thesis by (simp only: link_closure_def)
qed

text \<open>An edge may be moved along connections.\<close>

lemma link_closure_pair:
  assumes "(u, p) \<in> link_closure E" "(v, q) \<in> link_closure E"
  shows "link_closure (link_closure E \<union> {(p, q)}) = link_closure (link_closure E \<union> {(u, v)})"
proof -
  have one: "link_closure (link_closure E \<union> {(x, y)}) \<subseteq> link_closure (link_closure E \<union> {(a, b)})"
    if "(a, x) \<in> link_closure E" "(b, y) \<in> link_closure E" for a b x y
  proof (rule link_closure_least)
    let ?F = "link_closure E \<union> {(a, b)}"
    have "(a, x) \<in> link_closure ?F" "(b, y) \<in> link_closure ?F" "(a, b) \<in> link_closure ?F"
      using that by (simp_all add: link_closure_edge)
    then have "(x, y) \<in> link_closure ?F" by (meson link_closure_sym link_closure_trans)
    then show "link_closure E \<union> {(x, y)} \<subseteq> link_closure ?F" using link_closure_subset [of ?F] by simp
  qed
  show ?thesis
    by (intro equalityI one) (use assms in \<open>auto intro: link_closure_sym\<close>)
qed

lemma link_closure_empty: "(x, y) \<in> link_closure {} \<longleftrightarrow> x = y"
  by (auto simp: link_closure_def)

lemmas joined_facts = link_closure_refl link_closure_sym link_closure_trans

lemma joined_parent: "x < length cmp \<Longrightarrow> (x, cmp ! x) \<in> joined cmp"
  unfolding joined_closure by (rule link_closure_edge) (auto simp: parents_def)

lemma forest_range: "forest n cmp \<Longrightarrow> x < n \<Longrightarrow> cmp ! x < n \<and> cmp ! x \<le> x"
  by (auto simp: forest_def)

lemma forest_joined_range:
  assumes f: "forest n cmp" and xy: "(x, y) \<in> joined cmp" and x: "x < n"
  shows "y < n"
  using xy x unfolding joined_def
proof (induction rule: rtrancl_induct)
  case (step y z)
  then show ?case using f by (auto simp: parents_def forest_def dest: le_less_trans)
qed

text \<open>Hanging a root below a smaller vertex joins exactly these two trees.\<close>

lemma hang_root:
  assumes f: "forest n cmp" and h: "h < n" "cmp ! h = h" and l: "l \<le> h"
  shows "forest n (cmp[h := l])" "joined (cmp[h := l]) = link_closure (joined cmp \<union> {(h, l)})"
proof -
  show "forest n (cmp[h := l])" using f h l by (auto simp: forest_def nth_list_update)
  have len: "length cmp = n" using f by (simp add: forest_def)
  have "parents cmp \<subseteq> link_closure (parents (cmp[h := l]))"
  proof
    fix p
    assume "p \<in> parents cmp"
    then obtain x where x: "p = (x, cmp ! x)" "x < n" using len by (auto simp: parents_def)
    show "p \<in> link_closure (parents (cmp[h := l]))"
    proof (cases "x = h")
      case False
      then have "p \<in> parents (cmp[h := l])" using x len by (auto simp: parents_def)
      then show ?thesis by (cases p) (auto intro: link_closure_edge)
    qed (use x h in simp)
  qed
  moreover have "(h, l) \<in> parents (cmp[h := l])" using h len by (auto simp: parents_def)
  moreover have "parents (cmp[h := l]) \<subseteq> parents cmp \<union> {(h, l)}"
  proof
    fix p
    assume "p \<in> parents (cmp[h := l])"
    then obtain x where "p = (x, cmp[h := l] ! x)" "x < n" using len by (auto simp: parents_def)
    then show "p \<in> parents cmp \<union> {(h, l)}" using len by (cases "x = h") (auto simp: parents_def)
  qed
  ultimately show "joined (cmp[h := l]) = link_closure (joined cmp \<union> {(h, l)})"
    unfolding joined_closure link_closure_union
    using link_closure_edge
    by (intro equalityI link_closure_mono link_closure_least) auto
qed

text \<open>Moving a vertex to its grandparent joins nothing and splits nothing.\<close>

lemma grandparent:
  assumes f: "forest n cmp" and x: "x < n"
  shows "forest n (cmp[x := cmp ! (cmp ! x)])" "joined (cmp[x := cmp ! (cmp ! x)]) = joined cmp"
proof -
  let ?p = "cmp ! x" and ?g = "cmp ! (cmp ! x)"
  have len: "length cmp = n" using f by (simp add: forest_def)
  have p: "?p < n" "?p \<le> x" "?g \<le> ?p" using forest_range [OF f x] forest_range [OF f, of ?p] by auto
  show "forest n (cmp[x := ?g])" using f x p by (auto simp: forest_def nth_list_update)
  show "joined (cmp[x := ?g]) = joined cmp"
    unfolding joined_closure
  proof (intro equalityI link_closure_least)
    show "parents (cmp[x := ?g]) \<subseteq> link_closure (parents cmp)"
    proof
      fix q
      assume "q \<in> parents (cmp[x := ?g])"
      then obtain y where y: "q = (y, cmp[x := ?g] ! y)" "y < n" using len by (auto simp: parents_def)
      have "(x, ?g) \<in> link_closure (parents cmp)"
        using joined_parent [of x cmp] joined_parent [of ?p cmp] len x p
        unfolding joined_closure by (blast intro: link_closure_trans)
      then show "q \<in> link_closure (parents cmp)"
        using y joined_parent [of y cmp] len by (cases "y = x") (auto simp: joined_closure)
    qed
    show "parents cmp \<subseteq> link_closure (parents (cmp[x := ?g]))"
    proof
      fix q
      assume "q \<in> parents cmp"
      then obtain y where y: "q = (y, cmp ! y)" "y < n" using len by (auto simp: parents_def)
      have edge: "(z, cmp[x := ?g] ! z) \<in> link_closure (parents (cmp[x := ?g]))" if "z < n" for z
        using joined_parent [of z "cmp[x := ?g]"] that len by (simp add: joined_closure)
      show "q \<in> link_closure (parents (cmp[x := ?g]))"
      proof (cases "y = x \<and> ?p \<noteq> x")
        case True
        then have "(?p, ?g) \<in> link_closure (parents (cmp[x := ?g]))" using edge [OF p(1)] by simp
        moreover have "(x, ?g) \<in> link_closure (parents (cmp[x := ?g]))" using edge [OF x] x len by simp
        ultimately show ?thesis using y True by (blast intro: link_closure_trans link_closure_sym)
      next
        case False
        then show ?thesis using y edge [OF y(2)] x len by (cases "y = x") auto
      qed
    qed
  qed
qed

section \<open>Compression\<close>

partial_function (option) compress_vertex :: "nat \<Rightarrow> nat list \<Rightarrow> nat list option" where
  \<comment> \<open>\<^verbatim>\<open>while (comp[n] != comp[comp[n]]) comp[n] = comp[comp[n]];\<close>\<close>
  "compress_vertex n cmp = do {
     p \<leftarrow> rd cmp n;
     pp \<leftarrow> rd cmp p;
     if p \<noteq> pp then do { cmp \<leftarrow> wr cmp n pp; compress_vertex n cmp } else Some cmp }"

definition path_compress :: "'d csr_graph \<Rightarrow> nat list \<Rightarrow> nat list option" where
  "path_compress g cmp = foldM compress_vertex (vertices g) cmp"

definition is_root :: "nat list \<Rightarrow> nat \<Rightarrow> bool" where
  "is_root cmp x \<longleftrightarrow> cmp ! x = x"

lemma compress_vertex_returns:
  assumes "forest n cmp" "x < n"
  shows "\<exists>r. compress_vertex x cmp = Some (cmp[x := r]) \<and> forest n (cmp[x := r]) \<and> is_root (cmp[x := r]) r \<and>
    joined (cmp[x := r]) = joined cmp \<and> r \<le> x"
  using assms
proof (induction "cmp ! x" arbitrary: cmp rule: less_induct)
  case less
  let ?p = "cmp ! x" and ?g = "cmp ! (cmp ! x)"
  have len: "length cmp = n" using less.prems by (simp add: forest_def)
  have p: "?p < n" "?p \<le> x" "?g \<le> ?p"
    using forest_range [OF less.prems] forest_range [OF less.prems(1), of ?p] by auto
  show ?case
  proof (cases "?p = ?g")
    case True
    then have "compress_vertex x cmp = Some cmp"
      using less.prems p len by (simp add: compress_vertex.simps)
    moreover have "cmp[x := ?p] = cmp" by simp
    ultimately show ?thesis
      using less.prems True p by (intro exI [of _ ?p]) (simp add: is_root_def)
  next
    case False
    let ?c = "cmp[x := ?g]"
    note gp = grandparent [OF less.prems]
    have "?c ! x < cmp ! x" using False p less.prems len by simp
    from less.hyps [OF this gp(1) less.prems(2)] gp(2)
    obtain r where r: "compress_vertex x ?c = Some (cmp[x := r])" "forest n (cmp[x := r])"
      "is_root (cmp[x := r]) r" "joined (cmp[x := r]) = joined cmp" "r \<le> x" by auto
    have "compress_vertex x cmp = compress_vertex x ?c"
      using False less.prems p len by (subst compress_vertex.simps) simp
    then show ?thesis using r by (intro exI [of _ r]) simp
  qed
qed

definition star :: "nat \<Rightarrow> nat list \<Rightarrow> bool" where
  \<comment> \<open>a forest of depth one\<close>
  "star n cmp \<longleftrightarrow> forest n cmp \<and> (\<forall>x < n. cmp ! (cmp ! x) = cmp ! x)"

lemma path_compress_returns:
  assumes f: "forest (nodes g) cmp"
  shows "returns (path_compress g cmp) (\<lambda>cmp'. star (nodes g) cmp' \<and> joined cmp' = joined cmp)"
  unfolding path_compress_def vertices_nodes
proof (rule foldM_upt_rule [where I = "\<lambda>k c. forest (nodes g) c \<and> joined c = joined cmp \<and>
    (\<forall>x < k. is_root c (c ! x))"])
  fix x c
  assume x: "x < nodes g" and I: "forest (nodes g) c \<and> joined c = joined cmp \<and> (\<forall>y < x. is_root c (c ! y))"
  obtain r where r: "compress_vertex x c = Some (c[x := r])" "forest (nodes g) (c[x := r])"
    "is_root (c[x := r]) r" "joined (c[x := r]) = joined c" "r \<le> x"
    using compress_vertex_returns [of "nodes g" c x] I x by auto
  have len: "length c = nodes g" using I by (simp add: forest_def)
  have "is_root (c[x := r]) (c[x := r] ! y)" if "y < Suc x" for y
  proof (cases "y = x")
    case True
    then show ?thesis using r(3) x len by simp
  next
    case False
    then have y: "y < x" using that by simp
    then have "c ! y \<le> y" using I x by (auto simp: forest_def)
    then show ?thesis using I y by (auto simp: is_root_def nth_list_update)
  qed
  then show "returns (compress_vertex x c) (\<lambda>c. forest (nodes g) c \<and> joined c = joined cmp \<and>
    (\<forall>y < Suc x. is_root c (c ! y)))"
    using r I by simp
qed (use f in \<open>auto simp: star_def is_root_def\<close>)

lemma star_joined:
  assumes s: "star n cmp" and xy: "(x, y) \<in> joined cmp" and x: "x < n"
  shows "y < n \<and> cmp ! y = cmp ! x"
  using xy x unfolding joined_def
proof (induction rule: rtrancl_induct)
  case (step y z)
  then show ?case
    using s by (auto simp: parents_def star_def forest_def dest: le_less_trans)
qed simp

lemma star_labels:
  assumes s: "star n cmp" and x: "x < n" and y: "y < n"
  shows "cmp ! x = cmp ! y \<longleftrightarrow> (x, y) \<in> joined cmp" "cmp ! x = (LEAST z. (x, z) \<in> joined cmp)"
proof -
  have len: "length cmp = n" using s by (simp add: star_def forest_def)
  have px: "(x, cmp ! x) \<in> joined cmp" and py: "(y, cmp ! y) \<in> joined cmp"
    using joined_parent [of x cmp] joined_parent [of y cmp] len x y by simp_all
  show "cmp ! x = cmp ! y \<longleftrightarrow> (x, y) \<in> joined cmp"
  proof
    assume "cmp ! x = cmp ! y"
    then show "(x, y) \<in> joined cmp"
      using px py unfolding joined_closure by (metis link_closure_trans link_closure_sym)
  next
    assume "(x, y) \<in> joined cmp"
    then show "cmp ! x = cmp ! y" using star_joined [OF s _ x] by simp
  qed
  show "cmp ! x = (LEAST z. (x, z) \<in> joined cmp)"
  proof (rule Least_equality [symmetric])
    show "(x, cmp ! x) \<in> joined cmp" by (rule px)
    fix z
    assume "(x, z) \<in> joined cmp"
    then have "z < n \<and> cmp ! z = cmp ! x" by (rule star_joined [OF s _ x])
    then show "cmp ! x \<le> z" using s by (metis star_def forest_def)
  qed
qed

section \<open>The contract of a components kernel\<close>

text \<open>Every vertex is labelled with the smallest vertex it is connected to.\<close>

definition min_labels :: "nat \<Rightarrow> (nat \<times> nat) set \<Rightarrow> nat list \<Rightarrow> bool" where
  "min_labels n E cmp \<longleftrightarrow> length cmp = n \<and> (\<forall>x < n. cmp ! x = (LEAST z. (x, z) \<in> link_closure E))"

lemma star_min_labels:
  assumes s: "star n cmp" and E: "joined cmp = link_closure E"
  shows "min_labels n E cmp"
proof -
  have "cmp ! x = (LEAST z. (x, z) \<in> link_closure E)" if "x < n" for x
    using star_labels(2) [OF s that that] E by simp
  then show ?thesis using s by (auto simp: min_labels_def star_def forest_def)
qed

lemma identity_forest:
  "forest n [0..<n]" "joined [0..<n] = link_closure {}"
proof -
  show "forest n [0..<n]" by (simp add: forest_def)
  have "parents [0..<n] \<subseteq> link_closure {}" by (auto simp: parents_def)
  then show "joined [0..<n] = link_closure {}"
    unfolding joined_closure by (intro equalityI link_closure_least link_closure_mono) auto
qed

section \<open>The state of a components kernel\<close>

definition between :: "nat \<Rightarrow> (nat \<times> nat) set \<Rightarrow> (nat \<times> nat) set \<Rightarrow> nat list \<Rightarrow> bool" where
  \<comment> \<open>the forest joins what was linked so far, and only what the edges connect\<close>
  "between n S E cmp \<longleftrightarrow> forest n cmp \<and> S \<subseteq> joined cmp \<and> joined cmp \<subseteq> link_closure E"

lemma joined_idem: "link_closure (joined cmp) = joined cmp"
  by (simp add: joined_closure)

lemma path_compress_between:
  "between (nodes g) S E cmp \<Longrightarrow> returns (path_compress g cmp) (\<lambda>c. star (nodes g) c \<and> between (nodes g) S E c)"
  unfolding between_def
  by (rule returns_mono [OF path_compress_returns]) (auto simp: star_def)

end
