(* ===== verification/CC.thy ===== *)
theory CC
  imports Forest Atomics
begin

text \<open>
  The Afforest kernel of src/cc.cc.  \<open>cmp\<close> is the array \<^verbatim>\<open>comp\<close>.  The random vertices of the
  sampling and the order in which the hash table of the samples is walked are arguments; the
  result does not depend on them.  Loops over vertices run in the order of their index.
\<close>

section \<open>The kernel\<close>

partial_function (option) link_loop :: "nat \<Rightarrow> nat \<Rightarrow> nat list \<Rightarrow> nat list option" where
  "link_loop p1 p2 cmp =
     (if p1 = p2 then Some cmp
      else let high = (if p1 > p2 then p1 else p2); low = p1 + p2 - high in do {
        p_high \<leftarrow> rd cmp high;
        if p_high = low then Some cmp
        else do {
          cell \<leftarrow> rd cmp high;
          let (new, swapped) = (if p_high = high then compare_and_swap cell high low else (cell, False));
          cmp \<leftarrow> wr cmp high new;
          if swapped then Some cmp
          else do {
            q \<leftarrow> rd cmp high;
            p1 \<leftarrow> rd cmp q;
            p2 \<leftarrow> rd cmp low;
            link_loop p1 p2 cmp } } })"

definition Link :: "nat \<Rightarrow> nat \<Rightarrow> nat list \<Rightarrow> nat list option" where
  "Link u v cmp = do { p1 \<leftarrow> rd cmp u; p2 \<leftarrow> rd cmp v; link_loop p1 p2 cmp }"

definition count_samples :: "(nat \<Rightarrow> nat) \<Rightarrow> nat \<Rightarrow> nat list \<Rightarrow> (nat \<rightharpoonup> int) option" where
  "count_samples draws num_samples cmp = foldM (\<lambda>i counts. do {
     label \<leftarrow> rd cmp (draws i);
     Some (counts(label \<mapsto> (case counts label of None \<Rightarrow> 0 | Some k \<Rightarrow> k) + 1)) }) [0..<num_samples] Map.empty"

definition SampleFrequentElement ::
  "(nat \<Rightarrow> nat) \<Rightarrow> ((nat \<rightharpoonup> int) \<Rightarrow> nat list) \<Rightarrow> nat \<Rightarrow> nat list \<Rightarrow> nat option" where
  \<comment> \<open>\<open>table_order\<close> lists the keys in the order in which the hash table is walked\<close>
  "SampleFrequentElement draws table_order num_samples cmp = do {
     sample_counts \<leftarrow> count_samples draws num_samples cmp;
     case table_order sample_counts of [] \<Rightarrow> None
       | k # ks \<Rightarrow> Some (max_element (\<lambda>k. the (sample_counts k)) k ks) }"

definition link_first :: "nat csr_graph \<Rightarrow> nat \<Rightarrow> nat \<Rightarrow> nat list \<Rightarrow> nat list option" where
  \<comment> \<open>one vertex of a sampling round: the loop over \<open>out_neigh(u, r)\<close> breaks after its first step\<close>
  "link_first g r u cmp = do {
     vs \<leftarrow> out_neigh g u r;
     case vs of [] \<Rightarrow> Some cmp | v # _ \<Rightarrow> Link u v cmp }"

definition link_rest :: "nat csr_graph \<Rightarrow> nat \<Rightarrow> nat \<Rightarrow> nat \<Rightarrow> nat list \<Rightarrow> nat list option" where
  \<comment> \<open>one vertex of the final phase\<close>
  "link_rest g neighbor_rounds c u cmp = do {
     l \<leftarrow> rd cmp u;
     if l = c then Some cmp
     else do {
       vs \<leftarrow> out_neigh g u neighbor_rounds;
       cmp \<leftarrow> foldM (\<lambda>v. Link u v) vs cmp;
       if csr_directed g then do { ws \<leftarrow> in_neigh g u 0; foldM (\<lambda>v. Link u v) ws cmp }
       else Some cmp } }"

definition Afforest ::
  "(nat \<Rightarrow> nat) \<Rightarrow> ((nat \<rightharpoonup> int) \<Rightarrow> nat list) \<Rightarrow> nat csr_graph \<Rightarrow> nat \<Rightarrow> nat list option" where
  "Afforest draws table_order g neighbor_rounds = do {
     cmp \<leftarrow> foldM (\<lambda>n cmp. wr cmp n n) (vertices g) (uninit (nat (csr_num_nodes g)));
     cmp \<leftarrow> foldM (\<lambda>r cmp. do { cmp \<leftarrow> foldM (link_first g r) (vertices g) cmp; path_compress g cmp })
             [0..<neighbor_rounds] cmp;
     c \<leftarrow> SampleFrequentElement draws table_order 1024 cmp;
     cmp \<leftarrow> foldM (link_rest g neighbor_rounds c) (vertices g) cmp;
     path_compress g cmp }"

section \<open>Link\<close>

text \<open>
  The loop ends because the larger of the two vertices it looks at gets smaller, and it joins
  the trees of its arguments and nothing else.
\<close>

lemma link_loop_returns:
  assumes "forest n cmp" "p1 < n" "p2 < n"
  shows "returns (link_loop p1 p2 cmp) (\<lambda>cmp'. forest n cmp' \<and> joined cmp' = link_closure (joined cmp \<union> {(p1, p2)}))"
  using assms(2,3)
proof (induction "max p1 p2" arbitrary: p1 p2 rule: less_induct)
  case less
  let ?h = "max p1 p2" and ?l = "min p1 p2"
  have f: "forest n cmp" by (rule assms(1))
  have len: "length cmp = n" using f by (simp add: forest_def)
  have h: "?h < n" and l: "?l < n" using less.prems by auto
  have hl: "link_closure (joined cmp \<union> {(?h, ?l)}) = link_closure (joined cmp \<union> {(p1, p2)})"
    using link_closure_swap [of "joined cmp" p2 p1] by (cases "p1 \<le> p2") (simp_all add: max_def min_def)
  have idem: "link_closure (joined cmp) = joined cmp" by (simp add: joined_closure)
  show ?case
  proof (cases "p1 = p2")
    case True
    then have "link_closure (joined cmp \<union> {(p1, p2)}) = joined cmp"
      using link_closure_absorb [of "{(p1, p2)}" "joined cmp"] by (simp add: idem joined_closure)
    then show ?thesis using True f by (simp add: link_loop.simps)
  next
    case False
    then have lt: "?l < ?h" by auto
    have hd: "(if p1 > p2 then p1 else p2) = ?h" "p1 + p2 - ?h = ?l" by auto
    note unfold = link_loop.simps [of p1 p2 cmp, unfolded Let_def hd]
    consider (low) "cmp ! ?h = ?l" | (root) "cmp ! ?h = ?h" | (up) "cmp ! ?h \<noteq> ?l" "cmp ! ?h \<noteq> ?h" by blast
    then show ?thesis
    proof cases
      case low
      then have "(?h, ?l) \<in> joined cmp" using joined_parent [of ?h cmp] h len by simp
      then have "link_closure (joined cmp \<union> {(?h, ?l)}) = joined cmp"
        using link_closure_absorb [of "{(?h, ?l)}" "joined cmp"] by (simp add: idem)
      moreover have "link_loop p1 p2 cmp = Some cmp"
        unfolding unfold using False low h len by simp
      ultimately show ?thesis using f hl by simp
    next
      case root
      then have "link_loop p1 p2 cmp = Some (cmp[?h := ?l])"
        unfolding unfold using False lt h len by (simp add: compare_and_swap_def)
      then show ?thesis using hang_root [OF f h root] lt hl by simp
    next
      case up
      let ?q1 = "cmp ! (cmp ! ?h)" and ?q2 = "cmp ! ?l"
      have q: "cmp ! ?h < ?h" "cmp ! ?h < n" "?q1 \<le> cmp ! ?h" "?q1 < n" "?q2 \<le> ?l" "?q2 < n"
        using forest_range [OF f h] forest_range [OF f l] forest_range [OF f, of "cmp ! ?h"] up(2) by auto
      have run: "link_loop p1 p2 cmp = link_loop ?q1 ?q2 cmp"
        unfolding unfold using False up h l len q(2) by (simp add: compare_and_swap_def)
      have "?q1 < ?h" using q(1,3) by (rule le_less_trans [rotated])
      moreover have "?q2 < ?h" using q(5) lt by (rule le_less_trans)
      ultimately have "max ?q1 ?q2 < ?h" by (simp only: max_less_iff_conj [of ?q1])
      from less.hyps [OF this q(4,6)]
      have "returns (link_loop ?q1 ?q2 cmp)
        (\<lambda>cmp'. forest n cmp' \<and> joined cmp' = link_closure (joined cmp \<union> {(?q1, ?q2)}))" .
      moreover have "link_closure (joined cmp \<union> {(?q1, ?q2)}) = link_closure (joined cmp \<union> {(?h, ?l)})"
        unfolding joined_closure
      proof (rule link_closure_pair)
        show "(?h, ?q1) \<in> link_closure (parents cmp)" "(?l, ?q2) \<in> link_closure (parents cmp)"
          using joined_parent [of ?h cmp] joined_parent [of "cmp ! ?h" cmp] joined_parent [of ?l cmp] h l q len
          unfolding joined_closure by (auto intro: link_closure_trans)
      qed
      ultimately show ?thesis using run hl by simp
    qed
  qed
qed

lemma Link_returns:
  assumes f: "forest n cmp" and u: "u < n" and v: "v < n"
  shows "returns (Link u v cmp) (\<lambda>cmp'. forest n cmp' \<and> joined cmp' = link_closure (joined cmp \<union> {(u, v)}))"
proof -
  have len: "length cmp = n" using f by (simp add: forest_def)
  have p: "cmp ! u < n" "cmp ! v < n" using forest_range [OF f] u v by auto
  have "link_closure (joined cmp \<union> {(cmp ! u, cmp ! v)}) = link_closure (joined cmp \<union> {(u, v)})"
    using joined_parent [of u cmp] joined_parent [of v cmp] len u v
    unfolding joined_closure by (intro link_closure_pair) simp_all
  then show ?thesis
    using link_loop_returns [OF f p] u v len by (simp add: Link_def)
qed

section \<open>Afforest\<close>

definition undirected_edges_ok :: "nat csr_graph \<Rightarrow> bool" where
  \<comment> \<open>each edge is known at both of its ends: in the rows themselves, or in the inverse rows\<close>
  "undirected_edges_ok g \<longleftrightarrow> graph_ok g \<and>
     (if csr_directed g then \<forall>u < nodes g. \<forall>v < nodes g. v \<in> set (adj g u) \<longleftrightarrow> u \<in> set (inv_adj g v)
      else graph_sym g)"

lemma Link_between:
  assumes b: "between n S E cmp" and uv: "u < n" "v < n" "(u, v) \<in> link_closure E"
  shows "returns (Link u v cmp) (between n (insert (u, v) S) E)"
proof (rule returns_mono [OF Link_returns])
  show "forest n cmp" "u < n" "v < n" using b uv by (simp_all add: between_def)
  fix cmp'
  assume l: "forest n cmp' \<and> joined cmp' = link_closure (joined cmp \<union> {(u, v)})"
  have "joined cmp \<union> {(u, v)} \<subseteq> joined cmp'"
    using l link_closure_subset [of "joined cmp \<union> {(u, v)}"] by simp
  moreover have "joined cmp' \<subseteq> link_closure E"
    using l b uv(3) link_closure_least [of "joined cmp \<union> {(u, v)}" E] by (simp add: between_def)
  ultimately show "between n (insert (u, v) S) E cmp'"
    using l b by (auto simp: between_def)
qed

lemma Link_all_between:
  assumes "between n S E cmp" "u < n" "\<And>v. v \<in> set vs \<Longrightarrow> v < n \<and> (u, v) \<in> link_closure E"
  shows "returns (foldM (\<lambda>v. Link u v) vs cmp) (between n (S \<union> {u} \<times> set vs) E)"
proof (rule foldM_set_rule [where I = "\<lambda>D. between n (S \<union> {u} \<times> D) E"])
  fix v D cmp'
  assume "v \<in> set vs" "between n (S \<union> {u} \<times> D) E cmp'"
  moreover have "insert (u, v) (S \<union> {u} \<times> D) = S \<union> {u} \<times> insert v D" by auto
  ultimately show "returns (Link u v cmp') (between n (S \<union> {u} \<times> insert v D) E)"
    using Link_between [of n "S \<union> {u} \<times> D" E cmp' u v] assms(2,3) by simp
qed (use assms in simp_all)

definition sampled :: "nat csr_graph \<Rightarrow> nat \<Rightarrow> (nat \<times> nat) set" where
  "sampled g r = {(u, v). u < nodes g \<and> v \<in> set (take r (adj g u))}"

lemma sampling_round:
  assumes g: "graph_ok g" and b: "between (nodes g) (sampled g r) (arcs (nodes g) (adj g)) cmp"
  shows "returns (do { cmp \<leftarrow> foldM (link_first g r) (vertices g) cmp; path_compress g cmp })
    (between (nodes g) (sampled g (Suc r)) (arcs (nodes g) (adj g)))"
proof (rule returns_bind)
  let ?n = "nodes g" and ?E = "arcs (nodes g) (adj g)"
  let ?S = "\<lambda>k. sampled g r \<union> {(u, v). u < k \<and> u < ?n \<and> v \<in> set (take (Suc r) (adj g u))}"
  have "returns (foldM (link_first g r) [0..<?n] cmp) (between ?n (?S ?n) ?E)"
  proof (rule foldM_upt_rule [where I = "\<lambda>k. between ?n (?S k) ?E"])
    show "between ?n (?S 0) ?E cmp" using b by simp
    fix u c
    assume u: "u < ?n" and c: "between ?n (?S u) ?E c"
    show "returns (link_first g r u c) (between ?n (?S (Suc u)) ?E)"
    proof (cases "drop r (adj g u)")
      case Nil
      then have "set (take (Suc r) (adj g u)) = set (take r (adj g u))" by simp
      then have "?S (Suc u) = ?S u" using u by (auto simp: sampled_def less_Suc_eq)
      then show ?thesis using c Nil graph_ok_neigh(1) [OF g u] by (simp add: link_first_def)
    next
      case (Cons v vs)
      have r: "r < length (adj g u)" using Cons by (metis drop_eq_Nil linorder_not_less list.simps(3))
      then have "adj g u ! r = v" using Cons by (metis Cons_nth_drop_Suc list.inject)
      then have tk: "set (take (Suc r) (adj g u)) = insert v (set (take r (adj g u)))"
        using r by (simp add: take_Suc_conv_app_nth)
      then have "v \<in> set (adj g u)" by (metis in_set_takeD insertI1)
      then have v: "v < ?n" "(u, v) \<in> ?E" using gv.neigh_less [OF g u] u by (auto simp: arcs_def)
      have "insert (u, v) (?S u) = ?S (Suc u)" using tk u by (auto simp: sampled_def less_Suc_eq)
      then show ?thesis
        using Link_between [OF c u v(1)] link_closure_edge [OF v(2)] Cons graph_ok_neigh(1) [OF g u]
        by (simp add: link_first_def)
    qed
  qed simp
  moreover have "?S ?n = sampled g (Suc r)" using set_take_subset_set_take [of r "Suc r"] by (fastforce simp: sampled_def)
  ultimately have "returns (foldM (link_first g r) [0..<?n] cmp) (between ?n (sampled g (Suc r)) ?E)" by simp
  then show "returns (foldM (link_first g r) (vertices g) cmp) (\<lambda>c. returns (path_compress g c) (between ?n (sampled g (Suc r)) ?E))"
    unfolding vertices_nodes
    by (rule returns_mono) (rule returns_mono [OF path_compress_between], auto)
qed

lemma SampleFrequentElement_returns:
  assumes draws: "\<And>i. draws i < length cmp" and order: "\<And>m. finite (dom m) \<Longrightarrow> set (table_order m) = dom m"
    and k: "0 < k"
  shows "\<exists>c. SampleFrequentElement draws table_order k cmp = Some c"
proof -
  have "returns (count_samples draws k cmp) (\<lambda>m. finite (dom m) \<and> dom m \<noteq> {})"
    unfolding count_samples_def
    by (rule foldM_upt_rule [where I = "\<lambda>i m. finite (dom m) \<and> (0 < i \<longrightarrow> dom m \<noteq> {})"]) (use draws k in auto)
  then obtain m where m: "count_samples draws k cmp = Some m" "finite (dom m)" "dom m \<noteq> {}" by (auto simp: returns_iff)
  then have "table_order m \<noteq> []" using order [of m] by (metis list.set(1))
  then show ?thesis using m by (cases "table_order m") (simp_all add: SampleFrequentElement_def)
qed

definition rest_targets :: "nat csr_graph \<Rightarrow> nat \<Rightarrow> nat \<Rightarrow> nat set" where
  \<comment> \<open>what the final phase links a vertex to\<close>
  "rest_targets g r u = set (drop r (adj g u)) \<union> (if csr_directed g then set (inv_adj g u) else {})"

lemma rest_targets_edges:
  assumes g: "undirected_edges_ok g" and u: "u < nodes g" and v: "v \<in> rest_targets g r u"
  shows "v < nodes g \<and> (u, v) \<in> link_closure (arcs (nodes g) (adj g))"
proof (cases "v \<in> set (adj g u)")
  case True
  then show ?thesis
    using g u gv.neigh_less [of g u v] by (auto simp: undirected_edges_ok_def arcs_def intro: link_closure_edge)
next
  case False
  then have d: "csr_directed g" "v \<in> set (inv_adj g u)"
    using v by (auto simp: rest_targets_def dest: in_set_dropD split: if_splits)
  have "v < nodes g" using inv_adj_range [of "\<lambda>v. v" g u v] g u d by (simp add: undirected_edges_ok_def graph_ok_def)
  moreover from this have "u \<in> set (adj g v)" using g u d by (simp add: undirected_edges_ok_def)
  ultimately show ?thesis by (auto simp: arcs_def intro: link_closure_sym link_closure_edge)
qed

lemma link_rest_step:
  assumes g: "undirected_edges_ok g" and u: "u < nodes g" and b: "between (nodes g) S (arcs (nodes g) (adj g)) cmp"
  shows "returns (link_rest g r c u cmp)
    (\<lambda>cmp'. between (nodes g) S (arcs (nodes g) (adj g)) cmp' \<and>
       ((u, c) \<in> joined cmp' \<or> {u} \<times> rest_targets g r u \<subseteq> joined cmp'))"
proof -
  let ?n = "nodes g" and ?E = "arcs (nodes g) (adj g)"
  have ok: "graph_ok g" using g by (simp add: undirected_edges_ok_def)
  have len: "length cmp = ?n" using b by (simp add: between_def forest_def)
  show ?thesis
  proof (cases "cmp ! u = c")
    case True
    then have "(u, c) \<in> joined cmp" using joined_parent [of u cmp] u len by simp
    then show ?thesis using True b u len by (simp add: link_rest_def)
  next
    case False
    have out: "returns (foldM (\<lambda>v. Link u v) (drop r (adj g u)) cmp) (between ?n (S \<union> {u} \<times> set (drop r (adj g u))) ?E)"
      by (rule Link_all_between [OF b u], rule rest_targets_edges [OF g u, of _ r]) (simp add: rest_targets_def)
    have all: "between ?n (S \<union> {u} \<times> rest_targets g r u) ?E c' \<Longrightarrow>
      between ?n S ?E c' \<and> ((u, c) \<in> joined c' \<or> {u} \<times> rest_targets g r u \<subseteq> joined c')" for c'
      by (auto simp: between_def)
    show ?thesis
    proof (cases "csr_directed g")
      case True
      have "returns (foldM (\<lambda>v. Link u v) (drop r (adj g u)) cmp \<bind> foldM (\<lambda>v. Link u v) (inv_adj g u))
        (between ?n (S \<union> {u} \<times> rest_targets g r u) ?E)"
      proof (rule returns_bind, rule returns_mono [OF out])
        fix c'
        assume c': "between ?n (S \<union> {u} \<times> set (drop r (adj g u))) ?E c'"
        have "S \<union> {u} \<times> rest_targets g r u = (S \<union> {u} \<times> set (drop r (adj g u))) \<union> {u} \<times> set (inv_adj g u)"
          using True by (auto simp: rest_targets_def)
        then show "returns (foldM (\<lambda>v. Link u v) (inv_adj g u) c') (between ?n (S \<union> {u} \<times> rest_targets g r u) ?E)"
          by (simp only:) (rule Link_all_between [OF c' u], rule rest_targets_edges [OF g u, of _ r],
            simp add: rest_targets_def True)
      qed
      then show ?thesis
        using True False u len graph_ok_neigh(1,2) [OF ok u]
        by (simp add: link_rest_def) (rule returns_mono, assumption, rule all)
    next
      case undirected: False
      have "returns (foldM (\<lambda>v. Link u v) (drop r (adj g u)) cmp) (between ?n (S \<union> {u} \<times> rest_targets g r u) ?E)"
        using out undirected by (simp add: rest_targets_def)
      then show ?thesis
        using undirected False u len graph_ok_neigh(1) [OF ok u]
        by (simp add: link_rest_def) (rule returns_mono, assumption, rule all)
    qed
  qed
qed

text \<open>Skipping the vertices labelled c loses no edge: both ends of a skipped edge are joined to c.\<close>

lemma rest_covers:
  assumes g: "undirected_edges_ok g" and s: "sampled g r \<subseteq> joined cmp"
    and rest: "\<And>u. u < nodes g \<Longrightarrow> (u, c) \<in> joined cmp \<or> {u} \<times> rest_targets g r u \<subseteq> joined cmp"
  shows "arcs (nodes g) (adj g) \<subseteq> joined cmp"
proof
  fix p
  assume "p \<in> arcs (nodes g) (adj g)"
  then obtain u v where p: "p = (u, v)" "u < nodes g" "v \<in> set (adj g u)" by (auto simp: arcs_def)
  have ok: "graph_ok g" using g by (simp add: undirected_edges_ok_def)
  have v: "v < nodes g" using gv.neigh_less [OF ok p(2,3)] .
  have split: "(x, y) \<in> joined cmp" if "y \<in> set (adj g x)" "x < nodes g" "(x, c) \<notin> joined cmp" for x y
  proof -
    have "y \<in> set (take r (adj g x)) \<or> y \<in> set (drop r (adj g x))"
      using that(1) by (metis Un_iff append_take_drop_id set_append)
    then show ?thesis using s rest [OF that(2)] that by (auto simp: sampled_def rest_targets_def)
  qed
  have sym: "(x, y) \<in> joined cmp \<Longrightarrow> (y, x) \<in> joined cmp" for x y
    unfolding joined_closure by (rule link_closure_sym)
  show "p \<in> joined cmp"
  proof (cases "(u, c) \<in> joined cmp")
    case True
    show ?thesis
    proof (cases "(v, c) \<in> joined cmp")
      case True
      then show ?thesis using p(1) sym [OF True] \<open>(u, c) \<in> joined cmp\<close>
        unfolding joined_closure by (auto intro: link_closure_trans)
    next
      case False
      have "(v, u) \<in> joined cmp"
      proof (cases "csr_directed g")
        case True
        then have "u \<in> rest_targets g r v"
          using g p v by (auto simp: undirected_edges_ok_def rest_targets_def)
        then show ?thesis using rest [OF v] False by auto
      next
        case und: False
        then have "u \<in> set (adj g v)" using g p by (simp add: undirected_edges_ok_def graph_sym_def)
        then show ?thesis using split v False by blast
      qed
      then show ?thesis using p(1) sym by simp
    qed
  next
    case False
    then show ?thesis using split p by simp
  qed
qed

lemma Afforest_returns:
  assumes g: "undirected_edges_ok g" and n: "0 < nodes g"
    and draws: "\<And>i. draws i < nodes g" and order: "\<And>m. finite (dom m) \<Longrightarrow> set (table_order m) = dom m"
  shows "returns (Afforest draws table_order g r) (\<lambda>cmp. min_labels (nodes g) (arcs (nodes g) (adj g)) cmp)"
proof -
  let ?n = "nodes g" and ?E = "arcs (nodes g) (adj g)"
  have ok: "graph_ok g" using g by (simp add: undirected_edges_ok_def)
  have start: "between ?n (sampled g 0) ?E [0..<?n]"
    using identity_forest [of ?n] link_closure_mono [of "{}" ?E] by (auto simp: between_def sampled_def)
  have rounds: "returns (foldM (\<lambda>r cmp. do { cmp \<leftarrow> foldM (link_first g r) (vertices g) cmp; path_compress g cmp }) [0..<r] [0..<?n])
    (between ?n (sampled g r) ?E)"
    by (rule foldM_upt_rule [where I = "\<lambda>k. between ?n (sampled g k) ?E"])
      (use start sampling_round [OF ok] in auto)
  then obtain c1 where c1: "foldM (\<lambda>r cmp. do { cmp \<leftarrow> foldM (link_first g r) (vertices g) cmp; path_compress g cmp }) [0..<r] [0..<?n] = Some c1"
    "between ?n (sampled g r) ?E c1" by (auto simp: returns_iff)
  have "length c1 = ?n" using c1(2) by (simp add: between_def forest_def)
  then obtain c where c: "SampleFrequentElement draws table_order 1024 c1 = Some c"
    using SampleFrequentElement_returns [of draws c1 table_order 1024] draws order by auto
  have "returns (foldM (link_rest g r c) [0..<?n] c1) (\<lambda>c2. between ?n (sampled g r) ?E c2 \<and> ?E \<subseteq> joined c2)"
  proof (rule foldM_upt_rule [where I = "\<lambda>k c2. between ?n (sampled g r \<union>
        {(u, v). u < k \<and> (u, v) \<in> joined c2 \<and> (v = c \<or> v \<in> rest_targets g r u)}) ?E c2 \<and>
        (\<forall>u < k. (u, c) \<in> joined c2 \<or> {u} \<times> rest_targets g r u \<subseteq> joined c2)"])
    fix u c2
    let ?S = "sampled g r \<union> {(x, v). x < u \<and> (x, v) \<in> joined c2 \<and> (v = c \<or> v \<in> rest_targets g r x)}"
    assume u: "u < ?n" and I: "between ?n ?S ?E c2 \<and>
      (\<forall>x < u. (x, c) \<in> joined c2 \<or> {x} \<times> rest_targets g r x \<subseteq> joined c2)"
    show "returns (link_rest g r c u c2) (\<lambda>c2. between ?n (sampled g r \<union>
        {(x, v). x < Suc u \<and> (x, v) \<in> joined c2 \<and> (v = c \<or> v \<in> rest_targets g r x)}) ?E c2 \<and>
        (\<forall>x < Suc u. (x, c) \<in> joined c2 \<or> {x} \<times> rest_targets g r x \<subseteq> joined c2))"
    proof (rule returns_mono [OF link_rest_step [OF g u conjunct1 [OF I]]])
      fix c3
      assume s: "between ?n ?S ?E c3 \<and> ((u, c) \<in> joined c3 \<or> {u} \<times> rest_targets g r u \<subseteq> joined c3)"
      have sub: "?S \<subseteq> joined c3" using s by (simp add: between_def)
      have old: "(x, c) \<in> joined c3 \<or> {x} \<times> rest_targets g r x \<subseteq> joined c3" if "x < u" for x
      proof (cases "(x, c) \<in> joined c2")
        case True
        then have "(x, c) \<in> ?S" using that by simp
        then show ?thesis using sub by blast
      next
        case False
        then have "{x} \<times> rest_targets g r x \<subseteq> ?S" using I that by blast
        then show ?thesis using sub by blast
      qed
      show "between ?n (sampled g r \<union>
        {(x, v). x < Suc u \<and> (x, v) \<in> joined c3 \<and> (v = c \<or> v \<in> rest_targets g r x)}) ?E c3 \<and>
        (\<forall>x < Suc u. (x, c) \<in> joined c3 \<or> {x} \<times> rest_targets g r x \<subseteq> joined c3)"
        using s old by (auto simp: between_def less_Suc_eq)
    qed
  next
    fix c2
    assume I: "between ?n (sampled g r \<union> {(u, v). u < ?n \<and> (u, v) \<in> joined c2 \<and> (v = c \<or> v \<in> rest_targets g r u)}) ?E c2 \<and>
      (\<forall>u < ?n. (u, c) \<in> joined c2 \<or> {u} \<times> rest_targets g r u \<subseteq> joined c2)"
    then have "sampled g r \<subseteq> joined c2" by (auto simp: between_def)
    then have "?E \<subseteq> joined c2" using I by (intro rest_covers [OF g]) auto
    then show "between ?n (sampled g r) ?E c2 \<and> ?E \<subseteq> joined c2" using I by (auto simp: between_def)
  qed (use c1(2) in simp)
  then obtain c2 where c2: "foldM (link_rest g r c) [0..<?n] c1 = Some c2"
    "between ?n (sampled g r) ?E c2" "?E \<subseteq> joined c2" by (auto simp: returns_iff)
  have "joined c2 = link_closure ?E"
    using c2(2,3) link_closure_mono [OF c2(3)] by (auto simp: between_def joined_idem)
  then have "returns (path_compress g c2) (min_labels ?n ?E)"
    using path_compress_returns [of g c2] c2(2)
    by (auto simp: between_def elim!: returns_mono intro!: star_min_labels)
  then show ?thesis
    using c1(1) c c2(1) by (simp add: Afforest_def vertices_nodes nodes_def [symmetric] identity_loop)
qed

text \<open>C20: Afforest is correct.  For every number of sampling rounds, whatever vertices the sampling draws
  and in whatever order the table of samples is walked, the kernel returns, and it labels every
  vertex with the smallest vertex it is connected to, directions ignored.  The component it skips
  in its last phase loses no edge, because the other end of the edge links it.\<close>

lemma Afforest_components:
  assumes "undirected_edges_ok g" "0 < nodes g"
    and "\<And>i. draws i < nodes g" "\<And>m. finite (dom m) \<Longrightarrow> set (table_order m) = dom m"
  shows "\<exists>cmp. Afforest draws table_order g neighbor_rounds = Some cmp \<and>
    min_labels (nodes g) (arcs (nodes g) (adj g)) cmp"
  using Afforest_returns [OF assms(1,2), of draws table_order] assms(3,4) by (simp add: returns_iff)

definition two_edges :: "nat csr_graph" where
  \<comment> \<open>an example: two edges that share no vertex\<close>
  "two_edges = csr_of_rows [[2], [3], [0], [1]]"

lemma two_edges_ok: "undirected_edges_ok two_edges" "nodes two_edges = 4"
proof -
  have "graph_ok two_edges" unfolding two_edges_def graph_ok_def by (rule csr_of_rows_wf) auto
  then show "undirected_edges_ok two_edges"
    by (simp add: undirected_edges_ok_def graph_sym_def two_edges_def All_less_Suc numeral_eq_Suc)
  show "nodes two_edges = 4" by (simp add: two_edges_def)
qed

lemma Afforest_components_witness:
  "\<exists>cmp. Afforest (\<lambda>i. i mod 4) (\<lambda>m. sorted_list_of_set (dom m)) two_edges 2 = Some cmp \<and>
    min_labels 4 (arcs 4 (adj two_edges)) cmp"
  using Afforest_components [OF two_edges_ok(1), of "\<lambda>i. i mod 4" "\<lambda>m. sorted_list_of_set (dom m)" 2]
  by (simp add: two_edges_ok(2))

text \<open>C29: The loop of Link ends on every forest of parents that point downwards, and joins the trees of
  its two vertices and no others.\<close>

lemma Link_joins:
  assumes "forest n cmp" "u < n" "v < n"
  shows "\<exists>cmp'. Link u v cmp = Some cmp' \<and> forest n cmp' \<and> joined cmp' = link_closure (joined cmp \<union> {(u, v)})"
  using Link_returns [OF assms] by (simp add: returns_iff)

lemma Link_joins_witness:
  "\<exists>cmp'. Link 2 3 [0, 0, 1, 3] = Some cmp' \<and> (2, 3) \<in> joined cmp'"
proof -
  have "forest 4 [0, 0, 1, 3]"
    by (simp add: forest_def less_Suc_eq numeral_eq_Suc)
  then obtain cmp' where "Link 2 3 [0, 0, 1, 3] = Some cmp'"
    "joined cmp' = link_closure (joined [0, 0, 1, 3] \<union> {(2, 3)})"
    using Link_joins [of 4 "[0, 0, 1, 3]" 2 3] by auto
  then show ?thesis using link_closure_edge by blast
qed

end
