(* ===== verification/Worklist.thy ===== *)
theory Worklist
  imports Prelude
begin

text \<open>
  The loop \<^verbatim>\<open>for (auto it = xs.begin(); it != xs.end(); it++)\<close> whose body appends to the vector
  it walks over.  It is how the verifiers of the kernels search a graph.  The vector has
  reserved room; an append past it would move the vector under its iterator, so it has no
  defined result.
\<close>

definition vec_push :: "nat \<Rightarrow> 'a list \<Rightarrow> 'a \<Rightarrow> 'a list option" where
  "vec_push reserved xs x = (if length xs < reserved then Some (xs @ [x]) else None)"

partial_function (option) worklist ::
  "('s \<Rightarrow> bool) \<Rightarrow> ('s \<Rightarrow> 'a list) \<Rightarrow> ('a \<Rightarrow> 's \<Rightarrow> 's option) \<Rightarrow> nat \<Rightarrow> 's \<Rightarrow> 's option" where
  \<comment> \<open>\<open>stop\<close> holds when the body has left the loop\<close>
  "worklist stop items body it s =
     (if stop s then Some s
      else if it < length (items s) then do { s \<leftarrow> body (items s ! it) s; worklist stop items body (it + 1) s }
      else Some s)"

lemma vec_push_room [simp]: "length xs < k \<Longrightarrow> vec_push k xs x = Some (xs @ [x])"
  by (simp add: vec_push_def)

text \<open>
  The loop ends when the vector cannot grow past some bound.  The invariant counts the elements
  already handled.
\<close>

lemma worklist_rule:
  assumes "I it s"
    and step: "\<And>it s. I it s \<Longrightarrow> \<not> stop s \<Longrightarrow> it < length (items s) \<Longrightarrow> returns (body (items s ! it) s) (I (Suc it))"
    and bound: "\<And>it s. I it s \<Longrightarrow> length (items s) \<le> b"
    and post: "\<And>it s. I it s \<Longrightarrow> stop s \<or> length (items s) \<le> it \<Longrightarrow> P s"
  shows "returns (worklist stop items body it s) P"
  using assms(1)
proof (induction "b - it" arbitrary: it s rule: less_induct)
  case less
  show ?case
  proof (cases "stop s \<or> length (items s) \<le> it")
    case True
    then show ?thesis using post [OF less.prems True] by (subst worklist.simps) auto
  next
    case False
    then have it: "it < length (items s)" and go: "\<not> stop s" by auto
    obtain t where t: "body (items s ! it) s = Some t" "I (Suc it) t"
      using step [OF less.prems go it] by (auto simp: returns_iff)
    have "b - Suc it < b - it" using it bound [OF less.prems] by linarith
    then have "returns (worklist stop items body (Suc it) t) P" using less.hyps t(2) by simp
    then show ?thesis using t(1) it go by (subst worklist.simps) simp
  qed
qed

end
