(* ===== verification/Bitmap.thy ===== *)
theory Bitmap
  imports Atomics
begin

text \<open>
  The class \<^verbatim>\<open>Bitmap\<close> of src/bitmap.h: an array of 64-bit words, with the positions as
  64-bit words (\<^verbatim>\<open>size_t\<close>).  The second half models \<open>set_bit_atomic\<close> run by several
  threads at once, as a step relation over the words and each thread's program counter.
  The locale \<open>bit_set\<close> is what the graph kernels use of a bitmap.
\<close>

unbundle bit_operations_syntax

section \<open>The class\<close>

record bitmap =
  bm_start :: "64 word list"

definition kBitsPerWord :: "64 word" where
  "kBitsPerWord = 64"

definition word_offset :: "64 word \<Rightarrow> nat" where
  "word_offset n = unat (n div kBitsPerWord)"

definition bit_offset :: "64 word \<Rightarrow> nat" where
  "bit_offset n = unat (n AND (kBitsPerWord - 1))"

definition bm_num_words :: "64 word \<Rightarrow> 64 word" where
  "bm_num_words n = (n + kBitsPerWord - 1) div kBitsPerWord"

definition bm_new :: "64 word \<Rightarrow> bitmap" where
  "bm_new n = \<lparr>bm_start = uninit (unat (bm_num_words n))\<rparr>"

definition bm_reset :: "bitmap \<Rightarrow> bitmap" where
  "bm_reset bm = bm\<lparr>bm_start := map (\<lambda>_. 0) (bm_start bm)\<rparr>"

definition bm_set_bit :: "bitmap \<Rightarrow> 64 word \<Rightarrow> bitmap option" where
  "bm_set_bit bm pos = do {
     w \<leftarrow> rd (bm_start bm) (word_offset pos);
     ws \<leftarrow> wr (bm_start bm) (word_offset pos) (w OR push_bit (bit_offset pos) 1);
     Some (bm\<lparr>bm_start := ws\<rparr>) }"

partial_function (option) bm_set_bit_atomic :: "bitmap \<Rightarrow> 64 word \<Rightarrow> bitmap option" where
  \<comment> \<open>\<^verbatim>\<open>set_bit_atomic\<close> of a thread that is alone; the runs of several threads follow below\<close>
  "bm_set_bit_atomic bm pos = do {
     old_val \<leftarrow> rd (bm_start bm) (word_offset pos);
     let new_val = old_val OR push_bit (bit_offset pos) 1;
     cell \<leftarrow> rd (bm_start bm) (word_offset pos);
     let (new, swapped) = compare_and_swap cell old_val new_val;
     ws \<leftarrow> wr (bm_start bm) (word_offset pos) new;
     if swapped then Some (bm\<lparr>bm_start := ws\<rparr>) else bm_set_bit_atomic (bm\<lparr>bm_start := ws\<rparr>) pos }"

definition bm_get_bit :: "bitmap \<Rightarrow> 64 word \<Rightarrow> bool option" where
  "bm_get_bit bm pos = do {
     w \<leftarrow> rd (bm_start bm) (word_offset pos);
     Some (drop_bit (bit_offset pos) w AND 1 \<noteq> 0) }"

definition bm_swap :: "bitmap \<Rightarrow> bitmap \<Rightarrow> bitmap \<times> bitmap" where
  "bm_swap bm other = (bm\<lparr>bm_start := bm_start other\<rparr>, other\<lparr>bm_start := bm_start bm\<rparr>)"

section \<open>The set a bitmap stands for\<close>

text \<open>
  The positions a bitmap holds, and the number of positions that can be addressed: 64 for each
  word, as long as the position is a 64-bit value.
\<close>

definition words_bits :: "64 word list \<Rightarrow> nat set" where
  "words_bits ws = {i. i < 64 * length ws \<and> bit (ws ! (i div 64)) (i mod 64)}"

definition bm_bits :: "bitmap \<Rightarrow> nat set" where
  "bm_bits bm = words_bits (bm_start bm)"

definition bm_cap :: "bitmap \<Rightarrow> nat" where
  "bm_cap bm = min (64 * length (bm_start bm)) (2 ^ 64)"

lemma word_offset_unat: "word_offset n = unat n div 64"
  by (simp add: word_offset_def kBitsPerWord_def unat_div)

lemma bit_offset_unat: "bit_offset n = unat n mod 64"
proof -
  have "n AND 63 = take_bit 6 n"
    by (simp add: take_bit_eq_mask mask_numeral flip: mask_eq_exp_minus_1)
  then show ?thesis
    by (simp add: bit_offset_def kBitsPerWord_def take_bit_eq_mod unat_mod)
qed

lemma bit_offset_less [simp]: "bit_offset n < 64"
  by (simp add: bit_offset_unat)

lemma bit_set_word:
  "n < 64 \<Longrightarrow> k < 64 \<Longrightarrow> bit (w OR 2 ^ k :: 64 word) n \<longleftrightarrow> bit w n \<or> n = k"
  by (auto simp: bit_or_iff bit_exp_iff)

lemma get_word_bit: "drop_bit k w AND 1 \<noteq> 0 \<longleftrightarrow> bit w k" for w :: "64 word"
  by (simp add: and_one_eq bit_iff_odd_drop_bit odd_iff_mod_2_eq_one)

lemma words_bits_update:
  assumes "p < 64 * length ws"
  shows "words_bits (ws[p div 64 := ws ! (p div 64) OR 2 ^ (p mod 64)]) = insert p (words_bits ws)"
proof (rule set_eqI)
  fix i
  have eq: "i div 64 = p div 64 \<and> i mod 64 = p mod 64 \<longleftrightarrow> i = p"
    by (metis div_mult_mod_eq)
  show "i \<in> words_bits (ws[p div 64 := ws ! (p div 64) OR 2 ^ (p mod 64)])
      \<longleftrightarrow> i \<in> insert p (words_bits ws)"
  proof (cases "i div 64 = p div 64")
    case True
    then show ?thesis using assms eq
      by (auto simp: words_bits_def bit_set_word)
  next
    case False
    then show ?thesis using assms by (auto simp: words_bits_def)
  qed
qed

lemma bm_set_bit_returns:
  assumes "unat pos < bm_cap bm"
  shows "\<exists>bm'. bm_set_bit bm pos = Some bm' \<and> bm_bits bm' = insert (unat pos) (bm_bits bm)
           \<and> bm_cap bm' = bm_cap bm"
proof -
  have "unat pos < 64 * length (bm_start bm)" using assms by (simp add: bm_cap_def)
  then show ?thesis
    by (simp add: bm_set_bit_def word_offset_unat bit_offset_unat bm_bits_def bm_cap_def
      words_bits_update)
qed

lemma bm_set_bit_atomic_eq [simp]: "bm_set_bit_atomic bm pos = bm_set_bit bm pos"
  by (cases "rd (bm_start bm) (word_offset pos)") (simp_all add: bm_set_bit_atomic.simps bm_set_bit_def Let_def)

lemma bm_get_bit_returns:
  assumes "unat pos < bm_cap bm"
  shows "bm_get_bit bm pos = Some (unat pos \<in> bm_bits bm)"
proof -
  have "unat pos < 64 * length (bm_start bm)" using assms by (simp add: bm_cap_def)
  then show ?thesis
    by (simp add: bm_get_bit_def word_offset_unat bit_offset_unat bm_bits_def words_bits_def
      get_word_bit)
qed

lemma bm_bits_reset: "bm_bits (bm_reset bm) = {}"
  by (auto simp: bm_bits_def words_bits_def bm_reset_def)

lemma bm_cap_reset: "bm_cap (bm_reset bm) = bm_cap bm"
  by (simp add: bm_cap_def bm_reset_def)

text \<open>A new bitmap has room for every position below its size.\<close>

lemma bm_cap_new:
  assumes "n + 63 < 2 ^ 64"
  shows "n \<le> bm_cap (bm_new (of_nat n))"
proof -
  have sz: "unat (of_nat n + 63 :: 64 word) = n + 63"
    using assms by (simp add: unat_of_nat unat_word_ariths)
  have "bm_num_words (of_nat n) = (of_nat n + 63) div 64"
    by (simp add: bm_num_words_def kBitsPerWord_def algebra_simps)
  then have "unat (bm_num_words (of_nat n)) = (n + 63) div 64"
    using sz by (simp add: unat_div)
  then show ?thesis using assms by (simp add: bm_cap_def bm_new_def)
qed

section \<open>The interface the kernels use\<close>

locale bit_set =
  fixes get :: "'b \<Rightarrow> nat \<Rightarrow> bool option"
    and put :: "'b \<Rightarrow> nat \<Rightarrow> 'b option"
    and clear :: "'b \<Rightarrow> 'b"
    and elems :: "'b \<Rightarrow> nat set"
    and cap :: "'b \<Rightarrow> nat"
  assumes get_elems: "i < cap b \<Longrightarrow> get b i = Some (i \<in> elems b)"
    and put_elems: "i < cap b \<Longrightarrow> \<exists>b'. put b i = Some b' \<and> elems b' = insert i (elems b) \<and> cap b' = cap b"
    and clear_elems: "elems (clear b) = {}"
    and clear_cap: "cap (clear b) = cap b"
begin

lemma returns_get: "i < cap b \<Longrightarrow> P (i \<in> elems b) \<Longrightarrow> returns (get b i) P"
  by (simp add: get_elems)

lemma returns_put:
  "i < cap b \<Longrightarrow> (\<And>b'. elems b' = insert i (elems b) \<Longrightarrow> cap b' = cap b \<Longrightarrow> P b')
     \<Longrightarrow> returns (put b i) P"
  using put_elems [of i b] by (auto simp: returns_iff)

text \<open>Setting the bits of a list of positions, in any order, adds exactly these positions.\<close>

lemma put_all:
  assumes "\<And>i. i \<in> set xs \<Longrightarrow> i < cap b"
  shows "returns (foldM (\<lambda>i b. put b i) xs b) (\<lambda>b'. elems b' = set xs \<union> elems b \<and> cap b' = cap b)"
proof (rule foldM_set_rule [where I = "\<lambda>D b'. elems b' = D \<union> elems b \<and> cap b' = cap b"])
  fix x D b'
  assume "x \<in> set xs" "elems b' = D \<union> elems b \<and> cap b' = cap b"
  then show "returns (put b' x) (\<lambda>b''. elems b'' = insert x D \<union> elems b \<and> cap b'' = cap b)"
    by (intro returns_put) (use assms in auto)
qed auto

end

definition get_vertex_bit :: "bitmap \<Rightarrow> nat \<Rightarrow> bool option" where
  \<comment> \<open>a call with a vertex id, converted to \<^verbatim>\<open>size_t\<close>\<close>
  "get_vertex_bit bm n = bm_get_bit bm (of_nat n)"

definition set_vertex_bit :: "bitmap \<Rightarrow> nat \<Rightarrow> bitmap option" where
  "set_vertex_bit bm n = bm_set_bit bm (of_nat n)"

definition set_vertex_bit_atomic :: "bitmap \<Rightarrow> nat \<Rightarrow> bitmap option" where
  "set_vertex_bit_atomic bm n = bm_set_bit_atomic bm (of_nat n)"

lemma set_vertex_bit_atomic_eq [simp]: "set_vertex_bit_atomic bm n = set_vertex_bit bm n"
  by (simp add: set_vertex_bit_atomic_def set_vertex_bit_def)

lemma unat_pos: "i < bm_cap b \<Longrightarrow> unat (of_nat i :: 64 word) = i"
  by (simp add: bm_cap_def unat_of_nat)

interpretation bm: bit_set get_vertex_bit set_vertex_bit bm_reset bm_bits bm_cap
proof unfold_locales
  fix i b
  assume i: "i < bm_cap b"
  show "get_vertex_bit b i = Some (i \<in> bm_bits b)"
    using bm_get_bit_returns [of "of_nat i" b] i by (simp add: get_vertex_bit_def unat_pos [OF i])
  show "\<exists>b'. set_vertex_bit b i = Some b' \<and> bm_bits b' = insert i (bm_bits b) \<and> bm_cap b' = bm_cap b"
    using bm_set_bit_returns [of "of_nat i" b] i by (simp add: set_vertex_bit_def unat_pos [OF i])
qed (simp_all add: bm_bits_reset bm_cap_reset)

section \<open>Setting bits from several threads\<close>

text \<open>
  \<open>set_bit_atomic\<close> as each thread runs it: load the word, then try to swap in the word
  with the bit added; a failed swap goes back to the load.  A state is the words and, for
  each thread, the position it sets with its program counter; a step is one thread's next
  access to the shared word.  Any thread may move, so every interleaving is a run.
\<close>

datatype sba_pc = SbaLoad | SbaSwap "64 word" | SbaDone

type_synonym sba_state = "64 word list \<times> (nat \<times> sba_pc) list"

inductive sba_step :: "sba_state \<Rightarrow> sba_state \<Rightarrow> bool" where
  sba_load: "i < length ts \<Longrightarrow> ts ! i = (p, SbaLoad) \<Longrightarrow> rd ws (p div 64) = Some old \<Longrightarrow>
     sba_step (ws, ts) (ws, ts[i := (p, SbaSwap old)])"
| sba_swap: "i < length ts \<Longrightarrow> ts ! i = (p, SbaSwap old) \<Longrightarrow> rd ws (p div 64) = Some cur \<Longrightarrow>
     compare_and_swap cur old (old OR 2 ^ (p mod 64)) = (new, True) \<Longrightarrow>
     sba_step (ws, ts) (ws[p div 64 := new], ts[i := (p, SbaDone)])"
| sba_retry: "i < length ts \<Longrightarrow> ts ! i = (p, SbaSwap old) \<Longrightarrow> rd ws (p div 64) = Some cur \<Longrightarrow>
     compare_and_swap cur old (old OR 2 ^ (p mod 64)) = (new, False) \<Longrightarrow>
     sba_step (ws, ts) (ws[p div 64 := new], ts[i := (p, SbaLoad)])"

inductive_cases sba_stepE: "sba_step s t"

definition sba_init :: "64 word list \<Rightarrow> nat list \<Rightarrow> sba_state" where
  "sba_init ws ps = (ws, map (\<lambda>p. (p, SbaLoad)) ps)"

definition sba_done :: "(nat \<times> sba_pc) list \<Rightarrow> nat set" where
  "sba_done ts = {p. (p, SbaDone) \<in> set ts}"

text \<open>
  The invariant: the bits are those at the start and those of the threads that are done.
  It is what no interleaving can break, because a swap only succeeds on the word it loaded.
\<close>

definition sba_inv :: "nat set \<Rightarrow> nat list \<Rightarrow> sba_state \<Rightarrow> bool" where
  "sba_inv B ps s = (case s of (ws, ts) \<Rightarrow>
     words_bits ws = B \<union> sba_done ts \<and> map fst ts = ps \<and> (\<forall>p \<in> set ps. p < 64 * length ws))"

lemma words_bits_update_word:
  assumes "p < 64 * length ws" "ws ! (p div 64) = w"
  shows "words_bits (ws[p div 64 := w OR 2 ^ (p mod 64)]) = insert p (words_bits ws)"
  using words_bits_update [OF assms(1)] assms(2) by simp

lemma map_fst_update: "i < length ts \<Longrightarrow> ts ! i = (p, a) \<Longrightarrow> map fst (ts[i := (p, b)]) = map fst ts"
  by (simp add: map_update list_update_same_conv)

lemma sba_done_update:
  assumes "i < length ts" "ts ! i = (p, a)" "a \<noteq> SbaDone"
  shows "sba_done (ts[i := (p, b)]) = (if b = SbaDone then insert p (sba_done ts) else sba_done ts)"
proof -
  have "(q, SbaDone) \<in> set (ts[i := (p, b)]) \<longleftrightarrow> (q, SbaDone) \<in> set ts \<or> (q = p \<and> b = SbaDone)" for q
    unfolding in_set_update_iff [OF assms(1)] using assms
    by (auto simp: in_set_conv_nth)
  then show ?thesis by (auto simp: sba_done_def)
qed

lemma sba_step_inv: "sba_step s t \<Longrightarrow> sba_inv B ps s \<Longrightarrow> sba_inv B ps t"
proof (induction rule: sba_step.induct)
  case (sba_load i ts p ws old)
  then show ?case by (simp add: sba_inv_def map_fst_update sba_done_update)
next
  case (sba_swap i ts p old ws cur new)
  then have w: "ws ! (p div 64) = old" "new = old OR 2 ^ (p mod 64)"
    by (auto simp: rd_eq_Some compare_and_swap_def split: if_splits)
  from sba_swap have "p \<in> set ps" by (force simp: sba_inv_def in_set_conv_nth)
  with sba_swap w show ?case
    by (simp add: sba_inv_def map_fst_update sba_done_update words_bits_update_word)
next
  case (sba_retry i ts p old ws cur new)
  then have "new = ws ! (p div 64)"
    by (auto simp: rd_eq_Some compare_and_swap_def split: if_splits)
  with sba_retry show ?case by (simp add: sba_inv_def map_fst_update sba_done_update)
qed

lemma sba_run_inv: "sba_step\<^sup>*\<^sup>* s t \<Longrightarrow> sba_inv B ps s \<Longrightarrow> sba_inv B ps t"
  by (induction rule: rtranclp_induct) (auto intro: sba_step_inv)

lemma sba_init_inv:
  "\<forall>p \<in> set ps. p < 64 * length ws \<Longrightarrow> sba_inv (words_bits ws) ps (sba_init ws ps)"
  by (auto simp: sba_inv_def sba_init_def sba_done_def comp_def)

text \<open>Every run ends: a retry needs a swap of another thread that succeeded, and those are finitely many.\<close>

definition sba_work :: "64 word list \<Rightarrow> nat \<times> sba_pc \<Rightarrow> nat" where
  "sba_work ws t = (case t of (p, SbaDone) \<Rightarrow> 0 | (p, SbaLoad) \<Rightarrow> 2
     | (p, SbaSwap old) \<Rightarrow> if ws ! (p div 64) = old then 1 else 3)"

definition sba_pending :: "(nat \<times> sba_pc) list \<Rightarrow> nat" where
  "sba_pending ts = sum_list (map (\<lambda>t. if snd t = SbaDone then 0 else 1) ts)"

definition sba_measure :: "(sba_state \<times> sba_state) set" where
  "sba_measure = measures [\<lambda>(ws, ts). sba_pending ts, \<lambda>(ws, ts). sum_list (map (sba_work ws) ts)]"

lemma sba_step_decreases: "sba_step s t \<Longrightarrow> (t, s) \<in> sba_measure"
proof (induction rule: sba_step.induct)
  case (sba_load i ts p ws old)
  then have "sba_pending (ts[i := (p, SbaSwap old)]) = sba_pending ts"
    using sum_list_map_update [of i ts "\<lambda>t. if snd t = SbaDone then 0 else 1 :: nat" "(p, SbaSwap old)"]
    by (simp add: sba_pending_def)
  moreover have "sum_list (map (sba_work ws) (ts[i := (p, SbaSwap old)])) < sum_list (map (sba_work ws) ts)"
    using sba_load sum_list_map_update [of i ts "sba_work ws" "(p, SbaSwap old)"]
    by (simp add: sba_work_def rd_eq_Some)
  ultimately show ?case by (simp add: sba_measure_def)
next
  case (sba_swap i ts p old ws cur new)
  then show ?case
    using sum_list_map_update [of i ts "\<lambda>t. if snd t = SbaDone then 0 else 1 :: nat" "(p, SbaDone)"]
    by (simp add: sba_measure_def sba_pending_def)
next
  case (sba_retry i ts p old ws cur new)
  then have w: "ws ! (p div 64) \<noteq> old" and new: "ws[p div 64 := new] = ws"
    by (auto simp: rd_eq_Some compare_and_swap_def split: if_splits)
  have "sba_pending (ts[i := (p, SbaLoad)]) = sba_pending ts"
    using sba_retry sum_list_map_update [of i ts "\<lambda>t. if snd t = SbaDone then 0 else 1 :: nat" "(p, SbaLoad)"]
    by (simp add: sba_pending_def)
  moreover have "sum_list (map (sba_work ws) (ts[i := (p, SbaLoad)])) < sum_list (map (sba_work ws) ts)"
    using sba_retry w sum_list_map_update [of i ts "sba_work ws" "(p, SbaLoad)"]
    by (simp add: sba_work_def)
  ultimately show ?case by (simp add: sba_measure_def new)
qed

lemma sba_wf: "wfp sba_step\<inverse>\<inverse>"
proof -
  have "wf sba_measure" by (simp add: sba_measure_def)
  then have "wf {(t, s). sba_step s t}"
    by (rule wf_subset) (auto intro: sba_step_decreases)
  then show ?thesis by (simp add: wfp_def conversep_iff)
qed

text \<open>A thread that is not done can always move.\<close>

lemma sba_progress:
  assumes "sba_inv B ps (ws, ts)" "i < length ts" "snd (ts ! i) \<noteq> SbaDone"
  shows "\<exists>t. sba_step (ws, ts) t"
proof -
  obtain p pc where t: "ts ! i = (p, pc)" by fastforce
  then have "p \<in> set ps" using assms by (force simp: sba_inv_def in_set_conv_nth)
  then have p: "p div 64 < length ws" using assms by (auto simp: sba_inv_def)
  show ?thesis
  proof (cases pc)
    case SbaLoad
    then show ?thesis using sba_step.sba_load [of i ts p ws "ws ! (p div 64)"] assms t p by auto
  next
    case (SbaSwap old)
    then show ?thesis
      using sba_step.sba_swap [of i ts p old ws "ws ! (p div 64)"]
        sba_step.sba_retry [of i ts p old ws "ws ! (p div 64)"] assms t p
      by (cases "ws ! (p div 64) = old") (auto simp: compare_and_swap_def)
  next
    case SbaDone
    then show ?thesis using assms t by simp
  qed
qed

section \<open>Properties\<close>

text \<open>C33: Setting bits from several threads loses none.  In every state that any interleaving of the threads'
  loads and swaps reaches, the bits are those at the start and those of the threads that are done, so
  a swap never overwrites a bit another thread has set in the same word in between.\<close>

lemma set_bit_atomic_safe:
  assumes "\<forall>p \<in> set ps. p < 64 * length ws" "sba_step\<^sup>*\<^sup>* (sba_init ws ps) (ws', ts)"
  shows "words_bits ws' = words_bits ws \<union> sba_done ts \<and> length ws' = length ws"
proof -
  have "sba_inv (words_bits ws) ps (ws', ts)" by (rule sba_run_inv [OF assms(2) sba_init_inv [OF assms(1)]])
  moreover have "length (fst s) = length (fst t)" if "sba_step\<^sup>*\<^sup>* s t" for s t
    using that by (induction rule: rtranclp_induct) (auto elim!: sba_stepE)
  ultimately show ?thesis using assms(2) by (fastforce simp: sba_inv_def sba_init_def)
qed

text \<open>C34: The retry loop of \<open>set_bit_atomic\<close> ends under every schedule: there is no infinite run, a thread that is
  not done can always move, and when none can move all the bits asked for are set.\<close>

lemma set_bit_atomic_ends:
  assumes ps: "\<forall>p \<in> set ps. p < 64 * length ws"
  shows "\<not> (\<exists>run. run 0 = sba_init ws ps \<and> (\<forall>i. sba_step (run i) (run (Suc i)))) \<and>
    (\<forall>ws' ts. sba_step\<^sup>*\<^sup>* (sba_init ws ps) (ws', ts) \<and> (\<nexists>t. sba_step (ws', ts) t) \<longrightarrow>
       words_bits ws' = words_bits ws \<union> set ps)"
proof (intro conjI allI impI)
  have "wf {(t, s). sba_step s t}" using sba_wf by (simp add: wfp_def conversep_iff)
  then show "\<not> (\<exists>run. run 0 = sba_init ws ps \<and> (\<forall>i. sba_step (run i) (run (Suc i))))"
    by (auto simp: wf_iff_no_infinite_down_chain)
next
  fix ws' ts
  assume run: "sba_step\<^sup>*\<^sup>* (sba_init ws ps) (ws', ts) \<and> (\<nexists>t. sba_step (ws', ts) t)"
  then have I: "sba_inv (words_bits ws) ps (ws', ts)" using sba_run_inv sba_init_inv [OF ps] by blast
  have "snd (ts ! i) = SbaDone" if "i < length ts" for i
    using sba_progress [OF I that] run by blast
  then have "(p, SbaDone) \<in> set ts \<longleftrightarrow> p \<in> fst ` set ts" for p
    by (force simp: in_set_conv_nth)
  then have done_all: "sba_done ts = set (map fst ts)" by (auto simp: sba_done_def)
  have "words_bits ws' = words_bits ws \<union> sba_done ts" "map fst ts = ps" using I by (simp_all add: sba_inv_def)
  with done_all show "words_bits ws' = words_bits ws \<union> set ps" by (simp only:)
qed

lemma set_bit_atomic_safe_witness:
  "words_bits [8] = words_bits [0] \<union> sba_done [(3, SbaDone), (5, SbaSwap 0)]"
proof -
  have "sba_step (sba_init [0] [3, 5]) ([0], [(3, SbaLoad), (5, SbaSwap 0)])"
    using sba_step.sba_load [of 1 "[(3, SbaLoad), (5, SbaLoad)]" 5 "[0]" 0] by (simp add: sba_init_def)
  moreover have "sba_step ([0], [(3, SbaLoad), (5, SbaSwap 0)]) ([0], [(3, SbaSwap 0), (5, SbaSwap 0)])"
    using sba_step.sba_load [of 0 "[(3, SbaLoad), (5, SbaSwap 0)]" 3 "[0]" 0] by simp
  moreover have "sba_step ([0], [(3, SbaSwap 0), (5, SbaSwap 0)]) ([8], [(3, SbaDone), (5, SbaSwap 0)])"
    using sba_step.sba_swap [of 0 "[(3, SbaSwap 0), (5, SbaSwap 0)]" 3 0 "[0]" 0 8]
    by (simp add: compare_and_swap_def)
  ultimately have "sba_step\<^sup>*\<^sup>* (sba_init [0] [3, 5]) ([8], [(3, SbaDone), (5, SbaSwap 0)])"
    by (meson converse_rtranclp_into_rtranclp rtranclp.rtrancl_refl)
  from set_bit_atomic_safe [OF _ this] show ?thesis by simp
qed

lemma set_bit_atomic_ends_witness:
  "\<not> (\<exists>run. run 0 = sba_init [0] [3, 5] \<and> (\<forall>i. sba_step (run i) (run (Suc i))))"
  using set_bit_atomic_ends [of "[3, 5]" "[0]"] by simp

end
