(* ===== verification/CCCheck.thy ===== *)
theory CCCheck
  imports CC Worklist Bitmap Bench
begin

text \<open>
  The verifier of src/cc.cc and src/cc_sv.cc: one search per label, from the last vertex that
  carries it.  The order in which the hash table of the labels is walked is an argument.
\<close>

section \<open>The verifier\<close>

type_synonym search = "bool \<times> bitmap \<times> nat list"

definition label_to_source :: "nat csr_graph \<Rightarrow> nat list \<Rightarrow> (nat \<rightharpoonup> nat) option" where
  "label_to_source g cmp = foldM (\<lambda>n m. do { l \<leftarrow> rd cmp n; Some (m(l \<mapsto> n)) }) (vertices g) Map.empty"

definition cv_edge :: "nat \<Rightarrow> nat list \<Rightarrow> nat \<Rightarrow> nat \<Rightarrow> search \<Rightarrow> search option" where
  \<comment> \<open>the flag says that the verifier has returned false\<close>
  "cv_edge reserved cmp curr_label v st = (case st of (failed, visited, frontier) \<Rightarrow>
     if failed then Some st
     else do {
       l \<leftarrow> rd cmp v;
       if l \<noteq> curr_label then Some (True, visited, frontier)
       else do {
         b \<leftarrow> get_vertex_bit visited v;
         if b then Some (False, visited, frontier)
         else do {
           visited \<leftarrow> set_vertex_bit visited v;
           frontier \<leftarrow> vec_push reserved frontier v;
           Some (False, visited, frontier) } } })"

definition cv_vertex :: "nat csr_graph \<Rightarrow> nat list \<Rightarrow> nat \<Rightarrow> nat \<Rightarrow> search \<Rightarrow> search option" where
  "cv_vertex g cmp curr_label u st = do {
     vs \<leftarrow> out_neigh g u 0;
     st \<leftarrow> foldM (cv_edge (nat (csr_num_nodes g)) cmp curr_label) vs st;
     if csr_directed g \<and> \<not> fst st then do {
       ws \<leftarrow> in_neigh g u 0;
       foldM (cv_edge (nat (csr_num_nodes g)) cmp curr_label) ws st }
     else Some st }"

definition cv_label :: "nat csr_graph \<Rightarrow> nat list \<Rightarrow> (nat \<rightharpoonup> nat) \<Rightarrow> nat \<Rightarrow> bool \<times> bitmap \<Rightarrow> (bool \<times> bitmap) option" where
  "cv_label g cmp sources curr_label st = (case st of (failed, visited) \<Rightarrow>
     if failed then Some st
     else do {
       source \<leftarrow> sources curr_label;
       frontier \<leftarrow> vec_push (nat (csr_num_nodes g)) [] source;
       visited \<leftarrow> set_vertex_bit visited source;
       (failed, visited, frontier) \<leftarrow> worklist fst (\<lambda>st. snd (snd st)) (cv_vertex g cmp curr_label) 0 (False, visited, frontier);
       Some (failed, visited) })"

fun all_visited :: "bitmap \<Rightarrow> nat list \<Rightarrow> bool option" where
  "all_visited visited [] = Some True"
| "all_visited visited (n # ns) = do {
     b \<leftarrow> get_vertex_bit visited n;
     if b then all_visited visited ns else Some False }"

definition CCVerifier :: "((nat \<rightharpoonup> nat) \<Rightarrow> nat list) \<Rightarrow> nat csr_graph \<Rightarrow> nat list \<Rightarrow> bool option" where
  "CCVerifier table_order g cmp = do {
     sources \<leftarrow> label_to_source g cmp;
     let visited = bm_reset (bm_new (word_of_int (csr_num_nodes g)));
     (failed, visited) \<leftarrow> foldM (cv_label g cmp sources) (table_order sources) (False, visited);
     if failed then Some False else all_visited visited (vertices g) }"

definition PrintCompStats ::
  "((nat \<rightharpoonup> int) \<Rightarrow> nat list) \<Rightarrow> nat list \<Rightarrow> (nat \<times> (int \<times> nat) list \<times> nat) option" where
  \<comment> \<open>what is printed: the number of the biggest clusters, the clusters, the number of components\<close>
  "PrintCompStats table_order cmp = (
     let count = fold (\<lambda>comp_i count. count(comp_i \<mapsto> (case count comp_i of None \<Rightarrow> 0 | Some c \<Rightarrow> c) + 1)) cmp Map.empty;
         count_vector = map (\<lambda>l. (l, the (count l))) (table_order count) in do {
     top_k \<leftarrow> TopK count_vector 5;
     Some (min 5 (length top_k), top_k, length count_vector) })"

section \<open>One search\<close>

definition links :: "nat csr_graph \<Rightarrow> nat \<Rightarrow> nat set" where
  "links g u = set (adj g u) \<union> (if csr_directed g then set (inv_adj g u) else {})"

definition link_rel :: "nat csr_graph \<Rightarrow> (nat \<times> nat) set" where
  "link_rel g = {(u, v). u < nodes g \<and> v \<in> links g u}"

lemma link_rel_closure:
  assumes "undirected_edges_ok g"
  shows "(link_rel g)\<^sup>* = link_closure (arcs (nodes g) (adj g))"
proof -
  let ?E = "arcs (nodes g) (adj g)"
  have ok: "graph_ok g" using assms by (simp add: undirected_edges_ok_def)
  have "link_rel g \<subseteq> ?E \<union> ?E\<inverse>"
    using assms inv_adj_range [OF ok [unfolded graph_ok_def]]
    by (auto simp: link_rel_def links_def arcs_def undirected_edges_ok_def split: if_splits)
  moreover have "?E \<union> ?E\<inverse> \<subseteq> link_rel g"
    using assms gv.neigh_less [OF ok]
    by (auto simp: link_rel_def links_def arcs_def undirected_edges_ok_def graph_sym_def split: if_splits)
  ultimately have "link_rel g = ?E \<union> ?E\<inverse>" by blast
  then show ?thesis by (simp add: link_closure_def)
qed

text \<open>
  While a search has not failed, its vector lists distinct vertices of the source's component, all
  with the label; the bitmap holds them besides what earlier searches set.  When it has failed, the
  component has a vertex with another label.
\<close>

definition cv_base :: "nat csr_graph \<Rightarrow> nat list \<Rightarrow> nat set \<Rightarrow> nat \<Rightarrow> nat \<Rightarrow> search \<Rightarrow> bool" where
  "cv_base g cmp V0 src l st = (case st of (failed, visited, fr) \<Rightarrow>
     nodes g \<le> bm_cap visited \<and> distinct fr \<and> src \<in> set fr \<and> set fr \<subseteq> (link_rel g)\<^sup>* `` {src} \<and> set fr \<subseteq> {..<nodes g} \<and>
     (\<forall>v \<in> set fr. cmp ! v = l) \<and> bm_bits visited = V0 \<union> set fr \<and>
     (failed \<longrightarrow> (\<exists>v. (src, v) \<in> (link_rel g)\<^sup>* \<and> v < nodes g \<and> cmp ! v \<noteq> l)))"

definition cv_inv :: "nat csr_graph \<Rightarrow> nat list \<Rightarrow> nat set \<Rightarrow> nat \<Rightarrow> nat \<Rightarrow> nat \<Rightarrow> search \<Rightarrow> bool" where
  "cv_inv g cmp V0 src l it st \<longleftrightarrow> cv_base g cmp V0 src l st \<and>
     (\<not> fst st \<longrightarrow> it \<le> length (snd (snd st)) \<and> (\<forall>i < it. links g (snd (snd st) ! i) \<subseteq> set (snd (snd st))))"

definition grows :: "search \<Rightarrow> search \<Rightarrow> bool" where
  "grows st st' \<longleftrightarrow> (\<exists>R. snd (snd st') = snd (snd st) @ R)"

lemma cv_edge_step:
  assumes b: "cv_base g cmp V0 src l st" and len: "length cmp = nodes g"
    and V0: "\<And>v. v \<in> V0 \<Longrightarrow> cmp ! v \<noteq> l" and v: "v < nodes g" "(src, v) \<in> (link_rel g)\<^sup>*"
  shows "returns (cv_edge (nodes g) cmp l v st) (\<lambda>st'. cv_base g cmp V0 src l st' \<and> grows st st' \<and>
    (\<not> fst st' \<longrightarrow> \<not> fst st \<and> v \<in> set (snd (snd st'))))"
proof -
  obtain failed vis fr where st: "st = (failed, vis, fr)" by (cases st)
  have g0: "grows st st" by (simp add: grows_def)
  have vl: "v < length cmp" using v len by simp
  show ?thesis
  proof (cases "failed \<or> cmp ! v \<noteq> l")
    case True
    then have "cv_base g cmp V0 src l (True, vis, fr)" using b v by (auto simp: st cv_base_def)
    then show ?thesis using True vl by (auto simp: st cv_edge_def grows_def)
  next
    case False
    then have nf: "\<not> failed" and lv: "cmp ! v = l" by auto
    have bits: "bm_bits vis = V0 \<union> set fr" "v < bm_cap vis" using b v by (auto simp: st cv_base_def)
    then have get: "get_vertex_bit vis v = Some (v \<in> set fr)" using V0 lv by (auto simp: bm.get_elems)
    show ?thesis
    proof (cases "v \<in> set fr")
      case True
      then show ?thesis using b nf lv vl get g0 by (simp add: st cv_edge_def)
    next
      case new: False
      obtain vis' where vis': "set_vertex_bit vis v = Some vis'" "bm_bits vis' = insert v (bm_bits vis)" "bm_cap vis' = bm_cap vis"
        using bm.put_elems [OF bits(2)] by auto
      have fr: "distinct fr" "set fr \<subseteq> {..<nodes g}" using b by (auto simp: st cv_base_def)
      have "card (set (fr @ [v])) \<le> nodes g" using card_mono [of "{..<nodes g}" "set (fr @ [v])"] fr v by simp
      then have room: "length fr < nodes g" using new fr distinct_card [of "fr @ [v]"] by simp
      have "cv_base g cmp V0 src l (False, vis', fr @ [v])"
        using b new v lv vis' nf by (auto simp: st cv_base_def)
      then show ?thesis using nf lv vl get new vis'(1) room by (simp add: st cv_edge_def grows_def)
    qed
  qed
qed

lemma cv_edges_step:
  assumes b: "cv_base g cmp V0 src l st" and len: "length cmp = nodes g"
    and V0: "\<And>v. v \<in> V0 \<Longrightarrow> cmp ! v \<noteq> l" and vs: "\<And>v. v \<in> set vs \<Longrightarrow> v < nodes g \<and> (src, v) \<in> (link_rel g)\<^sup>*"
  shows "returns (foldM (cv_edge (nodes g) cmp l) vs st) (\<lambda>st'. cv_base g cmp V0 src l st' \<and> grows st st' \<and>
    (\<not> fst st' \<longrightarrow> \<not> fst st \<and> set vs \<subseteq> set (snd (snd st'))))"
proof (rule foldM_set_rule [where I = "\<lambda>D st'. cv_base g cmp V0 src l st' \<and> grows st st' \<and>
    (\<not> fst st' \<longrightarrow> \<not> fst st \<and> D \<subseteq> set (snd (snd st')))"])
  fix v D st1
  assume v: "v \<in> set vs" and I: "cv_base g cmp V0 src l st1 \<and> grows st st1 \<and> (\<not> fst st1 \<longrightarrow> \<not> fst st \<and> D \<subseteq> set (snd (snd st1)))"
  have b1: "cv_base g cmp V0 src l st1" using I by simp
  have v': "v < nodes g" "(src, v) \<in> (link_rel g)\<^sup>*" using vs [OF v] by auto
  show "returns (cv_edge (nodes g) cmp l v st1) (\<lambda>st'. cv_base g cmp V0 src l st' \<and> grows st st' \<and>
    (\<not> fst st' \<longrightarrow> \<not> fst st \<and> insert v D \<subseteq> set (snd (snd st'))))"
  proof (rule returns_mono [OF cv_edge_step [OF b1 len V0 v']], assumption)
    fix st2
    assume s2: "cv_base g cmp V0 src l st2 \<and> grows st1 st2 \<and> (\<not> fst st2 \<longrightarrow> \<not> fst st1 \<and> v \<in> set (snd (snd st2)))"
    then obtain R where R: "snd (snd st2) = snd (snd st1) @ R" by (auto simp: grows_def)
    then show "cv_base g cmp V0 src l st2 \<and> grows st st2 \<and> (\<not> fst st2 \<longrightarrow> \<not> fst st \<and> insert v D \<subseteq> set (snd (snd st2)))"
      using s2 I by (auto simp: grows_def)
  qed
qed (use b in \<open>simp_all add: grows_def\<close>)

lemma cv_vertex_step:
  assumes ok: "graph_ok g" and I: "cv_inv g cmp V0 src l it st" and go: "\<not> fst st" "it < length (snd (snd st))"
    and len: "length cmp = nodes g" and V0: "\<And>v. v \<in> V0 \<Longrightarrow> cmp ! v \<noteq> l"
  shows "returns (cv_vertex g cmp l (snd (snd st) ! it) st) (cv_inv g cmp V0 src l (Suc it))"
proof -
  let ?u = "snd (snd st) ! it"
  have b: "cv_base g cmp V0 src l st" using I by (simp add: cv_inv_def)
  have "?u \<in> set (snd (snd st))" using go(2) by simp
  then have u: "?u < nodes g" "(src, ?u) \<in> (link_rel g)\<^sup>*" using b by (auto simp: cv_base_def)
  have near: "v < nodes g \<and> (src, v) \<in> (link_rel g)\<^sup>*" if "v \<in> links g ?u" for v
  proof
    show "v < nodes g" using that gv.neigh_less [OF ok u(1)] inv_adj_range [OF ok [unfolded graph_ok_def] u(1)]
      by (auto simp: links_def split: if_splits)
    have "(?u, v) \<in> link_rel g" using that u(1) by (simp add: link_rel_def)
    then show "(src, v) \<in> (link_rel g)\<^sup>*" using u(2) by (rule rtrancl_into_rtrancl [rotated])
  qed
  have sub: "set (adj g ?u) \<subseteq> links g ?u" "csr_directed g \<Longrightarrow> set (inv_adj g ?u) \<subseteq> links g ?u" by (auto simp: links_def)
  have vs1: "v < nodes g \<and> (src, v) \<in> (link_rel g)\<^sup>*" if "v \<in> set (adj g ?u)" for v
    using that near sub(1) by blast
  obtain s1 where s1: "foldM (cv_edge (nodes g) cmp l) (adj g ?u) st = Some s1" "cv_base g cmp V0 src l s1" "grows st s1"
    "\<not> fst s1 \<longrightarrow> set (adj g ?u) \<subseteq> set (snd (snd s1))"
    using returns_ex [OF cv_edges_step [OF b len V0 vs1]] by blast
  have "returns (if csr_directed g \<and> \<not> fst s1 then foldM (cv_edge (nodes g) cmp l) (inv_adj g ?u) s1 else Some s1)
    (\<lambda>s2. cv_base g cmp V0 src l s2 \<and> grows st s2 \<and> (\<not> fst s2 \<longrightarrow> links g ?u \<subseteq> set (snd (snd s2))))"
  proof (cases "csr_directed g \<and> \<not> fst s1")
    case True
    then have vs: "v < nodes g \<and> (src, v) \<in> (link_rel g)\<^sup>*" if "v \<in> set (inv_adj g ?u)" for v
      using that near sub(2) by blast
    show ?thesis
      unfolding if_P [OF True]
    proof (rule returns_mono [OF cv_edges_step [OF s1(2) len V0 vs]], assumption, assumption)
      fix s2
      assume s2: "cv_base g cmp V0 src l s2 \<and> grows s1 s2 \<and> (\<not> fst s2 \<longrightarrow> \<not> fst s1 \<and> set (inv_adj g ?u) \<subseteq> set (snd (snd s2)))"
      then obtain R where R: "snd (snd s2) = snd (snd s1) @ R" by (auto simp: grows_def)
      then show "cv_base g cmp V0 src l s2 \<and> grows st s2 \<and> (\<not> fst s2 \<longrightarrow> links g ?u \<subseteq> set (snd (snd s2)))"
        using s1 s2 True by (auto simp: grows_def links_def)
    qed
  next
    case False
    then show ?thesis using s1 by (auto simp: links_def)
  qed
  then obtain s2 where s2: "(if csr_directed g \<and> \<not> fst s1 then foldM (cv_edge (nodes g) cmp l) (inv_adj g ?u) s1 else Some s1) = Some s2"
    "cv_base g cmp V0 src l s2" "grows st s2" "\<not> fst s2 \<longrightarrow> links g ?u \<subseteq> set (snd (snd s2))" by (auto simp: returns_iff)
  obtain R where R: "snd (snd s2) = snd (snd st) @ R" using s2(3) by (auto simp: grows_def)
  have "cv_inv g cmp V0 src l (Suc it) s2"
    using I go s2(2,4) R by (auto simp: cv_inv_def less_Suc_eq nth_append)
  moreover have "cv_vertex g cmp l ?u st = Some s2"
    using graph_ok_neigh(1,2) [OF ok u(1), of 0] s1(1) s2(1)
    by (auto simp: cv_vertex_def nodes_def [symmetric] split: if_splits)
  ultimately show ?thesis by simp
qed

lemma cv_search:
  assumes ok: "graph_ok g" and len: "length cmp = nodes g" and V0: "\<And>v. v \<in> bm_bits vis \<Longrightarrow> cmp ! v \<noteq> cmp ! src"
    and src: "src < nodes g" and cap: "nodes g \<le> bm_cap vis" and s: "sources l = Some src" "l = cmp ! src"
  shows "returns (cv_label g cmp sources l (False, vis)) (\<lambda>(failed, vis').
    if failed then \<exists>v. (src, v) \<in> (link_rel g)\<^sup>* \<and> v < nodes g \<and> cmp ! v \<noteq> l
    else bm_bits vis' = bm_bits vis \<union> (link_rel g)\<^sup>* `` {src} \<and> nodes g \<le> bm_cap vis' \<and>
      (\<forall>v \<in> (link_rel g)\<^sup>* `` {src}. cmp ! v = l))"
proof -
  have V0': "cmp ! v \<noteq> l" if "v \<in> bm_bits vis" for v using V0 [OF that] s(2) by simp
  obtain v1 where v1: "set_vertex_bit vis src = Some v1" "bm_bits v1 = insert src (bm_bits vis)" "bm_cap v1 = bm_cap vis"
    using bm.put_elems [of src vis] src cap by auto
  have "returns (worklist fst (\<lambda>st. snd (snd st)) (cv_vertex g cmp l) 0 (False, v1, [src]))
    (\<lambda>(failed, vis', fr). if failed then \<exists>v. (src, v) \<in> (link_rel g)\<^sup>* \<and> v < nodes g \<and> cmp ! v \<noteq> l
      else bm_bits vis' = bm_bits vis \<union> (link_rel g)\<^sup>* `` {src} \<and> nodes g \<le> bm_cap vis' \<and>
        (\<forall>v \<in> (link_rel g)\<^sup>* `` {src}. cmp ! v = l))"
  proof (rule worklist_rule [where I = "cv_inv g cmp (bm_bits vis) src l" and b = "nodes g"])
    show "cv_inv g cmp (bm_bits vis) src l 0 (False, v1, [src])"
      using v1 src cap s(2) by (simp add: cv_inv_def cv_base_def)
  next
    fix it st
    assume "cv_inv g cmp (bm_bits vis) src l it st" "\<not> fst st" "it < length (snd (snd st))"
    then show "returns (cv_vertex g cmp l (snd (snd st) ! it) st) (cv_inv g cmp (bm_bits vis) src l (Suc it))"
      using cv_vertex_step [OF ok _ _ _ len V0'] by blast
  next
    fix it st
    assume "cv_inv g cmp (bm_bits vis) src l it st"
    then have "distinct (snd (snd st))" "set (snd (snd st)) \<subseteq> {..<nodes g}" by (auto simp: cv_inv_def cv_base_def)
    then show "length (snd (snd st)) \<le> nodes g"
      using card_mono [of "{..<nodes g}" "set (snd (snd st))"] by (simp add: distinct_card)
  next
    fix it and st :: search
    assume I: "cv_inv g cmp (bm_bits vis) src l it st" and stop: "fst st \<or> length (snd (snd st)) \<le> it"
    obtain failed vis' fr where st: "st = (failed, vis', fr)" by (cases st)
    have base: "cv_base g cmp (bm_bits vis) src l (failed, vis', fr)" using I by (simp add: cv_inv_def st)
    show "case st of (failed, vis', fr) \<Rightarrow> if failed then \<exists>v. (src, v) \<in> (link_rel g)\<^sup>* \<and> v < nodes g \<and> cmp ! v \<noteq> l
      else bm_bits vis' = bm_bits vis \<union> (link_rel g)\<^sup>* `` {src} \<and> nodes g \<le> bm_cap vis' \<and>
        (\<forall>v \<in> (link_rel g)\<^sup>* `` {src}. cmp ! v = l)"
    proof (cases failed)
      case True
      then show ?thesis using base by (auto simp: st cv_base_def)
    next
      case False
      have cl: "\<forall>i < length fr. links g (fr ! i) \<subseteq> set fr" using I stop False by (auto simp: cv_inv_def st)
      have "v \<in> set fr" if "(src, v) \<in> (link_rel g)\<^sup>*" for v
        using that
      proof (induction rule: rtrancl_induct)
        case base
        then show ?case using \<open>cv_base g cmp (bm_bits vis) src l (failed, vis', fr)\<close> by (simp add: cv_base_def)
      next
        case (step y z)
        then obtain i where "i < length fr" "fr ! i = y" by (auto simp: in_set_conv_nth)
        then show ?case using cl step(2) by (auto simp: link_rel_def)
      qed
      then have "set fr = (link_rel g)\<^sup>* `` {src}" using base by (auto simp: cv_base_def)
      then show ?thesis using False base by (auto simp: st cv_base_def)
    qed
  qed
  from returns_triple [OF this] obtain f v2 fr where w: "worklist fst (\<lambda>st. snd (snd st)) (cv_vertex g cmp l) 0 (False, v1, [src]) = Some (f, v2, fr)"
    "if f then \<exists>v. (src, v) \<in> (link_rel g)\<^sup>* \<and> v < nodes g \<and> cmp ! v \<noteq> l
      else bm_bits v2 = bm_bits vis \<union> (link_rel g)\<^sup>* `` {src} \<and> nodes g \<le> bm_cap v2 \<and>
        (\<forall>v \<in> (link_rel g)\<^sup>* `` {src}. cmp ! v = l)"
    by blast
  have "cv_label g cmp sources l (False, vis) = Some (f, v2)"
    using s(1) v1(1) src w(1) by (simp add: cv_label_def nodes_def [symmetric])
  then show ?thesis unfolding returns_iff using w(2) by blast
qed

section \<open>All labels\<close>

lemma label_to_source_returns:
  assumes len: "length cmp = nodes g"
  shows "returns (label_to_source g cmp) (\<lambda>m. finite (dom m) \<and> dom m = set cmp \<and>
    (\<forall>l src. m l = Some src \<longrightarrow> src < nodes g \<and> cmp ! src = l))"
  unfolding label_to_source_def vertices_nodes
proof (rule foldM_upt_rule [where I = "\<lambda>i m. dom m = set (take i cmp) \<and>
    (\<forall>l src. m l = Some src \<longrightarrow> src < nodes g \<and> cmp ! src = l)"])
  fix n and m :: "nat \<rightharpoonup> nat"
  assume "n < nodes g" "dom m = set (take n cmp) \<and> (\<forall>l src. m l = Some src \<longrightarrow> src < nodes g \<and> cmp ! src = l)"
  then show "returns (do { l \<leftarrow> rd cmp n; Some (m(l \<mapsto> n)) }) (\<lambda>m. dom m = set (take (Suc n) cmp) \<and>
    (\<forall>l src. m l = Some src \<longrightarrow> src < nodes g \<and> cmp ! src = l))"
    using len by (auto simp: take_Suc_conv_app_nth)
qed (use len in auto)

lemma all_visited_eq:
  "(\<And>n. n \<in> set ns \<Longrightarrow> n < bm_cap visited) \<Longrightarrow> all_visited visited ns = Some (\<forall>n \<in> set ns. n \<in> bm_bits visited)"
  by (induction ns) (simp_all add: bm.get_elems)

definition labels_ok :: "nat csr_graph \<Rightarrow> nat list \<Rightarrow> bool" where
  \<comment> \<open>the labels name the components\<close>
  "labels_ok g cmp \<longleftrightarrow> (\<forall>u < nodes g. \<forall>v < nodes g. cmp ! u = cmp ! v \<longleftrightarrow> (u, v) \<in> (link_rel g)\<^sup>*)"

definition cv_labels_inv :: "nat csr_graph \<Rightarrow> nat list \<Rightarrow> (nat \<rightharpoonup> nat) \<Rightarrow> nat set \<Rightarrow> bool \<times> bitmap \<Rightarrow> bool" where
  "cv_labels_inv g cmp m D st = (case st of (failed, vis) \<Rightarrow>
     if failed then \<exists>u < nodes g. \<exists>v < nodes g. (u, v) \<in> (link_rel g)\<^sup>* \<and> cmp ! u \<noteq> cmp ! v
     else nodes g \<le> bm_cap vis \<and> bm_bits vis = (\<Union>l \<in> D. (link_rel g)\<^sup>* `` {the (m l)}) \<and>
       (\<forall>l \<in> D. \<forall>v \<in> (link_rel g)\<^sup>* `` {the (m l)}. cmp ! v = l))"

lemma cv_labels:
  assumes ok: "graph_ok g" and len: "length cmp = nodes g" and ls: "distinct ls" "set ls \<subseteq> dom m"
    and m: "\<And>l src. m l = Some src \<Longrightarrow> src < nodes g \<and> cmp ! src = l"
    and vis: "bm_bits vis = {}" "nodes g \<le> bm_cap vis"
  shows "returns (foldM (cv_label g cmp m) ls (False, vis)) (cv_labels_inv g cmp m (set ls))"
proof (rule foldM_rule [where I = "\<lambda>i. cv_labels_inv g cmp m (set (take i ls))"])
  show "cv_labels_inv g cmp m (set (take 0 ls)) (False, vis)" using vis by (simp add: cv_labels_inv_def)
next
  fix i st
  assume i: "i < length ls" and I: "cv_labels_inv g cmp m (set (take i ls)) st"
  let ?l = "ls ! i" and ?D = "set (take i ls)"
  obtain failed vs where st: "st = (failed, vs)" by (cases st)
  have D: "set (take (Suc i) ls) = insert ?l ?D" using i by (simp add: take_Suc_conv_app_nth)
  show "returns (cv_label g cmp m ?l st) (cv_labels_inv g cmp m (set (take (Suc i) ls)))"
  proof (cases failed)
    case True
    then show ?thesis using I by (simp add: st cv_label_def cv_labels_inv_def)
  next
    case False
    have "?l \<in> dom m" using ls(2) i nth_mem by blast
    then obtain src where src: "m ?l = Some src" by auto
    have sl: "src < nodes g" "?l = cmp ! src" using m [OF src] by simp_all
    have inv: "nodes g \<le> bm_cap vs" "bm_bits vs = (\<Union>l \<in> ?D. (link_rel g)\<^sup>* `` {the (m l)})"
      "\<forall>l \<in> ?D. \<forall>v \<in> (link_rel g)\<^sup>* `` {the (m l)}. cmp ! v = l"
      using I False by (simp_all add: st cv_labels_inv_def)
    have fresh: "?l \<notin> ?D" using ls(1) i by (auto simp: in_set_conv_nth nth_eq_iff_index_eq)
    have V0: "cmp ! v \<noteq> cmp ! src" if vV: "v \<in> bm_bits vs" for v
    proof -
      obtain l where "l \<in> ?D" "v \<in> (link_rel g)\<^sup>* `` {the (m l)}"
        using vV unfolding inv(2) by (rule UN_E)
      moreover from this have "cmp ! v = l" using inv(3) by blast
      ultimately have "cmp ! v \<in> ?D" by (simp only:)
      then show ?thesis using fresh sl(2) by metis
    qed
    obtain f v2 where w: "cv_label g cmp m ?l (False, vs) = Some (f, v2)"
      "if f then \<exists>v. (src, v) \<in> (link_rel g)\<^sup>* \<and> v < nodes g \<and> cmp ! v \<noteq> ?l
       else bm_bits v2 = bm_bits vs \<union> (link_rel g)\<^sup>* `` {src} \<and> nodes g \<le> bm_cap v2 \<and>
         (\<forall>v \<in> (link_rel g)\<^sup>* `` {src}. cmp ! v = ?l)"
      using returns_pair [OF cv_search [of g cmp vs src m ?l, OF ok len V0 sl(1) inv(1) src sl(2)]] by blast
    have "cv_labels_inv g cmp m (insert ?l ?D) (f, v2)"
    proof (cases f)
      case True
      then obtain v where "(src, v) \<in> (link_rel g)\<^sup>*" "v < nodes g" "cmp ! v \<noteq> cmp ! src" using w(2) sl(2) by auto
      then have "\<exists>u < nodes g. \<exists>v < nodes g. (u, v) \<in> (link_rel g)\<^sup>* \<and> cmp ! u \<noteq> cmp ! v" using sl(1) by metis
      then show ?thesis using True by (simp add: cv_labels_inv_def)
    next
      case nf: False
      then show ?thesis using w(2) inv src by (simp add: cv_labels_inv_def Un_commute)
    qed
    then show ?thesis using w(1) False by (simp add: st D)
  qed
qed simp

lemma CCVerifier_eq:
  assumes g: "undirected_edges_ok g" and len: "length cmp = nodes g" and n: "nodes g < 2 ^ 32"
    and order: "\<And>m. finite (dom m) \<Longrightarrow> set (table_order m) = dom m \<and> distinct (table_order m)"
  shows "CCVerifier table_order g cmp = Some (labels_ok g cmp)"
proof -
  have ok: "graph_ok g" using g by (simp add: undirected_edges_ok_def)
  have nn: "csr_num_nodes g = int (nodes g)" using ok by (simp add: graph_ok_def csr_wf_def nodes_def)
  let ?b = "bm_reset (bm_new (word_of_int (csr_num_nodes g)))"
  have b: "bm_bits ?b = {}" "nodes g \<le> bm_cap ?b"
    using bm_cap_new [of "nodes g"] n by (simp_all add: nn bm.clear_elems bm.clear_cap)
  obtain m where m: "label_to_source g cmp = Some m" "finite (dom m)" "dom m = set cmp"
    "\<And>l src. m l = Some src \<Longrightarrow> src < nodes g \<and> cmp ! src = l"
    using returns_ex [OF label_to_source_returns [OF len]] by blast
  have ls: "distinct (table_order m)" "set (table_order m) \<subseteq> dom m" "set (table_order m) = set cmp"
    using order [OF m(2)] m(3) by simp_all
  obtain failed vis where l: "foldM (cv_label g cmp m) (table_order m) (False, ?b) = Some (failed, vis)"
    "cv_labels_inv g cmp m (set cmp) (failed, vis)"
    using returns_ex [OF cv_labels [OF ok len ls(1,2) m(4) b]] unfolding ls(3) by (metis prod.exhaust)
  let ?C = "\<lambda>u. (link_rel g)\<^sup>* `` {u}"
  have symC: "(v, u) \<in> (link_rel g)\<^sup>*" if "(u, v) \<in> (link_rel g)\<^sup>*" for u v
    using that link_closure_sym unfolding link_rel_closure [OF g] by blast
  show ?thesis
  proof (cases failed)
    case True
    then have "\<not> labels_ok g cmp" using l(2) unfolding labels_ok_def cv_labels_inv_def by auto
    then show ?thesis using True m(1) l(1) by (simp add: CCVerifier_def Let_def)
  next
    case False
    have vis: "nodes g \<le> bm_cap vis" "bm_bits vis = (\<Union>l \<in> set cmp. ?C (the (m l)))"
      "\<And>l v. l \<in> set cmp \<Longrightarrow> v \<in> ?C (the (m l)) \<Longrightarrow> cmp ! v = l"
      using l(2) False by (simp_all add: cv_labels_inv_def)
    have own: "u \<in> bm_bits vis \<longleftrightarrow> u \<in> ?C (the (m (cmp ! u)))" if "u < nodes g" for u
    proof
      assume "u \<in> bm_bits vis"
      then obtain k where "k \<in> set cmp" "u \<in> ?C (the (m k))" unfolding vis(2) by (rule UN_E)
      moreover from this have "cmp ! u = k" using vis(3) by blast
      ultimately show "u \<in> ?C (the (m (cmp ! u)))" by (simp only:)
    qed (use that len vis(2) in auto)
    have "(\<forall>u < nodes g. u \<in> bm_bits vis) \<longleftrightarrow> labels_ok g cmp"
    proof
      assume all: "\<forall>u < nodes g. u \<in> bm_bits vis"
      have src: "(the (m (cmp ! u)), u) \<in> (link_rel g)\<^sup>*" if "u < nodes g" for u using own [OF that] all that by blast
      have "cmp ! u = cmp ! v \<longleftrightarrow> (u, v) \<in> (link_rel g)\<^sup>*" if uv: "u < nodes g" "v < nodes g" for u v
      proof
        assume "cmp ! u = cmp ! v"
        then have "(the (m (cmp ! u)), v) \<in> (link_rel g)\<^sup>*" using src [OF uv(2)] by simp
        then show "(u, v) \<in> (link_rel g)\<^sup>*" using symC [OF src [OF uv(1)]] by (rule rtrancl_trans [rotated])
      next
        assume "(u, v) \<in> (link_rel g)\<^sup>*"
        then have "v \<in> ?C (the (m (cmp ! u)))" using rtrancl_trans [OF src [OF uv(1)]] by blast
        moreover have "cmp ! u \<in> set cmp" using uv(1) len by simp
        ultimately show "cmp ! u = cmp ! v" using vis(3) by metis
      qed
      then show "labels_ok g cmp" by (simp add: labels_ok_def)
    next
      assume lab: "labels_ok g cmp"
      have "u \<in> bm_bits vis" if u: "u < nodes g" for u
      proof -
        have "cmp ! u \<in> dom m" using u len m(3) by simp
        then obtain src where src: "m (cmp ! u) = Some src" by auto
        then have "src < nodes g" "cmp ! src = cmp ! u" using m(4) by auto
        then have "(src, u) \<in> (link_rel g)\<^sup>*" using lab u unfolding labels_ok_def by blast
        then show ?thesis using own [OF u] src by simp
      qed
      then show "\<forall>u < nodes g. u \<in> bm_bits vis" by blast
    qed
    moreover have "all_visited vis (vertices g) = Some (\<forall>u < nodes g. u \<in> bm_bits vis)"
      using all_visited_eq [of "vertices g" vis] vis(1) by (auto simp: vertices_nodes)
    ultimately show ?thesis using False m(1) l(1) by (simp add: CCVerifier_def Let_def)
  qed
qed

lemma min_labels_ok:
  assumes g: "undirected_edges_ok g" and c: "min_labels (nodes g) (arcs (nodes g) (adj g)) cmp"
  shows "labels_ok g cmp"
proof -
  let ?R = "link_closure (arcs (nodes g) (adj g))"
  have lab: "cmp ! u = (LEAST z. (u, z) \<in> ?R)" if "u < nodes g" for u using c that by (simp add: min_labels_def)
  have least: "(u, cmp ! u) \<in> ?R" if "u < nodes g" for u
    unfolding lab [OF that] by (rule LeastI [of _ u]) simp
  have "cmp ! u = cmp ! v \<longleftrightarrow> (u, v) \<in> ?R" if uv: "u < nodes g" "v < nodes g" for u v
  proof
    assume "cmp ! u = cmp ! v"
    then have "(v, cmp ! u) \<in> ?R" using least [OF uv(2)] by simp
    then show "(u, v) \<in> ?R" using least [OF uv(1)] link_closure_sym link_closure_trans by blast
  next
    assume "(u, v) \<in> ?R"
    then have "(u, z) \<in> ?R \<longleftrightarrow> (v, z) \<in> ?R" for z using link_closure_sym link_closure_trans by blast
    then show "cmp ! u = cmp ! v" using lab [OF uv(1)] lab [OF uv(2)] by simp
  qed
  then show ?thesis unfolding labels_ok_def link_rel_closure [OF g] by blast
qed

section \<open>Properties\<close>

text \<open>C13: The verifier of the components kernels accepts exactly the labellings that name the components:
  it returns true when two vertices have the same label if and only if a path connects them, directions
  ignored, and false otherwise, in whatever order the table of labels is walked.\<close>

lemma CCVerifier_correct:
  assumes "undirected_edges_ok g" "length cmp = nodes g" "nodes g < 2 ^ 32"
    and "\<And>m. finite (dom m) \<Longrightarrow> set (table_order m) = dom m \<and> distinct (table_order m)"
  shows "CCVerifier table_order g cmp = Some (\<forall>u < nodes g. \<forall>v < nodes g.
    cmp ! u = cmp ! v \<longleftrightarrow> (u, v) \<in> link_closure (arcs (nodes g) (adj g)))"
  using CCVerifier_eq [OF assms(1-3), of table_order] assms(4) link_rel_closure [OF assms(1)]
  by (simp add: labels_ok_def)

lemma CCVerifier_correct_witness:
  "CCVerifier (\<lambda>m. sorted_list_of_set (dom m)) two_edges [0, 0, 0, 1] = Some False"
proof -
  have "(1, 3) \<in> arcs 4 (adj two_edges)" by (simp add: arcs_def two_edges_def)
  then have "(1, 3) \<in> link_closure (arcs 4 (adj two_edges))" by (rule link_closure_edge)
  moreover have "[0, 0, 0, 1 :: nat] ! 1 \<noteq> [0, 0, 0, 1] ! 3" by simp
  ultimately have "\<not> (\<forall>u < 4. \<forall>v < 4. [0, 0, 0, 1 :: nat] ! u = [0, 0, 0, 1] ! v \<longleftrightarrow> (u, v) \<in> link_closure (arcs 4 (adj two_edges)))"
    by (meson numeral_less_iff one_less_numeral_iff semiring_norm)
  then show ?thesis
    using CCVerifier_correct [OF two_edges_ok(1), of "[0, 0, 0, 1]" "\<lambda>m. sorted_list_of_set (dom m)"]
    by (simp add: two_edges_ok(2))
qed

end
