(* ===== verification/CCSV.thy ===== *)
theory CCSV
  imports Forest
begin

text \<open>
  The Shiloach-Vishkin kernel of src/cc_sv.cc.  \<open>cmp\<close> is the array \<^verbatim>\<open>comp\<close>; loops over vertices run in
  the order of their index.  Its verifier is that of src/cc.cc, theory CCCheck.
\<close>

section \<open>The kernel\<close>

definition sv_edge :: "nat \<Rightarrow> nat \<Rightarrow> bool \<times> nat list \<Rightarrow> (bool \<times> nat list) option" where
  "sv_edge u v s = (case s of (change, cmp) \<Rightarrow> do {
     comp_u \<leftarrow> rd cmp u;
     comp_v \<leftarrow> rd cmp v;
     if comp_u = comp_v then Some (change, cmp)
     else do {
       let high_comp = (if comp_u > comp_v then comp_u else comp_v);
       let low_comp = comp_u + comp_v - high_comp;
       h \<leftarrow> rd cmp high_comp;
       if high_comp = h then do { cmp \<leftarrow> wr cmp high_comp low_comp; Some (True, cmp) }
       else Some (change, cmp) } })"

definition sv_hook :: "nat csr_graph \<Rightarrow> nat list \<Rightarrow> (bool \<times> nat list) option" where
  \<comment> \<open>the first loop over the vertices\<close>
  "sv_hook g cmp = foldM (\<lambda>u s. do { vs \<leftarrow> out_neigh g u 0; foldM (sv_edge u) vs s }) (vertices g) (False, cmp)"

partial_function (option) sv_loop :: "nat csr_graph \<Rightarrow> int \<Rightarrow> nat list \<Rightarrow> (nat list \<times> int) option" where
  \<comment> \<open>\<^verbatim>\<open>while (change)\<close>, entered with \<open>change\<close> set; with the number of iterations that is printed\<close>
  "sv_loop g num_iter cmp = do {
     (change, cmp) \<leftarrow> sv_hook g cmp;
     cmp \<leftarrow> path_compress g cmp;
     if change then sv_loop g (num_iter + 1) cmp else Some (cmp, num_iter + 1) }"

definition ShiloachVishkin :: "nat csr_graph \<Rightarrow> (nat list \<times> int) option" where
  "ShiloachVishkin g = do {
     cmp \<leftarrow> foldM (\<lambda>n cmp. wr cmp n n) (vertices g) (uninit (nat (csr_num_nodes g)));
     sv_loop g 0 cmp }"

section \<open>Progress\<close>

text \<open>The smallest vertices of the trees; hooking a root below a smaller vertex removes one of them.\<close>

definition minima :: "nat \<Rightarrow> nat list \<Rightarrow> nat set" where
  "minima n cmp = {x. x < n \<and> (\<forall>z. (x, z) \<in> joined cmp \<longrightarrow> x \<le> z)}"

lemma minima_less:
  assumes sub: "joined cmp \<subseteq> joined cmp'" and h: "h \<in> minima n cmp" and l: "(h, l) \<in> joined cmp'" "l < h"
  shows "card (minima n cmp') < card (minima n cmp)"
proof (rule psubset_card_mono)
  show "finite (minima n cmp)" by (simp add: minima_def)
  have "minima n cmp' \<subseteq> minima n cmp" using sub by (auto simp: minima_def)
  moreover have "h \<notin> minima n cmp'" using l by (auto simp: minima_def)
  ultimately show "minima n cmp' \<subset> minima n cmp" using h by blast
qed

lemma star_root_minimum:
  assumes "star n cmp" "x < n" "cmp ! x = x"
  shows "x \<in> minima n cmp"
proof -
  have "x = (LEAST z. (x, z) \<in> joined cmp)" using star_labels(2) [OF assms(1,2,2)] assms(3) by simp
  then have "x \<le> z" if "(x, z) \<in> joined cmp" for z using Least_le [of "\<lambda>z. (x, z) \<in> joined cmp", OF that] by simp
  then show ?thesis using assms(2) by (simp add: minima_def)
qed

definition hook_inv :: "nat \<Rightarrow> nat list \<Rightarrow> (nat \<times> nat) set \<Rightarrow> (nat \<times> nat) set \<Rightarrow> bool \<times> nat list \<Rightarrow> bool" where
  \<comment> \<open>the pass started from the star \<open>cmp0\<close>; it has handled the edges in \<open>D\<close>\<close>
  "hook_inv n cmp0 D E st = (case st of (change, cmp) \<Rightarrow>
     between n (joined cmp0) E cmp \<and> (\<forall>x < n. cmp ! x = x \<longrightarrow> cmp0 ! x = x) \<and>
     (if change then \<exists>h < n. \<exists>l < h. cmp0 ! h = h \<and> (h, l) \<in> joined cmp
      else cmp = cmp0 \<and> (\<forall>(u, v) \<in> D. cmp0 ! u = cmp0 ! v)))"

lemma sv_edge_step:
  assumes s: "star n cmp0" and I: "hook_inv n cmp0 D E st" and uv: "(u, v) \<in> E" "u < n" "v < n"
  shows "returns (sv_edge u v st) (hook_inv n cmp0 (insert (u, v) D) E)"
proof -
  obtain change cmp where st: "st = (change, cmp)" by (cases st)
  have b: "between n (joined cmp0) E cmp" and roots: "\<forall>x < n. cmp ! x = x \<longrightarrow> cmp0 ! x = x"
    using I by (simp_all add: hook_inv_def st)
  have f: "forest n cmp" using b by (simp add: between_def)
  have len: "length cmp = n" using f by (simp add: forest_def)
  let ?h = "max (cmp ! u) (cmp ! v)" and ?l = "min (cmp ! u) (cmp ! v)"
  have p: "cmp ! u < n" "cmp ! v < n" using forest_range [OF f] uv by auto
  have hd: "(if cmp ! u > cmp ! v then cmp ! u else cmp ! v) = ?h" "cmp ! u + cmp ! v - ?h = ?l" by auto
  have step: "sv_edge u v st = (if cmp ! u = cmp ! v \<or> cmp ! ?h \<noteq> ?h then Some st else Some (True, cmp[?h := ?l]))"
    using uv len p by (auto simp: st sv_edge_def Let_def hd max_def min_def)
  show ?thesis
  proof (cases "cmp ! u = cmp ! v \<or> cmp ! ?h \<noteq> ?h")
    case True
    have "cmp0 ! u = cmp0 ! v" if "\<not> change"
    proof (rule ccontr)
      assume ne: "cmp0 ! u \<noteq> cmp0 ! v"
      have "cmp = cmp0" using I that by (simp add: hook_inv_def st)
      then have "cmp0 ! ?h = ?h" using s uv by (simp add: star_def max_def)
      then show False using True ne \<open>cmp = cmp0\<close> by simp
    qed
    then have "hook_inv n cmp0 (insert (u, v) D) E st" using I by (auto simp: hook_inv_def st)
    then show ?thesis using True step by simp
  next
    case False
    then have lh: "?l < ?h" and r: "cmp ! ?h = ?h" and hn: "?h < n" using p by auto
    note hang = hang_root [OF f hn r less_imp_le [OF lh]]
    have "(cmp ! u, cmp ! v) \<in> link_closure E"
    proof -
      have "(u, cmp ! u) \<in> link_closure E" "(v, cmp ! v) \<in> link_closure E"
        using joined_parent [of u cmp] joined_parent [of v cmp] len uv b by (auto simp: between_def)
      then show ?thesis using link_closure_edge [OF uv(1)] by (meson link_closure_sym link_closure_trans)
    qed
    then have hl: "(?h, ?l) \<in> link_closure E" by (cases "cmp ! u \<le> cmp ! v") (auto simp: max_def min_def intro: link_closure_sym)
    have "joined cmp \<union> {(?h, ?l)} \<subseteq> joined (cmp[?h := ?l])"
      unfolding hang(2) by (rule link_closure_subset)
    moreover have "joined (cmp[?h := ?l]) \<subseteq> link_closure E"
      unfolding hang(2) using b hl by (intro link_closure_least) (auto simp: between_def)
    ultimately have b': "between n (joined cmp0) E (cmp[?h := ?l])" and new: "(?h, ?l) \<in> joined (cmp[?h := ?l])"
      using b hang(1) by (auto simp: between_def)
    have "cmp0 ! x = x" if x: "x < n" "cmp[?h := ?l] ! x = x" for x
    proof -
      have "x \<noteq> ?h" using x lh len by auto
      then show ?thesis using x roots by simp
    qed
    moreover have "cmp0 ! ?h = ?h" using roots r hn by blast
    ultimately have "hook_inv n cmp0 (insert (u, v) D) E (True, cmp[?h := ?l])"
      using b' new lh hn unfolding hook_inv_def by (simp only: prod.case if_True) blast
    then show ?thesis using False step by simp
  qed
qed

lemma sv_hook_returns:
  assumes ok: "graph_ok g" and s: "star (nodes g) cmp" and b: "joined cmp \<subseteq> link_closure (arcs (nodes g) (adj g))"
  shows "returns (sv_hook g cmp) (hook_inv (nodes g) cmp (arcs (nodes g) (adj g)) (arcs (nodes g) (adj g)))"
  unfolding sv_hook_def vertices_nodes
proof (rule foldM_upt_rule [where I = "\<lambda>k. hook_inv (nodes g) cmp {(u, v). u < k \<and> v \<in> set (adj g u)} (arcs (nodes g) (adj g))"])
  show "hook_inv (nodes g) cmp {(u, v). u < 0 \<and> v \<in> set (adj g u)} (arcs (nodes g) (adj g)) (False, cmp)"
    using s b by (simp add: hook_inv_def between_def star_def)
next
  fix u st
  let ?E = "arcs (nodes g) (adj g)" and ?D = "{(x, v). x < u \<and> v \<in> set (adj g x)}"
  assume u: "u < nodes g" and I: "hook_inv (nodes g) cmp ?D ?E st"
  have "returns (foldM (sv_edge u) (adj g u) st) (hook_inv (nodes g) cmp (?D \<union> {u} \<times> set (adj g u)) ?E)"
  proof (rule foldM_set_rule [where I = "\<lambda>V. hook_inv (nodes g) cmp (?D \<union> {u} \<times> V) ?E"])
    fix v V st
    assume v: "v \<in> set (adj g u)" and I: "hook_inv (nodes g) cmp (?D \<union> {u} \<times> V) ?E st"
    have "(u, v) \<in> ?E" "v < nodes g" using v u gv.neigh_less [OF ok u v] by (simp_all add: arcs_def)
    moreover have "insert (u, v) (?D \<union> {u} \<times> V) = ?D \<union> {u} \<times> insert v V" by blast
    ultimately show "returns (sv_edge u v st) (hook_inv (nodes g) cmp (?D \<union> {u} \<times> insert v V) ?E)"
      using sv_edge_step [OF s I _ u] by simp
  qed (use I in simp_all)
  moreover have "?D \<union> {u} \<times> set (adj g u) = {(x, v). x < Suc u \<and> v \<in> set (adj g x)}" by (auto simp: less_Suc_eq)
  ultimately show "returns (do { vs \<leftarrow> out_neigh g u 0; foldM (sv_edge u) vs st })
    (hook_inv (nodes g) cmp {(x, v). x < Suc u \<and> v \<in> set (adj g x)} ?E)"
    using graph_ok_neigh(1) [OF ok u] by simp
qed (simp add: arcs_def)

lemma sv_loop_returns:
  assumes ok: "graph_ok g" and "star (nodes g) cmp" "joined cmp \<subseteq> link_closure (arcs (nodes g) (adj g))"
  shows "returns (sv_loop g k cmp) (\<lambda>(cmp', iters). min_labels (nodes g) (arcs (nodes g) (adj g)) cmp' \<and>
    iters \<le> k + 1 + int (card (minima (nodes g) cmp)))"
  using assms(2,3)
proof (induction "card (minima (nodes g) cmp)" arbitrary: cmp k rule: less_induct)
  case less
  let ?E = "arcs (nodes g) (adj g)" and ?n = "nodes g"
  obtain change c1 where h: "sv_hook g cmp = Some (change, c1)" "hook_inv ?n cmp ?E ?E (change, c1)"
    using returns_ex [OF sv_hook_returns [OF ok less.prems]] by auto
  have b1: "between ?n (joined cmp) ?E c1" using h(2) by (simp add: hook_inv_def)
  obtain c2 where c: "path_compress g c1 = Some c2" "star ?n c2" "joined c2 = joined c1"
    using returns_ex [OF path_compress_returns [of g c1]] b1 by (auto simp: between_def)
  note unfold = sv_loop.simps [of g k cmp]
  show ?case
  proof (cases change)
    case False
    then have same: "c1 = cmp" and eq: "\<forall>(u, v) \<in> ?E. cmp ! u = cmp ! v" using h(2) by (simp_all add: hook_inv_def)
    have "?E \<subseteq> joined cmp"
    proof
      fix e assume e: "e \<in> ?E"
      obtain u v where uv: "e = (u, v)" by (cases e)
      then have "u < ?n" "v < ?n" "cmp ! u = cmp ! v" using e eq gv.arcs_less [OF ok] by blast+
      then show "e \<in> joined cmp" using star_labels(1) [OF less.prems(1)] uv by blast
    qed
    then have "joined cmp = link_closure ?E"
      using less.prems(2) link_closure_mono [of ?E "joined cmp"] by (auto simp: joined_idem)
    then have "min_labels ?n ?E c2" using star_min_labels [OF c(2)] c(3) same by simp
    then show ?thesis using False h(1) c(1) by (subst unfold) simp
  next
    case True
    then obtain hh l where hl: "hh < ?n" "l < hh" "cmp ! hh = hh" "(hh, l) \<in> joined c2"
      using h(2) c(3) by (auto simp: hook_inv_def)
    have sub: "joined cmp \<subseteq> joined c2" "joined c2 \<subseteq> link_closure ?E" using b1 c(3) by (auto simp: between_def)
    have m: "card (minima ?n c2) < card (minima ?n cmp)"
      by (rule minima_less [OF sub(1) star_root_minimum [OF less.prems(1) hl(1,3)] hl(4,2)])
    have "returns (sv_loop g (k + 1) c2) (\<lambda>(cmp', iters). min_labels ?n ?E cmp' \<and> iters \<le> k + 1 + int (card (minima ?n cmp)))"
      by (rule returns_mono [OF less.hyps [OF m c(2) sub(2)]]) (use m in auto)
    then show ?thesis using True h(1) c(1) by (subst unfold) simp
  qed
qed

lemma ShiloachVishkin_returns:
  assumes ok: "graph_ok g"
  shows "returns (ShiloachVishkin g) (\<lambda>(cmp, iters). min_labels (nodes g) (arcs (nodes g) (adj g)) cmp \<and>
    iters \<le> 1 + int (nodes g))"
proof -
  let ?n = "nodes g"
  have s: "star ?n [0..<?n]" using identity_forest(1) [of ?n] by (simp add: star_def)
  have j: "joined [0..<?n] \<subseteq> link_closure (arcs ?n (adj g))"
    unfolding identity_forest(2) by (rule link_closure_mono) simp
  have "card (minima ?n [0..<?n]) \<le> ?n" using card_mono [of "{..<?n}" "minima ?n [0..<?n]"] by (auto simp: minima_def)
  then have "returns (sv_loop g 0 [0..<?n]) (\<lambda>(cmp, iters). min_labels ?n (arcs ?n (adj g)) cmp \<and> iters \<le> 1 + int ?n)"
    by (intro returns_mono [OF sv_loop_returns [OF ok s j]]) auto
  then show ?thesis by (simp add: ShiloachVishkin_def vertices_nodes nodes_def [symmetric] identity_loop)
qed

section \<open>Properties\<close>

text \<open>C14: Shiloach-Vishkin is correct.  On every well-formed graph the loop ends, after at most one pass more
  than there are vertices, and every vertex is labelled with the smallest vertex of its
  component, directions ignored.  A pass that changes nothing finds no edge between two labels.\<close>

lemma ShiloachVishkin_components:
  assumes "graph_ok g"
  shows "\<exists>cmp iters. ShiloachVishkin g = Some (cmp, iters) \<and> iters \<le> 1 + int (nodes g) \<and>
    min_labels (nodes g) (arcs (nodes g) (adj g)) cmp"
  using returns_pair [OF ShiloachVishkin_returns [OF assms]] by blast

lemma ShiloachVishkin_components_witness:
  "\<exists>cmp iters. ShiloachVishkin (csr_of_rows [[2], [3], [0], [1]]) = Some (cmp, iters) \<and> iters \<le> 5 \<and>
    min_labels 4 (arcs 4 (adj (csr_of_rows [[2], [3], [0], [1]]))) cmp"
proof -
  have "graph_ok (csr_of_rows [[2], [3], [0], [1]])"
    by (rule graph_sym_ok [OF sym_rows_graph(1)]) (code_simp, simp)
  moreover have "nodes (csr_of_rows [[2], [3], [0], [1 :: nat]]) = 4" by simp
  ultimately show ?thesis using ShiloachVishkin_components [of "csr_of_rows [[2], [3], [0], [1]]"] by (simp del: csr_of_rows_simps)
qed

end
