(* ===== verification/Distance.thy ===== *)
theory Distance
  imports Graph
begin

text \<open>
  Distances in a graph, the vocabulary of the searches: \<open>ball E s d\<close> holds the vertices at most
  d steps from s, \<open>layer E s d\<close> those exactly d steps away.
\<close>

primrec ball :: "(nat \<times> nat) set \<Rightarrow> nat \<Rightarrow> nat \<Rightarrow> nat set" where
  "ball E s 0 = {s}"
| "ball E s (Suc d) = ball E s d \<union> E `` ball E s d"

definition layer :: "(nat \<times> nat) set \<Rightarrow> nat \<Rightarrow> nat \<Rightarrow> nat set" where
  "layer E s d = (if d = 0 then {s} else ball E s d - ball E s (d - 1))"

lemma layer_0 [simp]: "layer E s 0 = {s}"
  by (simp add: layer_def)

lemma layer_subset: "layer E s d \<subseteq> ball E s d"
  by (auto simp: layer_def)

lemma ball_mono: "d \<le> e \<Longrightarrow> ball E s d \<subseteq> ball E s e"
  by (induction e) (auto simp: le_Suc_eq)

lemma source_in_ball [simp]: "s \<in> ball E s d"
  by (induction d) auto

lemma ball_Suc_layer: "ball E s (Suc d) = ball E s d \<union> E `` layer E s d"
proof (cases d)
  case 0
  then show ?thesis by simp
next
  case (Suc k)
  have "E `` ball E s k \<subseteq> ball E s d" by (simp add: Suc)
  moreover have "ball E s d = layer E s d \<union> ball E s k"
    using ball_mono [of k d E s] by (auto simp: layer_def Suc)
  ultimately show ?thesis by auto
qed

lemma layer_Suc: "layer E s (Suc d) = E `` layer E s d - ball E s d"
  unfolding layer_def [of E s "Suc d"] using ball_Suc_layer [of E s d] by auto

lemma layer_cases:
  assumes "v \<in> ball E s d"
  shows "\<exists>k \<le> d. v \<in> layer E s k"
  using assms
proof (induction d)
  case 0
  then show ?case by simp
next
  case (Suc d)
  show ?case
  proof (cases "v \<in> ball E s d")
    case True
    then show ?thesis using Suc.IH le_SucI by blast
  next
    case False
    then have "v \<in> layer E s (Suc d)" using Suc.prems by (simp add: layer_def)
    then show ?thesis by blast
  qed
qed

lemma layer_outside:
  assumes "i < j" "v \<in> layer E s j"
  shows "v \<notin> ball E s i"
proof -
  have "ball E s i \<subseteq> ball E s (j - 1)" using assms(1) by (intro ball_mono) simp
  then show ?thesis using assms by (auto simp: layer_def)
qed

lemma layer_disjoint: "v \<in> layer E s i \<Longrightarrow> v \<in> layer E s j \<Longrightarrow> i = j"
  using layer_outside [of i j v E s] layer_outside [of j i v E s] layer_subset
  by (meson linorder_neqE_nat subsetD)

lemma ball_reach: "ball E s d \<subseteq> E\<^sup>* `` {s}"
  by (induction d) (auto intro: rtrancl.rtrancl_into_rtrancl)

lemma reach_layer: "(s, v) \<in> E\<^sup>* \<longleftrightarrow> (\<exists>d. v \<in> layer E s d)"
proof
  assume "(s, v) \<in> E\<^sup>*"
  then have "\<exists>d. v \<in> ball E s d"
  proof (induction rule: rtrancl_induct)
    case base
    then show ?case using source_in_ball by blast
  next
    case (step y z)
    then obtain d where "y \<in> ball E s d" by blast
    with step have "z \<in> ball E s (Suc d)" by auto
    then show ?case by blast
  qed
  then show "\<exists>d. v \<in> layer E s d" using layer_cases by blast
next
  assume "\<exists>d. v \<in> layer E s d"
  then show "(s, v) \<in> E\<^sup>*" using layer_subset ball_reach by blast
qed

text \<open>An empty layer ends the search.\<close>

lemma empty_layer_closed:
  assumes "layer E s d = {}"
  shows "E\<^sup>* `` {s} = ball E s d"
proof -
  have d: "ball E s d = ball E s (d - 1)" "d > 0"
    using assms ball_mono [of "d - 1" d E s] by (auto simp: layer_def split: if_splits)
  then have closed: "E `` ball E s d \<subseteq> ball E s d"
    by (metis Suc_pred' Un_upper2 ball.simps(2))
  have "v \<in> ball E s d" if "(s, v) \<in> E\<^sup>*" for v
    using that
  proof (induction rule: rtrancl_induct)
    case (step y z)
    then show ?case using closed by blast
  qed simp
  then show ?thesis using ball_reach by blast
qed

text \<open>A visited neighbour of an unvisited vertex lies in the last layer.\<close>

lemma neighbour_in_layer:
  assumes "u \<notin> ball E s d" "v \<in> ball E s d" "(v, u) \<in> E"
  shows "v \<in> layer E s d" "u \<in> layer E s (Suc d)"
proof -
  show v: "v \<in> layer E s d"
  proof (rule ccontr)
    assume n: "v \<notin> layer E s d"
    then have d: "0 < d" "v \<in> ball E s (d - 1)" using assms(2) by (cases d; auto simp: layer_def)+
    then have "u \<in> ball E s (Suc (d - 1))" unfolding ball.simps using assms(3) d(2) by blast
    moreover have "Suc (d - 1) = d" using d(1) by simp
    ultimately show False using assms(1) by (simp only:)
  qed
  show "u \<in> layer E s (Suc d)" using v assms by (auto simp: layer_Suc)
qed

section \<open>Bounds\<close>

definition edges_below :: "nat \<Rightarrow> (nat \<times> nat) set \<Rightarrow> bool" where
  "edges_below n E \<longleftrightarrow> (\<forall>(u, v) \<in> E. u < n \<and> v < n)"

lemma edges_belowD: "edges_below n E \<Longrightarrow> (u, v) \<in> E \<Longrightarrow> u < n \<and> v < n"
  by (auto simp: edges_below_def)

lemma ball_below:
  assumes "edges_below n E" "s < n"
  shows "ball E s d \<subseteq> {..<n}"
proof (induction d)
  case (Suc d)
  have "E `` ball E s d \<subseteq> {..<n}" using edges_belowD [OF assms(1)] by blast
  then show ?case using Suc by simp
qed (use assms in simp)

lemma layer_below: "edges_below n E \<Longrightarrow> s < n \<Longrightarrow> layer E s d \<subseteq> {..<n}"
  by (rule subset_trans [OF layer_subset ball_below])

lemma finite_ball: "edges_below n E \<Longrightarrow> s < n \<Longrightarrow> finite (ball E s d)"
  by (rule finite_subset [OF ball_below finite_lessThan])

lemma finite_layer: "edges_below n E \<Longrightarrow> s < n \<Longrightarrow> finite (layer E s d)"
  by (rule finite_subset [OF layer_below finite_lessThan])

lemma card_layers:
  assumes "edges_below n E" "s < n" "d < e"
  shows "card (ball E s d) + card (layer E s e) \<le> card (ball E s e)"
proof -
  have "ball E s d \<inter> layer E s e = {}" using layer_outside [OF assms(3)] by blast
  then have "card (ball E s d \<union> layer E s e) = card (ball E s d) + card (layer E s e)"
    using finite_ball [OF assms(1,2)] finite_layer [OF assms(1,2)] by (simp add: card_Un_disjoint)
  moreover have "ball E s d \<union> layer E s e \<subseteq> ball E s e"
    using layer_subset ball_mono assms(3) by (metis Un_least less_imp_le_nat)
  ultimately show ?thesis
    using card_mono [OF finite_ball [OF assms(1,2)]] by metis
qed

lemma card_ball: "edges_below n E \<Longrightarrow> s < n \<Longrightarrow> card (ball E s d) \<le> n"
  using card_mono [OF finite_lessThan ball_below] by (metis card_lessThan)

text \<open>The measure of a level-by-level search.\<close>

definition search_left :: "nat \<Rightarrow> (nat \<times> nat) set \<Rightarrow> nat \<Rightarrow> nat \<Rightarrow> nat" where
  "search_left n E s d = (if layer E s d = {} then 0 else Suc (n - card (ball E s d)))"

lemma search_left_less:
  assumes E: "edges_below n E" "s < n" and d: "d < e" "layer E s d \<noteq> {}"
  shows "search_left n E s e < search_left n E s d"
proof (cases "layer E s e = {}")
  case True
  then show ?thesis using d by (simp add: search_left_def)
next
  case False
  then have "0 < card (layer E s e)" using finite_layer [OF E] by (simp add: card_gt_0_iff)
  then have "card (ball E s d) < card (ball E s e)" using card_layers [OF E d(1)] by linarith
  then show ?thesis using False d card_ball [OF E, of e] by (simp add: search_left_def)
qed

section \<open>Search trees\<close>

text \<open>
  A parent array is a breadth-first tree when the parent of a reached vertex is one step closer
  to the source, the source is its own parent and every other vertex has -1.
\<close>

definition hangs :: "(nat \<times> nat) set \<Rightarrow> nat \<Rightarrow> int list \<Rightarrow> nat \<Rightarrow> bool" where
  "hangs E s parent v \<longleftrightarrow> (if v = s then parent ! v = int s
     else \<exists>d u. v \<in> layer E s (Suc d) \<and> u \<in> layer E s d \<and> (u, v) \<in> E \<and> parent ! v = int u)"

definition bfs_tree :: "nat \<Rightarrow> (nat \<times> nat) set \<Rightarrow> nat \<Rightarrow> int list \<Rightarrow> bool" where
  "bfs_tree n E s parent \<longleftrightarrow> length parent = n \<and>
     (\<forall>v < n. if (s, v) \<in> E\<^sup>* then hangs E s parent v else parent ! v = -1)"

lemma hangs_nonneg: "hangs E s parent v \<Longrightarrow> 0 \<le> parent ! v"
  by (auto simp: hangs_def split: if_splits)

lemma hangs_cong:
  assumes "parent ! v = parent' ! v"
  shows "hangs E s parent v \<longleftrightarrow> hangs E s parent' v"
  unfolding hangs_def assms by (rule refl)

lemma arcs_below: "graph_ok g \<Longrightarrow> edges_below (nodes g) (arcs (nodes g) (adj g))"
  using gv.arcs_less by (auto simp: edges_below_def)

section \<open>An example\<close>

definition path_rows :: "nat list list" where
  \<comment> \<open>an example: a path of three vertices and an isolated vertex\<close>
  "path_rows = [[1], [0, 2], [1], []]"

lemma path_rows_length: "length path_rows = 4"
  by (simp add: path_rows_def)

definition path_of_three :: "nat csr_graph" where
  "path_of_three = (csr_of_rows path_rows)\<lparr>csr_num_edges := Some 2\<rparr>"

lemma path_of_three_simps:
  "nodes path_of_three = 4" "u < 4 \<Longrightarrow> adj path_of_three u = path_rows ! u"
  using csr_of_rows_simps(1) [of path_rows] csr_of_rows_simps(2) [of u path_rows]
  by (simp_all add: path_of_three_def nodes_def adj_def path_rows_def)

lemma path_of_three_ok: "both_rows path_of_three"
  unfolding path_of_three_def by (rule sym_rows_graph(4)) (code_simp, simp add: path_rows_def)

end
