(* ===== verification/SlidingQueue.thy ===== *)
theory SlidingQueue
  imports Atomics
begin

text \<open>
  src/sliding_queue.h: the double-buffered \<^verbatim>\<open>SlidingQueue\<close>, whose appends are not seen before
  \<open>slide_window\<close>, and the thread-local \<^verbatim>\<open>QueueBuffer\<close>, which collects appends and hands them
  over with one fetch-and-add of the shared tail.  The locale \<open>append_queue\<close> is the contract
  both share: what was pushed is pending in order, and the window does not change.
\<close>

section \<open>SlidingQueue\<close>

record 'a sliding_queue =
  sq_shared :: "'a list"
  sq_shared_in :: nat
  sq_out_start :: nat
  sq_out_end :: nat

definition sq_reset :: "'a sliding_queue \<Rightarrow> 'a sliding_queue" where
  "sq_reset q = q\<lparr>sq_out_start := 0, sq_out_end := 0, sq_shared_in := 0\<rparr>"

definition sq_new :: "nat \<Rightarrow> 'a sliding_queue" where
  "sq_new shared_size = sq_reset
     \<lparr>sq_shared = uninit shared_size, sq_shared_in = 0, sq_out_start = 0, sq_out_end = 0\<rparr>"

definition sq_push_back :: "'a sliding_queue \<Rightarrow> 'a \<Rightarrow> 'a sliding_queue option" where
  "sq_push_back q to_add = do {
     b \<leftarrow> wr (sq_shared q) (sq_shared_in q) to_add;
     Some (q\<lparr>sq_shared_in := sq_shared_in q + 1, sq_shared := b\<rparr>) }"

definition sq_empty :: "'a sliding_queue \<Rightarrow> bool" where
  "sq_empty q \<longleftrightarrow> sq_out_start q = sq_out_end q"

definition sq_slide_window :: "'a sliding_queue \<Rightarrow> 'a sliding_queue" where
  "sq_slide_window q = q\<lparr>sq_out_start := sq_out_end q, sq_out_end := sq_shared_in q\<rparr>"

definition sq_begin :: "'a sliding_queue \<Rightarrow> nat" where
  "sq_begin q = sq_out_start q"

definition sq_end :: "'a sliding_queue \<Rightarrow> nat" where
  "sq_end q = sq_out_end q"

definition sq_size :: "'a sliding_queue \<Rightarrow> nat" where
  "sq_size q = sq_end q - sq_begin q"

definition sq_window :: "'a sliding_queue \<Rightarrow> 'a list" where
  \<comment> \<open>what a loop from \<open>begin()\<close> to \<open>end()\<close> visits\<close>
  "sq_window q = segment (sq_shared q) (sq_begin q) (sq_end q)"

text \<open>The order of the three cursors, and the elements appended since the last slide.\<close>

definition sq_wf :: "'a sliding_queue \<Rightarrow> bool" where
  "sq_wf q \<longleftrightarrow> sq_out_start q \<le> sq_out_end q \<and> sq_out_end q \<le> sq_shared_in q \<and>
     sq_shared_in q \<le> length (sq_shared q)"

definition sq_pending :: "'a sliding_queue \<Rightarrow> 'a list" where
  "sq_pending q = segment (sq_shared q) (sq_out_end q) (sq_shared_in q)"

definition sq_room :: "'a sliding_queue \<Rightarrow> nat" where
  "sq_room q = length (sq_shared q) - sq_shared_in q"

lemmas sq_defs = sq_wf_def sq_pending_def sq_window_def sq_room_def sq_begin_def sq_end_def

section \<open>QueueBuffer\<close>

record 'a queue_buffer =
  qb_in :: nat
  qb_local_queue :: "'a list"
  qb_local_size :: nat

definition qb_default_size :: nat where
  "qb_default_size = 16384"

definition qb_new :: "nat \<Rightarrow> 'a queue_buffer" where
  "qb_new given_size =
     \<lparr>qb_in = 0, qb_local_queue = uninit given_size, qb_local_size = given_size\<rparr>"

definition qb_flush :: "'a queue_buffer \<times> 'a sliding_queue \<Rightarrow> ('a queue_buffer \<times> 'a sliding_queue) option" where
  "qb_flush s = (case s of (qb, q) \<Rightarrow>
     (let (new_in, copy_start) = fetch_and_add (sq_shared_in q) (qb_in qb) in do {
        b \<leftarrow> copy_cells (qb_local_queue qb) (qb_in qb) (sq_shared q) copy_start;
        Some (qb\<lparr>qb_in := 0\<rparr>, q\<lparr>sq_shared_in := new_in, sq_shared := b\<rparr>) }))"

definition qb_push_back :: "'a queue_buffer \<times> 'a sliding_queue \<Rightarrow> 'a \<Rightarrow> ('a queue_buffer \<times> 'a sliding_queue) option" where
  "qb_push_back s to_add = do {
     (qb, q) \<leftarrow> (if qb_in (fst s) = qb_local_size (fst s) then qb_flush s else Some s);
     b \<leftarrow> wr (qb_local_queue qb) (qb_in qb) to_add;
     Some (qb\<lparr>qb_local_queue := b, qb_in := qb_in qb + 1\<rparr>, q) }"

text \<open>A buffer over a queue: what is pending is what the queue and then the buffer hold.\<close>

definition bq_wf :: "'a queue_buffer \<times> 'a sliding_queue \<Rightarrow> bool" where
  "bq_wf s = (case s of (qb, q) \<Rightarrow> sq_wf q \<and> 0 < qb_local_size qb \<and>
     length (qb_local_queue qb) = qb_local_size qb \<and> qb_in qb \<le> qb_local_size qb \<and>
     sq_shared_in q + qb_in qb \<le> length (sq_shared q))"

definition bq_pending :: "'a queue_buffer \<times> 'a sliding_queue \<Rightarrow> 'a list" where
  "bq_pending s = (case s of (qb, q) \<Rightarrow> sq_pending q @ take (qb_in qb) (qb_local_queue qb))"

definition bq_room :: "'a queue_buffer \<times> 'a sliding_queue \<Rightarrow> nat" where
  "bq_room s = (case s of (qb, q) \<Rightarrow> sq_room q - qb_in qb)"

definition bq_window :: "'a queue_buffer \<times> 'a sliding_queue \<Rightarrow> 'a list" where
  "bq_window s = sq_window (snd s)"

section \<open>Facts about copies and appends\<close>

lemma segment_append_copy:
  assumes "i \<le> at" "at \<le> length b"
  shows "segment (take at b @ xs @ ys) i (at + length xs) = segment b i at @ xs"
  using assms by (simp add: segment_def drop_take)

lemma sq_append:
  assumes wf: "sq_wf q" and n: "n \<le> length xs" "n \<le> sq_room q"
  shows "\<exists>b. copy_cells xs n (sq_shared q) (sq_shared_in q) = Some b \<and>
    (let q' = q\<lparr>sq_shared_in := sq_shared_in q + n, sq_shared := b\<rparr> in
       sq_wf q' \<and> sq_window q' = sq_window q \<and> sq_pending q' = sq_pending q @ take n xs \<and>
       sq_room q' = sq_room q - n)"
proof -
  let ?at = "sq_shared_in q" and ?b = "sq_shared q"
  let ?c = "take ?at ?b @ take n xs @ drop (?at + n) ?b"
  have fits: "?at + n \<le> length ?b" using n wf unfolding sq_defs by linarith
  have copy: "copy_cells xs n ?b ?at = Some ?c" using n fits by (simp add: copy_cells_eq)
  have len: "length ?c = length ?b" using fits n by simp
  have win: "segment ?c (sq_out_start q) (sq_out_end q) = segment ?b (sq_out_start q) (sq_out_end q)"
    by (rule segment_below [where k = ?at]) (use wf fits n in \<open>simp_all add: sq_wf_def\<close>)
  have pend: "segment ?c (sq_out_end q) (?at + n) = segment ?b (sq_out_end q) ?at @ take n xs"
    using segment_append_copy [of "sq_out_end q" ?at ?b "take n xs" "drop (?at + n) ?b"] wf n
    by (simp add: sq_wf_def)
  show ?thesis
    by (rule exI [of _ ?c])
      (use copy len win pend wf fits n in \<open>simp add: sq_defs Let_def\<close>)
qed

lemma sq_push_back_spec:
  assumes "sq_wf q" "0 < sq_room q"
  shows "\<exists>q'. sq_push_back q x = Some q' \<and> sq_wf q' \<and> sq_window q' = sq_window q \<and>
    sq_pending q' = sq_pending q @ [x] \<and> sq_room q' = sq_room q - 1"
proof -
  have "copy_cells [x] 1 b at = wr b at x" for b :: "'a list" and at
    by (simp add: copy_cells_def)
  then show ?thesis
    using sq_append [of q 1 "[x]"] assms by (auto simp: sq_push_back_def Let_def wr_eq_Some)
qed

lemma sq_slide_window_spec:
  assumes "sq_wf q"
  shows "sq_wf (sq_slide_window q)" "sq_window (sq_slide_window q) = sq_pending q"
    "sq_pending (sq_slide_window q) = []" "sq_room (sq_slide_window q) = sq_room q"
  using assms by (simp_all add: sq_defs sq_slide_window_def segment_def)

lemma sq_empty_window: "sq_wf q \<Longrightarrow> sq_empty q \<longleftrightarrow> sq_window q = []"
  by (auto simp: sq_empty_def sq_defs segment_def)

lemma sq_size_window: "sq_wf q \<Longrightarrow> sq_size q = length (sq_window q)"
  by (simp add: sq_size_def sq_defs)

lemma sq_new_spec:
  "sq_wf (sq_new n)" "sq_window (sq_new n) = []" "sq_pending (sq_new n) = []" "sq_room (sq_new n) = n"
  by (simp_all add: sq_new_def sq_reset_def sq_defs segment_def)

lemma qb_flush_spec:
  assumes "bq_wf (qb, q)"
  shows "\<exists>q'. qb_flush (qb, q) = Some (qb\<lparr>qb_in := 0\<rparr>, q') \<and> bq_wf (qb\<lparr>qb_in := 0\<rparr>, q') \<and>
    sq_window q' = sq_window q \<and> sq_pending q' = bq_pending (qb, q) \<and> sq_room q' = bq_room (qb, q)"
proof -
  have "qb_in qb \<le> length (qb_local_queue qb)" "qb_in qb \<le> sq_room q" "sq_wf q"
    using assms by (auto simp: bq_wf_def sq_room_def)
  from sq_append [OF this(3,1,2)] show ?thesis
    using assms
    by (auto simp: qb_flush_def fetch_and_add_def Let_def bq_wf_def bq_pending_def bq_room_def sq_wf_def)
qed

lemma bq_put:
  assumes "bq_wf (qb, q)" "qb_in qb < qb_local_size qb" "0 < bq_room (qb, q)"
  shows "\<exists>s'. (do { b \<leftarrow> wr (qb_local_queue qb) (qb_in qb) x;
       Some (qb\<lparr>qb_local_queue := b, qb_in := qb_in qb + 1\<rparr>, q) }) = Some s' \<and> bq_wf s' \<and>
     bq_pending s' = bq_pending (qb, q) @ [x] \<and> bq_window s' = bq_window (qb, q) \<and>
     bq_room s' = bq_room (qb, q) - 1"
  using assms
  by (simp add: bq_wf_def bq_pending_def bq_window_def bq_room_def sq_room_def
    take_Suc_conv_app_nth)

lemma qb_push_back_spec:
  assumes wf: "bq_wf s" and room: "0 < bq_room s"
  shows "\<exists>s'. qb_push_back s x = Some s' \<and> bq_wf s' \<and> bq_pending s' = bq_pending s @ [x] \<and>
    bq_window s' = bq_window s \<and> bq_room s' = bq_room s - 1"
proof (cases s)
  case (Pair qb q)
  show ?thesis
  proof (cases "qb_in qb = qb_local_size qb")
    case False
    then show ?thesis using bq_put [of qb q x] wf room Pair
      by (auto simp: qb_push_back_def bq_wf_def)
  next
    case True
    obtain q' where q': "qb_flush (qb, q) = Some (qb\<lparr>qb_in := 0\<rparr>, q')" "bq_wf (qb\<lparr>qb_in := 0\<rparr>, q')"
      "sq_window q' = sq_window q" "sq_pending q' = bq_pending (qb, q)" "sq_room q' = bq_room (qb, q)"
      using qb_flush_spec wf Pair by blast
    have "bq_pending (qb\<lparr>qb_in := 0\<rparr>, q') = bq_pending s" "bq_window (qb\<lparr>qb_in := 0\<rparr>, q') = bq_window s"
      "bq_room (qb\<lparr>qb_in := 0\<rparr>, q') = bq_room s"
      using q' Pair by (simp_all add: bq_pending_def bq_window_def bq_room_def)
    then show ?thesis using bq_put [of "qb\<lparr>qb_in := 0\<rparr>" q' x] True q'(1,2) wf room Pair
      by (auto simp: qb_push_back_def bq_wf_def)
  qed
qed

section \<open>The interface the kernels use\<close>

locale append_queue =
  fixes push :: "'q \<Rightarrow> 'a \<Rightarrow> 'q option"
    and flush :: "'q \<Rightarrow> 'q option"
    and pending :: "'q \<Rightarrow> 'a list"
    and window :: "'q \<Rightarrow> 'w"
    and room :: "'q \<Rightarrow> nat"
    and inv :: "'q \<Rightarrow> bool"
  assumes push_law: "inv q \<Longrightarrow> 0 < room q \<Longrightarrow> \<exists>q'. push q x = Some q' \<and> inv q' \<and>
      pending q' = pending q @ [x] \<and> window q' = window q \<and> room q' = room q - 1"
    and flush_law: "inv q \<Longrightarrow> \<exists>q'. flush q = Some q' \<and> inv q' \<and> pending q' = pending q \<and>
      window q' = window q \<and> room q' = room q"
begin

lemma returns_push:
  assumes "inv q" "0 < room q"
    and "\<And>q'. inv q' \<Longrightarrow> pending q' = pending q @ [x] \<Longrightarrow> window q' = window q \<Longrightarrow>
      room q' = room q - 1 \<Longrightarrow> P q'"
  shows "returns (push q x) P"
  using push_law [OF assms(1,2), of x] assms(3) by (auto simp: returns_iff)

text \<open>A loop that pushes the elements satisfying a test appends exactly these, in order.\<close>

lemma push_filter:
  assumes "inv q" "length (filter P xs) \<le> room q"
  shows "returns (foldM (\<lambda>x q. if P x then push q x else Some q) xs q)
    (\<lambda>q'. inv q' \<and> pending q' = pending q @ filter P xs \<and> window q' = window q \<and>
       room q' = room q - length (filter P xs))"
  using assms
proof (induction xs arbitrary: q)
  case Nil
  then show ?case by simp
next
  case (Cons x xs)
  show ?case
  proof (cases "P x")
    case True
    with Cons.prems push_law [of q x] obtain q' where
      "push q x = Some q'" "inv q'" "pending q' = pending q @ [x]" "window q' = window q"
      "room q' = room q - 1" by auto
    then show ?thesis using True Cons.IH [of q'] Cons.prems by (auto simp: returns_iff)
  next
    case False
    then show ?thesis using Cons by simp
  qed
qed

lemma push_filter_flush:
  assumes "inv q" "length (filter P xs) \<le> room q"
  shows "returns (foldM (\<lambda>x q. if P x then push q x else Some q) xs q \<bind> flush)
    (\<lambda>q'. inv q' \<and> pending q' = pending q @ filter P xs \<and> window q' = window q \<and>
       room q' = room q - length (filter P xs))"
proof -
  obtain q1 where q1: "foldM (\<lambda>x q. if P x then push q x else Some q) xs q = Some q1" "inv q1"
    "pending q1 = pending q @ filter P xs" "window q1 = window q"
    "room q1 = room q - length (filter P xs)"
    using push_filter [OF assms] by (auto simp: returns_iff)
  with flush_law [OF q1(2)] show ?thesis by (auto simp: returns_iff)
qed

end

interpretation sq: append_queue sq_push_back Some sq_pending sq_window sq_room sq_wf
proof unfold_locales
  fix q :: "'a sliding_queue" and x
  assume "sq_wf q" "0 < sq_room q"
  then show "\<exists>q'. sq_push_back q x = Some q' \<and> sq_wf q' \<and> sq_pending q' = sq_pending q @ [x] \<and>
      sq_window q' = sq_window q \<and> sq_room q' = sq_room q - 1"
    using sq_push_back_spec [of q x] by blast
qed simp

interpretation bq: append_queue qb_push_back qb_flush bq_pending bq_window bq_room bq_wf
proof unfold_locales
  fix q :: "'a queue_buffer \<times> 'a sliding_queue" and x
  show "\<exists>q'. qb_push_back q x = Some q' \<and> bq_wf q' \<and> bq_pending q' = bq_pending q @ [x] \<and>
      bq_window q' = bq_window q \<and> bq_room q' = bq_room q - 1" if "bq_wf q" "0 < bq_room q"
    by (rule qb_push_back_spec [OF that])
  show "\<exists>q'. qb_flush q = Some q' \<and> bq_wf q' \<and> bq_pending q' = bq_pending q \<and>
      bq_window q' = bq_window q \<and> bq_room q' = bq_room q" if "bq_wf q"
  proof (cases q)
    case (Pair qb sq)
    then show ?thesis using qb_flush_spec [of qb sq] that
      by (auto simp: bq_pending_def bq_window_def bq_room_def)
  qed
qed

section \<open>Everything that was pushed\<close>

text \<open>
  A kernel that keeps positions of the queue needs more than the window and the pending elements: all that was
  pushed since the last reset stays where it is.  The contract is the same with this list and the cursors
  of the window in the two roles.
\<close>

definition sq_all :: "'a sliding_queue \<Rightarrow> 'a list" where
  "sq_all q = take (sq_shared_in q) (sq_shared q)"

definition bq_all :: "'a queue_buffer \<times> 'a sliding_queue \<Rightarrow> 'a list" where
  "bq_all s = (case s of (qb, q) \<Rightarrow> sq_all q @ take (qb_in qb) (qb_local_queue qb))"

definition bq_cursors :: "'a queue_buffer \<times> 'a sliding_queue \<Rightarrow> nat \<times> nat" where
  "bq_cursors s = (sq_begin (snd s), sq_end (snd s))"

lemma qb_flush_all:
  assumes wf: "bq_wf (qb, q)" and flush: "qb_flush (qb, q) = Some s'"
  shows "bq_all s' = bq_all (qb, q)" "bq_cursors s' = bq_cursors (qb, q)" "qb_in (fst s') = 0"
proof -
  have le: "qb_in qb \<le> length (qb_local_queue qb)" "sq_shared_in q + qb_in qb \<le> length (sq_shared q)"
    using wf by (auto simp: bq_wf_def)
  then show "bq_all s' = bq_all (qb, q)" "bq_cursors s' = bq_cursors (qb, q)" "qb_in (fst s') = 0"
    using flush copy_cells_eq [OF le]
    by (auto simp: qb_flush_def fetch_and_add_def bq_all_def sq_all_def bq_cursors_def sq_begin_def sq_end_def min_def)
qed

lemma qb_push_back_all:
  assumes wf: "bq_wf s" and room: "0 < bq_room s" and push: "qb_push_back s x = Some s'"
  shows "bq_all s' = bq_all s @ [x]" "bq_cursors s' = bq_cursors s"
proof -
  obtain qb q where s: "s = (qb, q)" by (cases s)
  obtain qb1 q1 where m: "(if qb_in qb = qb_local_size qb then qb_flush s else Some s) = Some (qb1, q1)"
    using push by (auto simp: qb_push_back_def s bind_eq_Some_conv split: if_splits)
  have all: "bq_all (qb1, q1) = bq_all s" "bq_cursors (qb1, q1) = bq_cursors s"
    using m qb_flush_all [of qb q "(qb1, q1)"] wf by (auto simp: s split: if_splits)
  have put: "wr (qb_local_queue qb1) (qb_in qb1) x = Some (qb_local_queue (fst s'))" "qb_in (fst s') = qb_in qb1 + 1" "snd s' = q1"
    using push m by (auto simp: qb_push_back_def s bind_eq_Some_conv split: if_splits)
  obtain qb' where s': "s' = (qb', q1)" using put(3) by (cases s') auto
  have "qb_in qb1 < length (qb_local_queue qb1)" "qb_local_queue qb' = (qb_local_queue qb1)[qb_in qb1 := x]"
    using put(1) by (auto simp: wr_eq_Some s')
  then show "bq_all s' = bq_all s @ [x]" "bq_cursors s' = bq_cursors s"
    unfolding all [symmetric] using put(2) by (simp_all add: s' bq_all_def bq_cursors_def take_Suc_conv_app_nth)
qed

interpretation aq: append_queue qb_push_back qb_flush bq_all bq_cursors bq_room bq_wf
proof unfold_locales
  fix q :: "'a queue_buffer \<times> 'a sliding_queue" and x
  show "\<exists>q'. qb_push_back q x = Some q' \<and> bq_wf q' \<and> bq_all q' = bq_all q @ [x] \<and>
      bq_cursors q' = bq_cursors q \<and> bq_room q' = bq_room q - 1" if "bq_wf q" "0 < bq_room q"
    using qb_push_back_spec [OF that, of x] qb_push_back_all [OF that] by metis
  show "\<exists>q'. qb_flush q = Some q' \<and> bq_wf q' \<and> bq_all q' = bq_all q \<and>
      bq_cursors q' = bq_cursors q \<and> bq_room q' = bq_room q" if "bq_wf q"
  proof (cases q)
    case (Pair qb sq)
    then show ?thesis using bq.flush_law [OF that] qb_flush_all [of qb sq] that by metis
  qed
qed

section \<open>Properties\<close>

text \<open>C32: A buffered queue is a queue.  Pushing elements through a buffer of any size and flushing it leaves the
  same window and the same pending elements, in the same order, as pushing them one by one; no
  write leaves the shared array as long as the elements fit.\<close>

lemma QueueBuffer_refines:
  assumes q: "sq_wf q" and xs: "length xs \<le> sq_room q" and k: "0 < k"
  shows "\<exists>qb q' q''. (foldM (\<lambda>x s. qb_push_back s x) xs (qb_new k, q) \<bind> qb_flush) = Some (qb, q') \<and>
    foldM (\<lambda>x q. sq_push_back q x) xs q = Some q'' \<and>
    sq_pending q' = sq_pending q @ xs \<and> sq_pending q'' = sq_pending q @ xs \<and>
    sq_window q' = sq_window q \<and> sq_window q'' = sq_window q \<and> sq_wf q' \<and> sq_wf q''"
proof -
  have b: "bq_wf (qb_new k, q)" "bq_pending (qb_new k, q) = sq_pending q" "bq_room (qb_new k, q) = sq_room q"
    "bq_window (qb_new k, q) = sq_window q"
    using q k by (simp_all add: bq_wf_def bq_pending_def bq_room_def bq_window_def qb_new_def sq_wf_def)
  obtain qb q1 where m: "foldM (\<lambda>x s. qb_push_back s x) xs (qb_new k, q) = Some (qb, q1)" "bq_wf (qb, q1)"
    "bq_pending (qb, q1) = sq_pending q @ xs" "bq_window (qb, q1) = sq_window q"
    using returns_ex [OF bq.push_filter [of "(qb_new k, q)" "\<lambda>_. True" xs]] b xs by auto
  obtain q' where q': "qb_flush (qb, q1) = Some (qb\<lparr>qb_in := 0\<rparr>, q')" "bq_wf (qb\<lparr>qb_in := 0\<rparr>, q')"
    "sq_window q' = sq_window q1" "sq_pending q' = bq_pending (qb, q1)"
    using qb_flush_spec [OF m(2)] by blast
  obtain q'' where "foldM (\<lambda>x q. sq_push_back q x) xs q = Some q''" "sq_wf q''" "sq_pending q'' = sq_pending q @ xs"
    "sq_window q'' = sq_window q"
    using returns_ex [OF sq.push_filter [of q "\<lambda>_. True" xs]] q xs by auto
  then show ?thesis using m q' by (auto simp: bq_window_def bq_wf_def)
qed

lemma QueueBuffer_refines_witness:
  "\<exists>qb q'. (foldM (\<lambda>x s. qb_push_back s x) [4, 5, 6] (qb_new 2, sq_new 3) \<bind> qb_flush) = Some (qb, q') \<and> sq_pending q' = [4, 5, 6 :: nat]"
  using QueueBuffer_refines [of "sq_new 3" "[4, 5, 6 :: nat]" 2] by (auto simp: sq_new_spec)

end
