(* ===== verification/BFS.thy ===== *)
theory BFS
  imports Distance Bitmap SlidingQueue Bench
begin

text \<open>
  The direction-optimizing breadth-first search of src/bfs.cc.  The parent of an unvisited
  vertex is negative.  Loops over vertices and over the queue run in order; the thread's
  \<^verbatim>\<open>QueueBuffer\<close> is the one of a single thread.  The search switches direction on counts that do
  not influence its result, so \<open>alpha\<close> and \<open>beta\<close> are arbitrary.
\<close>

section \<open>The steps\<close>

definition to_NodeID :: "int \<Rightarrow> int" where
  \<comment> \<open>conversion to a 32-bit id\<close>
  "to_NodeID x = sint (word_of_int x :: 32 word)"

definition InitParent :: "nat csr_graph \<Rightarrow> int list option" where
  "InitParent g = foldM (\<lambda>n parent. do {
     d \<leftarrow> out_degree g n;
     wr parent n (to_NodeID (if d \<noteq> 0 then - d else -1)) }) (vertices g) (uninit (nat (csr_num_nodes g)))"

fun find_awake :: "bitmap \<Rightarrow> nat list \<Rightarrow> nat option option" where
  \<comment> \<open>the first neighbour in the frontier; the loop breaks there\<close>
  "find_awake front [] = Some None"
| "find_awake front (v # vs) = do {
     b \<leftarrow> get_vertex_bit front v;
     if b then Some (Some v) else find_awake front vs }"

definition bu_vertex :: "nat csr_graph \<Rightarrow> bitmap \<Rightarrow> nat \<Rightarrow> int \<times> int list \<times> bitmap \<Rightarrow> (int \<times> int list \<times> bitmap) option" where
  "bu_vertex g front u s = (case s of (awake_count, parent, next_bm) \<Rightarrow> do {
     p \<leftarrow> rd parent u;
     if p < 0 then do {
       vs \<leftarrow> in_neigh g u 0;
       found \<leftarrow> find_awake front vs;
       case found of None \<Rightarrow> Some (awake_count, parent, next_bm)
         | Some v \<Rightarrow> do {
             parent \<leftarrow> wr parent u (int v);
             next_bm \<leftarrow> set_vertex_bit next_bm u;
             Some (awake_count + 1, parent, next_bm) } }
     else Some (awake_count, parent, next_bm) })"

definition BUStep :: "nat csr_graph \<Rightarrow> int list \<Rightarrow> bitmap \<Rightarrow> bitmap \<Rightarrow> (int \<times> int list \<times> bitmap) option" where
  "BUStep g parent front next_bm = foldM (bu_vertex g front) (vertices g) (0, parent, bm_reset next_bm)"

definition td_edge :: "nat \<Rightarrow> nat \<Rightarrow> int \<times> int list \<times> nat queue_buffer \<times> nat sliding_queue \<Rightarrow>
    (int \<times> int list \<times> nat queue_buffer \<times> nat sliding_queue) option" where
  "td_edge u v s = (case s of (scout_count, parent, lq) \<Rightarrow> do {
     curr_val \<leftarrow> rd parent v;
     if curr_val < 0 then do {
       cell \<leftarrow> rd parent v;
       let (new, swapped) = compare_and_swap cell curr_val (int u);
       parent \<leftarrow> wr parent v new;
       if swapped then do { lq \<leftarrow> qb_push_back lq v; Some (scout_count + - curr_val, parent, lq) }
       else Some (scout_count, parent, lq) }
     else Some (scout_count, parent, lq) })"

definition TDStep :: "nat csr_graph \<Rightarrow> int list \<Rightarrow> nat sliding_queue \<Rightarrow> (int \<times> int list \<times> nat sliding_queue) option" where
  "TDStep g parent queue = do {
     (scout_count, parent, lq) \<leftarrow> foldM (\<lambda>u s. do { vs \<leftarrow> out_neigh g u 0; foldM (td_edge u) vs s })
        (sq_window queue) (0, parent, qb_new qb_default_size, queue);
     (lqueue, queue) \<leftarrow> qb_flush lq;
     Some (scout_count, parent, queue) }"

definition QueueToBitmap :: "nat sliding_queue \<Rightarrow> bitmap \<Rightarrow> bitmap option" where
  "QueueToBitmap queue bm = foldM (\<lambda>u bm. set_vertex_bit_atomic bm u) (sq_window queue) bm"

definition BitmapToQueue :: "nat csr_graph \<Rightarrow> bitmap \<Rightarrow> nat sliding_queue \<Rightarrow> nat sliding_queue option" where
  "BitmapToQueue g bm queue = do {
     lq \<leftarrow> foldM (\<lambda>n lq. do { b \<leftarrow> get_vertex_bit bm n; if b then qb_push_back lq n else Some lq })
        (vertices g) (qb_new qb_default_size, queue);
     (lqueue, queue) \<leftarrow> qb_flush lq;
     Some (sq_slide_window queue) }"

section \<open>The search\<close>

partial_function (option) bu_loop ::
  "nat csr_graph \<Rightarrow> int \<Rightarrow> int \<Rightarrow> int list \<Rightarrow> bitmap \<Rightarrow> bitmap \<Rightarrow> (int list \<times> bitmap \<times> bitmap) option" where
  "bu_loop g beta old_awake_count parent front cur = do {
     (awake_count, parent, cur) \<leftarrow> BUStep g parent front cur;
     let (front, cur) = bm_swap front cur;
     q \<leftarrow> div_trunc (csr_num_nodes g) beta;
     if awake_count \<ge> old_awake_count \<or> awake_count > q
     then bu_loop g beta awake_count parent front cur
     else Some (parent, front, cur) }"

partial_function (option) bfs_loop ::
  "nat csr_graph \<Rightarrow> int \<Rightarrow> int \<Rightarrow> int \<Rightarrow> int \<Rightarrow> int list \<Rightarrow> nat sliding_queue \<Rightarrow> bitmap \<Rightarrow> bitmap \<Rightarrow> int list option" where
  "bfs_loop g alpha beta edges_to_check scout_count parent queue front cur =
     (if sq_empty queue then Some parent
      else do {
        q \<leftarrow> div_trunc edges_to_check alpha;
        if scout_count > q then do {
          front \<leftarrow> QueueToBitmap queue front;
          let awake_count = int (sq_size queue);
          let queue = sq_slide_window queue;
          (parent, front, cur) \<leftarrow> bu_loop g beta awake_count parent front cur;
          queue \<leftarrow> BitmapToQueue g front queue;
          bfs_loop g alpha beta edges_to_check 1 parent queue front cur }
        else do {
          let edges_to_check = edges_to_check - scout_count;
          (scout_count, parent, queue) \<leftarrow> TDStep g parent queue;
          bfs_loop g alpha beta edges_to_check scout_count parent (sq_slide_window queue) front cur } })"

definition DOBFS :: "nat csr_graph \<Rightarrow> int \<Rightarrow> int \<Rightarrow> int \<Rightarrow> int list option" where
  "DOBFS g source alpha beta = (if source < 0 then None else do {
     parent \<leftarrow> InitParent g;
     parent \<leftarrow> wr parent (nat source) source;
     let queue = sq_new (nat (csr_num_nodes g));
     queue \<leftarrow> sq_push_back queue (nat source);
     let queue = sq_slide_window queue;
     let cur = bm_reset (bm_new (word_of_int (csr_num_nodes g)));
     let front = bm_reset (bm_new (word_of_int (csr_num_nodes g)));
     edges_to_check \<leftarrow> num_edges_directed g;
     scout_count \<leftarrow> out_degree g (nat source);
     parent \<leftarrow> bfs_loop g alpha beta edges_to_check scout_count parent queue front cur;
     foldM (\<lambda>n parent. do { p \<leftarrow> rd parent n; if p < -1 then wr parent n (-1) else Some parent })
       (vertices g) parent })"

definition PrintBFSStats :: "nat csr_graph \<Rightarrow> int list \<Rightarrow> (int \<times> int) option" where
  \<comment> \<open>the two numbers that are printed: the vertices of the tree and their edges\<close>
  "PrintBFSStats g tree = foldM (\<lambda>n (tree_size, n_edges). do {
     p \<leftarrow> rd tree n;
     if p \<ge> 0 then do { d \<leftarrow> out_degree g n; Some (tree_size + 1, n_edges + d) }
     else Some (tree_size, n_edges) }) (vertices g) (0, 0)"

section \<open>One level of the search\<close>

text \<open>The parents after d levels: the vertices of the ball hang in the tree, the others are negative.\<close>

abbreviation edges_of :: "nat csr_graph \<Rightarrow> (nat \<times> nat) set" where
  "edges_of g \<equiv> arcs (nodes g) (adj g)"

definition tree_upto :: "nat csr_graph \<Rightarrow> nat \<Rightarrow> nat set \<Rightarrow> int list \<Rightarrow> bool" where
  "tree_upto g s B parent \<longleftrightarrow> length parent = nodes g \<and>
     (\<forall>v < nodes g. if v \<in> B then hangs (edges_of g) s parent v else parent ! v < 0)"

lemma tree_upto_visited: "tree_upto g s B parent \<Longrightarrow> v < nodes g \<Longrightarrow> parent ! v < 0 \<longleftrightarrow> v \<notin> B"
  using hangs_nonneg by (fastforce simp: tree_upto_def)

lemma tree_upto_length: "tree_upto g s B parent \<Longrightarrow> length parent = nodes g"
  by (simp add: tree_upto_def)

lemma tree_upto_insert:
  assumes t: "tree_upto g s B parent" and s: "s \<in> B"
    and v: "v \<notin> B" "v < nodes g" "v \<in> layer (edges_of g) s (Suc d)" "u \<in> layer (edges_of g) s d"
    "(u, v) \<in> edges_of g"
  shows "tree_upto g s (insert v B) (parent[v := int u])"
proof -
  have "hangs (edges_of g) s (parent[v := int u]) v"
    using v s t by (auto simp: hangs_def tree_upto_def)
  moreover have "hangs (edges_of g) s (parent[v := int u]) x" if "x \<in> B" "hangs (edges_of g) s parent x" for x
  proof -
    have "x \<noteq> v" using that v by blast
    then show ?thesis using that hangs_cong [of parent x "parent[v := int u]"] by simp
  qed
  ultimately show ?thesis using t by (auto simp: tree_upto_def nth_list_update)
qed

lemma find_awake_eq:
  assumes "\<And>v. v \<in> set vs \<Longrightarrow> v < bm_cap front"
  shows "find_awake front vs = Some (List.find (\<lambda>v. v \<in> bm_bits front) vs)"
  using assms by (induction vs) (simp_all add: bm.get_elems)

lemma BUStep_level:
  assumes g: "both_rows g" and s: "s < nodes g"
    and t: "tree_upto g s (ball (edges_of g) s d) parent"
    and front: "layer (edges_of g) s d \<subseteq> bm_bits front" "bm_bits front \<subseteq> ball (edges_of g) s d" "nodes g \<le> bm_cap front"
    and cap: "nodes g \<le> bm_cap next_bm"
  shows "returns (BUStep g parent front next_bm) (\<lambda>(awake, parent', next').
    tree_upto g s (ball (edges_of g) s (Suc d)) parent' \<and> bm_bits next' = layer (edges_of g) s (Suc d) \<and>
    bm_cap next' = bm_cap next_bm \<and> awake = int (card (layer (edges_of g) s (Suc d))))"
proof -
  let ?E = "edges_of g" and ?n = "nodes g"
  let ?L = "layer ?E s (Suc d)" and ?B = "ball ?E s d"
  have ok: "graph_ok g" using g by (simp add: both_rows_def)
  have below: "?L \<subseteq> {..<?n}" by (rule layer_below [OF arcs_below [OF ok] s])
  have BL: "ball ?E s (Suc d) = ?B \<union> ?L" using ball_mono [of d "Suc d" ?E s] by (auto simp: layer_def)
  have target: "?L = {u. u < ?n \<and> u \<notin> ?B \<and> (\<exists>v \<in> set (inv_adj g u). v \<in> bm_bits front)}"
  proof (intro equalityI subsetI)
    fix u assume u: "u \<in> ?L"
    then obtain v where "v \<in> layer ?E s d" "(v, u) \<in> ?E" "u \<notin> ?B" by (auto simp: layer_Suc)
    moreover have "v < ?n" "u < ?n" using calculation gv.arcs_less [OF ok] by blast+
    ultimately show "u \<in> {u. u < ?n \<and> u \<notin> ?B \<and> (\<exists>v \<in> set (inv_adj g u). v \<in> bm_bits front)}"
      using g front(1) by (auto simp: both_rows_def arcs_def)
  next
    fix u assume "u \<in> {u. u < ?n \<and> u \<notin> ?B \<and> (\<exists>v \<in> set (inv_adj g u). v \<in> bm_bits front)}"
    then obtain v where u: "u < ?n" "u \<notin> ?B" "v \<in> set (inv_adj g u)" "v \<in> bm_bits front" by auto
    then have "(v, u) \<in> ?E"
      using g front(2) ball_below [OF arcs_below [OF ok] s, of d] by (auto simp: both_rows_def arcs_def)
    then show "u \<in> ?L" using neighbour_in_layer(2) [of u ?E s d v] u front(2) by blast
  qed
  show ?thesis
    unfolding BUStep_def vertices_nodes
  proof (rule foldM_upt_rule [where I = "\<lambda>i (awake, parent', next').
      tree_upto g s (?B \<union> {v \<in> ?L. v < i}) parent' \<and> bm_bits next' = {v \<in> ?L. v < i} \<and>
      bm_cap next' = bm_cap next_bm \<and> awake = int (card {v \<in> ?L. v < i})"])
    show "case (0, parent, bm_reset next_bm) of (awake, parent', next') \<Rightarrow>
      tree_upto g s (?B \<union> {v \<in> ?L. v < 0}) parent' \<and> bm_bits next' = {v \<in> ?L. v < 0} \<and>
      bm_cap next' = bm_cap next_bm \<and> awake = int (card {v \<in> ?L. v < 0})"
      using t by (simp add: bm.clear_elems bm.clear_cap)
  next
    fix u st
    assume u: "u < ?n" and I: "case st of (awake, parent', next') \<Rightarrow>
      tree_upto g s (?B \<union> {v \<in> ?L. v < u}) parent' \<and> bm_bits next' = {v \<in> ?L. v < u} \<and>
      bm_cap next' = bm_cap next_bm \<and> awake = int (card {v \<in> ?L. v < u})"
    obtain a p b where st: "st = (a, p, b)" by (cases st)
    have p: "tree_upto g s (?B \<union> {v \<in> ?L. v < u}) p" and b: "bm_bits b = {v \<in> ?L. v < u}" "bm_cap b = bm_cap next_bm"
      and a: "a = int (card {v \<in> ?L. v < u})" using I by (simp_all add: st)
    have len: "length p = ?n" by (rule tree_upto_length [OF p])
    have neg: "p ! u < 0 \<longleftrightarrow> u \<notin> ?B" using tree_upto_visited [OF p u] by simp
    have vs: "in_neigh g u 0 = Some (inv_adj g u)" using graph_ok_neigh(2) [OF ok u] by simp
    have find: "find_awake front (inv_adj g u) = Some (List.find (\<lambda>v. v \<in> bm_bits front) (inv_adj g u))"
      using inv_adj_range [OF ok [unfolded graph_ok_def] u] front(3) by (intro find_awake_eq) (meson order_less_le_trans)
    show "returns (bu_vertex g front u st) (\<lambda>(awake, parent', next').
      tree_upto g s (?B \<union> {v \<in> ?L. v < Suc u}) parent' \<and> bm_bits next' = {v \<in> ?L. v < Suc u} \<and>
      bm_cap next' = bm_cap next_bm \<and> awake = int (card {v \<in> ?L. v < Suc u}))"
    proof (cases "u \<in> ?L")
      case False
      then have same: "{v \<in> ?L. v < Suc u} = {v \<in> ?L. v < u}" by (auto simp: less_Suc_eq)
      have "u \<notin> ?B \<Longrightarrow> List.find (\<lambda>v. v \<in> bm_bits front) (inv_adj g u) = None"
        using False u unfolding target by (auto simp: find_None_iff)
      then show ?thesis using p b a u len neg vs find
        by (simp add: st bu_vertex_def same)
    next
      case True
      then have step: "{v \<in> ?L. v < Suc u} = insert u {v \<in> ?L. v < u}" by (auto simp: less_Suc_eq)
      have uB: "u \<notin> ?B" using True by (auto simp: layer_Suc)
      obtain v where v: "List.find (\<lambda>v. v \<in> bm_bits front) (inv_adj g u) = Some v"
        "v \<in> set (inv_adj g u)" "v \<in> bm_bits front"
        using True unfolding target
        by (cases "List.find (\<lambda>v. v \<in> bm_bits front) (inv_adj g u)") (auto simp: find_None_iff find_Some_iff)
      have vB: "v \<in> ?B" using v(3) front(2) by blast
      have "v < ?n" using vB ball_below [OF arcs_below [OF ok] s] by blast
      then have vu: "(v, u) \<in> ?E" using g u v(2) by (auto simp: both_rows_def arcs_def)
      have "tree_upto g s (insert u (?B \<union> {v \<in> ?L. v < u})) (p[u := int v])"
        by (rule tree_upto_insert [OF p]) (use uB u True vu neighbour_in_layer(1) [OF uB vB vu] in auto)
      moreover have "insert u (?B \<union> {v \<in> ?L. v < u}) = ?B \<union> insert u {v \<in> ?L. v < u}" by blast
      ultimately have p': "tree_upto g s (?B \<union> {v \<in> ?L. v < Suc u}) (p[u := int v])" unfolding step by (simp only:)
      obtain b' where b': "set_vertex_bit b u = Some b'" "bm_bits b' = insert u (bm_bits b)" "bm_cap b' = bm_cap b"
        using bm.put_elems [of u b] u cap b(2) by auto
      have "card {v \<in> ?L. v < Suc u} = Suc (card {v \<in> ?L. v < u})"
        unfolding step by (rule card_insert_disjoint) (use finite_layer [OF arcs_below [OF ok] s] in simp_all)
      moreover have "bu_vertex g front u st = Some (a + 1, p[u := int v], b')"
        using find v(1) b'(1) u len neg vs uB by (simp add: st bu_vertex_def)
      moreover have "bm_bits b' = {v \<in> ?L. v < Suc u}" unfolding step b'(2) b(1) ..
      ultimately show ?thesis using p' b'(3) b(2) a by simp
    qed
  next
    fix st
    assume I: "case st of (awake, parent', next') \<Rightarrow>
      tree_upto g s (?B \<union> {v \<in> ?L. v < ?n}) parent' \<and> bm_bits next' = {v \<in> ?L. v < ?n} \<and>
      bm_cap next' = bm_cap next_bm \<and> awake = int (card {v \<in> ?L. v < ?n})"
    have all: "{v \<in> ?L. v < ?n} = ?L" using below by auto
    show "case st of (awake, parent', next') \<Rightarrow>
      tree_upto g s (ball ?E s (Suc d)) parent' \<and> bm_bits next' = ?L \<and>
      bm_cap next' = bm_cap next_bm \<and> awake = int (card ?L)"
      using I unfolding all BL .
  qed
qed


text \<open>
  Top-down: after the edges of some frontier vertices are done, the set \<open>X\<close> of their targets is
  visited, and the queue holds those of them that the step found.
\<close>

definition td_inv :: "nat csr_graph \<Rightarrow> nat \<Rightarrow> nat \<Rightarrow> nat set \<Rightarrow>
    int \<times> int list \<times> nat queue_buffer \<times> nat sliding_queue \<Rightarrow> bool" where
  "td_inv g s d X st = (case st of (scout, parent, lq) \<Rightarrow>
     tree_upto g s (ball (edges_of g) s d \<union> X) parent \<and> X \<subseteq> edges_of g `` layer (edges_of g) s d \<and>
     bq_wf lq \<and> distinct (bq_pending lq) \<and> set (bq_pending lq) = X - ball (edges_of g) s d \<and>
     nodes g - card (ball (edges_of g) s d \<union> X) \<le> bq_room lq)"

lemma td_edge_step:
  assumes ok: "graph_ok g" and s: "s < nodes g" and I: "td_inv g s d X st"
    and u: "u \<in> layer (edges_of g) s d" and uv: "(u, v) \<in> edges_of g"
  shows "returns (td_edge u v st) (td_inv g s d (insert v X))"
proof -
  let ?B = "ball (edges_of g) s d"
  obtain sc p lq where st: "st = (sc, p, lq)" by (cases st)
  have p: "tree_upto g s (?B \<union> X) p" and X: "X \<subseteq> edges_of g `` layer (edges_of g) s d"
    and lq: "bq_wf lq" "distinct (bq_pending lq)" "set (bq_pending lq) = X - ball (edges_of g) s d"
      "nodes g - card (?B \<union> X) \<le> bq_room lq"
    using I by (simp_all add: td_inv_def st)
  have v: "v < nodes g" using gv.arcs_less [OF ok uv] by simp
  have len: "length p = nodes g" by (rule tree_upto_length [OF p])
  have neg: "p ! v < 0 \<longleftrightarrow> v \<notin> ?B \<union> X" by (rule tree_upto_visited [OF p v])
  have X': "insert v X \<subseteq> edges_of g `` layer (edges_of g) s d" using X u uv by blast
  show ?thesis
  proof (cases "v \<in> ?B \<union> X")
    case True
    then have "?B \<union> insert v X = ?B \<union> X" "insert v X - ?B = X - ?B" by auto
    then have "td_inv g s d (insert v X) st"
      unfolding td_inv_def st prod.case using p X' lq by (simp only:)
    then show ?thesis using True neg v len by (simp add: st td_edge_def)
  next
    case False
    have below: "?B \<union> X \<subseteq> {..<nodes g}"
    proof
      fix x assume "x \<in> ?B \<union> X"
      then show "x \<in> {..<nodes g}"
        using ball_below [OF arcs_below [OF ok] s] X gv.arcs_less [OF ok] by blast
    qed
    have fin: "finite (?B \<union> X)" by (rule finite_subset [OF below finite_lessThan])
    have more: "card (insert v (?B \<union> X)) = Suc (card (?B \<union> X))"
      by (rule card_insert_disjoint) (use fin False in simp_all)
    moreover have "card (insert v (?B \<union> X)) \<le> nodes g"
      using card_mono [OF finite_lessThan, of "insert v (?B \<union> X)" "nodes g"] below v by simp
    ultimately have room: "0 < bq_room lq" "nodes g - card (insert v (?B \<union> X)) \<le> bq_room lq - 1"
      using lq(4) by linarith+
    obtain lq' where lq': "qb_push_back lq v = Some lq'" "bq_wf lq'" "bq_pending lq' = bq_pending lq @ [v]"
      "bq_room lq' = bq_room lq - 1"
      using bq.push_law [OF lq(1) room(1), of v] by blast
    have "v \<in> layer (edges_of g) s (Suc d)" using False u uv by (auto simp: layer_Suc)
    then have t: "tree_upto g s (insert v (?B \<union> X)) (p[v := int u])"
      by (intro tree_upto_insert [OF p]) (use False v u uv in auto)
    have eq: "?B \<union> insert v X = insert v (?B \<union> X)" "insert v X - ?B = insert v (X - ?B)" using False by auto
    have "td_inv g s d (insert v X) (sc + - (p ! v), p[v := int u], lq')"
      unfolding td_inv_def prod.case eq
      using t X' lq lq' room(2) False by simp
    then show ?thesis using False neg v len lq'(1) by (simp add: st td_edge_def)
  qed
qed

definition queue_at :: "nat csr_graph \<Rightarrow> nat \<Rightarrow> nat \<Rightarrow> nat sliding_queue \<Rightarrow> bool" where
  \<comment> \<open>the queue shows layer d, nothing is pending, and the unvisited vertices still fit\<close>
  "queue_at g s d queue \<longleftrightarrow> sq_wf queue \<and> set (sq_window queue) = layer (edges_of g) s d \<and>
     distinct (sq_window queue) \<and> sq_pending queue = [] \<and>
     nodes g - card (ball (edges_of g) s d) \<le> sq_room queue"

lemma qb_new_wf:
  assumes "sq_wf q"
  shows "bq_wf (qb_new qb_default_size, q)" "bq_pending (qb_new qb_default_size, q) = sq_pending q"
    "bq_room (qb_new qb_default_size, q) = sq_room q"
  using assms by (simp_all add: bq_wf_def bq_pending_def bq_room_def qb_new_def qb_default_size_def sq_wf_def)

lemma TDStep_level:
  assumes ok: "graph_ok g" and s: "s < nodes g"
    and t: "tree_upto g s (ball (edges_of g) s d) parent" and q: "queue_at g s d queue"
  shows "returns (TDStep g parent queue) (\<lambda>(scout, parent', queue').
    tree_upto g s (ball (edges_of g) s (Suc d)) parent' \<and> queue_at g s (Suc d) (sq_slide_window queue'))"
proof -
  let ?B = "ball (edges_of g) s d" and ?E = "edges_of g"
  have q': "sq_wf queue" "set (sq_window queue) = layer ?E s d" "sq_pending queue = []"
    "nodes g - card ?B \<le> sq_room queue" using q by (simp_all add: queue_at_def)
  have "returns (foldM (\<lambda>u st. do { vs \<leftarrow> out_neigh g u 0; foldM (td_edge u) vs st })
      (sq_window queue) (0, parent, qb_new qb_default_size, queue)) (td_inv g s d (?E `` layer ?E s d))"
  proof (rule foldM_set_rule [where I = "\<lambda>D. td_inv g s d (?E `` D)"])
    show "td_inv g s d (?E `` {}) (0, parent, qb_new qb_default_size, queue)"
      using t q' by (simp add: td_inv_def qb_new_wf)
  next
    fix u D st
    assume u: "u \<in> set (sq_window queue)" and I: "td_inv g s d (?E `` D) st"
    have ul: "u \<in> layer ?E s d" using u q'(2) by simp
    then have un: "u < nodes g" using layer_below [OF arcs_below [OF ok] s] by blast
    have "returns (foldM (td_edge u) (adj g u) st) (td_inv g s d (?E `` D \<union> set (adj g u)))"
    proof (rule foldM_set_rule [where I = "\<lambda>V. td_inv g s d (?E `` D \<union> V)"])
      fix v V st
      assume "v \<in> set (adj g u)" "td_inv g s d (?E `` D \<union> V) st"
      moreover have "(u, v) \<in> ?E" using \<open>v \<in> set (adj g u)\<close> un by (simp add: arcs_def)
      ultimately show "returns (td_edge u v st) (td_inv g s d (?E `` D \<union> insert v V))"
        using td_edge_step [OF ok s _ ul, of "?E `` D \<union> V" st v] by simp
    qed (use I in simp_all)
    moreover have "?E `` D \<union> set (adj g u) = ?E `` insert u D" using un by (auto simp: arcs_def)
    ultimately show "returns (do { vs \<leftarrow> out_neigh g u 0; foldM (td_edge u) vs st }) (td_inv g s d (?E `` insert u D))"
      using graph_ok_neigh(1) [OF ok un] by simp
  qed (simp add: q'(2))
  then obtain sc p qb qq where l: "foldM (\<lambda>u st. do { vs \<leftarrow> out_neigh g u 0; foldM (td_edge u) vs st })
      (sq_window queue) (0, parent, qb_new qb_default_size, queue) = Some (sc, p, qb, qq)"
    "td_inv g s d (?E `` layer ?E s d) (sc, p, qb, qq)" by (auto simp: returns_iff)
  have ball: "?B \<union> ?E `` layer ?E s d = ball ?E s (Suc d)" by (rule ball_Suc_layer [symmetric])
  have lay: "?E `` layer ?E s d - ?B = layer ?E s (Suc d)" by (rule layer_Suc [symmetric])
  have inv: "tree_upto g s (ball ?E s (Suc d)) p" "bq_wf (qb, qq)" "distinct (bq_pending (qb, qq))"
    "set (bq_pending (qb, qq)) = layer ?E s (Suc d)" "nodes g - card (ball ?E s (Suc d)) \<le> bq_room (qb, qq)"
    using l(2) unfolding td_inv_def prod.case ball lay by simp_all
  obtain q2 where q2: "qb_flush (qb, qq) = Some (qb\<lparr>qb_in := 0\<rparr>, q2)" "bq_wf (qb\<lparr>qb_in := 0\<rparr>, q2)"
    "sq_pending q2 = bq_pending (qb, qq)" "sq_room q2 = bq_room (qb, qq)"
    using qb_flush_spec [OF inv(2)] by blast
  then have wf: "sq_wf q2" by (simp add: bq_wf_def)
  have "queue_at g s (Suc d) (sq_slide_window q2)"
    using sq_slide_window_spec [OF wf] inv q2 by (simp add: queue_at_def del: ball.simps)
  then show ?thesis using l(1) q2(1) inv(1) by (simp add: TDStep_def del: ball.simps)
qed


section \<open>The bottom-up phase\<close>

lemma QueueToBitmap_returns:
  assumes "\<And>u. u \<in> set (sq_window queue) \<Longrightarrow> u < bm_cap bmap"
  shows "returns (QueueToBitmap queue bmap) (\<lambda>b. bm_bits b = set (sq_window queue) \<union> bm_bits bmap \<and> bm_cap b = bm_cap bmap)"
  unfolding QueueToBitmap_def set_vertex_bit_atomic_eq by (rule bm.put_all [OF assms])

text \<open>The loop goes on only after a step that woke some vertex, so it ends.\<close>

lemma bu_loop_returns:
  assumes g: "both_rows g" and s: "s < nodes g" and beta: "0 < beta"
    and "tree_upto g s (ball (edges_of g) s d) parent" "layer (edges_of g) s d \<subseteq> bm_bits front"
    and "bm_bits front \<subseteq> ball (edges_of g) s d" "nodes g \<le> bm_cap front" "nodes g \<le> bm_cap cur"
    and "0 < awake" "layer (edges_of g) s d \<noteq> {}"
  shows "returns (bu_loop g beta awake parent front cur) (\<lambda>(parent', front', cur'). \<exists>e > d.
    tree_upto g s (ball (edges_of g) s e) parent' \<and> bm_bits front' = layer (edges_of g) s e \<and>
    nodes g \<le> bm_cap front' \<and> nodes g \<le> bm_cap cur')"
  using assms(4-)
proof (induction "search_left (nodes g) (edges_of g) s d" arbitrary: d awake parent front cur rule: less_induct)
  case less
  let ?E = "edges_of g" and ?n = "nodes g"
  have ok: "graph_ok g" using g by (simp add: both_rows_def)
  have n: "0 \<le> csr_num_nodes g" using ok by (simp add: graph_ok_def csr_wf_def)
  have fin: "finite (layer ?E s (Suc d))" by (rule finite_layer [OF arcs_below [OF ok] s])
  obtain p b where step: "BUStep g parent front cur = Some (int (card (layer ?E s (Suc d))), p, b)"
    "tree_upto g s (ball ?E s (Suc d)) p" "bm_bits b = layer ?E s (Suc d)" "bm_cap b = bm_cap cur"
    using BUStep_level [OF g s less.prems(1,2,3,4,5)] by (auto simp: returns_iff simp del: ball.simps)
  let ?a = "int (card (layer ?E s (Suc d)))"
  obtain fr cu where sw: "bm_swap front b = (fr, cu)" "bm_bits fr = bm_bits b" "bm_cap fr = bm_cap b" "bm_cap cu = bm_cap front"
    by (simp add: bm_swap_def bm_bits_def bm_cap_def)
  have q: "div_trunc (csr_num_nodes g) beta = Some (csr_num_nodes g sdiv beta)" using beta by (simp add: div_trunc_def)
  have q0: "0 \<le> csr_num_nodes g sdiv beta" using n beta by (simp add: signed_divide_int_def sgn_if pos_imp_zdiv_nonneg_iff)
  have unfold: "bu_loop g beta awake parent front cur =
    (if ?a \<ge> awake \<or> ?a > csr_num_nodes g sdiv beta then bu_loop g beta ?a p fr cu else Some (p, fr, cu))"
    by (subst bu_loop.simps) (simp add: step(1) sw(1) q)
  show ?case
  proof (cases "?a \<ge> awake \<or> ?a > csr_num_nodes g sdiv beta")
    case False
    then show ?thesis
      unfolding unfold using step sw less.prems
      by (simp del: ball.simps) (intro exI [of _ "Suc d"], simp del: ball.simps)
  next
    case True
    then have pos: "0 < ?a" using q0 less.prems(6) by linarith
    then have ne: "layer ?E s (Suc d) \<noteq> {}" by (auto simp: card_gt_0_iff)
    have "returns (bu_loop g beta ?a p fr cu) (\<lambda>(parent', front', cur'). \<exists>e > Suc d.
      tree_upto g s (ball ?E s e) parent' \<and> bm_bits front' = layer ?E s e \<and>
      nodes g \<le> bm_cap front' \<and> nodes g \<le> bm_cap cur')"
    proof (rule less.hyps)
      show "search_left ?n ?E s (Suc d) < search_left ?n ?E s d"
        by (rule search_left_less [OF arcs_below [OF ok] s _ less.prems(7)]) simp
      show "bm_bits fr \<subseteq> ball ?E s (Suc d)" using step(3) sw(2) layer_subset [of ?E s "Suc d"] by (simp del: ball.simps)
    qed (use step sw less.prems pos ne in \<open>simp_all del: ball.simps\<close>)
    then show ?thesis
      unfolding unfold if_P [OF True] by (rule returns_mono) (auto intro: Suc_lessD simp del: ball.simps)
  qed
qed

lemma BitmapToQueue_level:
  assumes ok: "graph_ok g" and s: "s < nodes g" and de: "d < e"
    and b: "bm_bits bmap = layer (edges_of g) s e" "nodes g \<le> bm_cap bmap"
    and q: "sq_wf queue" "sq_window queue = []" "sq_pending queue = []"
      "nodes g - card (ball (edges_of g) s d) \<le> sq_room queue"
  shows "returns (BitmapToQueue g bmap queue) (queue_at g s e)"
proof -
  let ?E = "edges_of g" and ?n = "nodes g"
  let ?P = "\<lambda>v. v \<in> layer ?E s e" and ?lq = "(qb_new qb_default_size, queue)"
  have L: "layer ?E s e \<subseteq> {..<?n}" by (rule layer_below [OF arcs_below [OF ok] s])
  have set: "set (filter ?P [0..<?n]) = layer ?E s e" using L by auto
  then have len: "length (filter ?P [0..<?n]) = card (layer ?E s e)"
    using distinct_card [of "filter ?P [0..<?n]"] by simp
  have cards: "card (ball ?E s d) + card (layer ?E s e) \<le> card (ball ?E s e)" "card (ball ?E s e) \<le> ?n"
    using card_layers [OF arcs_below [OF ok] s de] card_ball [OF arcs_below [OF ok] s] by auto
  have "length (filter ?P [0..<?n]) \<le> bq_room ?lq"
    using len cards q(4) by (simp add: qb_new_wf [OF q(1)])
  from bq.push_filter [OF qb_new_wf(1) [OF q(1)] this]
  obtain qb qq where l: "foldM (\<lambda>n lq. if ?P n then qb_push_back lq n else Some lq) [0..<?n] ?lq = Some (qb, qq)"
    "bq_wf (qb, qq)" "bq_pending (qb, qq) = filter ?P [0..<?n]" "bq_room (qb, qq) = sq_room queue - card (layer ?E s e)"
    using q(3) by (auto simp: returns_iff qb_new_wf [OF q(1)] len)
  have body: "(do { x \<leftarrow> get_vertex_bit bmap n; if x then qb_push_back lq n else Some lq }) =
      (if ?P n then qb_push_back lq n else Some lq)" if "n \<in> set [0..<?n]" for n lq
    using that b by (simp add: bm.get_elems)
  obtain q2 where q2: "qb_flush (qb, qq) = Some (qb\<lparr>qb_in := 0\<rparr>, q2)" "bq_wf (qb\<lparr>qb_in := 0\<rparr>, q2)"
    "sq_pending q2 = bq_pending (qb, qq)" "sq_room q2 = bq_room (qb, qq)"
    using qb_flush_spec [OF l(2)] by blast
  then have wf: "sq_wf q2" by (simp add: bq_wf_def)
  have "queue_at g s e (sq_slide_window q2)"
    using sq_slide_window_spec [OF wf] l q2 cards q(4) L by (auto simp: queue_at_def)
  moreover have "foldM (\<lambda>n lq. do { x \<leftarrow> get_vertex_bit bmap n; if x then qb_push_back lq n else Some lq }) [0..<?n] ?lq = Some (qb, qq)"
    unfolding l(1) [symmetric] by (rule foldM_cong) (rule body)
  ultimately show ?thesis using q2(1) by (simp add: BitmapToQueue_def vertices_nodes)
qed


section \<open>The whole search\<close>

definition search_state :: "nat csr_graph \<Rightarrow> nat \<Rightarrow> nat \<Rightarrow> int list \<Rightarrow> nat sliding_queue \<Rightarrow> bitmap \<Rightarrow> bitmap \<Rightarrow> bool" where
  \<comment> \<open>the frontier bitmap may still hold older layers: it is not reset before it is refilled\<close>
  "search_state g s d parent queue front cur \<longleftrightarrow>
     tree_upto g s (ball (edges_of g) s d) parent \<and> queue_at g s d queue \<and>
     bm_bits front \<subseteq> ball (edges_of g) s d \<and> nodes g \<le> bm_cap front \<and> nodes g \<le> bm_cap cur"

lemma bottom_up_phase:
  assumes g: "both_rows g" and s: "s < nodes g" and beta: "0 < beta"
    and st: "search_state g s d parent queue front cur" and ne: "layer (edges_of g) s d \<noteq> {}"
  shows "returns (do {
      front \<leftarrow> QueueToBitmap queue front;
      (parent, front, cur) \<leftarrow> bu_loop g beta (int (sq_size queue)) parent front cur;
      queue \<leftarrow> BitmapToQueue g front (sq_slide_window queue);
      Some (parent, queue, front, cur) })
    (\<lambda>(parent', queue', front', cur'). \<exists>e > d. search_state g s e parent' queue' front' cur')"
proof -
  let ?E = "edges_of g"
  have ok: "graph_ok g" using g by (simp add: both_rows_def)
  have q: "sq_wf queue" "set (sq_window queue) = layer ?E s d" "sq_pending queue = []"
    "nodes g - card (ball ?E s d) \<le> sq_room queue"
    using st by (simp_all add: search_state_def queue_at_def)
  have front: "bm_bits front \<subseteq> ball ?E s d" "nodes g \<le> bm_cap front" "nodes g \<le> bm_cap cur"
    "tree_upto g s (ball ?E s d) parent" using st by (simp_all add: search_state_def)
  have below: "u < bm_cap front" if "u \<in> set (sq_window queue)" for u
    using that q(2) layer_below [OF arcs_below [OF ok] s, of d] front(2) by auto
  obtain f1 where f1: "QueueToBitmap queue front = Some f1" "bm_bits f1 = layer ?E s d \<union> bm_bits front"
    "bm_cap f1 = bm_cap front"
    using QueueToBitmap_returns [of queue front, OF below] q(2) by (auto simp: returns_iff)
  have "sq_window queue \<noteq> []" using ne q(2) by auto
  then have pos: "0 < int (sq_size queue)" using sq_size_window [OF q(1)] by simp
  obtain p f2 c2 e where l: "bu_loop g beta (int (sq_size queue)) parent f1 cur = Some (p, f2, c2)" "d < e"
    "tree_upto g s (ball ?E s e) p" "bm_bits f2 = layer ?E s e" "nodes g \<le> bm_cap f2" "nodes g \<le> bm_cap c2"
    using bu_loop_returns [OF g s beta front(4), of f1 cur "int (sq_size queue)"] f1 front layer_subset [of ?E s d] pos ne
    by (auto simp: returns_iff)
  obtain q2 where q2: "BitmapToQueue g f2 (sq_slide_window queue) = Some q2" "queue_at g s e q2"
    using BitmapToQueue_level [OF ok s l(2,4,5), of "sq_slide_window queue"] sq_slide_window_spec [OF q(1)] q
    by (auto simp: returns_iff)
  have "search_state g s e p q2 f2 c2"
    using l q2 layer_subset by (simp add: search_state_def)
  then show ?thesis using f1(1) l(1,2) q2(1) by auto
qed

lemma bfs_loop_returns:
  assumes g: "both_rows g" and s: "s < nodes g" and params: "alpha \<noteq> 0" "0 < beta"
    and "search_state g s d parent queue front cur"
  shows "returns (bfs_loop g alpha beta edges scout parent queue front cur) (tree_upto g s ((edges_of g)\<^sup>* `` {s}))"
  using assms(5)
proof (induction "search_left (nodes g) (edges_of g) s d" arbitrary: d edges scout parent queue front cur rule: less_induct)
  case less
  let ?E = "edges_of g"
  note st = less.prems
  have ok: "graph_ok g" using g by (simp add: both_rows_def)
  have q: "sq_wf queue" "set (sq_window queue) = layer ?E s d"
    using st by (simp_all add: search_state_def queue_at_def)
  note unfold = bfs_loop.simps [of g alpha beta edges scout parent queue front cur]
  have quo: "div_trunc edges alpha = Some (edges sdiv alpha)" using params by (simp add: div_trunc_def)
  show ?case
  proof (cases "sq_empty queue")
    case True
    then have "layer ?E s d = {}" using sq_empty_window [OF q(1)] q(2) by auto
    then have "?E\<^sup>* `` {s} = ball ?E s d" by (rule empty_layer_closed)
    then show ?thesis using st True by (simp add: unfold search_state_def)
  next
    case False
    then have ne: "layer ?E s d \<noteq> {}" using sq_empty_window [OF q(1)] q(2) by auto
    note smaller = search_left_less [OF arcs_below [OF ok] s _ ne]
    show ?thesis
    proof (cases "scout > edges sdiv alpha")
      case True
      obtain p q2 f1 f2 c2 e where step: "QueueToBitmap queue front = Some f1"
        "bu_loop g beta (int (sq_size queue)) parent f1 cur = Some (p, f2, c2)"
        "BitmapToQueue g f2 (sq_slide_window queue) = Some q2" "d < e" "search_state g s e p q2 f2 c2"
        using bottom_up_phase [OF g s params(2) st ne] by (auto simp: returns_iff bind_eq_Some_conv)
      then have "bfs_loop g alpha beta edges scout parent queue front cur = bfs_loop g alpha beta edges 1 p q2 f2 c2"
        using False True by (subst unfold) (simp add: quo)
      then show ?thesis using less.hyps [OF smaller [OF step(4)] step(5)] by (simp only:)
    next
      case td: False
      obtain sc p q2 where step: "TDStep g parent queue = Some (sc, p, q2)" "tree_upto g s (ball ?E s (Suc d)) p"
        "queue_at g s (Suc d) (sq_slide_window q2)"
        using TDStep_level [OF ok s, of d parent queue] st by (auto simp: search_state_def returns_iff simp del: ball.simps)
      then have eq: "bfs_loop g alpha beta edges scout parent queue front cur =
          bfs_loop g alpha beta (edges - scout) sc p (sq_slide_window q2) front cur"
        using False td by (subst unfold) (simp add: quo)
      have "bm_bits front \<subseteq> ball ?E s (Suc d)" using st ball_mono [of d "Suc d" ?E s] by (auto simp: search_state_def)
      then have next_st: "search_state g s (Suc d) p (sq_slide_window q2) front cur"
        using st step(2,3) by (simp only: search_state_def)
      have "search_left (nodes g) ?E s (Suc d) < search_left (nodes g) ?E s d" by (rule smaller) (rule lessI)
      then show ?thesis unfolding eq by (rule less.hyps) (rule next_st)
    qed
  qed
qed

lemma to_NodeID_small: "- (2 ^ 31) \<le> x \<Longrightarrow> x < 2 ^ 31 \<Longrightarrow> to_NodeID x = x"
  by (simp add: to_NodeID_def sint_sbintrunc' signed_take_bit_int_eq_self)

lemma InitParent_returns:
  assumes ok: "graph_ok g" and deg: "\<And>u. u < nodes g \<Longrightarrow> length (adj g u) < 2 ^ 31"
  shows "returns (InitParent g) (\<lambda>parent. length parent = nodes g \<and> (\<forall>v < nodes g. parent ! v < 0))"
  unfolding InitParent_def vertices_nodes nodes_def [symmetric]
proof (rule foldM_upt_rule [where I = "\<lambda>i parent. length parent = nodes g \<and> (\<forall>v < i. parent ! v < 0)"])
  fix i and parent :: "int list"
  assume i: "i < nodes g" "length parent = nodes g \<and> (\<forall>v < i. parent ! v < 0)"
  have "int (length (adj g i)) < 2 ^ 31" using deg [OF i(1)] by simp
  then have "to_NodeID (if int (length (adj g i)) \<noteq> 0 then - int (length (adj g i)) else -1) < 0"
    by (subst to_NodeID_small) auto
  then show "returns (do { d \<leftarrow> out_degree g i; wr parent i (to_NodeID (if d \<noteq> 0 then - d else -1)) })
    (\<lambda>parent. length parent = nodes g \<and> (\<forall>v < Suc i. parent ! v < 0))"
    using i graph_ok_neigh(3) [OF ok i(1)] by (auto simp: nth_list_update less_Suc_eq)
qed simp_all

lemma DOBFS_returns:
  assumes g: "both_rows g" and s: "s < nodes g" and params: "alpha \<noteq> 0" "0 < beta"
    and deg: "\<And>u. u < nodes g \<Longrightarrow> length (adj g u) < 2 ^ 31" and n: "nodes g < 2 ^ 32"
    and m: "num_edges g = Some m"
  shows "returns (DOBFS g (int s) alpha beta) (bfs_tree (nodes g) (edges_of g) s)"
proof -
  let ?E = "edges_of g" and ?n = "nodes g"
  have ok: "graph_ok g" using g by (simp add: both_rows_def)
  have nn: "csr_num_nodes g = int ?n" using ok by (simp add: graph_ok_def csr_wf_def nodes_def)
  obtain p0 where p0: "InitParent g = Some p0" "length p0 = ?n" "\<forall>v < ?n. p0 ! v < 0"
    using InitParent_returns [OF ok deg] by (auto simp: returns_iff)
  let ?p = "p0[s := int s]" and ?b = "bm_reset (bm_new (word_of_int (csr_num_nodes g)))"
  obtain q where q: "sq_push_back (sq_new ?n) s = Some q" "sq_wf q" "sq_pending q = [s]" "sq_room q = ?n - 1"
    using sq_push_back_spec [of "sq_new ?n" s] s by (auto simp: sq_new_spec)
  have b: "bm_bits ?b = {}" "?n \<le> bm_cap ?b"
    using bm_cap_new [of ?n] n by (simp_all add: nn bm.clear_elems bm.clear_cap)
  have st: "search_state g s 0 ?p (sq_slide_window q) ?b ?b"
    using p0 s q sq_slide_window_spec [OF q(2)] b
    by (auto simp: search_state_def tree_upto_def queue_at_def hangs_def nth_list_update)
  obtain m' where m': "num_edges_directed g = Some m'" using m by (auto simp: num_edges_def num_edges_directed_def)
  obtain p where p: "bfs_loop g alpha beta m' (int (length (adj g s))) ?p (sq_slide_window q) ?b ?b = Some p"
    "tree_upto g s (?E\<^sup>* `` {s}) p"
    using bfs_loop_returns [OF g s params st] by (auto simp: returns_iff)
  have "returns (foldM (\<lambda>n parent. do { p \<leftarrow> rd parent n; if p < -1 then wr parent n (-1) else Some parent }) [0..<?n] p)
    (bfs_tree ?n ?E s)"
  proof (rule foldM_upt_rule [where I = "\<lambda>i parent. length parent = ?n \<and>
      (\<forall>v < ?n. parent ! v = (if v < i \<and> p ! v < -1 then -1 else p ! v))"])
    show "length p = ?n \<and> (\<forall>v < ?n. p ! v = (if v < 0 \<and> p ! v < -1 then -1 else p ! v))"
      using p(2) by (simp add: tree_upto_def)
  next
    fix i parent
    assume "i < ?n" "length parent = ?n \<and> (\<forall>v < ?n. parent ! v = (if v < i \<and> p ! v < -1 then -1 else p ! v))"
    then show "returns (do { p \<leftarrow> rd parent i; if p < -1 then wr parent i (-1) else Some parent })
      (\<lambda>parent. length parent = ?n \<and> (\<forall>v < ?n. parent ! v = (if v < Suc i \<and> p ! v < -1 then -1 else p ! v)))"
      by (auto simp: nth_list_update less_Suc_eq)
  next
    fix parent
    assume f: "length parent = ?n \<and> (\<forall>v < ?n. parent ! v = (if v < ?n \<and> p ! v < -1 then -1 else p ! v))"
    have "hangs ?E s parent v" if "v < ?n" "(s, v) \<in> ?E\<^sup>*" for v
    proof -
      have h: "hangs ?E s p v" using p(2) that by (simp add: tree_upto_def)
      then have "parent ! v = p ! v" using f that hangs_nonneg [OF h] by simp
      then show ?thesis using h hangs_cong by metis
    qed
    moreover have "parent ! v = -1" if "v < ?n" "(s, v) \<notin> ?E\<^sup>*" for v
      using f p(2) that by (auto simp: tree_upto_def)
    ultimately show "bfs_tree ?n ?E s parent" using f by (simp add: bfs_tree_def)
  qed
  then show ?thesis
    using p0 s q(1) m' p(1) graph_ok_neigh(3) [OF ok s]
    by (simp add: DOBFS_def Let_def vertices_nodes nodes_def [symmetric])
qed

section \<open>Properties\<close>

text \<open>C10: The direction-optimizing search is correct.  For every \<open>alpha\<close> and positive \<open>beta\<close>, so whichever
  levels it takes top-down and bottom-up, the search returns, and the parents form a
  breadth-first tree: each reached vertex has a neighbour one step closer to the source as parent,
  the source has itself, and every other vertex has -1.  No queue or bitmap access leaves its array.\<close>

lemma DOBFS_tree:
  assumes "both_rows g" "s < nodes g" "alpha \<noteq> 0" "0 < beta"
    and "\<And>u. u < nodes g \<Longrightarrow> length (adj g u) < 2 ^ 31" "nodes g < 2 ^ 32" "num_edges g = Some m"
  shows "\<exists>parent. DOBFS g (int s) alpha beta = Some parent \<and> bfs_tree (nodes g) (edges_of g) s parent"
  using DOBFS_returns [OF assms] by (simp add: returns_iff)

text \<open>A bottom-up step and a top-down step do the same to the parents: either takes a tree of the
  vertices at most d steps away to one of those at most d+1 steps away, although the frontier
  bitmap may still hold older layers, because it is not reset between two bottom-up phases.\<close>

lemma BFS_steps:
  assumes "both_rows g" "s < nodes g" "tree_upto g s (ball (edges_of g) s d) parent"
    and "layer (edges_of g) s d \<subseteq> bm_bits front" "bm_bits front \<subseteq> ball (edges_of g) s d"
    and "nodes g \<le> bm_cap front" "nodes g \<le> bm_cap next_bm" "queue_at g s d queue"
  shows "\<exists>awake p b scout p' q. BUStep g parent front next_bm = Some (awake, p, b) \<and>
    TDStep g parent queue = Some (scout, p', q) \<and>
    tree_upto g s (ball (edges_of g) s (Suc d)) p \<and> tree_upto g s (ball (edges_of g) s (Suc d)) p' \<and>
    bm_bits b = set (sq_window (sq_slide_window q)) \<and> awake = int (card (bm_bits b))"
proof -
  have ok: "graph_ok g" using assms(1) by (simp add: both_rows_def)
  show ?thesis
    using BUStep_level [OF assms(1-7)] TDStep_level [OF ok assms(2,3,8)]
    by (auto simp: returns_iff queue_at_def simp del: ball.simps)
qed

lemma DOBFS_tree_witness:
  "\<exists>parent. DOBFS path_of_three 0 15 18 = Some parent \<and> bfs_tree 4 (edges_of path_of_three) 0 parent \<and> parent ! 3 = -1"
proof -
  have "\<forall>r \<in> set path_rows. length r \<le> 2" by (simp add: path_rows_def)
  moreover have "adj path_of_three u \<in> set path_rows" if "u < nodes path_of_three" for u
    using that nth_mem [of u path_rows] by (simp add: path_of_three_simps path_rows_length)
  ultimately have "length (adj path_of_three u) < 2 ^ 31" if "u < nodes path_of_three" for u
    using that by force
  moreover have "num_edges path_of_three = Some 2" by (simp add: path_of_three_def num_edges_def)
  ultimately obtain parent where p: "DOBFS path_of_three (int 0) 15 18 = Some parent"
    "bfs_tree (nodes path_of_three) (edges_of path_of_three) 0 parent"
    using DOBFS_tree [OF path_of_three_ok, of 0 15 18 2] by (auto simp: path_of_three_simps)
  have "(0, x) \<in> (edges_of path_of_three)\<^sup>* \<Longrightarrow> x < 3" for x
    by (induction rule: rtrancl_induct)
      (auto simp: arcs_def path_of_three_simps path_rows_def less_Suc_eq numeral_eq_Suc)
  then have "(0, 3) \<notin> (edges_of path_of_three)\<^sup>*" by blast
  then have "parent ! 3 = -1" using p(2) by (simp add: bfs_tree_def path_of_three_simps)
  then show ?thesis using p by (auto simp: path_of_three_simps)
qed

lemma BFS_steps_witness:
  "\<exists>awake p b scout p' q. BUStep path_of_three [0, -2, -1, -1] \<lparr>bm_start = [1]\<rparr> \<lparr>bm_start = [7]\<rparr> = Some (awake, p, b) \<and>
    TDStep path_of_three [0, -2, -1, -1] \<lparr>sq_shared = [0, 7, 7, 7], sq_shared_in = 1, sq_out_start = 0, sq_out_end = 1\<rparr> = Some (scout, p', q) \<and>
    bm_bits b = set (sq_window (sq_slide_window q))"
proof -
  let ?p = "[0, -2, -1, -1] :: int list" and ?f = "\<lparr>bm_start = [1]\<rparr> :: bitmap"
  let ?q = "\<lparr>sq_shared = [0, 7, 7, 7], sq_shared_in = 1, sq_out_start = 0, sq_out_end = 1\<rparr> :: nat sliding_queue"
  have f: "bm_bits ?f = {0}" by (auto simp: bm_bits_def words_bits_def bit_1_iff)
  have t: "tree_upto path_of_three 0 (ball (edges_of path_of_three) 0 0) ?p"
    by (simp add: tree_upto_def path_of_three_simps hangs_def less_Suc_eq numeral_eq_Suc)
  have q: "queue_at path_of_three 0 0 ?q"
    by (simp add: queue_at_def sq_defs segment_def path_of_three_simps)
  have "nodes path_of_three = 4" by (simp add: path_of_three_simps)
  then show ?thesis
    using BFS_steps [OF path_of_three_ok _ t _ _ _ _ q, of ?f "\<lparr>bm_start = [7]\<rparr>"] f
    by (auto simp: bm_cap_def)
qed

end
