(* ===== verification/BFSCheck.thy ===== *)
theory BFSCheck
  imports Distance Worklist
begin

text \<open>
  The verifier of src/bfs.cc: a serial breadth-first search that records depths, and a check of
  every parent against them.
\<close>

section \<open>The verifier\<close>

definition bv_edge :: "nat \<Rightarrow> nat \<Rightarrow> nat \<Rightarrow> int list \<times> nat list \<Rightarrow> (int list \<times> nat list) option" where
  "bv_edge reserved u v s = (case s of (depth, to_visit) \<Rightarrow> do {
     dv \<leftarrow> rd depth v;
     if dv = -1 then do {
       du \<leftarrow> rd depth u;
       depth \<leftarrow> wr depth v (du + 1);
       to_visit \<leftarrow> vec_push reserved to_visit v;
       Some (depth, to_visit) }
     else Some (depth, to_visit) })"

definition bv_depths :: "nat csr_graph \<Rightarrow> nat \<Rightarrow> int list option" where
  "bv_depths g source = do {
     let depth = replicate (nat (csr_num_nodes g)) (-1);
     let reserved = nat (csr_num_nodes g);
     depth \<leftarrow> wr depth source 0;
     to_visit \<leftarrow> vec_push reserved [] source;
     (depth, to_visit) \<leftarrow> worklist (\<lambda>s. False) snd
        (\<lambda>u s. do { vs \<leftarrow> out_neigh g u 0; foldM (bv_edge reserved u) vs s }) 0 (depth, to_visit);
     Some depth }"

fun bv_parent :: "int list \<Rightarrow> int \<Rightarrow> int \<Rightarrow> nat list \<Rightarrow> bool option" where
  \<comment> \<open>the first in-neighbour that is the parent must be one level up\<close>
  "bv_parent depth du pu [] = Some False"
| "bv_parent depth du pu (v # vs) =
     (if int v = pu then do { dv \<leftarrow> rd depth v; Some (dv = du - 1) } else bv_parent depth du pu vs)"

fun bv_check :: "nat csr_graph \<Rightarrow> nat \<Rightarrow> int list \<Rightarrow> int list \<Rightarrow> nat list \<Rightarrow> bool option" where
  "bv_check g source depth parent [] = Some True"
| "bv_check g source depth parent (u # us) = do {
     du \<leftarrow> rd depth u;
     pu \<leftarrow> rd parent u;
     if du \<noteq> -1 \<and> pu \<noteq> -1 then
       (if u = source then (if pu = int u \<and> du = 0 then bv_check g source depth parent us else Some False)
        else do {
          vs \<leftarrow> in_neigh g u 0;
          parent_found \<leftarrow> bv_parent depth du pu vs;
          if parent_found then bv_check g source depth parent us else Some False })
     else if du \<noteq> pu then Some False
     else bv_check g source depth parent us }"

definition BFSVerifier :: "nat csr_graph \<Rightarrow> int \<Rightarrow> int list \<Rightarrow> bool option" where
  "BFSVerifier g source parent = (if source < 0 then None else do {
     depth \<leftarrow> bv_depths g (nat source);
     bv_check g (nat source) depth parent (vertices g) })"

section \<open>The depths\<close>

definition level_of :: "(nat \<times> nat) set \<Rightarrow> nat \<Rightarrow> nat \<Rightarrow> nat" where
  "level_of E s v = (LEAST k. v \<in> ball E s k)"

lemma level_of_layer: "v \<in> layer E s k \<Longrightarrow> level_of E s v = k"
  unfolding level_of_def
  by (rule Least_equality) (use layer_subset layer_outside in \<open>blast, meson linorder_not_less\<close>)

lemma level_of_ball: "v \<in> ball E s k \<Longrightarrow> v \<in> layer E s (level_of E s v) \<and> level_of E s v \<le> k"
  using layer_cases level_of_layer by metis

lemma level_of_reach: "(s, v) \<in> E\<^sup>* \<Longrightarrow> v \<in> layer E s (level_of E s v)"
  using reach_layer level_of_layer by metis

lemma level_of_edge:
  assumes "(s, u) \<in> E\<^sup>*" "(u, v) \<in> E"
  shows "level_of E s v \<le> Suc (level_of E s u)"
proof -
  have "v \<in> ball E s (Suc (level_of E s u))"
    using level_of_reach [OF assms(1)] layer_subset assms(2) by fastforce
  then show ?thesis using level_of_ball by blast
qed

definition depths :: "nat \<Rightarrow> (nat \<times> nat) set \<Rightarrow> nat \<Rightarrow> nat set \<Rightarrow> int list \<Rightarrow> bool" where
  "depths n E s V depth \<longleftrightarrow> length depth = n \<and>
     (\<forall>v < n. depth ! v = (if v \<in> V then int (level_of E s v) else -1))"

text \<open>
  The invariant of the search: the vector lists distinct reached vertices by ascending level, the
  neighbours of the handled ones are all in it, no listed vertex is more than one level
  below the next one to handle, and no reached vertex outside is as close as that one.
\<close>

definition bv_vector :: "nat \<Rightarrow> (nat \<times> nat) set \<Rightarrow> nat \<Rightarrow> int list \<times> nat list \<Rightarrow> bool" where
  "bv_vector n E s st = (case st of (depth, tv) \<Rightarrow>
     distinct tv \<and> s \<in> set tv \<and> set tv \<subseteq> E\<^sup>* `` {s} \<and> set tv \<subseteq> {..<n} \<and>
     depths n E s (set tv) depth \<and> sorted (map (level_of E s) tv))"

definition bv_inv :: "nat \<Rightarrow> (nat \<times> nat) set \<Rightarrow> nat \<Rightarrow> nat \<Rightarrow> int list \<times> nat list \<Rightarrow> bool" where
  "bv_inv n E s it st \<longleftrightarrow> bv_vector n E s st \<and> it \<le> length (snd st) \<and>
     (\<forall>i < it. E `` {snd st ! i} \<subseteq> set (snd st)) \<and>
     (it < length (snd st) \<longrightarrow>
        (\<forall>v \<in> set (snd st). level_of E s v \<le> Suc (level_of E s (snd st ! it))) \<and>
        ball E s (level_of E s (snd st ! it)) \<subseteq> set (snd st))"

lemma bv_edge_step:
  assumes E: "edges_below n E" and st: "bv_vector n E s (depth, tv)"
    and u: "u \<in> set tv" "ball E s (level_of E s u) \<subseteq> set tv" "(u, v) \<in> E"
    and le: "\<forall>x \<in> set tv. level_of E s x \<le> Suc (level_of E s u)"
  shows "\<exists>depth' R. bv_edge n u v (depth, tv) = Some (depth', tv @ R) \<and> bv_vector n E s (depth', tv @ R) \<and>
    v \<in> set (tv @ R) \<and> (\<forall>x \<in> set (tv @ R). level_of E s x \<le> Suc (level_of E s u))"
proof -
  let ?k = "level_of E s u"
  have v: "v < n" "u < n" using edges_belowD [OF E u(3)] by auto
  have d: "length depth = n" "depth ! v = (if v \<in> set tv then int (level_of E s v) else -1)" "depth ! u = int ?k"
    using st v u(1) by (auto simp: bv_vector_def depths_def)
  have ru: "(s, u) \<in> E\<^sup>*" using st u(1) by (auto simp: bv_vector_def)
  show ?thesis
  proof (cases "v \<in> set tv")
    case True
    then have "bv_edge n u v (depth, tv) = Some (depth, tv @ [])" using d v by (simp add: bv_edge_def)
    then show ?thesis using True st le by (intro exI [of _ depth] exI [of _ "[]"]) simp
  next
    case False
    have rv: "(s, v) \<in> E\<^sup>*" using ru u(3) by (rule rtrancl_into_rtrancl)
    have "\<not> level_of E s v \<le> ?k"
    proof
      assume "level_of E s v \<le> ?k"
      then have "v \<in> ball E s ?k" using level_of_reach [OF rv] layer_subset ball_mono by blast
      then show False using False u(2) by blast
    qed
    then have lev: "level_of E s v = Suc ?k" using level_of_edge [OF ru u(3)] by linarith
    have "card (set (tv @ [v])) \<le> n"
      using card_mono [of "{..<n}" "set (tv @ [v])"] st v by (simp add: bv_vector_def)
    moreover have "distinct (tv @ [v])" using st False by (simp add: bv_vector_def)
    ultimately have room: "length tv < n" using distinct_card [of "tv @ [v]"] by simp
    have "bv_vector n E s (depth[v := 1 + int ?k], tv @ [v])"
      using st False rv lev le v by (auto simp: bv_vector_def depths_def nth_list_update sorted_append)
    moreover have "bv_edge n u v (depth, tv) = Some (depth[v := 1 + int ?k], tv @ [v])"
      using False d v room by (simp add: bv_edge_def add.commute)
    ultimately show ?thesis using le lev
      by (intro exI [of _ "depth[v := 1 + int ?k]"] exI [of _ "[v]"]) simp
  qed
qed

lemma bv_row_step:
  assumes E: "edges_below n E" and vs: "set vs = E `` {u}" and st: "bv_vector n E s (depth, tv)"
    and u: "u \<in> set tv" "ball E s (level_of E s u) \<subseteq> set tv"
    and le: "\<forall>x \<in> set tv. level_of E s x \<le> Suc (level_of E s u)"
  shows "returns (foldM (bv_edge n u) vs (depth, tv)) (\<lambda>(depth', tv'). bv_vector n E s (depth', tv') \<and>
    (\<exists>R. tv' = tv @ R) \<and> E `` {u} \<subseteq> set tv' \<and> (\<forall>x \<in> set tv'. level_of E s x \<le> Suc (level_of E s u)))"
proof (rule foldM_set_rule [where I = "\<lambda>V (depth', tv'). bv_vector n E s (depth', tv') \<and>
    (\<exists>R. tv' = tv @ R) \<and> V \<subseteq> set tv' \<and> (\<forall>x \<in> set tv'. level_of E s x \<le> Suc (level_of E s u))"])
  fix v V and dt :: "int list \<times> nat list"
  assume v: "v \<in> set vs" and I: "case dt of (depth', tv') \<Rightarrow> bv_vector n E s (depth', tv') \<and>
    (\<exists>R. tv' = tv @ R) \<and> V \<subseteq> set tv' \<and> (\<forall>x \<in> set tv'. level_of E s x \<le> Suc (level_of E s u))"
  obtain d1 R where dt: "dt = (d1, tv @ R)" and b: "bv_vector n E s (d1, tv @ R)" and V: "V \<subseteq> set (tv @ R)"
    and le1: "\<forall>x \<in> set (tv @ R). level_of E s x \<le> Suc (level_of E s u)" using I by (cases dt) auto
  have u1: "u \<in> set (tv @ R)" "ball E s (level_of E s u) \<subseteq> set (tv @ R)" using u by auto
  have uv: "(u, v) \<in> E" using v vs by auto
  obtain d2 S where s2: "bv_edge n u v (d1, tv @ R) = Some (d2, (tv @ R) @ S)"
    "bv_vector n E s (d2, (tv @ R) @ S)" "v \<in> set ((tv @ R) @ S)"
    "\<forall>x \<in> set ((tv @ R) @ S). level_of E s x \<le> Suc (level_of E s u)"
    using bv_edge_step [OF E b u1 uv le1] by blast
  have "insert v V \<subseteq> set ((tv @ R) @ S)" using s2(3) V by auto
  then show "returns (bv_edge n u v dt) (\<lambda>(depth', tv'). bv_vector n E s (depth', tv') \<and>
    (\<exists>R. tv' = tv @ R) \<and> insert v V \<subseteq> set tv' \<and> (\<forall>x \<in> set tv'. level_of E s x \<le> Suc (level_of E s u)))"
    unfolding dt s2(1) using s2(2,4) by auto
qed (use st le vs in auto)

text \<open>When the next vertex is one level further, every vertex of the level before it was handled.\<close>

lemma bv_next_level:
  assumes v: "bv_vector n E s (depth, tv)" and it: "it < length tv"
    and handled: "\<forall>i < it. E `` {tv ! i} \<subseteq> set tv" and before: "0 < it" "ball E s (level_of E s (tv ! (it - 1))) \<subseteq> set tv"
    and le: "\<forall>x \<in> set tv. level_of E s x \<le> Suc (level_of E s (tv ! (it - 1)))"
  shows "ball E s (level_of E s (tv ! it)) \<subseteq> set tv"
proof -
  let ?l = "level_of E s"
  let ?k = "?l (tv ! (it - 1))"
  have so: "sorted (map ?l tv)" using v by (simp add: bv_vector_def)
  have "?l (tv ! it) \<le> Suc ?k" using le it nth_mem by blast
  moreover have "?k \<le> ?l (tv ! it)" using sorted_nth_mono [OF so, of "it - 1" it] it by simp
  ultimately consider "?l (tv ! it) = ?k" | "?l (tv ! it) = Suc ?k" by linarith
  then show ?thesis
  proof cases
    case 1
    then show ?thesis using before by simp
  next
    case 2
    have "x \<in> set tv" if "x \<in> E `` layer E s ?k" for x
    proof -
      from that obtain w where w: "w \<in> layer E s ?k" "(w, x) \<in> E" by auto
      then have "w \<in> set tv" using before(2) layer_subset by blast
      then obtain j where j: "j < length tv" "tv ! j = w" by (auto simp: in_set_conv_nth)
      have "?l w = ?k" by (rule level_of_layer [OF w(1)])
      then have "\<not> it \<le> j" using sorted_nth_mono [OF so, of it j] j 2 by auto
      then have "E `` {tv ! j} \<subseteq> set tv" using handled by simp
      then show ?thesis using j(2) w(2) by blast
    qed
    then show ?thesis using before(2) ball_Suc_layer [of E s ?k] unfolding 2 by blast
  qed
qed

lemma bv_body_step:
  assumes E: "edges_below n E" and I: "bv_inv n E s it st" and it: "it < length (snd st)"
    and vs: "set vs = E `` {snd st ! it}"
  shows "returns (foldM (bv_edge n (snd st ! it)) vs st) (bv_inv n E s (Suc it))"
proof -
  obtain depth tv where st: "st = (depth, tv)" by (cases st)
  let ?u = "tv ! it"
  have b: "bv_vector n E s (depth, tv)" and dn: "\<forall>i < it. E `` {tv ! i} \<subseteq> set tv" and l: "it < length tv"
    and le: "\<forall>x \<in> set tv. level_of E s x \<le> Suc (level_of E s ?u)" and ba: "ball E s (level_of E s ?u) \<subseteq> set tv"
    using I it by (simp_all add: bv_inv_def st)
  have u: "?u \<in> set tv" using l by simp
  show ?thesis
    unfolding st snd_conv
  proof (rule returns_mono [OF bv_row_step [OF E vs [unfolded st snd_conv] b u ba le]])
    fix dt
    assume "case dt of (depth', tv') \<Rightarrow> bv_vector n E s (depth', tv') \<and>
      (\<exists>R. tv' = tv @ R) \<and> E `` {?u} \<subseteq> set tv' \<and> (\<forall>x \<in> set tv'. level_of E s x \<le> Suc (level_of E s ?u))"
    then obtain d2 R where dt: "dt = (d2, tv @ R)" and b2: "bv_vector n E s (d2, tv @ R)"
      and cl: "E `` {?u} \<subseteq> set (tv @ R)" and le2: "\<forall>x \<in> set (tv @ R). level_of E s x \<le> Suc (level_of E s ?u)"
      by (cases dt) auto
    have nth: "(tv @ R) ! i = tv ! i" if "i \<le> it" for i using that l by (simp add: nth_append)
    have dn2: "\<forall>i < Suc it. E `` {(tv @ R) ! i} \<subseteq> set (tv @ R)"
      using dn cl by (auto simp: less_Suc_eq nth)
    have pre: "ball E s (level_of E s ((tv @ R) ! (Suc it - 1))) \<subseteq> set (tv @ R)"
      "\<forall>x \<in> set (tv @ R). level_of E s x \<le> Suc (level_of E s ((tv @ R) ! (Suc it - 1)))"
      using ba le2 by (auto simp: nth)
    have so: "sorted (map (level_of E s) (tv @ R))" using b2 by (simp add: bv_vector_def)
    have "level_of E s ?u \<le> level_of E s ((tv @ R) ! Suc it)" if "Suc it < length (tv @ R)"
      using sorted_nth_mono [OF so, of it "Suc it"] that l nth [of it] by (simp del: map_append)
    then show "bv_inv n E s (Suc it) dt"
      using b2 dn2 l bv_next_level [OF b2 _ dn2 _ pre] le2
      by (auto simp: bv_inv_def dt intro: order_trans)
  qed
qed

text \<open>The state before the loop, the size of the vector, and what the invariant says at the end.\<close>

lemma bv_start:
  assumes s: "s < n"
  shows "bv_inv n E s 0 ((replicate n (-1 :: int))[s := 0], [s])"
proof -
  have "level_of E s s = 0" by (rule level_of_layer) simp
  then show ?thesis using s by (auto simp: bv_inv_def bv_vector_def depths_def nth_list_update)
qed

lemma bv_bounded: "bv_inv n E s it (depth, tv) \<Longrightarrow> length tv \<le> n"
  using card_mono [of "{..<n}" "set tv"] by (auto simp: bv_inv_def bv_vector_def distinct_card [symmetric])

lemma bv_end:
  assumes I: "bv_inv n E s it (depth, tv)" and it: "length tv \<le> it"
  shows "set tv = E\<^sup>* `` {s}"
proof -
  have tv: "s \<in> set tv" "set tv \<subseteq> E\<^sup>* `` {s}" "\<forall>i < length tv. E `` {tv ! i} \<subseteq> set tv"
    using I it by (auto simp: bv_inv_def bv_vector_def)
  have "v \<in> set tv" if "(s, v) \<in> E\<^sup>*" for v
    using that
  proof (induction rule: rtrancl_induct)
    case (step y z)
    then obtain i where "i < length tv" "tv ! i = y" by (auto simp: in_set_conv_nth)
    then show ?case using tv(3) step(2) by blast
  qed (rule tv(1))
  then show ?thesis using tv(2) by blast
qed

lemma bv_depths_returns:
  assumes ok: "graph_ok g" and s: "s < nodes g"
  shows "returns (bv_depths g s) (depths (nodes g) (arcs (nodes g) (adj g)) s ((arcs (nodes g) (adj g))\<^sup>* `` {s}))"
proof -
  let ?E = "arcs (nodes g) (adj g)" and ?n = "nodes g"
  have E: "edges_below ?n ?E" by (rule arcs_below [OF ok])
  have "returns (worklist (\<lambda>s. False) snd (\<lambda>u s. do { vs \<leftarrow> out_neigh g u 0; foldM (bv_edge ?n u) vs s }) 0 ((replicate ?n (-1 :: int))[s := 0], [s]))
    (\<lambda>(depth, tv). depths ?n ?E s (?E\<^sup>* `` {s}) depth)"
  proof (rule worklist_rule [where I = "bv_inv ?n ?E s" and b = ?n])
    fix it st
    assume I: "bv_inv ?n ?E s it st" and it: "it < length (snd st)"
    have "set (snd st) \<subseteq> {..<?n}" using I by (auto simp: bv_inv_def bv_vector_def)
    then have u: "snd st ! it < ?n" using nth_mem [OF it] by blast
    have "set (adj g (snd st ! it)) = ?E `` {snd st ! it}" using u by (auto simp: arcs_def)
    then show "returns (do { vs \<leftarrow> out_neigh g (snd st ! it) 0; foldM (bv_edge ?n (snd st ! it)) vs st }) (bv_inv ?n ?E s (Suc it))"
      using bv_body_step [OF E I it] graph_ok_neigh(1) [OF ok u] by simp
  next
    show "length (snd st) \<le> ?n" if "bv_inv ?n ?E s it st" for it st
      using bv_bounded [of ?n ?E s it "fst st" "snd st"] that by simp
  next
    fix it st
    assume I: "bv_inv ?n ?E s it st" and e: "False \<or> length (snd st) \<le> it"
    obtain depth tv where st: "st = (depth, tv)" by (cases st)
    have "set tv = ?E\<^sup>* `` {s}" by (rule bv_end [OF I [unfolded st]]) (use e st in simp)
    then show "case st of (depth, tv) \<Rightarrow> depths ?n ?E s (?E\<^sup>* `` {s}) depth"
      using I st by (auto simp: bv_inv_def bv_vector_def)
  qed (rule bv_start [OF s])
  then show ?thesis using s by (auto simp: bv_depths_def Let_def nodes_def [symmetric] returns_iff)
qed

section \<open>The check\<close>

lemma bv_parent_eq:
  assumes "\<And>v. v \<in> set vs \<Longrightarrow> v < length depth"
  shows "bv_parent depth du pu vs = Some (\<exists>v \<in> set vs. int v = pu \<and> depth ! v = du - 1)"
  using assms by (induction vs) auto

definition vertex_ok :: "nat csr_graph \<Rightarrow> nat \<Rightarrow> int list \<Rightarrow> int list \<Rightarrow> nat \<Rightarrow> bool" where
  "vertex_ok g s depth parent u \<longleftrightarrow>
     (if depth ! u \<noteq> -1 \<and> parent ! u \<noteq> -1 then
        (if u = s then parent ! u = int u \<and> depth ! u = 0
         else \<exists>v \<in> set (inv_adj g u). int v = parent ! u \<and> depth ! v = depth ! u - 1)
      else depth ! u = parent ! u)"

lemma bv_check_eq:
  assumes ok: "graph_ok g" and len: "length depth = nodes g" "length parent = nodes g"
    and us: "\<And>u. u \<in> set us \<Longrightarrow> u < nodes g"
  shows "bv_check g s depth parent us = Some (\<forall>u \<in> set us. vertex_ok g s depth parent u)"
  using us
proof (induction us)
  case (Cons u us)
  have u: "u < nodes g" using Cons.prems by simp
  have vs: "in_neigh g u 0 = Some (inv_adj g u)" using graph_ok_neigh(2) [OF ok u] by simp
  have "bv_parent depth du pu (inv_adj g u) = Some (\<exists>v \<in> set (inv_adj g u). int v = pu \<and> depth ! v = du - 1)" for du pu
    using inv_adj_range [OF ok [unfolded graph_ok_def] u] len by (intro bv_parent_eq) simp
  then have "bv_check g s depth parent (u # us) =
      (if vertex_ok g s depth parent u then bv_check g s depth parent us else Some False)"
    using u len vs by (auto simp: vertex_ok_def)
  moreover have "bv_check g s depth parent us = Some (\<forall>u \<in> set us. vertex_ok g s depth parent u)"
    using Cons by simp
  ultimately show ?case by (simp del: bv_check.simps)
qed simp

text \<open>A parent passes the check of its vertex exactly when it hangs there in a breadth-first tree.\<close>

lemma vertex_ok_tree:
  assumes g: "both_rows g" and s: "s < nodes g" and u: "u < nodes g"
    and d: "depths (nodes g) (arcs (nodes g) (adj g)) s ((arcs (nodes g) (adj g))\<^sup>* `` {s}) depth"
  shows "vertex_ok g s depth parent u \<longleftrightarrow>
    (if (s, u) \<in> (arcs (nodes g) (adj g))\<^sup>* then hangs (arcs (nodes g) (adj g)) s parent u else parent ! u = -1)"
proof -
  let ?E = "arcs (nodes g) (adj g)"
  let ?l = "level_of ?E s"
  have dv: "depth ! v = (if (s, v) \<in> ?E\<^sup>* then int (?l v) else -1)" if "v < nodes g" for v
    using d that by (simp add: depths_def)
  have ls: "?l s = 0" by (rule level_of_layer) simp
  show ?thesis
  proof (cases "(s, u) \<in> ?E\<^sup>*")
    case False
    then show ?thesis using dv [OF u] by (auto simp: vertex_ok_def)
  next
    case reach: True
    show ?thesis
    proof (cases "u = s")
      case True
      then show ?thesis using dv [OF u] ls reach by (auto simp: vertex_ok_def hangs_def)
    next
      case False
      have "(\<exists>v \<in> set (inv_adj g u). int v = parent ! u \<and> depth ! v = depth ! u - 1) \<longleftrightarrow>
        (\<exists>d v. u \<in> layer ?E s (Suc d) \<and> v \<in> layer ?E s d \<and> (v, u) \<in> ?E \<and> parent ! u = int v)" (is "?L \<longleftrightarrow> ?R")
      proof
        assume ?L
        then obtain v where v: "v \<in> set (inv_adj g u)" "int v = parent ! u" "depth ! v = depth ! u - 1" by blast
        have vn: "v < nodes g"
          using g v(1) u inv_adj_range [of "\<lambda>v. v" g u v] by (auto simp: both_rows_def graph_ok_def)
        then have vu: "(v, u) \<in> ?E" using g u v(1) by (auto simp: both_rows_def arcs_def)
        have "?l u \<noteq> 0" using level_of_reach [OF reach] False by (metis layer_0 singletonD)
        then have "(s, v) \<in> ?E\<^sup>*" "?l u = Suc (?l v)"
          using v(3) dv [OF u] dv [OF vn] reach by (auto split: if_splits)
        then show ?R using vu v(2) level_of_reach reach by metis
      next
        assume ?R
        then obtain d v where r: "u \<in> layer ?E s (Suc d)" "v \<in> layer ?E s d" "(v, u) \<in> ?E" "parent ! u = int v" by blast
        have vn: "v < nodes g" using r(3) by (simp add: arcs_def)
        then have "v \<in> set (inv_adj g u)" using g u r(3) by (auto simp: both_rows_def arcs_def)
        moreover have "depth ! v = depth ! u - 1"
          using dv [OF u] dv [OF vn] reach r reach_layer [of s v ?E] level_of_layer by fastforce
        ultimately show ?L using r(4) by auto
      qed
      moreover have "depth ! u \<noteq> -1" using dv [OF u] reach by simp
      ultimately show ?thesis using False reach hangs_nonneg [of ?E s parent u] dv [OF u]
        by (auto simp: vertex_ok_def hangs_def)
    qed
  qed
qed

lemma BFSVerifier_eq:
  assumes g: "both_rows g" and s: "s < nodes g" and len: "length parent = nodes g"
  shows "BFSVerifier g (int s) parent = Some (bfs_tree (nodes g) (arcs (nodes g) (adj g)) s parent)"
proof -
  have ok: "graph_ok g" using g by (simp add: both_rows_def)
  obtain depth where d: "bv_depths g s = Some depth"
    "depths (nodes g) (arcs (nodes g) (adj g)) s ((arcs (nodes g) (adj g))\<^sup>* `` {s}) depth"
    using bv_depths_returns [OF ok s] by (auto simp: returns_iff)
  have dl: "length depth = nodes g" using d(2) by (simp add: depths_def)
  have "bv_check g s depth parent (vertices g) = Some (\<forall>u \<in> set (vertices g). vertex_ok g s depth parent u)"
    by (rule bv_check_eq [OF ok dl len]) (simp add: vertices_nodes)
  moreover have "(\<forall>u \<in> set (vertices g). vertex_ok g s depth parent u) = bfs_tree (nodes g) (arcs (nodes g) (adj g)) s parent"
    using vertex_ok_tree [OF g s _ d(2)] len by (auto simp: vertices_nodes bfs_tree_def)
  ultimately show ?thesis using d(1) by (simp add: BFSVerifier_def)
qed

section \<open>Properties\<close>

text \<open>C12: The verifier accepts exactly the breadth-first trees: it returns for every array of the right length,
  with true when every reached vertex hangs one step below its parent, along an edge, and every
  other vertex has -1, and with false otherwise.\<close>

lemma BFSVerifier_correct:
  assumes g: "both_rows g" and s: "s < nodes g" and len: "length parent = nodes g"
  shows "BFSVerifier g (int s) parent = Some (bfs_tree (nodes g) (arcs (nodes g) (adj g)) s parent)"
  using assms by (rule BFSVerifier_eq)

lemma BFSVerifier_correct_witness:
  "BFSVerifier path_of_three 0 [0, 0, 0, -1] = Some False"
proof -
  have "\<not> hangs (arcs 4 (adj path_of_three)) 0 [0, 0, 0, -1] 2 \<or> (0, 2) \<notin> (arcs 4 (adj path_of_three))\<^sup>*"
    by (auto simp: hangs_def arcs_def path_of_three_simps path_rows_def)
  moreover have "(0, 1) \<in> arcs 4 (adj path_of_three)" "(1, 2) \<in> arcs 4 (adj path_of_three)"
    by (simp_all add: arcs_def path_of_three_simps path_rows_def)
  then have "(0, 2) \<in> (arcs 4 (adj path_of_three))\<^sup>*" by (meson rtrancl.rtrancl_refl rtrancl_into_rtrancl)
  ultimately have reach: "(0, 2) \<in> (arcs 4 (adj path_of_three))\<^sup>*" "\<not> hangs (arcs 4 (adj path_of_three)) 0 [0, 0, 0, -1] 2" by auto
  have "\<not> bfs_tree 4 (arcs 4 (adj path_of_three)) 0 [0, 0, 0, -1]"
    unfolding bfs_tree_def using reach by (auto intro!: exI [of _ 2])
  then show ?thesis
    using BFSVerifier_correct [OF path_of_three_ok, of 0 "[0, 0, 0, -1]"] by (simp add: path_of_three_simps)
qed

end
