(* ===== verification/Programs.thy ===== *)
theory Programs
  imports Construction TC CCCheck CCSV BFS BFSCheck
begin

text \<open>
  The \<^verbatim>\<open>main\<close> functions of the kernels tc, cc, cc_sv and bfs: parse the options, build or attach
  to the graph, run the benchmark.  \<^verbatim>\<open>return -1\<close> is \<open>Exit (-1)\<close>.  What a main needs from outside is an
  argument: the options \<open>getopt\<close> splits off, the files, the generator, the mapped memory, the
  random vertices.  The second half runs the programs end to end.
\<close>

section \<open>The mains\<close>

definition start_up ::
  "string \<Rightarrow> (char \<times> string) list \<Rightarrow> files \<Rightarrow>
   (int \<Rightarrow> int \<Rightarrow> int \<Rightarrow> bool \<Rightarrow> (nat, nat) edge_pair list result) \<Rightarrow> shm result \<Rightarrow> (nat \<Rightarrow> 32 word list) \<Rightarrow>
   (cl_app \<times> nat csr_graph) result" where
  \<comment> \<open>what the mains share: the options, the builder, the two assertions, the graph\<close>
  "start_up name opts fs generate region mem =
     rbind (ParseArgs CLApp_HandleArg opts (CLApp name)) (\<lambda>(cli, ok).
     if \<not> ok then Inl (Exit (-1))
     else rbind (BuilderBase False cli) (\<lambda>b.
       rbind (assert_that (cl_host_id cli \<ge> 0)) (\<lambda>_.
       rbind (assert_that (cl_size_in_gib cli > 0)) (\<lambda>_.
       rbind (MakeGraph fs generate True cli b (cl_host_id cli) region mem) (\<lambda>(g, t).
       Inr (cli, g))))))"

definition tc_main where
  "tc_main skewed draws opts fs generate region mem =
     rbind (start_up ''triangle count'' opts fs generate region mem) (\<lambda>(cli, g).
     if csr_directed g then Inl (Exit (-2))
     else of_opt (BenchmarkKernel cli
       (\<lambda>st. case Hybrid skewed draws g of Inr tot \<Rightarrow> Some (tot, st) | Inl e \<Rightarrow> None)
       (\<lambda>tot st. do { ok \<leftarrow> TCVerifier g tot; Some (ok, st) }) ()))"

definition cc_main where
  "cc_main draws sample_order label_order opts fs generate region mem =
     rbind (start_up ''connected-components-afforest'' opts fs generate region mem) (\<lambda>(cli, g).
     of_opt (BenchmarkKernel cli
       (\<lambda>st. do { cmp \<leftarrow> Afforest draws sample_order g 2; Some (cmp, st) })
       (\<lambda>cmp st. do { ok \<leftarrow> CCVerifier label_order g cmp; Some (ok, st) }) ()))"

definition cc_sv_main where
  "cc_sv_main label_order opts fs generate region mem =
     rbind (start_up ''connected-components'' opts fs generate region mem) (\<lambda>(cli, g).
     of_opt (BenchmarkKernel cli
       (\<lambda>st. do { (cmp, num_iter) \<leftarrow> ShiloachVishkin g; Some (cmp, st) })
       (\<lambda>cmp st. do { ok \<leftarrow> CCVerifier label_order g cmp; Some (ok, st) }) ()))"

definition bfs_main where
  \<comment> \<open>the kernel and the verifier draw their sources from two pickers with the same seed\<close>
  "bfs_main draws opts fs generate region mem =
     rbind (start_up ''breadth-first search'' opts fs generate region mem) (\<lambda>(cli, g).
     of_opt (BenchmarkKernel cli
       (\<lambda>(sp, vsp). do { (source, sp) \<leftarrow> PickNext g draws sp; parent \<leftarrow> DOBFS g source 15 18; Some (parent, sp, vsp) })
       (\<lambda>parent (sp, vsp). do { (source, vsp) \<leftarrow> PickNext g draws vsp; ok \<leftarrow> BFSVerifier g source parent; Some (ok, sp, vsp) })
       (SourcePicker (cl_start_vertex cli), SourcePicker (cl_start_vertex cli))))"

section \<open>The graph the kernels see\<close>

lemma region_graph_kernels:
  assumes "layout (simple_rows el) ws" "fits (simple_rows el) (length ws)" "FindMaxNodeID (\<lambda>v. v) el < 2 ^ 31 - 1"
  defines "g \<equiv> region_graph (simple_rows el) ws"
  shows "simple_graph g" "both_rows g" "undirected_edges_ok g" "\<not> csr_directed g"
    "num_edges g = Some (int (cells (simple_rows el) div 2))" "csr_num_nodes g = int (nodes g)"
    "nodes g = Suc (FindMaxNodeID (\<lambda>v. v) el)" "u < nodes g \<Longrightarrow> set (adj g u) = simple_neighbors el u"
proof -
  note rg = region_graph_simple [OF assms(1-3), folded g_def]
  note rr = region_graph_rows [OF assms(1,2) small_ids_simple_rows [OF assms(3)] simple_rows_range, folded g_def]
  show n: "nodes g = Suc (FindMaxNodeID (\<lambda>v. v) el)" by (rule rg(2))
  show und: "\<not> csr_directed g" by (simp add: g_def region_graph_def)
  show "num_edges g = Some (int (cells (simple_rows el) div 2))" by (simp add: g_def region_graph_def num_edges_def)
  show "csr_num_nodes g = int (nodes g)" by (simp add: g_def region_graph_def nodes_def)
  show nb: "set (adj g u) = simple_neighbors el u" if "u < nodes g" for u using rg(4) [OF that] by simp
  show "simple_graph g"
    using rg(1,4) nb by (simp add: simple_graph_def) (simp add: simple_neighbors_def)
  have inv: "inv_adj g u = adj g u" if "u < nodes g" for u using rr(3,4) that n by simp
  have symm: "v \<in> set (adj g u) \<longleftrightarrow> u \<in> set (adj g v)" if "u < nodes g" "v < nodes g" for u v
    using nb that simple_neighbors_sym by blast
  have ok: "graph_ok g" using rg(1) by blast
  then show "both_rows g" unfolding both_rows_def using inv symm by simp
  show "undirected_edges_ok g" using und rg(1) ok by (simp add: undirected_edges_ok_def)
qed

text \<open>What host 0 gets for a generated graph.\<close>

definition good_run where
  \<comment> \<open>the options ask for a generated graph on host 0, the generator gives \<open>el\<close>, and the region holds the graph\<close>
  "good_run name opts generate s cli el \<longleftrightarrow>
     ParseArgs CLApp_HandleArg opts (CLApp name) = Inr (cli, True) \<and>
     cl_filename cli = '''' \<and> cl_scale cli \<noteq> -1 \<and> cl_host_id cli = 0 \<and> cl_size_in_gib cli > 0 \<and> \<not> cl_in_place cli \<and>
     generate (cl_scale cli) (cl_degree cli) 0 (cl_uniform cli) = Inr el \<and>
     edges_fit el \<and> fits (simple_rows el) (length (shm_words s))"

lemma start_up_graph:
  assumes r: "good_run name opts generate s cli el"
  shows "\<exists>ws. layout (simple_rows el) ws \<and> fits (simple_rows el) (length ws) \<and>
    start_up name opts fs generate (Inr s) mem = Inr (cli, region_graph (simple_rows el) ws)"
proof -
  have p: "ParseArgs CLApp_HandleArg opts (CLApp name) = Inr (cli, True)" using r by (simp add: good_run_def)
  then have "cl_symmetrize cli"
    using r by (auto simp: ParseArgs_def rbind_eq_Inr good_run_def split: if_splits)
  then have b: "BuilderBase False cli = Inr (plain_builder (-1) SIZE_MAX)"
    using r by (simp add: BuilderBase_def plain_builder_def good_run_def)
  obtain t where "MakeGraph fs generate True cli (plain_builder (-1) SIZE_MAX) 0 (Inr s) mem
      = Inr (region_graph (simple_rows el) (shm_words t), t)"
    "layout (simple_rows el) (shm_words t)" "fits (simple_rows el) (length (shm_words t))"
    using MakeGraph_region [of cli generate el s fs True mem] r unfolding good_run_def by blast
  then show ?thesis using p b r by (auto simp: start_up_def good_run_def)
qed

section \<open>End to end\<close>

text \<open>The meaning of the results in terms of the edge list alone.\<close>

definition neighbor_rel :: "(nat, nat) edge_pair list \<Rightarrow> (nat \<times> nat) set" where
  "neighbor_rel el = {(u, v). v \<in> simple_neighbors el u}"

definition edge_triangles :: "(nat, nat) edge_pair list \<Rightarrow> nat set set" where
  "edge_triangles el = {S. card S = 3 \<and> (\<forall>x \<in> S. \<forall>y \<in> S. x \<noteq> y \<longrightarrow> (x, y) \<in> neighbor_rel el)}"

lemma neighbor_rel_below:
  assumes "(u, v) \<in> neighbor_rel el"
  shows "u < Suc (FindMaxNodeID (\<lambda>v. v) el)" "v < Suc (FindMaxNodeID (\<lambda>v. v) el)"
proof -
  have v: "v \<in> simple_neighbors el u" using assms by (simp add: neighbor_rel_def)
  show "u < Suc (FindMaxNodeID (\<lambda>v. v) el)" by (rule simple_neighbors_range [OF simple_neighbors_sym [OF v]])
  show "v < Suc (FindMaxNodeID (\<lambda>v. v) el)" by (rule simple_neighbors_range [OF v])
qed

lemma graph_arcs:
  assumes "nodes g = Suc (FindMaxNodeID (\<lambda>v. v) el)" "\<And>u. u < nodes g \<Longrightarrow> set (adj g u) = simple_neighbors el u"
  shows "arcs (nodes g) (adj g) = neighbor_rel el"
proof -
  have "(u, v) \<in> arcs (nodes g) (adj g) \<longleftrightarrow> (u, v) \<in> neighbor_rel el" for u v
    using assms neighbor_rel_below(1) [of u v el] by (auto simp: arcs_def neighbor_rel_def)
  then show ?thesis by auto
qed

lemma closure_of_edges: "link_closure (neighbor_rel el) = link_closure (edge_rel el)"
proof (rule equalityI; rule link_closure_least)
  show "neighbor_rel el \<subseteq> link_closure (edge_rel el)"
    by (auto simp: neighbor_rel_def simple_neighbors_def intro: link_closure_edge link_closure_sym)
  show "edge_rel el \<subseteq> link_closure (neighbor_rel el)"
  proof
    fix e assume e: "e \<in> edge_rel el"
    obtain u v where uv: "e = (u, v)" by (cases e)
    show "e \<in> link_closure (neighbor_rel el)"
    proof (cases "u = v")
      case False
      then have "(u, v) \<in> neighbor_rel el" using e uv by (auto simp: neighbor_rel_def simple_neighbors_def)
      then show ?thesis unfolding uv by (rule link_closure_edge)
    qed (simp add: uv)
  qed
qed

lemma graph_triangles:
  assumes n: "nodes g = Suc (FindMaxNodeID (\<lambda>v. v) el)" and nb: "\<And>u. u < nodes g \<Longrightarrow> set (adj g u) = simple_neighbors el u"
  shows "triangles g = edge_triangles el"
proof -
  have "S \<subseteq> {..<nodes g}" if "card S = 3" "\<forall>x \<in> S. \<forall>y \<in> S. x \<noteq> y \<longrightarrow> (x, y) \<in> neighbor_rel el" for S
  proof
    fix x assume x: "x \<in> S"
    have "S \<noteq> {x}" using that(1) by auto
    then obtain y where "y \<in> S" "y \<noteq> x" using x by blast
    then have "(x, y) \<in> neighbor_rel el" using that(2) x by simp
    then show "x \<in> {..<nodes g}" using neighbor_rel_below(1) n by simp
  qed
  moreover have "y \<in> set (adj g x) \<longleftrightarrow> (x, y) \<in> neighbor_rel el" if "x < nodes g" for x y
    using nb [OF that] by (simp add: neighbor_rel_def)
  ultimately show ?thesis by (auto simp: triangles_def edge_triangles_def subset_iff)
qed

text \<open>Draws from the vertex range that keep hitting vertices with a neighbour.\<close>

definition fair_for :: "(nat, nat) edge_pair list \<Rightarrow> (nat \<Rightarrow> nat) \<Rightarrow> bool" where
  "fair_for el draws \<longleftrightarrow> (\<forall>j. draws j \<le> FindMaxNodeID (\<lambda>v. v) el) \<and> (\<forall>i. \<exists>j \<ge> i. simple_neighbors el (draws j) \<noteq> {})"

lemma fair_for_graph:
  assumes "nodes g = Suc (FindMaxNodeID (\<lambda>v. v) el)" "\<And>u. u < nodes g \<Longrightarrow> set (adj g u) = simple_neighbors el u"
    and "fair_for el draws"
  shows "fair_draws g draws"
proof -
  have r: "draws j < nodes g" for j using assms(1,3) by (simp add: fair_for_def less_Suc_eq_le)
  then have "adj g (draws j) \<noteq> []" if "simple_neighbors el (draws j) \<noteq> {}" for j
    using assms(2) [OF r] that by (metis list.set(1))
  then show ?thesis using r assms(3) unfolding fair_draws_def fair_for_def by blast
qed

text \<open>C1: The triangle counter, from the command line to the log.  On host 0, for every generated edge list that
  fits the region and the 32-bit degree counters of the builder, \<^verbatim>\<open>main\<close> builds the graph in the region and makes the requested number of runs; each prints the
  number of triangles of the undirected simple graph of the edge list, and with \<^verbatim>\<open>-v\<close> each
  verification passes.\<close>

lemma tc_main_counts:
  assumes r: "good_run ''triangle count'' opts generate s cli el" and fair: "fair_for el draws"
    and few: "6 * card (edge_triangles el) < 2 ^ 64"
  shows "\<exists>st log. tc_main skewed draws opts fs generate (Inr s) mem = Inr (st, log) \<and>
    log_ok cli (\<lambda>tot. tot = word_of_nat (card (edge_triangles el))) (nat (cl_num_trials cli)) log"
proof -
  obtain ws where ws: "layout (simple_rows el) ws" "fits (simple_rows el) (length ws)"
    "start_up ''triangle count'' opts fs generate (Inr s) mem = Inr (cli, region_graph (simple_rows el) ws)"
    using start_up_graph [OF r] by blast
  define g where "g = region_graph (simple_rows el) ws"
  have small: "FindMaxNodeID (\<lambda>v. v) el < 2 ^ 31 - 1" using r by (simp add: good_run_def edges_fit_def)
  note k = region_graph_kernels [OF ws(1,2) small, folded g_def]
  have tri: "triangles g = edge_triangles el" by (rule graph_triangles [OF k(7,8)])
  have h: "Hybrid skewed draws g = Inr (word_of_nat (card (edge_triangles el)))"
    using Hybrid_eq [OF k(1,4) _ _ k(5) fair_for_graph [OF k(7,8) fair]] k(7) tri r by (simp add: good_run_def edges_fit_def)
  have v: "TCVerifier g (word_of_nat (card (edge_triangles el))) = Some True"
    using TCVerifier_eq [OF k(1)] few tri by simp
  have "good_trial cli (\<lambda>_. True) (\<lambda>tot. tot = word_of_nat (card (edge_triangles el)))
      (\<lambda>st. case Hybrid skewed draws g of Inr tot \<Rightarrow> Some (tot, st) | Inl e \<Rightarrow> None)
      (\<lambda>tot st. do { ok \<leftarrow> TCVerifier g tot; Some (ok, st) }) st" for st :: unit
    by (simp add: good_trial_def h v)
  from returns_pair [OF BenchmarkKernel_verifies [OF this TrueI]]
  show ?thesis using ws(3) k(4) by (auto simp: tc_main_def g_def)
qed

lemma min_labels_edges:
  assumes "nodes g = Suc (FindMaxNodeID (\<lambda>v. v) el)" "\<And>u. u < nodes g \<Longrightarrow> set (adj g u) = simple_neighbors el u"
  shows "min_labels (nodes g) (arcs (nodes g) (adj g)) = min_labels (Suc (FindMaxNodeID (\<lambda>v. v) el)) (edge_rel el)"
proof -
  have "arcs (nodes g) (adj g) = neighbor_rel el" by (rule graph_arcs [OF assms])
  then show ?thesis by (simp add: fun_eq_iff min_labels_def closure_of_edges assms(1))
qed

lemma CCVerifier_accepts:
  assumes g: "undirected_edges_ok g" and n: "nodes g < 2 ^ 32" and c: "min_labels (nodes g) (arcs (nodes g) (adj g)) cmp"
    and order: "\<And>m. finite (dom m) \<Longrightarrow> set (label_order m) = dom m \<and> distinct (label_order m)"
  shows "CCVerifier label_order g cmp = Some True"
  using CCVerifier_eq [OF g _ n, of cmp label_order] order min_labels_ok [OF g c] c by (simp add: min_labels_def)

text \<open>C8: The Afforest program, from the command line to the log.  Every run on the graph of a generated edge
  list that fits (as for the triangle counter) labels each vertex with the smallest vertex that the edges connect it to, whatever the
  samples, and with \<^verbatim>\<open>-v\<close> each verification passes.\<close>

lemma cc_main_labels:
  assumes r: "good_run ''connected-components-afforest'' opts generate s cli el"
    and draws: "\<And>i. draws i \<le> FindMaxNodeID (\<lambda>v. v) el"
    and so: "\<And>m. finite (dom m) \<Longrightarrow> set (sample_order m) = dom m"
    and lo: "\<And>m. finite (dom m) \<Longrightarrow> set (label_order m) = dom m \<and> distinct (label_order m)"
  shows "\<exists>st log. cc_main draws sample_order label_order opts fs generate (Inr s) mem = Inr (st, log) \<and>
    log_ok cli (min_labels (Suc (FindMaxNodeID (\<lambda>v. v) el)) (edge_rel el)) (nat (cl_num_trials cli)) log"
proof -
  obtain ws where ws: "layout (simple_rows el) ws" "fits (simple_rows el) (length ws)"
    "start_up ''connected-components-afforest'' opts fs generate (Inr s) mem = Inr (cli, region_graph (simple_rows el) ws)"
    using start_up_graph [OF r] by blast
  define g where "g = region_graph (simple_rows el) ws"
  have small: "FindMaxNodeID (\<lambda>v. v) el < 2 ^ 31 - 1" using r by (simp add: good_run_def edges_fit_def)
  note k = region_graph_kernels [OF ws(1,2) small, folded g_def]
  have n: "nodes g < 2 ^ 32" "0 < nodes g" "\<And>i. draws i < nodes g" using k(7) small draws by (simp_all add: less_Suc_eq_le)
  have "good_trial cli (\<lambda>_. True) (min_labels (nodes g) (arcs (nodes g) (adj g)))
      (\<lambda>st. do { cmp \<leftarrow> Afforest draws sample_order g 2; Some (cmp, st) })
      (\<lambda>cmp st. do { ok \<leftarrow> CCVerifier label_order g cmp; Some (ok, st) }) st" for st :: unit
  proof -
    obtain cmp where c: "Afforest draws sample_order g 2 = Some cmp" "min_labels (nodes g) (arcs (nodes g) (adj g)) cmp"
      using returns_ex [OF Afforest_returns [of g draws sample_order 2, OF k(3) n(2,3) so]] by blast
    show ?thesis using c CCVerifier_accepts [OF k(3) n(1) c(2) lo] by (simp add: good_trial_def)
  qed
  moreover have R: "min_labels (nodes g) (arcs (nodes g) (adj g)) = min_labels (Suc (FindMaxNodeID (\<lambda>v. v) el)) (edge_rel el)"
    by (rule min_labels_edges) (use k(7,8) in simp_all)
  ultimately have "good_trial cli (\<lambda>_. True) (min_labels (Suc (FindMaxNodeID (\<lambda>v. v) el)) (edge_rel el)) (\<lambda>st. do { cmp \<leftarrow> Afforest draws sample_order g 2; Some (cmp, st) }) (\<lambda>cmp st. do { ok \<leftarrow> CCVerifier label_order g cmp; Some (ok, st) }) st" for st :: unit
    by (simp only:)
  from returns_pair [OF BenchmarkKernel_verifies [OF this TrueI]]
  show ?thesis using ws(3) by (auto simp: cc_main_def g_def)
qed

text \<open>C9: The Shiloach-Vishkin program, from the command line to the log, has the same contract as the Afforest
  program, for the edge lists that fit.\<close>

lemma cc_sv_main_labels:
  assumes r: "good_run ''connected-components'' opts generate s cli el"
    and lo: "\<And>m. finite (dom m) \<Longrightarrow> set (label_order m) = dom m \<and> distinct (label_order m)"
  shows "\<exists>st log. cc_sv_main label_order opts fs generate (Inr s) mem = Inr (st, log) \<and>
    log_ok cli (min_labels (Suc (FindMaxNodeID (\<lambda>v. v) el)) (edge_rel el)) (nat (cl_num_trials cli)) log"
proof -
  obtain ws where ws: "layout (simple_rows el) ws" "fits (simple_rows el) (length ws)"
    "start_up ''connected-components'' opts fs generate (Inr s) mem = Inr (cli, region_graph (simple_rows el) ws)"
    using start_up_graph [OF r] by blast
  define g where "g = region_graph (simple_rows el) ws"
  have small: "FindMaxNodeID (\<lambda>v. v) el < 2 ^ 31 - 1" using r by (simp add: good_run_def edges_fit_def)
  note k = region_graph_kernels [OF ws(1,2) small, folded g_def]
  have n: "nodes g < 2 ^ 32" using k(7) small by simp
  have ok: "graph_ok g" using k(2) by (simp add: both_rows_def)
  have "good_trial cli (\<lambda>_. True) (min_labels (nodes g) (arcs (nodes g) (adj g)))
      (\<lambda>st. do { (cmp, num_iter) \<leftarrow> ShiloachVishkin g; Some (cmp, st) })
      (\<lambda>cmp st. do { ok \<leftarrow> CCVerifier label_order g cmp; Some (ok, st) }) st" for st :: unit
  proof -
    obtain cmp it where c: "ShiloachVishkin g = Some (cmp, it)" "min_labels (nodes g) (arcs (nodes g) (adj g)) cmp"
      using returns_pair [OF ShiloachVishkin_returns [OF ok]] by blast
    show ?thesis using c CCVerifier_accepts [OF k(3) n c(2) lo] by (simp add: good_trial_def)
  qed
  moreover have R: "min_labels (nodes g) (arcs (nodes g) (adj g)) = min_labels (Suc (FindMaxNodeID (\<lambda>v. v) el)) (edge_rel el)"
    by (rule min_labels_edges) (use k(7,8) in simp_all)
  ultimately have "good_trial cli (\<lambda>_. True) (min_labels (Suc (FindMaxNodeID (\<lambda>v. v) el)) (edge_rel el)) (\<lambda>st. do { (cmp, num_iter) \<leftarrow> ShiloachVishkin g; Some (cmp, st) }) (\<lambda>cmp st. do { ok \<leftarrow> CCVerifier label_order g cmp; Some (ok, st) }) st" for st :: unit
    by (simp only:)
  from returns_pair [OF BenchmarkKernel_verifies [OF this TrueI]]
  show ?thesis using ws(3) by (auto simp: cc_sv_main_def g_def)
qed

text \<open>C2: The breadth-first search program, from the command line to the log, for a generated edge list that fits.  With \<^verbatim>\<open>-r\<close> a vertex of the graph or
  none, every run returns a breadth-first tree of the undirected simple graph of the edge list
  from some source, and with \<^verbatim>\<open>-v\<close> each verification passes: the two pickers have the same seed
  and stay in step, so the verifier checks against the source of the run.\<close>

lemma bfs_main_trees:
  assumes r: "good_run ''breadth-first search'' opts generate s cli el" and fair: "fair_for el draws"
    and start: "cl_start_vertex cli = -1 \<or> 0 \<le> cl_start_vertex cli \<and> cl_start_vertex cli \<le> int (FindMaxNodeID (\<lambda>v. v) el)"
  shows "\<exists>st log. bfs_main draws opts fs generate (Inr s) mem = Inr (st, log) \<and>
    log_ok cli (\<lambda>parent. \<exists>src. bfs_tree (Suc (FindMaxNodeID (\<lambda>v. v) el)) (neighbor_rel el) src parent) (nat (cl_num_trials cli)) log"
proof -
  obtain ws where ws: "layout (simple_rows el) ws" "fits (simple_rows el) (length ws)"
    "start_up ''breadth-first search'' opts fs generate (Inr s) mem = Inr (cli, region_graph (simple_rows el) ws)"
    using start_up_graph [OF r] by blast
  define g where "g = region_graph (simple_rows el) ws"
  have small: "FindMaxNodeID (\<lambda>v. v) el < 2 ^ 31 - 1" using r by (simp add: good_run_def edges_fit_def)
  note k = region_graph_kernels [OF ws(1,2) small, folded g_def]
  have n: "nodes g < 2 ^ 31" "nodes g < 2 ^ 32" using k(7) small by simp_all
  have ok: "graph_ok g" using k(2) by (simp add: both_rows_def)
  have arcs: "edges_of g = neighbor_rel el" by (rule graph_arcs [OF k(7,8)])
  have deg: "length (adj g u) < 2 ^ 31" if u: "u < nodes g" for u
  proof -
    have "distinct (adj g u)" using k(1) u by (auto simp: simple_graph_def strict_sorted_iff)
    moreover have "set (adj g u) \<subseteq> {..<nodes g}" using gv.neigh_less [OF ok u] by auto
    ultimately show ?thesis using card_mono [of "{..<nodes g}" "set (adj g u)"] n(1) by (simp add: distinct_card)
  qed
  let ?I = "\<lambda>(sp, vsp). (cl_do_verify cli \<longrightarrow> vsp = sp) \<and> sp_given_source sp = cl_start_vertex cli"
  let ?kern = "\<lambda>(sp, vsp). do { (source, sp) \<leftarrow> PickNext g draws sp; parent \<leftarrow> DOBFS g source 15 18; Some (parent, sp, vsp) }"
  let ?verify = "\<lambda>parent (sp, vsp). do { (source, vsp) \<leftarrow> PickNext g draws vsp; ok \<leftarrow> BFSVerifier g source parent; Some (ok, sp, vsp) }"
  let ?R = "\<lambda>parent. \<exists>src. bfs_tree (nodes g) (neighbor_rel el) src parent"
  have "good_trial cli ?I ?R ?kern ?verify st" if st: "?I st" for st :: "source_picker \<times> source_picker"
  proof -
    obtain sp vsp where sp: "st = (sp, vsp)" "cl_do_verify cli \<longrightarrow> vsp = sp" "sp_given_source sp = cl_start_vertex cli"
      using st by (cases st) auto
    have "sp_given_source sp = -1 \<or> 0 \<le> sp_given_source sp \<and> sp_given_source sp < int (nodes g)"
      using start k(7) sp(3) by auto
    from PickNext_returns [OF ok [unfolded graph_ok_def] fair_for_graph [OF k(7,8) fair] this]
    obtain v sp' where p: "PickNext g draws sp = Some (int v, sp')" "v < nodes g" "sp_given_source sp' = sp_given_source sp" by blast
    obtain parent where t: "DOBFS g (int v) 15 18 = Some parent" "bfs_tree (nodes g) (edges_of g) v parent"
      using returns_ex [OF DOBFS_returns [OF k(2) p(2) _ _ deg n(2) k(5), of 15 18]] by auto
    have len: "length parent = nodes g" using t(2) by (simp add: bfs_tree_def)
    have "BFSVerifier g (int v) parent = Some True"
      using BFSVerifier_eq [OF k(2) p(2) len] t(2) by simp
    then show ?thesis
      using p t sp by (auto simp: good_trial_def arcs)
  qed
  from returns_pair [OF BenchmarkKernel_verifies [where I = ?I, OF this, of "(SourcePicker (cl_start_vertex cli), SourcePicker (cl_start_vertex cli))"]]
  show ?thesis using ws(3) k(7) by (auto simp: bfs_main_def g_def SourcePicker_def)
qed
section \<open>A concrete run\<close>

definition example_opts :: "(char \<times> string) list" where
  \<comment> \<open>\<^verbatim>\<open>-g 2 -x 0 -S 1 -v\<close>\<close>
  "example_opts = [(CHR ''g'', ''2''), (CHR ''x'', ''0''), (CHR ''S'', ''1''), (CHR ''v'', '''')]"

definition example_el :: "(nat, nat) edge_pair list" where
  "example_el = [EdgePair 0 1, EdgePair 1 2, EdgePair 2 0, EdgePair 2 2]"

definition example_generate :: "int \<Rightarrow> int \<Rightarrow> int \<Rightarrow> bool \<Rightarrow> (nat, nat) edge_pair list result" where
  "example_generate scale degree host uniform = Inr example_el"

definition example_shm :: shm where
  "example_shm = \<lparr>shm_words = replicate 30 0, shm_stores = []\<rparr>"

definition example_cli :: "string \<Rightarrow> cl_app" where
  "example_cli name = (CLApp name)\<lparr>cl_scale := 2, cl_host_id := 0, cl_size_in_gib := 1, cl_do_verify := True, cl_symmetrize := True\<rparr>"

lemma example_fields:
  "cl_num_trials (example_cli name) = 16" "cl_do_verify (example_cli name)" "cl_start_vertex (example_cli name) = -1"
  "cl_filename (example_cli name) = ''''" "\<not> cl_in_place (example_cli name)"
  by (simp_all add: example_cli_def CLApp_defaults)

lemma example_neighbors:
  "simple_neighbors example_el 0 = {1, 2}" "simple_neighbors example_el 1 = {0, 2}" "simple_neighbors example_el 2 = {0, 1}"
  "FindMaxNodeID (\<lambda>v. v) example_el = 2"
  by (auto simp: example_el_def simple_neighbors_def edge_rel_def FindMaxNodeID_def)

lemma example_run: "good_run name example_opts example_generate example_shm (example_cli name) example_el"
proof -
  have "atoi ''2'' = Inr 2" "atoi ''0'' = Inr 0" "atoi ''1'' = Inr 1"
    by (simp_all add: atoi_def read_int_def is_space_def digit_of_def)
  then have p: "ParseArgs CLApp_HandleArg example_opts (CLApp name) = Inr (example_cli name, True)"
    by (simp add: ParseArgs_def CLBase_HandleArg_def CLApp_HandleArg_def example_opts_def example_cli_def)
  have "[0..<Suc 2] = [0, 1, 2]" by (simp add: upt_rec)
  then have "simple_rows example_el = [[1, 2], [0, 2], [0, 1]]"
    unfolding simple_rows_def example_neighbors(4) by (simp only: list.map example_neighbors) simp
  then have "fits (simple_rows example_el) (length (shm_words example_shm))"
    by (simp add: fits_def rows_base_def cells_def example_shm_def)
  moreover have "cl_scale (example_cli name) \<noteq> -1" "cl_host_id (example_cli name) = 0" "cl_size_in_gib (example_cli name) > 0"
    by (simp_all add: example_cli_def)
  moreover have "edges_fit example_el" by (rule edges_fit_short) (simp_all add: example_neighbors(4), simp add: example_el_def)
  ultimately show ?thesis
    unfolding good_run_def example_generate_def example_neighbors(4) using p example_fields(4,5) [of name] by simp
qed

lemma example_fair: "fair_for example_el (\<lambda>j. 0)"
  by (auto simp: fair_for_def example_neighbors)

lemma example_triangles: "edge_triangles example_el = {{0, 1, 2}}"
proof -
  have nb: "neighbor_rel example_el = {(0, 1), (1, 0), (1, 2), (2, 1), (2, 0), (0, 2)}"
  proof (rule set_eqI)
    fix e :: "nat \<times> nat"
    obtain u v where e: "e = (u, v)" by (cases e)
    have m: "e \<in> neighbor_rel example_el \<longleftrightarrow> v \<in> simple_neighbors example_el u" by (simp add: e neighbor_rel_def)
    consider "u = 0" | "u = 1" | "u = 2" | "3 \<le> u" by linarith
    then show "e \<in> neighbor_rel example_el \<longleftrightarrow> e \<in> {(0, 1), (1, 0), (1, 2), (2, 1), (2, 0), (0, 2)}"
    proof cases
      case 4
      then have "(u, v) \<notin> neighbor_rel example_el" using neighbor_rel_below(1) [of u v example_el] by (auto simp: example_neighbors(4))
      then show ?thesis using 4 by (simp add: e)
    qed (unfold m, auto simp: e example_neighbors simp del: One_nat_def)
  qed
  have "S = {0, 1, 2}" if S: "card S = 3" "\<forall>x \<in> S. \<forall>y \<in> S. x \<noteq> y \<longrightarrow> (x, y) \<in> neighbor_rel example_el" for S
  proof -
    have "S \<subseteq> {0, 1, 2}"
    proof
      fix x assume x: "x \<in> S"
      have "S \<noteq> {x}" using S(1) by auto
      then obtain y where "y \<in> S" "y \<noteq> x" using x by blast
      then have "(x, y) \<in> neighbor_rel example_el" using S(2) x by simp
      then show "x \<in> {0, 1, 2}" unfolding nb by auto
    qed
    then show ?thesis using S(1) by (intro card_subset_eq) simp_all
  qed
  then show ?thesis unfolding edge_triangles_def by (auto simp: nb)
qed

lemma tc_main_counts_witness:
  "\<exists>st log. tc_main (\<lambda>_ _ _. True) (\<lambda>j. 0) example_opts Map.empty example_generate (Inr example_shm) (\<lambda>_. []) = Inr (st, log) \<and>
    log_ok (example_cli ''triangle count'') (\<lambda>tot. tot = 1) 16 log"
  using tc_main_counts [OF example_run example_fair] by (simp add: example_triangles example_fields)

lemma cc_main_labels_witness:
  "\<exists>st log. cc_main (\<lambda>i. 0) (\<lambda>m. sorted_list_of_set (dom m)) (\<lambda>m. sorted_list_of_set (dom m)) example_opts
      Map.empty example_generate (Inr example_shm) (\<lambda>_. []) = Inr (st, log) \<and>
    log_ok (example_cli ''connected-components-afforest'') (min_labels 3 (edge_rel example_el)) 16 log"
  using cc_main_labels [OF example_run, of "\<lambda>i. 0" "\<lambda>m. sorted_list_of_set (dom m)" "\<lambda>m. sorted_list_of_set (dom m)"]
  by (simp add: example_fields example_neighbors numeral_3_eq_3 [symmetric] del: One_nat_def)

lemma cc_sv_main_labels_witness:
  "\<exists>st log. cc_sv_main (\<lambda>m. sorted_list_of_set (dom m)) example_opts
      Map.empty example_generate (Inr example_shm) (\<lambda>_. []) = Inr (st, log) \<and>
    log_ok (example_cli ''connected-components'') (min_labels 3 (edge_rel example_el)) 16 log"
  using cc_sv_main_labels [OF example_run, of "\<lambda>m. sorted_list_of_set (dom m)"]
  by (simp add: example_fields example_neighbors numeral_3_eq_3 [symmetric] del: One_nat_def)

lemma bfs_main_trees_witness:
  "\<exists>st log. bfs_main (\<lambda>j. 0) example_opts Map.empty example_generate (Inr example_shm) (\<lambda>_. []) = Inr (st, log) \<and>
    Verified False \<notin> set log"
  using bfs_main_trees [OF example_run example_fair] unfolding example_fields log_ok_def by blast

end
