(* ===== verification/ShortestPath.thy ===== *)
theory ShortestPath
  imports Distance
begin

text \<open>
  Shortest distances in a graph with weighted arcs, the vocabulary of the theories SSSP and
  SSSPCheck.  An arc is a triple of its source, its weight and its target.  Both algorithms
  lower the entries of an array of tentative distances, so what they share is stated here: every
  entry is the length of a walk (\<open>walk_inv\<close>), and when no arc can lower an entry the array holds
  the shortest distances (\<open>settled_shortest\<close>).
\<close>

section \<open>Walks and shortest distances\<close>

definition kDistInf :: int where
  \<comment> \<open>\<^verbatim>\<open>numeric_limits<WeightT>::max()/2\<close>\<close>
  "kDistInf = (2 ^ 31 - 1) div 2"

type_synonym warcs = "(nat \<times> int \<times> nat) set"

inductive walk :: "warcs \<Rightarrow> nat \<Rightarrow> nat \<Rightarrow> int \<Rightarrow> bool" for E s where
  walk_start: "walk E s s 0"
| walk_arc: "walk E s u d \<Longrightarrow> (u, w, v) \<in> E \<Longrightarrow> walk E s v (d + w)"

definition shortest :: "warcs \<Rightarrow> nat \<Rightarrow> nat \<Rightarrow> int \<Rightarrow> bool" where
  "shortest E s v d \<longleftrightarrow> walk E s v d \<and> (\<forall>d'. walk E s v d' \<longrightarrow> d \<le> d')"

definition shortest_dists :: "nat \<Rightarrow> warcs \<Rightarrow> nat \<Rightarrow> int list \<Rightarrow> bool" where
  \<comment> \<open>what the kernel promises: unreachable vertices stay at \<open>kDistInf\<close>\<close>
  "shortest_dists n E s dist \<longleftrightarrow> length dist = n \<and>
     (\<forall>v < n. if \<exists>d. walk E s v d then shortest E s v (dist ! v) else dist ! v = kDistInf)"

definition weights_ok :: "nat \<Rightarrow> warcs \<Rightarrow> nat \<Rightarrow> bool" where
  \<comment> \<open>no weight is negative, and neither a sum of the kernel overflows nor a distance reaches \<open>kDistInf\<close>\<close>
  "weights_ok n E s \<longleftrightarrow> s < n \<and> (\<forall>(u, w, v) \<in> E. u < n \<and> v < n \<and> 0 \<le> w \<and> w \<le> kDistInf) \<and>
     (\<forall>v d. walk E s v d \<longrightarrow> (\<exists>d' < kDistInf. walk E s v d'))"

lemma kDistInf_pos [simp]: "0 < kDistInf" "0 \<le> kDistInf"
  by (simp_all add: kDistInf_def)

lemma shortest_unique: "shortest E s v d \<Longrightarrow> shortest E s v d' \<Longrightarrow> d = d'"
  by (simp add: shortest_def order_antisym)

lemma shortest_distsD:
  assumes "shortest_dists n E s dist" "v < n"
  shows "if \<exists>d. walk E s v d then shortest E s v (dist ! v) else dist ! v = kDistInf"
  using assms unfolding shortest_dists_def by blast

lemma shortest_dists_unique:
  assumes "shortest_dists n E s dist" "shortest_dists n E s dist'"
  shows "dist = dist'"
proof (rule nth_equalityI)
  show "length dist = length dist'" using assms by (simp add: shortest_dists_def)
  fix v
  assume "v < length dist"
  then have "v < n" using assms by (simp add: shortest_dists_def)
  then have "if \<exists>d. walk E s v d then shortest E s v (dist ! v) else dist ! v = kDistInf"
    "if \<exists>d. walk E s v d then shortest E s v (dist' ! v) else dist' ! v = kDistInf"
    using assms by (blast intro: shortest_distsD)+
  then show "dist ! v = dist' ! v" by (metis shortest_unique)
qed

lemma walk_trans_arcs: "walk E s v d \<Longrightarrow> E \<subseteq> E' \<Longrightarrow> walk E' s v d"
  by (induction rule: walk.induct) (auto intro: walk.intros)

section \<open>Tentative distances\<close>

definition walk_inv :: "nat \<Rightarrow> warcs \<Rightarrow> nat \<Rightarrow> int list \<Rightarrow> bool" where
  "walk_inv n E s dist \<longleftrightarrow> length dist = n \<and> dist ! s = 0 \<and>
     (\<forall>v < n. 0 \<le> dist ! v \<and> dist ! v \<le> kDistInf \<and> (dist ! v < kDistInf \<longrightarrow> walk E s v (dist ! v)))"

definition settled :: "warcs \<Rightarrow> int list \<Rightarrow> nat \<Rightarrow> bool" where
  "settled E dist u \<longleftrightarrow> (\<forall>w v. (u, w, v) \<in> E \<longrightarrow> dist ! v \<le> dist ! u + w)"

lemma walk_inv_start: "s < n \<Longrightarrow> walk_inv n E s ((replicate n kDistInf)[s := 0])"
  by (auto simp: walk_inv_def nth_list_update intro: walk_start)

lemma walk_invD:
  assumes "walk_inv n E s dist" "v < n"
  shows "0 \<le> dist ! v" "dist ! v \<le> kDistInf" "dist ! v < kDistInf \<Longrightarrow> walk E s v (dist ! v)"
  using assms by (auto simp: walk_inv_def)

lemma weights_okD:
  assumes "weights_ok n E s" "(u, w, v) \<in> E"
  shows "u < n" "v < n" "0 \<le> w" "w \<le> kDistInf"
  using assms by (auto simp: weights_ok_def)

lemma walk_inv_lower:
  assumes I: "walk_inv n E s dist" and E: "weights_ok n E s" "(u, w, v) \<in> E"
    and u: "dist ! u < kDistInf" and less: "dist ! u + w < dist ! v"
  shows "walk_inv n E s (dist[v := dist ! u + w])"
proof -
  note e = weights_okD [OF E]
  have v: "v \<noteq> s" using less walk_invD(1) [OF I e(1)] e(3) I by (auto simp: walk_inv_def)
  have "walk E s v (dist ! u + w)" using walk_invD(3) [OF I e(1) u] E(2) by (rule walk_arc)
  moreover have "dist ! v \<le> kDistInf" using walk_invD(2) [OF I e(2)] .
  ultimately show ?thesis
    using I v e less walk_invD(1) [OF I e(1)] by (auto simp: walk_inv_def nth_list_update)
qed

lemma settled_lower:
  assumes "settled E dist x" "x \<noteq> v" "d \<le> dist ! v" "v < length dist"
  shows "settled E (dist[v := d]) x"
  using assms by (fastforce simp: settled_def nth_list_update)

text \<open>When every reached vertex is settled the distances are the shortest ones.\<close>

lemma settled_shortest:
  assumes I: "walk_inv n E s dist" and E: "weights_ok n E s"
    and settled: "\<And>u. u < n \<Longrightarrow> dist ! u < kDistInf \<Longrightarrow> settled E dist u"
  shows "shortest_dists n E s dist"
proof -
  have le: "v < n \<and> dist ! v \<le> d" if "walk E s v d" for v d
    using that
  proof (induction rule: walk.induct)
    case walk_start
    then show ?case using I E by (simp add: walk_inv_def weights_ok_def)
  next
    case (walk_arc u d w v)
    note e = weights_okD [OF E walk_arc.hyps(2)]
    show ?case
    proof (cases "dist ! u < kDistInf")
      case True
      then have "dist ! v \<le> dist ! u + w"
        using settled [OF e(1)] walk_arc.hyps(2) by (auto simp: settled_def)
      then show ?thesis using walk_arc.IH e(2) by linarith
    next
      case False
      then show ?thesis using walk_arc.IH walk_invD(2) [OF I e(2)] e by linarith
    qed
  qed
  have "if \<exists>d. walk E s v d then shortest E s v (dist ! v) else dist ! v = kDistInf" if v: "v < n" for v
  proof (cases "\<exists>d. walk E s v d")
    case True
    then obtain d where "walk E s v d" "d < kDistInf" using E unfolding weights_ok_def by blast
    then have "dist ! v < kDistInf" using le by fastforce
    then show ?thesis using True le walk_invD(3) [OF I v] by (simp add: shortest_def)
  next
    case False
    then show ?thesis using walk_invD(2,3) [OF I v] by force
  qed
  then show ?thesis using I by (simp add: shortest_dists_def walk_inv_def)
qed

text \<open>The measure of both algorithms: the sum of the tentative distances.\<close>

definition dist_left :: "int list \<Rightarrow> nat" where
  "dist_left dist = sum_list (map nat dist)"

lemma dist_left_lower:
  assumes "v < length dist" "0 \<le> d" "d < dist ! v"
  shows "dist_left (dist[v := d]) < dist_left dist"
  using sum_list_map_update [OF assms(1), of nat d] assms by (simp add: dist_left_def)

section \<open>The arcs of a weighted graph\<close>

definition wedges :: "node_weight csr_graph \<Rightarrow> warcs" where
  "wedges g = {(u, nw_w x, nw_v x) | u x. u < nodes g \<and> x \<in> set (adj g u)}"

definition targets :: "warcs \<Rightarrow> nat set" where
  "targets E = {v. \<exists>u w. (u, w, v) \<in> E}"

lemma wedges_list:
  "wedges g = set (concat (map (\<lambda>u. map (\<lambda>x. (u, nw_w x, nw_v x)) (adj g u)) [0..<nodes g]))"
  by (auto simp: wedges_def)

lemma settled_wedges:
  assumes "u < nodes g" "\<And>x. x \<in> set (adj g u) \<Longrightarrow> dist ! nw_v x \<le> dist ! u + nw_w x"
  shows "settled (wedges g) dist u"
  using assms by (auto simp: settled_def wedges_def)

lemma finite_targets: "weights_ok n E s \<Longrightarrow> finite (targets E)"
  by (rule finite_subset [of _ "{..<n}"]) (auto simp: targets_def dest: weights_okD)

section \<open>A sufficient condition on the weights\<close>

lemma layer_nonempty_below:
  assumes E: "edges_below n E" "s < n" and v: "v \<in> layer E s d"
  shows "Suc d \<le> card (ball E s d)"
  using v
proof (induction d arbitrary: v)
  case 0
  then show ?case by simp
next
  case (Suc d)
  then obtain u where u: "u \<in> layer E s d" by (auto simp: layer_Suc)
  have "0 < card (layer E s (Suc d))" using Suc.prems finite_layer [OF E] by (auto simp: card_gt_0_iff)
  moreover have "card (ball E s d) + card (layer E s (Suc d)) \<le> card (ball E s (Suc d))"
    by (rule card_layers [OF E]) simp
  ultimately show ?case using Suc.IH [OF u] by linarith
qed

text \<open>Weights that are small against the number of vertices are fine: a shortest walk has fewer arcs than vertices.\<close>

lemma weights_ok_bound:
  assumes s: "s < n" and E: "\<And>u w v. (u, w, v) \<in> E \<Longrightarrow> u < n \<and> v < n \<and> 0 \<le> w \<and> w \<le> W"
    and W: "0 \<le> W" "int n * W < kDistInf"
  shows "weights_ok n E s"
proof -
  let ?A = "{(u, v). \<exists>w. (u, w, v) \<in> E}"
  have A: "edges_below n ?A" using E by (auto simp: edges_below_def)
  have near: "\<exists>d' \<le> int d * W. walk E s v d'" if "v \<in> layer ?A s d" for v d
    using that
  proof (induction d arbitrary: v)
    case 0
    then show ?case by (auto intro: walk_start)
  next
    case (Suc d)
    then obtain u w where u: "u \<in> layer ?A s d" "(u, w, v) \<in> E" by (auto simp: layer_Suc)
    obtain d' where d': "d' \<le> int d * W" "walk E s u d'" using Suc.IH [OF u(1)] by blast
    have "d' + w \<le> int (Suc d) * W" using d'(1) E [OF u(2)] by (simp add: algebra_simps)
    then show ?case using walk_arc [OF d'(2) u(2)] by blast
  qed
  have "\<exists>d' < kDistInf. walk E s v d'" if "walk E s v d" for v d
  proof -
    have "(s, v) \<in> ?A\<^sup>*" using that by (induction rule: walk.induct) (auto intro: rtrancl.rtrancl_into_rtrancl)
    then obtain k where k: "v \<in> layer ?A s k" by (auto simp: reach_layer)
    have "Suc k \<le> n" using layer_nonempty_below [OF A s k] card_ball [OF A s, of k] by simp
    then have "int k * W \<le> int n * W" using W(1) by (intro mult_right_mono) simp_all
    moreover obtain d' where "d' \<le> int k * W" "walk E s v d'" using near [OF k] by blast
    ultimately show ?thesis using W(2) by (intro exI [of _ d']) simp
  qed
  moreover have "w \<le> kDistInf" if "(u, w, v) \<in> E" for u w v
  proof -
    have "1 * W \<le> int n * W" using W(1) s by (intro mult_right_mono) simp_all
    then show ?thesis using E [OF that] W(2) by linarith
  qed
  ultimately show ?thesis unfolding weights_ok_def using s E by blast
qed

lemma wedges_weights_ok:
  assumes g: "csr_wf nw_v g" and s: "s < nodes g"
    and w: "\<And>u x. u < nodes g \<Longrightarrow> x \<in> set (adj g u) \<Longrightarrow> 0 \<le> nw_w x \<and> nw_w x \<le> W"
    and W: "0 \<le> W" "int (nodes g) * W < kDistInf"
  shows "weights_ok (nodes g) (wedges g) s"
proof (rule weights_ok_bound [OF s _ W])
  fix u w v
  assume "(u, w, v) \<in> wedges g"
  then obtain x where x: "u < nodes g" "x \<in> set (adj g u)" "w = nw_w x" "v = nw_v x" by (auto simp: wedges_def)
  then show "u < nodes g \<and> v < nodes g \<and> 0 \<le> w \<and> w \<le> W" using w [OF x(1,2)] adj_range [OF g x(1,2)] by simp
qed

text \<open>A vertex with an incoming arc has a cell of the neighbour array of its own.\<close>

lemma targets_le_cells:
  assumes g: "csr_wf nw_v g"
  shows "card (targets (wedges g)) \<le> length (csr_out_neighbors g)"
proof -
  have "targets (wedges g) \<subseteq> nw_v ` set (csr_out_neighbors g)"
  proof
    fix v
    assume "v \<in> targets (wedges g)"
    then obtain u x where "u < nodes g" "x \<in> set (adj g u)" "v = nw_v x" by (auto simp: targets_def wedges_def)
    then show "v \<in> nw_v ` set (csr_out_neighbors g)"
      using set_segment_subset by (fastforce simp: adj_def row_def)
  qed
  then have "card (targets (wedges g)) \<le> card (nw_v ` set (csr_out_neighbors g))" by (intro card_mono) simp_all
  also have "\<dots> \<le> length (csr_out_neighbors g)" by (meson card_image_le card_length finite_set order_trans)
  finally show ?thesis .
qed

section \<open>An example\<close>

definition detour_graph :: "node_weight csr_graph" where
  \<comment> \<open>an example: the walk over vertex 2 is shorter than the arc from 0 to 1\<close>
  "detour_graph = csr_of_both [[NodeWeight 1 5, NodeWeight 2 1], [], [NodeWeight 1 2], []]
     [[], [NodeWeight 0 5, NodeWeight 2 2], [NodeWeight 0 1], []]"

lemma detour_graph_simps:
  "wedges detour_graph = {(0, 5, 1), (0, 1, 2), (2, 2, 1)}" "nodes detour_graph = 4"
  "num_edges_directed detour_graph = Some 3"
  unfolding wedges_list by (simp_all add: detour_graph_def numeral_2_eq_2)

lemma detour_graph_ok: "csr_wf nw_v detour_graph" "weights_ok 4 (wedges detour_graph) 0"
proof -
  show "csr_wf nw_v detour_graph" unfolding detour_graph_def by (rule csr_of_both_wf) auto
  show "weights_ok 4 (wedges detour_graph) 0"
    by (rule weights_ok_bound [where W = 5]) (auto simp: detour_graph_simps kDistInf_def)
qed

lemma detour_walks: "walk (wedges detour_graph) 0 v c \<Longrightarrow> v \<noteq> 3 \<and> 0 \<le> c"
  by (induction rule: walk.induct) (auto simp: detour_graph_simps)

lemma detour_dists:
  assumes "shortest_dists 4 (wedges detour_graph) 0 dist"
  shows "dist ! 0 = 0" "dist ! 3 = kDistInf"
proof -
  have "shortest (wedges detour_graph) 0 0 0" by (auto simp: shortest_def intro: walk_start dest: detour_walks)
  then show "dist ! 0 = 0"
    using shortest_distsD [OF assms, of 0] shortest_unique walk_start [of "wedges detour_graph" 0] by (auto split: if_splits)
  show "dist ! 3 = kDistInf" using shortest_distsD [OF assms, of 3] detour_walks by (auto split: if_splits)
qed

end
