(* ===== verification/SSSP.thy ===== *)
theory SSSP
  imports ShortestPath Atomics
begin

text \<open>
  The delta-stepping kernel of src/sssp.cc.  The parallel region is run by a team of any number
  of threads: \<open>local_bins\<close> exists once per thread, \<open>team iter i\<close> is the thread that the
  schedule gives the i-th cell of the frontier in iteration \<open>iter\<close>, the phases between the
  barriers run in their order, and within a phase one relaxation follows the other.  Arithmetic
  on \<^verbatim>\<open>WeightT\<close> is that of 32-bit ints, where an overflow has no defined result.
\<close>

section \<open>The code\<close>

definition kMaxBin :: nat where
  "kMaxBin = (2 ^ 64 - 1) div 2"

definition kBinSizeThreshold :: nat where
  "kBinSizeThreshold = 1000"

definition bins_resize :: "nat list list \<Rightarrow> nat \<Rightarrow> nat list list option" where
  \<comment> \<open>\<^verbatim>\<open>resize\<close> of the vector of bins, which throws beyond the largest size a vector can have\<close>
  "bins_resize local_bins n =
     (if n \<le> kMaxBin then Some (take n local_bins @ replicate (n - length local_bins) []) else None)"

definition bin_push :: "int \<Rightarrow> nat \<Rightarrow> int \<Rightarrow> nat list list \<Rightarrow> nat list list option" where
  \<comment> \<open>v goes into the bin of its new distance; the conversion to \<^verbatim>\<open>size_t\<close> wraps\<close>
  "bin_push delta v new_dist local_bins = do {
     q \<leftarrow> div_trunc new_dist delta \<bind> int32;
     let dest_bin = nat (q mod 2 ^ 64);
     local_bins \<leftarrow> (if dest_bin \<ge> length local_bins then bins_resize local_bins (dest_bin + 1) else Some local_bins);
     bin \<leftarrow> rd local_bins dest_bin;
     wr local_bins dest_bin (bin @ [v]) }"

partial_function (option) relax_loop ::
  "int \<Rightarrow> nat \<Rightarrow> int \<Rightarrow> int \<Rightarrow> int list \<Rightarrow> nat list list \<Rightarrow> (int list \<times> nat list list) option" where
  \<comment> \<open>\<^verbatim>\<open>while (new_dist < old_dist)\<close>\<close>
  "relax_loop delta v new_dist old_dist dist local_bins =
     (if new_dist < old_dist then do {
        cell \<leftarrow> rd dist v;
        dist \<leftarrow> wr dist v (fst (compare_and_swap cell old_dist new_dist));
        if snd (compare_and_swap cell old_dist new_dist) then do {
          local_bins \<leftarrow> bin_push delta v new_dist local_bins;
          Some (dist, local_bins) }
        else do {
          old_dist \<leftarrow> rd dist v;
          relax_loop delta v new_dist old_dist dist local_bins } }
      else Some (dist, local_bins))"

definition relax_edge :: "nat \<Rightarrow> int \<Rightarrow> node_weight \<Rightarrow> int list \<times> nat list list \<Rightarrow> (int list \<times> nat list list) option" where
  "relax_edge u delta wn s = (case s of (dist, local_bins) \<Rightarrow> do {
     old_dist \<leftarrow> rd dist (nw_v wn);
     du \<leftarrow> rd dist u;
     new_dist \<leftarrow> int32 (du + nw_w wn);
     relax_loop delta (nw_v wn) new_dist old_dist dist local_bins })"

definition RelaxEdges ::
  "node_weight csr_graph \<Rightarrow> nat \<Rightarrow> int \<Rightarrow> int list \<times> nat list list \<Rightarrow> (int list \<times> nat list list) option" where
  "RelaxEdges g u delta s = do { wns \<leftarrow> out_neigh g u 0; foldM (relax_edge u delta) wns s }"

record delta_step =
  ds_dist :: "int list"
  ds_frontier :: "nat list"
  ds_shared_indexes :: "nat list"
  ds_frontier_tails :: "nat list"
  ds_local_bins :: "nat list list list"

definition on_thread :: "nat \<Rightarrow> (int list \<times> nat list list \<Rightarrow> (int list \<times> nat list list) option) \<Rightarrow>
    int list \<times> nat list list list \<Rightarrow> (int list \<times> nat list list list) option" where
  \<comment> \<open>a step of one thread of the team, on the shared distances and its own bins\<close>
  "on_thread t f s = (case s of (dist, bins) \<Rightarrow> do {
     local_bins \<leftarrow> rd bins t;
     (dist, local_bins) \<leftarrow> f (dist, local_bins);
     bins \<leftarrow> wr bins t local_bins;
     Some (dist, bins) })"

definition frontier_vertex :: "node_weight csr_graph \<Rightarrow> int \<Rightarrow> nat \<Rightarrow> nat \<Rightarrow> nat \<Rightarrow>
    int list \<times> nat list list list \<Rightarrow> (int list \<times> nat list list list) option" where
  "frontier_vertex g delta curr_bin_index t u s = do {
     du \<leftarrow> rd (fst s) u;
     b \<leftarrow> int32 (delta * sint (word_of_nat curr_bin_index :: 32 word));
     if du \<ge> b then on_thread t (RelaxEdges g u delta) s else Some s }"

partial_function (option) fuse_bins ::
  "node_weight csr_graph \<Rightarrow> int \<Rightarrow> nat \<Rightarrow> int list \<times> nat list list \<Rightarrow> (int list \<times> nat list list) option" where
  \<comment> \<open>bucket fusion\<close>
  "fuse_bins g delta curr_bin_index s =
     (if curr_bin_index < length (snd s) \<and> snd s ! curr_bin_index \<noteq> [] \<and>
         length (snd s ! curr_bin_index) < kBinSizeThreshold
      then do {
        s \<leftarrow> foldM (\<lambda>u. RelaxEdges g u delta) (snd s ! curr_bin_index) (fst s, (snd s)[curr_bin_index := []]);
        fuse_bins g delta curr_bin_index s }
      else Some s)"

definition next_vote :: "nat \<Rightarrow> nat list list \<Rightarrow> nat \<Rightarrow> nat" where
  \<comment> \<open>the smallest non-empty bin of a thread lowers the shared minimum\<close>
  "next_vote curr_bin_index local_bins next_bin_index =
     (case List.find (\<lambda>i. local_bins ! i \<noteq> []) [curr_bin_index..<length local_bins] of
        None \<Rightarrow> next_bin_index | Some i \<Rightarrow> min next_bin_index i)"

definition copy_bin :: "nat \<Rightarrow> nat \<Rightarrow> nat list \<times> nat \<times> nat list list list \<Rightarrow> (nat list \<times> nat \<times> nat list list list) option" where
  \<comment> \<open>a thread appends its next bin to the shared frontier\<close>
  "copy_bin next_bin_index t s = (case s of (frontier, next_frontier_tail, bins) \<Rightarrow> do {
     local_bins \<leftarrow> rd bins t;
     if next_bin_index < length local_bins then do {
       let bin = local_bins ! next_bin_index;
       let (next_frontier_tail, copy_start) = fetch_and_add next_frontier_tail (length bin);
       frontier \<leftarrow> copy_cells bin (length bin) frontier copy_start;
       bins \<leftarrow> wr bins t (local_bins[next_bin_index := []]);
       Some (frontier, next_frontier_tail, bins) }
     else Some (frontier, next_frontier_tail, bins) })"

definition ds_relax ::
  "node_weight csr_graph \<Rightarrow> int \<Rightarrow> (nat \<Rightarrow> nat \<Rightarrow> nat) \<Rightarrow> nat \<Rightarrow> delta_step \<Rightarrow> (int list \<times> nat list list list) option" where
  \<comment> \<open>the frontier, then the fused bins of every thread\<close>
  "ds_relax g delta team iter st =
    (let curr_bin_index = ds_shared_indexes st ! (iter mod 2);
         curr_frontier_tail = ds_frontier_tails st ! (iter mod 2) in do {
     s \<leftarrow> foldM (\<lambda>i s. do {
            u \<leftarrow> rd (ds_frontier st) i;
            frontier_vertex g delta curr_bin_index (team iter i) u s })
          [0..<curr_frontier_tail] (ds_dist st, ds_local_bins st);
     foldM (\<lambda>t. on_thread t (fuse_bins g delta curr_bin_index)) [0..<length (snd s)] s })"

definition ds_iteration ::
  "node_weight csr_graph \<Rightarrow> int \<Rightarrow> (nat \<Rightarrow> nat \<Rightarrow> nat) \<Rightarrow> nat \<Rightarrow> delta_step \<Rightarrow> delta_step option" where
  "ds_iteration g delta team iter st =
    (let cur = iter mod 2; nxt = (iter + 1) mod 2;
         curr_bin_index = ds_shared_indexes st ! cur in do {
     (dist, bins) \<leftarrow> ds_relax g delta team iter st;
     let next_bin_index = fold (next_vote curr_bin_index) bins (ds_shared_indexes st ! nxt);
     (frontier, next_frontier_tail, bins) \<leftarrow> foldM (copy_bin next_bin_index) [0..<length bins]
          (ds_frontier st, ds_frontier_tails st ! nxt, bins);
     Some \<lparr>ds_dist = dist, ds_frontier = frontier,
       ds_shared_indexes = (ds_shared_indexes st)[nxt := next_bin_index, cur := kMaxBin],
       ds_frontier_tails = (ds_frontier_tails st)[cur := 0, nxt := next_frontier_tail],
       ds_local_bins = bins\<rparr> })"

partial_function (option) ds_loop ::
  "node_weight csr_graph \<Rightarrow> int \<Rightarrow> (nat \<Rightarrow> nat \<Rightarrow> nat) \<Rightarrow> nat \<Rightarrow> delta_step \<Rightarrow> (delta_step \<times> nat) option" where
  "ds_loop g delta team iter st =
     (if ds_shared_indexes st ! (iter mod 2) \<noteq> kMaxBin
      then do { st \<leftarrow> ds_iteration g delta team iter st; ds_loop g delta team (iter + 1) st }
      else Some (st, iter))"

definition ds_start :: "nat \<Rightarrow> node_weight csr_graph \<Rightarrow> nat \<Rightarrow> delta_step option" where
  \<comment> \<open>the shared data before the parallel region, and the bins of its threads\<close>
  "ds_start threads g source = do {
     dist \<leftarrow> wr (replicate (nat (csr_num_nodes g)) kDistInf) source 0;
     m \<leftarrow> num_edges_directed g;
     frontier \<leftarrow> wr (uninit (nat m)) 0 source;
     Some \<lparr>ds_dist = dist, ds_frontier = frontier, ds_shared_indexes = [0, kMaxBin],
       ds_frontier_tails = [1, 0], ds_local_bins = replicate threads []\<rparr> }"

definition DeltaStep ::
  "nat \<Rightarrow> (nat \<Rightarrow> nat \<Rightarrow> nat) \<Rightarrow> node_weight csr_graph \<Rightarrow> int \<Rightarrow> int \<Rightarrow> int list option" where
  \<comment> \<open>with \<open>threads\<close> threads in the team\<close>
  "DeltaStep threads team g source delta = (if source < 0 then None else do {
     st \<leftarrow> ds_start threads g (nat source);
     (st, iter) \<leftarrow> ds_loop g delta team 0 st;
     Some (ds_dist st) })"

definition PrintSSSPStats :: "int list \<Rightarrow> int" where
  \<comment> \<open>the number printed: how many vertices the tree reaches\<close>
  "PrintSSSPStats dist = int (length (filter (\<lambda>d. d \<noteq> kDistInf) dist))"

section \<open>The invariant\<close>

text \<open>
  The bins of the team are seen as one multiset per bin index, \<open>M b\<close>.  X holds the vertices that
  have left the bins and are still to be relaxed in this phase.  Every reached vertex that can still
  lower another one is in X or in the bin of its distance; bins below the current one are
  empty.  A vertex enters a bin once per distance at most, which bounds the size of a bin.
\<close>

definition ds_pending :: "warcs \<Rightarrow> nat \<Rightarrow> int \<Rightarrow> nat \<Rightarrow> nat set \<Rightarrow> int list \<Rightarrow> (nat \<Rightarrow> nat multiset) \<Rightarrow> bool" where
  "ds_pending E n delta c X dist M \<longleftrightarrow> (\<forall>u < n. dist ! u < kDistInf \<and> \<not> settled E dist u \<longrightarrow>
     int c * delta \<le> dist ! u \<and> (u \<in> X \<or> u \<in># M (nat (dist ! u div delta))))"

definition ds_entries :: "warcs \<Rightarrow> nat \<Rightarrow> int \<Rightarrow> nat set \<Rightarrow> int list \<Rightarrow> (nat \<Rightarrow> nat multiset) \<Rightarrow> bool" where
  "ds_entries E n delta X dist M \<longleftrightarrow> (\<forall>v \<in> X. v < n \<and> dist ! v < kDistInf) \<and>
     (\<forall>b. \<forall>v \<in># M b. v < n \<and> v \<in> targets E \<and> dist ! v < kDistInf \<and> int b * delta \<le> kDistInf \<and>
        int (count (M b) v) \<le> int (Suc b) * delta - max (dist ! v) (int b * delta))"

definition ds_inv :: "warcs \<Rightarrow> nat \<Rightarrow> nat \<Rightarrow> int \<Rightarrow> nat \<Rightarrow> nat set \<Rightarrow> int list \<Rightarrow> (nat \<Rightarrow> nat multiset) \<Rightarrow> bool" where
  "ds_inv E n s delta c X dist M \<longleftrightarrow> walk_inv n E s dist \<and> ds_pending E n delta c X dist M \<and>
     (\<forall>b < c. M b = {#}) \<and> ds_entries E n delta X dist M"

lemma ds_pending_lower:
  assumes P: "ds_pending E n delta c X dist M" and v: "v < length dist" "length dist = n"
    and d: "int c * delta \<le> d" "d \<le> dist ! v" and M: "v \<in># M' (nat (d div delta))" "\<And>b. M b \<subseteq># M' b"
  shows "ds_pending E n delta c X (dist[v := d]) M'"
  unfolding ds_pending_def
proof (intro allI impI)
  fix x
  assume x: "x < n" "dist[v := d] ! x < kDistInf \<and> \<not> settled E (dist[v := d]) x"
  show "int c * delta \<le> dist[v := d] ! x \<and> (x \<in> X \<or> x \<in># M' (nat (dist[v := d] ! x div delta)))"
  proof (cases "x = v")
    case True
    then show ?thesis using v d M(1) by simp
  next
    case False
    then have "\<not> settled E dist x" using x(2) settled_lower [OF _ False d(2) v(1)] by blast
    then show ?thesis using P x False mset_subset_eqD [OF M(2)] by (auto simp: ds_pending_def)
  qed
qed

lemma ds_entries_lower:
  assumes e: "ds_entries E n delta X dist M" and v: "v < n" "length dist = n" "v \<in> targets E"
    and d: "0 \<le> d" "d < dist ! v" "d < kDistInf" and delta: "0 < delta"
  shows "ds_entries E n delta X (dist[v := d])
    (M(nat (d div delta) := add_mset v (M (nat (d div delta)))))"
proof -
  let ?b = "nat (d div delta)" and ?dist = "dist[v := d]"
  let ?M = "M(?b := add_mset v (M ?b))"
  have bd: "int ?b * delta \<le> d" "d < int (Suc ?b) * delta"
  proof -
    have b: "int ?b = d div delta" using d delta by (simp add: pos_imp_zdiv_nonneg_iff)
    have eq: "d = delta * (d div delta) + d mod delta" by simp
    then show "int ?b * delta \<le> d" unfolding b mult.commute [of _ delta]
      using pos_mod_sign [OF delta, of d] by linarith
    have "int (Suc ?b) * delta = delta * (d div delta) + delta" using b by (simp add: algebra_simps)
    with eq show "d < int (Suc ?b) * delta" using pos_mod_bound [OF delta, of d] by linarith
  qed
  have less: "?dist ! x \<le> dist ! x \<and> (dist ! x < kDistInf \<longrightarrow> ?dist ! x < kDistInf)" if "x < n" for x
    using that v d by (auto simp: nth_list_update)
  have old: "x < n \<and> x \<in> targets E \<and> dist ! x < kDistInf \<and> int b * delta \<le> kDistInf \<and>
      int (count (M b) x) \<le> int (Suc b) * delta - max (dist ! x) (int b * delta)" if "x \<in># M b" for b x
    using e that by (auto simp: ds_entries_def)
  have "x < n \<and> x \<in> targets E \<and> ?dist ! x < kDistInf \<and> int b * delta \<le> kDistInf \<and>
      int (count (?M b) x) \<le> int (Suc b) * delta - max (?dist ! x) (int b * delta)" if x: "x \<in># ?M b" for b x
  proof (cases "b = ?b \<and> x = v")
    case True
    have "int (count (M b) x) + 1 \<le> int (Suc b) * delta - d"
    proof (cases "x \<in># M b")
      case False
      then show ?thesis using True bd by (simp add: not_in_iff)
    next
      case True
      then have "int (count (M b) x) \<le> int (Suc b) * delta - max (dist ! x) (int b * delta)" using old by blast
      moreover have "dist ! x \<le> max (dist ! x) (int b * delta)" by simp
      moreover have "d < dist ! x" using d \<open>b = ?b \<and> x = v\<close> by simp
      ultimately show ?thesis by linarith
    qed
    then show ?thesis using True v d bd by simp
  next
    case False
    then have "x \<in># M b" "count (?M b) x = count (M b) x" using x by (auto split: if_splits)
    with old [OF this(1)] less [of x] show ?thesis by auto
  qed
  moreover have "\<forall>x \<in> X. x < n \<and> ?dist ! x < kDistInf" using e less by (auto simp: ds_entries_def)
  ultimately show ?thesis unfolding ds_entries_def by blast
qed

lemma ds_inv_lower:
  assumes I: "ds_inv E n s delta c X dist M" and E: "weights_ok n E s" "(u, w, v) \<in> E"
    and u: "u \<in> X" and less: "dist ! u + w < dist ! v" and delta: "0 < delta"
  defines "d \<equiv> dist ! u + w"
  shows "ds_inv E n s delta c X (dist[v := d]) (M(nat (d div delta) := add_mset v (M (nat (d div delta)))))"
    "int c * delta \<le> d" "d < kDistInf" "0 \<le> d"
proof -
  note e = weights_okD [OF E]
  have W: "walk_inv n E s dist" and P: "ds_pending E n delta c X dist M" and B: "\<forall>b < c. M b = {#}"
    and T: "ds_entries E n delta X dist M" using I by (simp_all add: ds_inv_def)
  have du: "dist ! u < kDistInf" using T u by (auto simp: ds_entries_def)
  have "\<not> settled E dist u" using E(2) less unfolding settled_def by (meson not_le)
  then have cu: "int c * delta \<le> dist ! u" using P e(1) du by (auto simp: ds_pending_def)
  show c: "int c * delta \<le> d" using cu e(3) by (simp add: d_def)
  show d: "d < kDistInf" "0 \<le> d"
    using less walk_invD(2) [OF W e(2)] walk_invD(1) [OF W e(1)] e(3) by (simp_all add: d_def)
  have len: "length dist = n" using W by (simp add: walk_inv_def)
  let ?b = "nat (d div delta)"
  have "int c \<le> d div delta" using zdiv_mono1 [OF c delta] delta by simp
  then have "c \<le> ?b" by linarith
  then have "\<forall>b < c. (M(?b := add_mset v (M ?b))) b = {#}" using B by auto
  moreover have "walk_inv n E s (dist[v := d])"
    unfolding d_def by (rule walk_inv_lower [OF W E du less])
  moreover have "ds_pending E n delta c X (dist[v := d]) (M(?b := add_mset v (M ?b)))"
    by (rule ds_pending_lower [OF P _ len c]) (use e len less in \<open>auto simp: d_def\<close>)
  moreover have "ds_entries E n delta X (dist[v := d]) (M(?b := add_mset v (M ?b)))"
    by (rule ds_entries_lower [OF T e(2) len _ d(2) _ d(1) delta]) (use E(2) less in \<open>auto simp: targets_def d_def\<close>)
  ultimately show "ds_inv E n s delta c X (dist[v := d]) (M(?b := add_mset v (M ?b)))"
    by (simp add: ds_inv_def)
qed

text \<open>A vertex is done when it is settled.\<close>

lemma ds_inv_settled:
  assumes "ds_inv E n s delta c (insert u X) dist M" "settled E dist u"
  shows "ds_inv E n s delta c X dist M"
  using assms by (auto simp: ds_inv_def ds_pending_def ds_entries_def)

lemma ds_inv_below:
  assumes "ds_inv E n s delta c (insert u X) dist M" "dist ! u < int c * delta"
  shows "ds_inv E n s delta c X dist M"
proof (rule ds_inv_settled [OF assms(1)])
  have "u < n" "dist ! u < kDistInf" using assms(1) by (auto simp: ds_inv_def ds_entries_def)
  then show "settled E dist u" using assms by (force simp: ds_inv_def ds_pending_def)
qed

text \<open>The size of a bin.\<close>

lemma ds_bin_size:
  assumes I: "ds_inv E n s delta c X dist M" and E: "weights_ok n E s" and delta: "0 < delta"
  shows "int (size (M b)) \<le> delta * int (card (targets E))"
proof -
  have T: "v \<in> targets E \<and> int (count (M b) v) \<le> delta" if "v \<in># M b" for v
  proof -
    have "v \<in> targets E \<and> int (count (M b) v) \<le> int (Suc b) * delta - max (dist ! v) (int b * delta)"
      using I that by (auto simp: ds_inv_def ds_entries_def)
    moreover have "int (Suc b) * delta = int b * delta + delta" by (simp add: algebra_simps)
    ultimately show ?thesis by linarith
  qed
  have "int (size (M b)) = (\<Sum>v \<in> set_mset (M b). int (count (M b) v))"
    by (simp add: size_multiset_overloaded_eq)
  also have "\<dots> \<le> (\<Sum>v \<in> set_mset (M b). delta)" by (rule sum_mono) (use T in simp)
  also have "\<dots> = delta * int (card (set_mset (M b)))" by simp
  also have "\<dots> \<le> delta * int (card (targets E))"
    using delta T finite_targets [OF E] by (intro mult_left_mono) (auto intro!: card_mono)
  finally show ?thesis .
qed
section \<open>Relaxing\<close>

definition thread_bin :: "nat list list \<Rightarrow> nat \<Rightarrow> nat multiset" where
  "thread_bin l b = (if b < length l then mset (l ! b) else {#})"

definition team_bin :: "nat list list list \<Rightarrow> nat \<Rightarrow> nat multiset" where
  "team_bin bins b = sum_list (map (\<lambda>l. thread_bin l b) bins)"

lemma thread_bin_grow [simp]: "thread_bin (l @ replicate k []) = thread_bin l"
  by (rule ext) (simp add: thread_bin_def nth_append)

lemma thread_bin_push:
  "d < length l \<Longrightarrow> thread_bin (l[d := l ! d @ [v]]) = (thread_bin l)(d := add_mset v (thread_bin l d))"
  by (rule ext) (simp add: thread_bin_def nth_list_update)

lemma thread_bin_clear: "thread_bin (l[c := []]) = (thread_bin l)(c := {#})"
  by (rule ext) (simp add: thread_bin_def nth_list_update)

lemma thread_bin_Nil [simp]: "thread_bin [] b = {#}"
  by (simp add: thread_bin_def)

lemma team_bin_update:
  assumes "t < length bins"
  shows "team_bin (bins[t := l]) b = thread_bin l b + team_bin (bins[t := []]) b"
proof -
  have "team_bin (bins[t := l]) b + thread_bin (bins ! t) b = team_bin bins b + thread_bin l b" for l
    unfolding team_bin_def by (rule sum_list_map_update [OF assms])
  from this [of l] this [of "[]"]
  have "team_bin (bins[t := l]) b + thread_bin (bins ! t) b
      = (thread_bin l b + team_bin (bins[t := []]) b) + thread_bin (bins ! t) b"
    by (simp add: ac_simps)
  then show ?thesis by (rule add_right_imp_eq)
qed

lemma team_bin_split:
  "t < length bins \<Longrightarrow> team_bin bins b = thread_bin (bins ! t) b + team_bin (bins[t := []]) b"
  using team_bin_update [of t bins "bins ! t" b] by simp

definition ds_prog :: "int list \<times> 'b \<Rightarrow> int list \<times> 'b \<Rightarrow> bool" where
  \<comment> \<open>a step changes nothing or lowers the distances\<close>
  "ds_prog s t \<longleftrightarrow> t = s \<or> dist_left (fst t) < dist_left (fst s)"

lemma ds_prog_refl [simp]: "ds_prog s s"
  by (simp add: ds_prog_def)

lemma ds_prog_trans: "ds_prog s t \<Longrightarrow> ds_prog t u \<Longrightarrow> ds_prog s u"
  by (auto simp: ds_prog_def)

lemma bin_push_ok:
  assumes d: "0 \<le> d" "d < kDistInf" "0 < delta"
  shows "\<exists>l'. bin_push delta v d l = Some l' \<and>
    thread_bin l' = (thread_bin l)(nat (d div delta) := add_mset v (thread_bin l (nat (d div delta))))"
proof -
  let ?q = "d div delta"
  have q0: "0 \<le> ?q" using d by (simp add: pos_imp_zdiv_nonneg_iff)
  have "?q * 1 \<le> ?q * delta" using q0 d by (intro mult_left_mono) simp_all
  also have "\<dots> \<le> d" using pos_mod_sign [OF d(3), of d] div_mult_mod_eq [of d delta] by linarith
  finally have q: "0 \<le> ?q" "?q < 2 ^ 30" using q0 d by (simp_all add: kDistInf_def)
  then have "div_trunc d delta = Some ?q" using d by (simp add: div_trunc_def signed_divide_int_def sgn_if)
  moreover have "int32 ?q = Some ?q" "?q mod 18446744073709551616 = ?q" using q by (simp_all add: int32_def)
  ultimately have e: "(div_trunc d delta \<bind> int32) = Some ?q" "nat (?q mod 18446744073709551616) = nat ?q" by simp_all
  have room: "nat ?q + 1 \<le> kMaxBin" using q by (simp add: kMaxBin_def)
  show ?thesis
  proof (cases "nat ?q \<ge> length l")
    case True
    then have "bins_resize l (nat ?q + 1) = Some (l @ replicate (nat ?q + 1 - length l) [])"
      using room by (simp add: bins_resize_def)
    then show ?thesis
      using True thread_bin_push [of "nat ?q" "l @ replicate (nat ?q + 1 - length l) []" v]
      by (simp add: bin_push_def e Let_def)
  next
    case False
    then show ?thesis using thread_bin_push [of "nat ?q" l v] by (simp add: bin_push_def e Let_def)
  qed
qed

lemma relax_edge_ok:
  assumes I: "ds_inv E n s delta c X dist (\<lambda>b. thread_bin l b + R b)" and E: "weights_ok n E s" "(u, nw_w wn, nw_v wn) \<in> E"
    and u: "u \<in> X" and delta: "0 < delta"
  shows "returns (relax_edge u delta wn (dist, l)) (\<lambda>(dist', l'). ds_inv E n s delta c X dist' (\<lambda>b. thread_bin l' b + R b) \<and>
    (if dist ! u + nw_w wn < dist ! nw_v wn then dist' = dist[nw_v wn := dist ! u + nw_w wn] else (dist', l') = (dist, l)))"
proof -
  let ?v = "nw_v wn" and ?d = "dist ! u + nw_w wn"
  note e = weights_okD [OF E]
  have W: "walk_inv n E s dist" using I by (simp add: ds_inv_def)
  have len: "length dist = n" using W by (simp add: walk_inv_def)
  have "0 \<le> ?d \<and> ?d \<le> kDistInf + kDistInf" using walk_invD(1,2) [OF W e(1)] e by simp
  then have i: "int32 ?d = Some ?d" by (simp add: int32_def kDistInf_def)
  have unfold: "relax_edge u delta wn (dist, l) = relax_loop delta ?v ?d (dist ! ?v) dist l"
    using e len i by (simp add: relax_edge_def)
  show ?thesis
  proof (cases "?d < dist ! ?v")
    case False
    then show ?thesis using I by (simp add: unfold relax_loop.simps)
  next
    case True
    note low = ds_inv_lower [OF I E u True delta]
    obtain l' where p: "bin_push delta ?v ?d l = Some l'"
      "thread_bin l' = (thread_bin l)(nat (?d div delta) := add_mset ?v (thread_bin l (nat (?d div delta))))"
      using bin_push_ok [OF low(4,3) delta] by blast
    have l': "relax_loop delta ?v ?d (dist ! ?v) dist l = Some (dist[?v := ?d], l')"
      using True e len by (subst relax_loop.simps) (simp add: p(1))
    have "(\<lambda>b. thread_bin l' b + R b) = (\<lambda>b. thread_bin l b + R b)
        (nat (?d div delta) := add_mset ?v (thread_bin l (nat (?d div delta)) + R (nat (?d div delta))))"
      using p(2) by (auto simp: fun_eq_iff)
    then show ?thesis using low(1) True by (simp add: unfold l')
  qed
qed

lemma RelaxEdges_ok:
  assumes g: "csr_wf nw_v g" and E: "weights_ok (nodes g) (wedges g) s" and delta: "0 < delta"
    and I: "ds_inv (wedges g) (nodes g) s delta c (insert u X) dist (\<lambda>b. thread_bin l b + R b)"
  shows "returns (RelaxEdges g u delta (dist, l)) (\<lambda>(dist', l').
    ds_inv (wedges g) (nodes g) s delta c X dist' (\<lambda>b. thread_bin l' b + R b) \<and> ds_prog (dist, l) (dist', l'))"
proof -
  let ?E = "wedges g" and ?n = "nodes g"
  have u: "u < ?n" using I by (auto simp: ds_inv_def ds_entries_def)
  let ?J = "\<lambda>D (dist', l'). ds_inv ?E ?n s delta c (insert u X) dist' (\<lambda>b. thread_bin l' b + R b) \<and>
    ds_prog (dist, l) (dist', l') \<and> dist' ! u = dist ! u \<and> (\<forall>x \<in> D. dist' ! nw_v x \<le> dist ! u + nw_w x)"
  have "returns (foldM (relax_edge u delta) (adj g u) (dist, l)) (\<lambda>(dist', l').
    ds_inv ?E ?n s delta c X dist' (\<lambda>b. thread_bin l' b + R b) \<and> ds_prog (dist, l) (dist', l'))"
  proof (rule foldM_set_rule [where I = ?J])
    show "?J {} (dist, l)" using I by simp
  next
    fix x D st
    assume x: "x \<in> set (adj g u)" and "D \<subseteq> set (adj g u)" and J: "?J D st"
    obtain d l1 where st: "st = (d, l1)" by (cases st)
    have K: "ds_inv ?E ?n s delta c (insert u X) d (\<lambda>b. thread_bin l1 b + R b)" "ds_prog (dist, l) (d, l1)"
      "d ! u = dist ! u" "\<And>y. y \<in> D \<Longrightarrow> d ! nw_v y \<le> dist ! u + nw_w y" using J st by auto
    have e: "(u, nw_w x, nw_v x) \<in> ?E" using x u by (auto simp: wedges_def)
    have len: "length d = ?n" using K(1) by (simp add: ds_inv_def walk_inv_def)
    note v = weights_okD [OF E e]
    have d0: "0 \<le> d ! u" using K(1) u by (auto simp: ds_inv_def walk_inv_def)
    have step: "?J (insert x D) (d', l')" if "ds_inv ?E ?n s delta c (insert u X) d' (\<lambda>b. thread_bin l' b + R b)"
      "if d ! u + nw_w x < d ! nw_v x then d' = d[nw_v x := d ! u + nw_w x] else (d', l') = (d, l1)" for d' l'
    proof (cases "d ! u + nw_w x < d ! nw_v x")
      case True
      then have d': "d' = d[nw_v x := d ! u + nw_w x]" using that(2) by simp
      have "nw_v x \<noteq> u" using True v(3) by auto
      moreover have "dist_left d' < dist_left d"
        unfolding d' by (rule dist_left_lower) (use True len v d0 in simp_all)
      moreover have "d' ! nw_v y \<le> dist ! u + nw_w y" if "y \<in> D" for y
        using K(4) [OF that] True len v(2) by (cases "nw_v y = nw_v x") (simp_all add: d')
      ultimately show ?thesis using that(1) K(2,3) len v(2) by (auto simp: d' ds_prog_def)
    next
      case False
      then show ?thesis using that K by (auto simp: not_less)
    qed
    have "returns (relax_edge u delta x (d, l1)) (?J (insert x D))"
      using relax_edge_ok [OF K(1) E e insertI1 delta] by (rule returns_mono) (use step in blast)
    then show "returns (relax_edge u delta x st) (?J (insert x D))" unfolding st .
  next
    fix st
    assume J: "?J (set (adj g u)) st"
    obtain d l1 where st: "st = (d, l1)" by (cases st)
    have "settled ?E d u" by (rule settled_wedges [OF u]) (use J st in auto)
    then show "case st of (dist', l') \<Rightarrow>
        ds_inv ?E ?n s delta c X dist' (\<lambda>b. thread_bin l' b + R b) \<and> ds_prog (dist, l) (dist', l')"
      using J st ds_inv_settled by auto
  qed
  then show ?thesis by (simp add: RelaxEdges_def out_neigh_wf [OF g u])
qed
section \<open>The phases of an iteration\<close>

definition bins_total :: "nat list list list \<Rightarrow> nat" where
  "bins_total bins = sum_list (map (\<lambda>l. sum_list (map length l)) bins)"

definition team_prog :: "int list \<times> nat list list list \<Rightarrow> int list \<times> nat list list list \<Rightarrow> bool" where
  "team_prog s t \<longleftrightarrow> dist_left (fst t) < dist_left (fst s) \<or> fst t = fst s \<and> bins_total (snd t) \<le> bins_total (snd s)"

lemma team_prog_refl [simp]: "team_prog s s"
  by (simp add: team_prog_def)

lemma team_prog_trans: "team_prog s t \<Longrightarrow> team_prog t u \<Longrightarrow> team_prog s u"
  by (auto simp: team_prog_def)

lemma ds_prog_team: "ds_prog s t \<Longrightarrow> team_prog s t"
  by (auto simp: ds_prog_def team_prog_def)

definition team_inv :: "warcs \<Rightarrow> nat \<Rightarrow> nat \<Rightarrow> int \<Rightarrow> nat \<Rightarrow> nat \<Rightarrow> nat set \<Rightarrow> int list \<times> nat list list list \<Rightarrow> bool" where
  "team_inv E n s delta T c X st \<longleftrightarrow> length (snd st) = T \<and> ds_inv E n s delta c X (fst st) (team_bin (snd st))"

lemma bins_total_update:
  "t < length bins \<Longrightarrow> bins_total (bins[t := l]) + sum_list (map length (bins ! t)) = bins_total bins + sum_list (map length l)"
  unfolding bins_total_def by (rule sum_list_map_update)

lemma on_thread_ok:
  assumes t: "t < length bins" and len: "length bins = T"
    and f: "returns (f (dist, bins ! t)) (\<lambda>(d', l'). ds_inv E n s delta c X d' (\<lambda>b. thread_bin l' b + team_bin (bins[t := []]) b) \<and> Q d' l')"
    and prog: "\<And>d' l'. Q d' l' \<Longrightarrow> team_prog (dist, bins) (d', bins[t := l'])"
  shows "returns (on_thread t f (dist, bins)) (\<lambda>st. team_inv E n s delta T c X st \<and> team_prog (dist, bins) st)"
proof -
  obtain d' l' where "f (dist, bins ! t) = Some (d', l')" "ds_inv E n s delta c X d' (\<lambda>b. thread_bin l' b + team_bin (bins[t := []]) b)" "Q d' l'"
    using f by (auto simp: returns_iff)
  moreover have "(\<lambda>b. thread_bin l' b + team_bin (bins[t := []]) b) = team_bin (bins[t := l'])"
    using team_bin_update [OF t, of l'] by (simp add: fun_eq_iff)
  ultimately show ?thesis using t len prog by (simp add: on_thread_def team_inv_def)
qed

lemma team_invD:
  assumes "team_inv E n s delta T c X (dist, bins)" "t < T"
  shows "length bins = T" "t < length bins"
    "ds_inv E n s delta c X dist (\<lambda>b. thread_bin (bins ! t) b + team_bin (bins[t := []]) b)"
proof -
  show l: "length bins = T" "t < length bins" using assms by (simp_all add: team_inv_def)
  have "(\<lambda>b. thread_bin (bins ! t) b + team_bin (bins[t := []]) b) = team_bin bins"
    using team_bin_split [OF l(2)] by (simp add: fun_eq_iff)
  then show "ds_inv E n s delta c X dist (\<lambda>b. thread_bin (bins ! t) b + team_bin (bins[t := []]) b)"
    using assms by (simp add: team_inv_def)
qed

lemma frontier_vertex_ok:
  assumes g: "csr_wf nw_v g" and E: "weights_ok (nodes g) (wedges g) s" and delta: "0 < delta" and t: "t < T"
    and c: "int c * delta \<le> kDistInf"
    and I: "team_inv (wedges g) (nodes g) s delta T c (insert u X) st"
  shows "returns (frontier_vertex g delta c t u st) (\<lambda>st'. team_inv (wedges g) (nodes g) s delta T c X st' \<and> team_prog st st')"
proof -
  obtain dist bins where st: "st = (dist, bins)" by (cases st)
  note I = I [unfolded st] and D = team_invD [OF I [unfolded st] t]
  have u: "u < length dist" using D(3) by (auto simp: ds_inv_def ds_entries_def walk_inv_def)
  have "int c * 1 \<le> int c * delta" using delta by (intro mult_left_mono) simp_all
  then have "c < 2 ^ 31" using c by (simp add: kDistInf_def)
  then have "sint (word_of_nat c :: 32 word) = int c" by (simp add: signed_of_nat signed_take_bit_int_eq_self)
  moreover have "0 \<le> delta * int c \<and> delta * int c \<le> kDistInf" using c delta by (simp add: mult.commute)
  ultimately have i: "int32 (delta * sint (word_of_nat c :: 32 word)) = Some (delta * int c)"
    by (simp add: int32_def kDistInf_def)
  show ?thesis
  proof (cases "delta * int c \<le> dist ! u")
    case False
    have "ds_inv (wedges g) (nodes g) s delta c (insert u X) dist (team_bin bins)" using I by (simp add: team_inv_def)
    moreover have "dist ! u < int c * delta" using False by (simp add: mult.commute)
    ultimately have "ds_inv (wedges g) (nodes g) s delta c X dist (team_bin bins)" by (rule ds_inv_below)
    then show ?thesis using False u D(1) by (simp add: st frontier_vertex_def team_inv_def i)
  next
    case True
    have "returns (on_thread t (RelaxEdges g u delta) (dist, bins))
        (\<lambda>st. team_inv (wedges g) (nodes g) s delta T c X st \<and> team_prog (dist, bins) st)"
    proof (rule on_thread_ok [OF D(2,1)])
      show "returns (RelaxEdges g u delta (dist, bins ! t)) (\<lambda>(d', l').
          ds_inv (wedges g) (nodes g) s delta c X d' (\<lambda>b. thread_bin l' b + team_bin (bins[t := []]) b) \<and>
          ds_prog (dist, bins ! t) (d', l'))"
        by (rule RelaxEdges_ok [OF g E delta D(3)])
    qed (auto simp: ds_prog_def team_prog_def)
    then show ?thesis using True u i by (simp add: st frontier_vertex_def)
  qed
qed

text \<open>Vertices leave a bin to be relaxed.\<close>

lemma ds_inv_take:
  assumes I: "ds_inv E n s delta c {} dist M" and M: "M b = mset xs + M' b" "\<And>b'. b' \<noteq> b \<Longrightarrow> M' b' = M b'"
  shows "ds_inv E n s delta c (set xs) dist M'"
proof -
  have sub: "M' b' \<subseteq># M b'" for b' using M by (cases "b' = b") simp_all
  have mem: "u \<in># M b' \<Longrightarrow> u \<in> set xs \<or> u \<in># M' b'" for u b' using M by (cases "b' = b") auto
  have xs: "u \<in># M b" if "u \<in> set xs" for u using that M(1) by simp
  have "ds_pending E n delta c (set xs) dist M'"
    using I mem unfolding ds_inv_def ds_pending_def by blast
  moreover have "\<forall>b' < c. M' b' = {#}"
    using I sub unfolding ds_inv_def by (metis subset_mset.le_zero_eq)
  moreover have "ds_entries E n delta (set xs) dist M'"
  proof -
    have e: "v < n \<and> v \<in> targets E \<and> dist ! v < kDistInf \<and> int b' * delta \<le> kDistInf \<and>
        int (count (M b') v) \<le> int (Suc b') * delta - max (dist ! v) (int b' * delta)" if "v \<in># M b'" for b' v
      using I that unfolding ds_inv_def ds_entries_def by blast
    have "int (count (M' b') v) \<le> int (count (M b') v)" for b' v using mset_subset_eq_count [OF sub] by simp
    then show ?thesis using e xs mset_subset_eqD [OF sub] unfolding ds_entries_def by (meson order_trans)
  qed
  ultimately show ?thesis using I by (simp add: ds_inv_def)
qed

text \<open>Relaxing a list of vertices by one thread.\<close>

lemma relax_list_ok:
  assumes g: "csr_wf nw_v g" and E: "weights_ok (nodes g) (wedges g) s" and delta: "0 < delta"
    and I: "ds_inv (wedges g) (nodes g) s delta c (set us) dist (\<lambda>b. thread_bin l b + R b)"
  shows "returns (foldM (\<lambda>u. RelaxEdges g u delta) us (dist, l)) (\<lambda>(dist', l').
    ds_inv (wedges g) (nodes g) s delta c {} dist' (\<lambda>b. thread_bin l' b + R b) \<and> ds_prog (dist, l) (dist', l'))"
proof (rule foldM_rule [where I = "\<lambda>i (dist', l'). ds_prog (dist, l) (dist', l') \<and>
    ds_inv (wedges g) (nodes g) s delta c (set (drop i us)) dist' (\<lambda>b. thread_bin l' b + R b)"])
  fix i st
  assume i: "i < length us" and J: "case st of (dist', l') \<Rightarrow> ds_prog (dist, l) (dist', l') \<and>
    ds_inv (wedges g) (nodes g) s delta c (set (drop i us)) dist' (\<lambda>b. thread_bin l' b + R b)"
  obtain d1 l1 where st: "st = (d1, l1)" by (cases st)
  have "ds_inv (wedges g) (nodes g) s delta c (insert (us ! i) (set (drop (Suc i) us))) d1 (\<lambda>b. thread_bin l1 b + R b)"
    using J i by (simp add: st Cons_nth_drop_Suc [symmetric])
  from RelaxEdges_ok [OF g E delta this] show "returns (RelaxEdges g (us ! i) delta st) (\<lambda>(dist', l').
      ds_prog (dist, l) (dist', l') \<and>
      ds_inv (wedges g) (nodes g) s delta c (set (drop (Suc i) us)) dist' (\<lambda>b. thread_bin l' b + R b))"
    unfolding st by (rule returns_mono) (use J st ds_prog_trans in auto)
qed (use I in auto)

definition fuse_prog :: "int list \<times> nat list list \<Rightarrow> int list \<times> nat list list \<Rightarrow> bool" where
  "fuse_prog s t \<longleftrightarrow> dist_left (fst t) < dist_left (fst s) \<or>
     fst t = fst s \<and> sum_list (map length (snd t)) \<le> sum_list (map length (snd s))"

lemma fuse_bins_ok:
  assumes g: "csr_wf nw_v g" and E: "weights_ok (nodes g) (wedges g) s" and delta: "0 < delta"
    and I: "ds_inv (wedges g) (nodes g) s delta c {} dist (\<lambda>b. thread_bin l b + R b)"
  shows "returns (fuse_bins g delta c (dist, l)) (\<lambda>(dist', l').
    ds_inv (wedges g) (nodes g) s delta c {} dist' (\<lambda>b. thread_bin l' b + R b) \<and> fuse_prog (dist, l) (dist', l'))"
  using I
proof (induction "dist_left dist" arbitrary: dist l rule: less_induct)
  case less
  show ?case
  proof (cases "c < length l \<and> l ! c \<noteq> [] \<and> length (l ! c) < kBinSizeThreshold")
    case False
    then show ?thesis using less.prems by (subst fuse_bins.simps) (auto simp: fuse_prog_def)
  next
    case True
    let ?l = "l[c := []]"
    have "thread_bin l c + R c = mset (l ! c) + (thread_bin ?l c + R c)"
      using True by (simp add: thread_bin_clear thread_bin_def)
    then have "ds_inv (wedges g) (nodes g) s delta c (set (l ! c)) dist (\<lambda>b. thread_bin ?l b + R b)"
      by (rule ds_inv_take [OF less.prems]) (simp add: thread_bin_clear)
    from relax_list_ok [OF g E delta this]
    obtain d1 l1 where r: "foldM (\<lambda>u. RelaxEdges g u delta) (l ! c) (dist, ?l) = Some (d1, l1)"
      "ds_inv (wedges g) (nodes g) s delta c {} d1 (\<lambda>b. thread_bin l1 b + R b)" "ds_prog (dist, ?l) (d1, l1)"
      by (auto simp: returns_iff)
    have unfold: "fuse_bins g delta c (dist, l) = fuse_bins g delta c (d1, l1)"
      using True r(1) by (subst fuse_bins.simps) simp
    show ?thesis
    proof (cases "dist_left d1 < dist_left dist")
      case True
      from less.hyps [OF this r(2)] show ?thesis
        unfolding unfold by (rule returns_mono) (use True in \<open>auto simp: fuse_prog_def\<close>)
    next
      case False
      then have same: "d1 = dist" "l1 = ?l" using r(3) by (auto simp: ds_prog_def)
      have "fuse_bins g delta c (dist, ?l) = Some (dist, ?l)"
        using True by (subst fuse_bins.simps) simp
      moreover have "sum_list (map length ?l) \<le> sum_list (map length l)"
        using sum_list_map_update [of c l length "[]"] True by simp
      ultimately show ?thesis using r(2) by (simp add: unfold same fuse_prog_def)
    qed
  qed
qed

lemma fuse_team_ok:
  assumes g: "csr_wf nw_v g" and E: "weights_ok (nodes g) (wedges g) s" and delta: "0 < delta"
    and I: "team_inv (wedges g) (nodes g) s delta T c {} st"
  shows "returns (foldM (\<lambda>t. on_thread t (fuse_bins g delta c)) [0..<T] st)
    (\<lambda>st'. team_inv (wedges g) (nodes g) s delta T c {} st' \<and> team_prog st st')"
proof (rule foldM_inv)
  fix t st1
  assume t: "t \<in> set [0..<T]" and J: "team_inv (wedges g) (nodes g) s delta T c {} st1 \<and> team_prog st st1"
  obtain d b where st1: "st1 = (d, b)" by (cases st1)
  have "t < T" using t by simp
  note D = team_invD [OF J [unfolded st1, THEN conjunct1] this]
  have "returns (on_thread t (fuse_bins g delta c) (d, b))
      (\<lambda>st. team_inv (wedges g) (nodes g) s delta T c {} st \<and> team_prog (d, b) st)"
  proof (rule on_thread_ok [OF D(2,1)])
    show "returns (fuse_bins g delta c (d, b ! t)) (\<lambda>(d', l').
        ds_inv (wedges g) (nodes g) s delta c {} d' (\<lambda>ba. thread_bin l' ba + team_bin (b[t := []]) ba) \<and> fuse_prog (d, b ! t) (d', l'))"
      by (rule fuse_bins_ok [OF g E delta D(3)])
    show "team_prog (d, b) (d', b[t := l'])" if "fuse_prog (d, b ! t) (d', l')" for d' l'
      using that bins_total_update [OF D(2), of l'] by (auto simp: fuse_prog_def team_prog_def)
  qed
  then show "returns (on_thread t (fuse_bins g delta c) st1)
      (\<lambda>st'. team_inv (wedges g) (nodes g) s delta T c {} st' \<and> team_prog st st')"
    unfolding st1 by (rule returns_mono) (use J st1 team_prog_trans in blast)
qed (use I in simp)
section \<open>The next bin\<close>

lemma next_vote_spec:
  assumes "next_vote c l x = r"
  shows "r \<le> x \<and> (\<forall>b. c \<le> b \<and> b < r \<longrightarrow> thread_bin l b = {#}) \<and> (r = x \<or> c \<le> r \<and> thread_bin l r \<noteq> {#})"
proof (cases "List.find (\<lambda>i. l ! i \<noteq> []) [c..<length l]")
  case None
  then have "thread_bin l b = {#}" if "c \<le> b" for b
    using that by (auto simp: find_None_iff thread_bin_def)
  then show ?thesis using assms None by (simp add: next_vote_def)
next
  case (Some i)
  then obtain k where k: "k < length [c..<length l]" "l ! ([c..<length l] ! k) \<noteq> []" "i = [c..<length l] ! k"
    "\<forall>j < k. \<not> l ! ([c..<length l] ! j) \<noteq> []" by (auto simp: find_Some_iff)
  then have i: "i = c + k" "i < length l" "l ! i \<noteq> []" by auto
  have "thread_bin l b = {#}" if "c \<le> b" "b < i" for b
  proof -
    have "b - c < k" using that i by simp
    then have "l ! ([c..<length l] ! (b - c)) = []" using k(4) by simp
    then show ?thesis using that i by (simp add: thread_bin_def)
  qed
  moreover have "r = min x i" "thread_bin l i \<noteq> {#}" using assms Some i by (simp_all add: next_vote_def thread_bin_def)
  ultimately show ?thesis using i(1) by (cases "x \<le> i") simp_all
qed

lemma fold_next_vote:
  assumes "fold (next_vote c) bins x = r"
  shows "r \<le> x \<and> (\<forall>b. c \<le> b \<and> b < r \<longrightarrow> team_bin bins b = {#}) \<and> (r = x \<or> c \<le> r \<and> team_bin bins r \<noteq> {#})"
  using assms
proof (induction bins arbitrary: x)
  case Nil
  then show ?case by (simp add: team_bin_def)
next
  case (Cons l bins)
  have team: "team_bin (l # bins) b = thread_bin l b + team_bin bins b" for b by (simp add: team_bin_def)
  let ?y = "next_vote c l x"
  have y: "?y \<le> x \<and> (\<forall>b. c \<le> b \<and> b < ?y \<longrightarrow> thread_bin l b = {#}) \<and> (?y = x \<or> c \<le> ?y \<and> thread_bin l ?y \<noteq> {#})"
    by (rule next_vote_spec) simp
  have "fold (next_vote c) bins ?y = r" using Cons.prems by simp
  from Cons.IH [OF this] y show ?case by (auto simp: team)
qed

definition bin_list :: "nat list list \<Rightarrow> nat \<Rightarrow> nat list" where
  "bin_list l b = (if b < length l then l ! b else [])"

lemma bin_list_mset: "mset (concat (map (\<lambda>l. bin_list l b) bins)) = team_bin bins b"
  by (induction bins) (simp_all add: team_bin_def bin_list_def thread_bin_def)

lemma bin_list_length: "length (bin_list l b) + sum_list (map length (l[b := []])) = sum_list (map length l)"
  using sum_list_map_update [of b l length "[]"] by (cases "b < length l") (simp_all add: bin_list_def list_update_beyond)

lemma bins_total_clear:
  "length (concat (map (\<lambda>l. bin_list l b) bins)) + bins_total (map (\<lambda>l. l[b := []]) bins) = bins_total bins"
proof (induction bins)
  case (Cons l bins)
  then show ?case using bin_list_length [of l b] by (simp add: bins_total_def)
qed (simp add: bins_total_def)

lemma team_bin_clear: "team_bin (map (\<lambda>l. l[b := []]) bins) = (team_bin bins)(b := {#})"
proof (rule ext)
  show "team_bin (map (\<lambda>l. l[b := []]) bins) x = ((team_bin bins)(b := {#})) x" for x
    by (induction bins) (simp_all add: team_bin_def thread_bin_clear)
qed

lemma copy_bin_ok:
  assumes fits: "length (concat (map (\<lambda>l. bin_list l b) bins)) \<le> length frontier"
  shows "returns (foldM (copy_bin b) [0..<length bins] (frontier, 0, bins)) (\<lambda>(fr, tail, bins').
    length fr = length frontier \<and> tail = length (concat (map (\<lambda>l. bin_list l b) bins)) \<and>
    take tail fr = concat (map (\<lambda>l. bin_list l b) bins) \<and> bins' = map (\<lambda>l. l[b := []]) bins)"
proof (rule foldM_upt_rule [where I = "\<lambda>i (fr, tail, bins'). length fr = length frontier \<and>
    tail = length (concat (map (\<lambda>l. bin_list l b) (take i bins))) \<and>
    take tail fr = concat (map (\<lambda>l. bin_list l b) (take i bins)) \<and>
    bins' = map (\<lambda>l. l[b := []]) (take i bins) @ drop i bins"])
  fix i st
  assume i: "i < length bins" and J: "case st of (fr, tail, bins') \<Rightarrow> length fr = length frontier \<and>
    tail = length (concat (map (\<lambda>l. bin_list l b) (take i bins))) \<and>
    take tail fr = concat (map (\<lambda>l. bin_list l b) (take i bins)) \<and>
    bins' = map (\<lambda>l. l[b := []]) (take i bins) @ drop i bins"
  obtain fr tail bins' where st: "st = (fr, tail, bins')" by (cases st)
  let ?C = "\<lambda>i. concat (map (\<lambda>l. bin_list l b) (take i bins))"
  have C: "?C (Suc i) = ?C i @ bin_list (bins ! i) b" using i by (simp add: take_Suc_conv_app_nth)
  have "concat (map (\<lambda>l. bin_list l b) bins) = ?C (Suc i) @ concat (map (\<lambda>l. bin_list l b) (drop (Suc i) bins))"
    by (metis append_take_drop_id concat_append map_append)
  then have room: "length (?C i) + length (bin_list (bins ! i) b) \<le> length frontier" using fits C by simp
  have at: "bins' ! i = bins ! i" "i < length bins'" using J st i by (auto simp: nth_append)
  have upd: "(map (\<lambda>l. l[b := []]) (take i bins) @ drop i bins)[i := (bins ! i)[b := []]]
      = map (\<lambda>l. l[b := []]) (take (Suc i) bins) @ drop (Suc i) bins"
    using i by (simp add: take_Suc_conv_app_nth list_update_append Cons_nth_drop_Suc [symmetric])
  show "returns (copy_bin b i st) (\<lambda>(fr, tail, bins'). length fr = length frontier \<and>
      tail = length (?C (Suc i)) \<and> take tail fr = ?C (Suc i) \<and>
      bins' = map (\<lambda>l. l[b := []]) (take (Suc i) bins) @ drop (Suc i) bins)"
  proof (cases "b < length (bins ! i)")
    case False
    then have "(bins ! i)[b := []] = bins ! i" "bin_list (bins ! i) b = []" by (simp_all add: bin_list_def list_update_beyond)
    moreover have "(map (\<lambda>l. l[b := []]) (take i bins) @ drop i bins)[i := bins ! i] = map (\<lambda>l. l[b := []]) (take i bins) @ drop i bins"
      using i by (simp add: list_update_append) (metis Cons_nth_drop_Suc list_update_code(2))
    ultimately have "?C (Suc i) = ?C i" "map (\<lambda>l. l[b := []]) (take (Suc i) bins) @ drop (Suc i) bins
        = map (\<lambda>l. l[b := []]) (take i bins) @ drop i bins" using C upd by simp_all
    moreover have "copy_bin b i st = Some st" using False st at by (simp add: copy_bin_def)
    ultimately show ?thesis using J by simp
  next
    case True
    then have bl: "bins ! i ! b = bin_list (bins ! i) b" by (simp add: bin_list_def)
    have "copy_cells (bin_list (bins ! i) b) (length (bin_list (bins ! i) b)) fr tail
        = Some (take tail fr @ bin_list (bins ! i) b @ drop (tail + length (bin_list (bins ! i) b)) fr)"
      using copy_cells_eq [of "length (bin_list (bins ! i) b)" "bin_list (bins ! i) b" tail fr] room J st by simp
    moreover have K: "length fr = length frontier" "tail = length (?C i)" "take tail fr = ?C i"
      "bins' = map (\<lambda>l. l[b := []]) (take i bins) @ drop i bins" using J unfolding st prod.case by blast+
    ultimately have "copy_bin b i st = Some (?C i @ bin_list (bins ! i) b @ drop (tail + length (bin_list (bins ! i) b)) fr,
        tail + length (bin_list (bins ! i) b), map (\<lambda>l. l[b := []]) (take (Suc i) bins) @ drop (Suc i) bins)"
      using True at upd by (simp only: st copy_bin_def prod.case rd_in bl if_True Let_def fetch_and_add_def bind.bind_lunit)
        (simp add: bl)
    then show ?thesis using K room by (simp add: C)
  qed
qed simp_all
section \<open>The loop\<close>

text \<open>The state at the head of the loop, and the measure of the loop.\<close>

definition loop_inv :: "warcs \<Rightarrow> nat \<Rightarrow> nat \<Rightarrow> int \<Rightarrow> nat \<Rightarrow> nat \<Rightarrow> nat \<Rightarrow> delta_step \<Rightarrow> bool" where
  "loop_inv E n s delta T m iter st \<longleftrightarrow>
     (let cur = iter mod 2; nxt = (iter + 1) mod 2; c = ds_shared_indexes st ! cur; tail = ds_frontier_tails st ! cur in
      length (ds_frontier st) = m \<and> length (ds_shared_indexes st) = 2 \<and> length (ds_frontier_tails st) = 2 \<and>
      length (ds_local_bins st) = T \<and> ds_shared_indexes st ! nxt = kMaxBin \<and> ds_frontier_tails st ! nxt = 0 \<and>
      (if c = kMaxBin then ds_inv E n s delta 0 {} (ds_dist st) (\<lambda>_. {#})
       else int c * delta \<le> kDistInf \<and> 0 < tail \<and> tail \<le> m \<and>
         ds_inv E n s delta c (set (take tail (ds_frontier st))) (ds_dist st) (team_bin (ds_local_bins st))))"

definition loop_left :: "nat \<Rightarrow> delta_step \<Rightarrow> nat \<times> nat" where
  "loop_left iter st = (dist_left (ds_dist st), bins_total (ds_local_bins st) + ds_frontier_tails st ! (iter mod 2))"

lemma frontier_pass_ok:
  assumes g: "csr_wf nw_v g" and E: "weights_ok (nodes g) (wedges g) s" and delta: "0 < delta"
    and c: "int c * delta \<le> kDistInf" and team: "\<And>i. tm i < T" and tail: "tail \<le> length fr"
    and I: "team_inv (wedges g) (nodes g) s delta T c (set (take tail fr)) st"
  shows "returns (foldM (\<lambda>i st. do { u \<leftarrow> rd fr i; frontier_vertex g delta c (tm i) u st }) [0..<tail] st)
    (\<lambda>st'. team_inv (wedges g) (nodes g) s delta T c {} st' \<and> team_prog st st')"
proof (rule foldM_upt_rule [where I = "\<lambda>i st'. team_inv (wedges g) (nodes g) s delta T c (set (drop i (take tail fr))) st' \<and> team_prog st st'"])
  fix i st1
  assume i: "i < tail" and J: "team_inv (wedges g) (nodes g) s delta T c (set (drop i (take tail fr))) st1 \<and> team_prog st st1"
  have "drop i (take tail fr) = fr ! i # drop (Suc i) (take tail fr)"
    using i tail by (simp add: Cons_nth_drop_Suc [symmetric])
  then have "team_inv (wedges g) (nodes g) s delta T c (insert (fr ! i) (set (drop (Suc i) (take tail fr)))) st1" using J by simp
  from frontier_vertex_ok [OF g E delta team c this, of i]
  have "returns (frontier_vertex g delta c (tm i) (fr ! i) st1) (\<lambda>st'.
      team_inv (wedges g) (nodes g) s delta T c (set (drop (Suc i) (take tail fr))) st' \<and> team_prog st st')"
    by (rule returns_mono) (use J team_prog_trans in blast)
  then show "returns (do { u \<leftarrow> rd fr i; frontier_vertex g delta c (tm i) u st1 }) (\<lambda>st'.
      team_inv (wedges g) (nodes g) s delta T c (set (drop (Suc i) (take tail fr))) st' \<and> team_prog st st')"
    using i tail by simp
qed (use I in simp_all)

text \<open>What the vote and the copies make of the bins.\<close>

lemma ds_inv_finished:
  assumes I: "ds_inv E n s delta c {} dist M" and none: "\<And>b. c \<le> b \<Longrightarrow> b < kMaxBin \<Longrightarrow> M b = {#}" and delta: "0 < delta"
  shows "ds_inv E n s delta 0 {} dist (\<lambda>_. {#})"
proof -
  have "M b = {#}" for b
  proof (rule ccontr)
    assume ne: "M b \<noteq> {#}"
    then obtain v where "v \<in># M b" by blast
    then have "int b * delta \<le> kDistInf" using I by (auto simp: ds_inv_def ds_entries_def)
    moreover have "int b * 1 \<le> int b * delta" using delta by (intro mult_left_mono) simp_all
    ultimately have "b < kMaxBin" by (simp add: kDistInf_def kMaxBin_def)
    moreover have "c \<le> b" using I ne by (auto simp: ds_inv_def not_less [symmetric])
    ultimately show False using none ne by blast
  qed
  then show ?thesis using I by (simp add: ds_inv_def ds_pending_def ds_entries_def)
qed

lemma ds_inv_advance:
  assumes I: "ds_inv E n s delta c {} dist M" and r: "c \<le> r" "\<And>b. c \<le> b \<Longrightarrow> b < r \<Longrightarrow> M b = {#}"
    and xs: "M r = mset xs" and delta: "0 < delta"
  shows "ds_inv E n s delta r (set xs) dist (M(r := {#}))"
proof -
  have e: "M b = {#}" if "b < r" for b
    using that r(2) I by (cases "b < c") (auto simp: ds_inv_def)
  have "ds_inv E n s delta c (set xs) dist (M(r := {#}))" by (rule ds_inv_take [OF I, of r]) (simp_all add: xs)
  moreover have "int r * delta \<le> dist ! u" if "u < n" "dist ! u < kDistInf" "\<not> settled E dist u" for u
  proof -
    have "u \<in># M (nat (dist ! u div delta))" using I that by (auto simp: ds_inv_def ds_pending_def)
    then have "r \<le> nat (dist ! u div delta)" using e by (metis empty_iff not_le set_mset_empty)
    moreover have "0 \<le> dist ! u" using I that by (auto simp: ds_inv_def walk_inv_def)
    then have "0 \<le> dist ! u div delta" using delta by (simp add: pos_imp_zdiv_nonneg_iff)
    ultimately have "int r \<le> dist ! u div delta" by linarith
    then have "int r * delta \<le> dist ! u div delta * delta" using delta by simp
    then show ?thesis using pos_mod_sign [OF delta, of "dist ! u"] div_mult_mod_eq [of "dist ! u" delta] by linarith
  qed
  moreover have "\<forall>b < r. (M(r := {#})) b = {#}" using e by simp
  ultimately show ?thesis unfolding ds_inv_def ds_pending_def by blast
qed

lemma ds_iteration_ok:
  assumes g: "csr_wf nw_v g" and E: "weights_ok (nodes g) (wedges g) s" and delta: "0 < delta"
    and team: "\<And>i. team iter i < T" and m: "delta * int (card (targets (wedges g))) \<le> int m"
    and I: "loop_inv (wedges g) (nodes g) s delta T m iter st" and go: "ds_shared_indexes st ! (iter mod 2) \<noteq> kMaxBin"
  shows "returns (ds_iteration g delta team iter st) (\<lambda>st'. loop_inv (wedges g) (nodes g) s delta T m (iter + 1) st' \<and>
    (loop_left (iter + 1) st', loop_left iter st) \<in> less_than <*lex*> less_than)"
proof -
  let ?E = "wedges g" and ?n = "nodes g"
  define cur nxt where "cur = iter mod 2" and "nxt = (iter + 1) mod 2"
  define c tail where "c = ds_shared_indexes st ! cur" and "tail = ds_frontier_tails st ! cur"
  have mods: "cur < 2" "nxt < 2" "cur \<noteq> nxt" "(iter + 1 + 1) mod 2 = cur"
      "Suc iter mod 2 = nxt" "Suc (Suc iter) mod 2 = cur"
    unfolding cur_def nxt_def by presburger+
  have L: "length (ds_frontier st) = m" "length (ds_shared_indexes st) = 2" "length (ds_frontier_tails st) = 2"
    "length (ds_local_bins st) = T" "ds_shared_indexes st ! nxt = kMaxBin" "ds_frontier_tails st ! nxt = 0"
    "int c * delta \<le> kDistInf" "0 < tail" "tail \<le> m"
    "ds_inv ?E ?n s delta c (set (take tail (ds_frontier st))) (ds_dist st) (team_bin (ds_local_bins st))"
    using I go by (simp_all add: loop_inv_def Let_def cur_def nxt_def c_def tail_def)
  let ?st0 = "(ds_dist st, ds_local_bins st)"
  have "team_inv ?E ?n s delta T c (set (take tail (ds_frontier st))) ?st0" using L by (simp add: team_inv_def)
  from frontier_pass_ok [OF g E delta L(7), of "team iter", OF team _ this] L
  obtain st1 where 1: "foldM (\<lambda>i s. do { u \<leftarrow> rd (ds_frontier st) i; frontier_vertex g delta c (team iter i) u s }) [0..<tail] ?st0 = Some st1"
    "team_inv ?E ?n s delta T c {} st1" "team_prog ?st0 st1" by (auto simp: returns_iff)
  have len1: "length (snd st1) = T" using 1(2) by (simp add: team_inv_def)
  obtain dist bins where 2: "foldM (\<lambda>t. on_thread t (fuse_bins g delta c)) [0..<T] st1 = Some (dist, bins)"
    "team_inv ?E ?n s delta T c {} (dist, bins)" "team_prog st1 (dist, bins)"
    using returns_ex [OF fuse_team_ok [OF g E delta 1(2)]] by auto
  have len: "length bins = T" and D: "ds_inv ?E ?n s delta c {} dist (team_bin bins)"
    using 2(2) by (simp_all add: team_inv_def)
  define r where "r = fold (next_vote c) bins kMaxBin"
  have r: "\<And>b. c \<le> b \<Longrightarrow> b < r \<Longrightarrow> team_bin bins b = {#}" "r = kMaxBin \<or> c \<le> r \<and> team_bin bins r \<noteq> {#}"
    using fold_next_vote [of c bins kMaxBin r] by (auto simp: r_def)
  define F where "F = concat (map (\<lambda>l. bin_list l r) bins)"
  have F: "mset F = team_bin bins r" by (simp add: F_def bin_list_mset)
  have "int (length F) \<le> int m"
    using ds_bin_size [OF D E delta, of r] m F by (metis dual_order.trans size_mset)
  then have Fm: "length F \<le> m" by simp
  obtain fr where 3: "foldM (copy_bin r) [0..<T] (ds_frontier st, 0, bins)
      = Some (fr, length F, map (\<lambda>l. l[r := []]) bins)" "length fr = m" "take (length F) fr = F"
    using returns_triple [OF copy_bin_ok [of r bins "ds_frontier st"]] Fm L(1) len by (auto simp: F_def)
  let ?st' = "\<lparr>ds_dist = dist, ds_frontier = fr, ds_shared_indexes = (ds_shared_indexes st)[nxt := r, cur := kMaxBin],
       ds_frontier_tails = (ds_frontier_tails st)[cur := 0, nxt := length F], ds_local_bins = map (\<lambda>l. l[r := []]) bins\<rparr>"
  have run: "ds_iteration g delta team iter st = Some ?st'"
    unfolding ds_iteration_def ds_relax_def Let_def cur_def [symmetric] nxt_def [symmetric] c_def [symmetric] tail_def [symmetric]
    using 1(1) 2(1) 3(1) L(5,6) len1 len by (simp add: r_def [symmetric])
  have sel: "(ds_shared_indexes st)[nxt := r, cur := kMaxBin] ! nxt = r" "(ds_shared_indexes st)[nxt := r, cur := kMaxBin] ! cur = kMaxBin"
    "(ds_frontier_tails st)[cur := 0, nxt := length F] ! nxt = length F" "(ds_frontier_tails st)[cur := 0, nxt := length F] ! cur = 0"
    using mods L by (simp_all add: nth_list_update)
  have prog: "team_prog ?st0 (dist, bins)" using 1(3) 2(3) by (rule team_prog_trans)
  have total: "length F + bins_total (map (\<lambda>l. l[r := []]) bins) = bins_total bins" by (simp add: F_def bins_total_clear)
  have "loop_inv ?E ?n s delta T m (iter + 1) ?st'"
  proof (cases "r = kMaxBin")
    case True
    then have "ds_inv ?E ?n s delta 0 {} dist (\<lambda>_. {#})" using ds_inv_finished [OF D _ delta] r(1) by blast
    then show ?thesis using True L len 3 sel mods by (simp add: loop_inv_def Let_def)
  next
    case False
    then have r': "c \<le> r" "team_bin bins r \<noteq> {#}" using r(2) by simp_all
    have "ds_inv ?E ?n s delta r (set F) dist ((team_bin bins)(r := {#}))"
      by (rule ds_inv_advance [OF D r'(1) r(1) F [symmetric] delta])
    moreover obtain v where "v \<in># team_bin bins r" using r'(2) by blast
    then have "int r * delta \<le> kDistInf" using D by (auto simp: ds_inv_def ds_entries_def)
    moreover have "F \<noteq> []" using r'(2) F by auto
    ultimately show ?thesis using False L len 3 sel mods Fm
      by (simp add: loop_inv_def Let_def team_bin_clear)
  qed
  moreover have "(loop_left (iter + 1) ?st', loop_left iter st) \<in> less_than <*lex*> less_than"
    using prog total L(8) sel by (auto simp: loop_left_def team_prog_def mods cur_def [symmetric] tail_def)
  ultimately show ?thesis by (simp add: run)
qed

lemma ds_loop_ok:
  assumes g: "csr_wf nw_v g" and E: "weights_ok (nodes g) (wedges g) s" and delta: "0 < delta"
    and team: "\<And>iter i. team iter i < T" and m: "delta * int (card (targets (wedges g))) \<le> int m"
    and I: "loop_inv (wedges g) (nodes g) s delta T m iter st"
  shows "returns (ds_loop g delta team iter st) (\<lambda>(st', iter'). ds_inv (wedges g) (nodes g) s delta 0 {} (ds_dist st') (\<lambda>_. {#}))"
proof -
  have "wf (inv_image (less_than <*lex*> less_than) (\<lambda>(iter, st). loop_left iter st))" by auto
  then show ?thesis using I
  proof (induction "(iter, st)" arbitrary: iter st rule: wf_induct_rule)
    case less
    show ?case
    proof (cases "ds_shared_indexes st ! (iter mod 2) = kMaxBin")
      case True
      then show ?thesis using less.prems by (subst ds_loop.simps) (simp add: loop_inv_def Let_def)
    next
      case False
      obtain st' where st': "ds_iteration g delta team iter st = Some st'" "loop_inv (wedges g) (nodes g) s delta T m (iter + 1) st'"
        "(loop_left (iter + 1) st', loop_left iter st) \<in> less_than <*lex*> less_than"
        using returns_ex [OF ds_iteration_ok [where team = team, OF g E delta team m less.prems False]] by blast
      have "((iter + 1, st'), iter, st) \<in> inv_image (less_than <*lex*> less_than) (\<lambda>(iter, st). loop_left iter st)"
        using st'(3) by simp
      from less.hyps [OF this st'(2)] show ?thesis using False st'(1) by (subst ds_loop.simps) simp
    qed
  qed
qed

lemma DeltaStep_returns:
  assumes g: "csr_wf nw_v g" and E: "weights_ok (nodes g) (wedges g) s" and delta: "0 < delta"
    and team: "\<And>iter i. team iter i < threads"
    and m: "num_edges_directed g = Some m" "0 < m" "delta * int (card (targets (wedges g))) \<le> m"
  shows "\<exists>dist. DeltaStep threads team g (int s) delta = Some dist \<and> shortest_dists (nodes g) (wedges g) s dist"
proof -
  have s: "s < nodes g" using E by (simp add: weights_ok_def)
  let ?dist = "(replicate (nodes g) kDistInf)[s := 0]"
  let ?fr = "(uninit (nat m))[0 := s]"
  let ?st = "\<lparr>ds_dist = ?dist, ds_frontier = ?fr, ds_shared_indexes = [0, kMaxBin], ds_frontier_tails = [1, 0], ds_local_bins = replicate threads []\<rparr>"
  have W: "walk_inv (nodes g) (wedges g) s ?dist" by (rule walk_inv_start [OF s])
  have bins: "team_bin (replicate threads []) = (\<lambda>_. {#})" by (induction threads) (auto simp: team_bin_def fun_eq_iff)
  have fr: "take (Suc 0) ?fr = [s]" using m(2) by (simp add: uninit_def take_Suc hd_conv_nth neq_Nil_conv)
  have "ds_inv (wedges g) (nodes g) s delta 0 {s} ?dist (\<lambda>_. {#})"
    using W s by (auto simp: ds_inv_def ds_pending_def ds_entries_def nth_list_update split: if_splits)
  then have "loop_inv (wedges g) (nodes g) s delta threads (nat m) 0 ?st"
    using fr m(2) by (simp add: loop_inv_def bins kMaxBin_def)
  moreover have "delta * int (card (targets (wedges g))) \<le> int (nat m)" using m by simp
  ultimately obtain st iter where run: "ds_loop g delta team 0 ?st = Some (st, iter)"
    "ds_inv (wedges g) (nodes g) s delta 0 {} (ds_dist st) (\<lambda>_. {#})"
    using returns_pair [OF ds_loop_ok [where team = team, OF g E delta team]] by blast
  have "shortest_dists (nodes g) (wedges g) s (ds_dist st)"
    by (rule settled_shortest [OF _ E]) (use run(2) in \<open>auto simp: ds_inv_def ds_pending_def\<close>)
  moreover have "DeltaStep threads team g (int s) delta = Some (ds_dist st)"
    using s m run(1) by (simp add: DeltaStep_def ds_start_def nodes_def [symmetric])
  ultimately show ?thesis by blast
qed

section \<open>Properties\<close>

text \<open>C17: Delta-stepping computes shortest distances.  For every width of the bins, every number of threads and
  every assignment of the frontier to them, the kernel ends and returns the length of a shortest walk
  for every vertex that has one and \<open>kDistInf\<close> for the others, as long as the frontier array, which has
  a cell per edge, holds \<open>delta\<close> entries for each vertex with an incoming edge (with the default
  \<open>delta = 1\<close> it always does).\<close>

theorem DeltaStep_shortest:
  assumes g: "csr_wf nw_v g" and E: "weights_ok (nodes g) (wedges g) s" and delta: "0 < delta"
    and team: "\<And>iter i. team iter i < threads"
    and m: "num_edges_directed g = Some m" "0 < m" "delta * int (card (targets (wedges g))) \<le> m"
  shows "\<exists>dist. DeltaStep threads team g (int s) delta = Some dist \<and> shortest_dists (nodes g) (wedges g) s dist"
  by (rule DeltaStep_returns [where team = team]) (use assms in auto)

lemma DeltaStep_shortest_witness:
  "\<exists>dist. DeltaStep 2 (\<lambda>iter i. i mod 2) detour_graph 0 1 = Some dist \<and> dist ! 0 = 0 \<and> dist ! 3 = kDistInf"
proof -
  have "targets (wedges detour_graph) = {1, 2}" by (auto simp: targets_def detour_graph_simps)
  then have "1 * int (card (targets (wedges detour_graph))) \<le> 3" by simp
  then show ?thesis
    using DeltaStep_shortest [of detour_graph 0 1 "\<lambda>iter i. i mod 2" 2 3] detour_graph_ok detour_dists
    by (auto simp: detour_graph_simps)
qed

section \<open>Too small a frontier\<close>

text \<open>
  A vertex enters a bin again whenever a shorter walk to it is found, so a wide bin can hold more
  entries than the graph has edges.  In \<open>fan_graph k\<close> the source reaches vertex 1 at the distance 3, and at the distance 2
  through vertex 2.  With \<open>delta = 100\<close> vertex 1 is relaxed for both, and each time all of its \<open>k\<close> neighbours enter
  the bin 1.
\<close>

definition fan_graph :: "nat \<Rightarrow> node_weight csr_graph" where
  "fan_graph k = csr_of_both
     ([[NodeWeight 1 3, NodeWeight 2 1], map (\<lambda>v. NodeWeight v 100) [3..<k + 3], [NodeWeight 1 1]] @ replicate k [])
     ([[], [NodeWeight 0 3, NodeWeight 2 1], [NodeWeight 0 1]] @ replicate k [NodeWeight 1 100])"

lemma fan_graph_simps [simp]:
  "k \<le> 10 ^ 6 \<Longrightarrow> csr_wf nw_v (fan_graph k)" "nodes (fan_graph k) = k + 3" "csr_num_nodes (fan_graph k) = int k + 3"
  "k \<le> 10 ^ 6 \<Longrightarrow> num_edges_directed (fan_graph k) = Some (int k + 3)"
proof -
  show "csr_wf nw_v (fan_graph k)" if "k \<le> 10 ^ 6"
    unfolding fan_graph_def by (rule csr_of_both_wf) (use that in \<open>auto simp: sum_list_replicate\<close>)
  show n: "nodes (fan_graph k) = k + 3" by (simp add: fan_graph_def)
  show "csr_num_nodes (fan_graph k) = int k + 3" by (simp add: fan_graph_def csr_of_both_def)
  show "num_edges_directed (fan_graph k) = Some (int k + 3)" if "k \<le> 10 ^ 6" using that by (simp add: fan_graph_def)
qed

lemma fan_neigh [simp]:
  assumes "k \<le> 10 ^ 6"
  shows "out_neigh (fan_graph k) 0 0 = Some [NodeWeight 1 3, NodeWeight 2 1]"
  "out_neigh (fan_graph k) (Suc 0) 0 = Some (map (\<lambda>v. NodeWeight v 100) [3..<k + 3])"
  "out_neigh (fan_graph k) 2 0 = Some [NodeWeight 1 1]"
  by (simp_all add: out_neigh_wf [OF fan_graph_simps(1) [OF assms]]) (simp_all add: fan_graph_def)

lemma fan_wedges: "wedges (fan_graph k) = {(0, 3, 1), (0, 1, 2), (2, 1, 1)} \<union> (\<lambda>v. (1, 100, v)) ` {3..<k + 3}"
proof -
  have upt: "[0..<k + 3] = [0, 1, 2] @ [3..<k + 3]"
    using upt_add_eq_append [of 0 3 k] by (simp add: add.commute numeral_3_eq_3)
  have "adj (fan_graph k) u = []" if "u \<in> set [3..<k + 3]" for u using that by (auto simp: fan_graph_def nth_append)
  then have "map (\<lambda>u. map (\<lambda>x. (u, nw_w x, nw_v x)) (adj (fan_graph k) u)) [3..<k + 3] = map (\<lambda>u. []) [3..<k + 3]"
    by (intro map_cong) simp_all
  moreover have "adj (fan_graph k) 0 = [NodeWeight 1 3, NodeWeight 2 1]" "adj (fan_graph k) 2 = [NodeWeight 1 1]"
    "adj (fan_graph k) 1 = map (\<lambda>v. NodeWeight v 100) [3..<k + 3]" by (simp_all add: fan_graph_def)
  ultimately show ?thesis
    unfolding wedges_list fan_graph_simps(2) upt map_append concat_append set_append by (auto simp: map_replicate_const)
qed

lemma fan_weights:
  assumes "k \<le> 10 ^ 6"
  shows "weights_ok (nodes (fan_graph k)) (wedges (fan_graph k)) 0"
proof (rule weights_ok_bound [where W = 100])
  show "u < nodes (fan_graph k) \<and> v < nodes (fan_graph k) \<and> 0 \<le> w \<and> w \<le> 100" if "(u, w, v) \<in> wedges (fan_graph k)" for u w v
    using that by (auto simp: fan_wedges)
qed (use assms in \<open>simp_all add: kDistInf_def\<close>)

lemmas relax_simps = relax_edge_def relax_loop.simps int32_def kDistInf_def bin_push_def bins_resize_def
  kMaxBin_def div_trunc_def signed_divide_int_def Let_def

text \<open>Vertex 1 at the distance d lowers its neighbours from c to d + 100.\<close>

lemma fan_spread:
  assumes d: "0 \<le> d" "d < 100" "d + 100 < c" "c \<le> kDistInf" and b: "l = [[], b] \<or> l = [[]] \<and> b = []"
  shows "j \<le> k \<Longrightarrow> foldM (relax_edge (Suc 0) 100) (map (\<lambda>v. NodeWeight v 100) [3..<j + 3]) (0 # d # 1 # replicate k c, l)
    = Some (0 # d # 1 # replicate j (d + 100) @ replicate (k - j) c, if j = 0 then l else [[], b @ [3..<j + 3]])"
proof (induction j)
  case (Suc j)
  let ?D = "0 # d # 1 # replicate j (d + 100) @ replicate (k - j) c"
  let ?l = "if j = 0 then l else [[], b @ [3..<j + 3]]"
  have len: "j + 3 < length ?D" and cell: "?D ! (j + 3) = c" using Suc.prems by (simp_all add: nth_append numeral_3_eq_3)
  have upd: "?D[j + 3 := d + 100] = 0 # d # 1 # replicate (Suc j) (d + 100) @ replicate (k - Suc j) c"
  proof -
    have "replicate (k - j) c = c # replicate (k - Suc j) c" using Suc.prems by (simp add: Suc_diff_Suc [symmetric])
    then show ?thesis by (simp add: numeral_3_eq_3 list_update_append replicate_append_same)
  qed
  have i: "int32 (d + 100) = Some (d + 100)" using d by (simp add: int32_def)
  have q: "(d + 100) div 100 = 1" using d by linarith
  have upt: "[3..<Suc j + 3] = [3..<j + 3] @ [j + 3]" unfolding add_Suc by (rule upt_Suc_append) simp
  have push: "bin_push 100 (j + 3) (d + 100) ?l = Some [[], b @ [3..<j + 3] @ [j + 3]]"
    using b d q by (auto simp: bin_push_def div_trunc_def signed_divide_int_def int32_def bins_resize_def kMaxBin_def)
  have "relax_edge (Suc 0) 100 (NodeWeight (j + 3) 100) (?D, ?l)
      = Some (0 # d # 1 # replicate (Suc j) (d + 100) @ replicate (k - Suc j) c, [[], b @ [3..<j + 3] @ [j + 3]])"
    using len cell i push upd d by (simp add: relax_edge_def relax_loop.simps del: replicate.simps upt_Suc list_update.simps append.simps)
  then show ?case unfolding upt map_append foldM_append using Suc by (simp del: replicate.simps)
qed simp

lemma fan_relax:
  assumes k: "k \<le> 10 ^ 6"
  shows "RelaxEdges (fan_graph k) 0 100 (0 # kDistInf # kDistInf # replicate k kDistInf, []) =
     Some (0 # 3 # 1 # replicate k kDistInf, [[1, 2]])"
  "RelaxEdges (fan_graph k) 2 100 (0 # 3 # 1 # xs, [[], vs]) = Some (0 # 2 # 1 # xs, [[1], vs])"
  "0 \<le> d \<Longrightarrow> d < 100 \<Longrightarrow> d + 100 < c \<Longrightarrow> c \<le> kDistInf \<Longrightarrow> 0 < k \<Longrightarrow> l = [[], b] \<or> l = [[]] \<and> b = [] \<Longrightarrow>
     RelaxEdges (fan_graph k) (Suc 0) 100 (0 # d # 1 # replicate k c, l) = Some (0 # d # 1 # replicate k (d + 100), [[], b @ [3..<k + 3]])"
proof -
  show "RelaxEdges (fan_graph k) 0 100 (0 # kDistInf # kDistInf # replicate k kDistInf, []) =
      Some (0 # 3 # 1 # replicate k kDistInf, [[1, 2]])"
    and "RelaxEdges (fan_graph k) 2 100 (0 # 3 # 1 # xs, [[], vs]) = Some (0 # 2 # 1 # xs, [[1], vs])"
    using k by (simp_all add: RelaxEdges_def relax_simps)
  show "RelaxEdges (fan_graph k) (Suc 0) 100 (0 # d # 1 # replicate k c, l) = Some (0 # d # 1 # replicate k (d + 100), [[], b @ [3..<k + 3]])"
    if "0 \<le> d" "d < 100" "d + 100 < c" "c \<le> kDistInf" "0 < k" "l = [[], b] \<or> l = [[]] \<and> b = []"
    using k fan_spread [OF that(1,2,3,4,6) order.refl, of k] that(5) by (simp add: RelaxEdges_def)
qed

lemma fan_fuse:
  assumes "0 < k" "k \<le> 10 ^ 6"
  shows "fuse_bins (fan_graph k) 100 0 (0 # 3 # 1 # replicate k kDistInf, [[1, 2]])
    = Some (0 # 2 # 1 # replicate k 102, [[], [3..<k + 3] @ [3..<k + 3]])"
proof -
  have i: "(103 :: int) \<le> kDistInf" "(103 :: int) < kDistInf" by (simp_all add: kDistInf_def)
  have "fuse_bins (fan_graph k) 100 0 (0 # 2 # 1 # replicate k 102, [[], [3..<k + 3] @ [3..<k + 3]])
      = Some (0 # 2 # 1 # replicate k 102, [[], [3..<k + 3] @ [3..<k + 3]])"
    by (subst fuse_bins.simps) simp
  then have "fuse_bins (fan_graph k) 100 0 (0 # 2 # 1 # replicate k 103, [[1], [3..<k + 3]])
      = Some (0 # 2 # 1 # replicate k 102, [[], [3..<k + 3] @ [3..<k + 3]])"
    using assms i by (subst fuse_bins.simps) (simp add: kBinSizeThreshold_def fan_relax(3))
  then show ?thesis using assms i by (subst fuse_bins.simps) (simp add: kBinSizeThreshold_def fan_relax(2,3))
qed
lemma fan_dists:
  assumes "k \<le> 10 ^ 6"
  shows "shortest_dists (nodes (fan_graph k)) (wedges (fan_graph k)) 0 (0 # 2 # 1 # replicate k 102)"
proof (rule settled_shortest [OF _ fan_weights [OF assms]])
  let ?E = "wedges (fan_graph k)" and ?dist = "0 # 2 # 1 # replicate k (102 :: int)"
  have 2: "walk ?E 0 2 1" using walk_arc [OF walk_start, of 0 1 2 ?E] by (simp add: fan_wedges)
  have 1: "walk ?E 0 1 2" using walk_arc [OF 2, of 1 1] by (simp add: fan_wedges)
  have far: "walk ?E 0 v 102" if "3 \<le> v" "v < k + 3" for v
    using walk_arc [OF 1, of 100 v] that by (simp add: fan_wedges)
  have d: "?dist ! 0 = 0" "?dist ! 1 = 2" "?dist ! 2 = 1" "\<And>v. 3 \<le> v \<Longrightarrow> v < k + 3 \<Longrightarrow> ?dist ! v = 102"
    by (simp_all add: nth_Cons' numeral_2_eq_2)
  have "0 \<le> ?dist ! v \<and> ?dist ! v \<le> kDistInf \<and> walk ?E 0 v (?dist ! v)" if "v < k + 3" for v
  proof -
    have "v = 0 \<or> v = 1 \<or> v = 2 \<or> 3 \<le> v" by linarith
    then show ?thesis using that d 1 2 far [of v] walk_start [of ?E 0] by (auto simp: kDistInf_def)
  qed
  then show "walk_inv (nodes (fan_graph k)) ?E 0 ?dist" by (simp add: walk_inv_def)
  show "settled ?E ?dist u" for u using d by (auto simp: settled_def fan_wedges)
qed

text \<open>A copy of more cells than the array has reaches the cell behind the last one.\<close>

lemma copy_cells_past:
  assumes "length dst < n" "length dst \<le> length src"
  shows "copy_cells src n dst 0 = None"
proof -
  obtain b where b: "copy_cells src (length dst) dst 0 = Some b" "length b = length dst"
    using copy_cells_eq [of "length dst" src 0 dst] assms by auto
  have "[0..<n] = [0..<length dst] @ length dst # [Suc (length dst)..<n]"
    using assms upt_add_eq_append [of 0 "length dst" "n - length dst"] by (simp add: upt_conv_Cons)
  moreover have "do { x \<leftarrow> rd src (length dst); wr b (length dst) x } = None"
    using b(2) by (simp add: wr_def bind_eq_None_conv)
  ultimately show ?thesis using b(1) by (simp add: copy_cells_def foldM_append)
qed

text \<open>C19: Delta-stepping can write past the end of its frontier array.  The array has one cell per edge.  For every
  \<open>k\<close> from 4 on (up to a million), \<open>fan_graph k\<close> is a well-formed graph of \<open>k + 3\<close> edges with small weights.  With
  \<open>delta = 100\<close> and one thread the relaxations of the first iteration end, with the right distances and \<open>2 * k\<close> entries in
  the bin 1, which is the next bin of the vote.  The copy of this bin to the frontier starts at its first cell, fills all \<open>k + 3\<close>
  cells and writes the next entry behind the last one, so the run has no defined result.\<close>

lemma DeltaStep_overflow:
  assumes "3 < k" "k \<le> 10 ^ 6"
  shows "csr_wf nw_v (fan_graph k) \<and> weights_ok (nodes (fan_graph k)) (wedges (fan_graph k)) 0 \<and>
    num_edges_directed (fan_graph k) = Some (int k + 3) \<and>
    (\<exists>st dist bin frontier. ds_start 1 (fan_graph k) 0 = Some st \<and>
       ds_relax (fan_graph k) 100 (\<lambda>iter i. 0) 0 st = Some (dist, [[[], bin]]) \<and>
       shortest_dists (nodes (fan_graph k)) (wedges (fan_graph k)) 0 dist \<and>
       fold (next_vote 0) [[[], bin]] kMaxBin = 1 \<and> length bin = 2 * k \<and> k + 3 < length bin \<and>
       copy_cells bin (k + 3) (ds_frontier st) 0 = Some frontier \<and> length frontier = k + 3 \<and>
       wr frontier (k + 3) (bin ! (k + 3)) = None \<and>
       copy_bin 1 0 (ds_frontier st, 0, [[[], bin]]) = None \<and>
       ds_iteration (fan_graph k) 100 (\<lambda>iter i. 0) 0 st = None) \<and>
    DeltaStep 1 (\<lambda>iter i. 0) (fan_graph k) 0 100 = None"
proof -
  let ?g = "fan_graph k" and ?bin = "[3..<k + 3] @ [3..<k + 3]" and ?dist = "0 # 2 # 1 # replicate k 102"
  let ?st = "\<lparr>ds_dist = 0 # kDistInf # kDistInf # replicate k kDistInf, ds_frontier = (uninit (k + 3))[0 := 0],
    ds_shared_indexes = [0, kMaxBin], ds_frontier_tails = [1, 0], ds_local_bins = [[]]\<rparr>"
  note g = fan_graph_simps(1) [OF assms(2)] and E = fan_weights [OF assms(2)]
  have fr: "length ((uninit (k + 3) :: nat list)[0 := 0]) = k + 3" by simp
  have start: "ds_start 1 ?g 0 = Some ?st"
    using assms(2) by (simp add: ds_start_def nat_add_distrib wr_def numeral_3_eq_3)
  have relax: "ds_relax ?g 100 (\<lambda>iter i. 0) 0 ?st = Some (?dist, [[[], ?bin]])"
    using fan_relax(1) [OF assms(2)] fan_fuse [of k] assms
    by (simp add: ds_relax_def frontier_vertex_def on_thread_def int32_def)
  have vote: "fold (next_vote 0) [[[], ?bin]] kMaxBin = 1"
    using assms by (simp add: next_vote_def kMaxBin_def)
  obtain frontier where copy: "copy_cells ?bin (k + 3) ((uninit (k + 3))[0 := 0]) 0 = Some frontier" "length frontier = k + 3"
    using copy_cells_eq [of "k + 3" ?bin 0 "(uninit (k + 3))[0 := 0]"] assms fr by auto
  have out: "wr frontier (k + 3) x = None" for x using copy(2) by (simp add: wr_def)
  have fails: "copy_bin 1 0 ((uninit (k + 3))[0 := 0], 0, [[[], ?bin]]) = None"
    using assms copy_cells_past [of "(uninit (k + 3))[0 := 0]" "k + k" ?bin]
    by (simp add: copy_bin_def fetch_and_add_def)
  then have iteration: "ds_iteration ?g 100 (\<lambda>iter i. 0) 0 ?st = None"
    using relax vote by (simp add: ds_iteration_def)
  then have "DeltaStep 1 (\<lambda>iter i. 0) ?g 0 100 = None"
    using start by (simp add: DeltaStep_def, subst ds_loop.simps) (simp add: kMaxBin_def)
  moreover have "k + 3 < length ?bin" "length ?bin = 2 * k" using assms by simp_all
  ultimately show ?thesis
    using g E fan_graph_simps(4) [OF assms(2)] start relax fan_dists [OF assms(2)] vote copy out fails iteration
    by (intro conjI exI [of _ ?st] exI [of _ ?dist] exI [of _ ?bin] exI [of _ frontier]) simp_all
qed

lemma DeltaStep_overflow_witness:
  "\<exists>st dist bin. ds_start 1 (fan_graph 4) 0 = Some st \<and>
     ds_relax (fan_graph 4) 100 (\<lambda>iter i. 0) 0 st = Some (dist, [[[], bin]]) \<and> length bin = 8 \<and>
     num_edges_directed (fan_graph 4) = Some 7"
  using DeltaStep_overflow [of 4] by fastforce

end
