(* ===== verification/SSSPCheck.thy ===== *)
theory SSSPCheck
  imports ShortestPath "HOL-Library.Product_Lexorder"
begin

text \<open>
  The verifier of src/sssp.cc, a serial Dijkstra search.  The queue \<^verbatim>\<open>mq\<close> is a
  \<^verbatim>\<open>priority_queue\<close> of pairs under \<^verbatim>\<open>greater\<close>: its top is the least pair, so it is
  the sorted list of its elements.
\<close>

section \<open>The code\<close>

definition mq_push :: "int \<times> nat \<Rightarrow> (int \<times> nat) list \<Rightarrow> (int \<times> nat) list" where
  "mq_push x mq = insort x mq"

definition dv_edge :: "int \<Rightarrow> node_weight \<Rightarrow> int list \<times> (int \<times> nat) list \<Rightarrow> (int list \<times> (int \<times> nat) list) option" where
  "dv_edge td wn s = (case s of (oracle_dist, mq) \<Rightarrow> do {
     new_dist \<leftarrow> int32 (td + nw_w wn);
     old_dist \<leftarrow> rd oracle_dist (nw_v wn);
     if new_dist < old_dist then do {
       oracle_dist \<leftarrow> wr oracle_dist (nw_v wn) new_dist;
       Some (oracle_dist, mq_push (new_dist, nw_v wn) mq) }
     else Some (oracle_dist, mq) })"

partial_function (option) dv_loop :: "node_weight csr_graph \<Rightarrow> int list \<Rightarrow> (int \<times> nat) list \<Rightarrow> int list option" where
  \<comment> \<open>\<^verbatim>\<open>while (!mq.empty())\<close>\<close>
  "dv_loop g oracle_dist mq =
     (if mq = [] then Some oracle_dist
      else do {
        let (td, u) = hd mq;
        let mq = tl mq;
        du \<leftarrow> rd oracle_dist u;
        if td = du then do {
          wns \<leftarrow> out_neigh g u 0;
          (oracle_dist, mq) \<leftarrow> foldM (dv_edge td) wns (oracle_dist, mq);
          dv_loop g oracle_dist mq }
        else dv_loop g oracle_dist mq })"

definition SSSPVerifier :: "node_weight csr_graph \<Rightarrow> int \<Rightarrow> int list \<Rightarrow> bool option" where
  "SSSPVerifier g source dist_to_test = (if source < 0 then None else do {
     oracle_dist \<leftarrow> wr (replicate (nat (csr_num_nodes g)) kDistInf) (nat source) 0;
     oracle_dist \<leftarrow> dv_loop g oracle_dist (mq_push (0, nat source) []);
     foldM (\<lambda>n all_ok. do {
         d \<leftarrow> rd dist_to_test n;
         od \<leftarrow> rd oracle_dist n;
         Some (if d \<noteq> od then False else all_ok) }) (vertices g) True })"

section \<open>The search\<close>

definition dv_inv :: "warcs \<Rightarrow> nat \<Rightarrow> nat \<Rightarrow> nat set \<Rightarrow> int list \<Rightarrow> (int \<times> nat) list \<Rightarrow> bool" where
  \<comment> \<open>reached vertices that can lower another one are queued with their distance, or in X\<close>
  "dv_inv E n s X dist mq \<longleftrightarrow> walk_inv n E s dist \<and>
     (\<forall>u < n. dist ! u < kDistInf \<and> \<not> settled E dist u \<longrightarrow> u \<in> X \<or> (dist ! u, u) \<in> set mq) \<and>
     (\<forall>(d, u) \<in> set mq. u < n \<and> dist ! u \<le> d \<and> d < kDistInf)"

lemma set_mq_push [simp]: "set (mq_push x mq) = insert x (set mq)"
  by (simp add: mq_push_def set_insort_key)

lemma dv_inv_lower:
  assumes I: "dv_inv E n s X dist mq" and E: "weights_ok n E s" "(u, w, v) \<in> E"
    and u: "dist ! u < kDistInf" and less: "dist ! u + w < dist ! v"
  shows "dv_inv E n s X (dist[v := dist ! u + w]) (mq_push (dist ! u + w, v) mq)"
proof -
  let ?d = "dist ! u + w"
  have W: "walk_inv n E s dist" using I by (simp add: dv_inv_def)
  note e = weights_okD [OF E]
  have len: "length dist = n" using W by (simp add: walk_inv_def)
  have "x \<in> X \<or> (dist[v := ?d] ! x, x) \<in> set (mq_push (?d, v) mq)"
    if x: "x < n" "dist[v := ?d] ! x < kDistInf" "\<not> settled E (dist[v := ?d]) x" for x
  proof (cases "x = v")
    case False
    then have "\<not> settled E dist x" using x(3) settled_lower [of E dist x v ?d] less e(2) len by auto
    then show ?thesis using I x False by (auto simp: dv_inv_def)
  qed (use e(2) len in simp)
  moreover have "y < n \<and> dist[v := ?d] ! y \<le> d \<and> d < kDistInf" if "(d, y) \<in> set (mq_push (?d, v) mq)" for d y
  proof -
    have "?d < kDistInf" using less walk_invD(2) [OF W e(2)] by simp
    then show ?thesis using that I less e(2) len by (fastforce simp: dv_inv_def nth_list_update)
  qed
  moreover have "walk_inv n E s (dist[v := ?d])" by (rule walk_inv_lower [OF W E u less])
  ultimately show ?thesis unfolding dv_inv_def by blast
qed

lemma dv_edges_ok:
  assumes g: "csr_wf nw_v g" and E: "weights_ok (nodes g) (wedges g) s" and u: "u < nodes g"
    and I: "dv_inv (wedges g) (nodes g) s {u} dist mq" and d: "dist ! u < kDistInf"
  shows "returns (foldM (dv_edge (dist ! u)) (adj g u) (dist, mq)) (\<lambda>(dist', mq').
    dv_inv (wedges g) (nodes g) s {} dist' mq' \<and> (dist_left dist' < dist_left dist \<or> (dist', mq') = (dist, mq)))"
proof (rule foldM_set_rule [where I = "\<lambda>D (dist', mq'). dv_inv (wedges g) (nodes g) s {u} dist' mq' \<and> dist' ! u = dist ! u \<and>
    (dist_left dist' < dist_left dist \<or> (dist', mq') = (dist, mq)) \<and> (\<forall>x \<in> D. dist' ! nw_v x \<le> dist ! u + nw_w x)"])
  fix x D st
  assume x: "x \<in> set (adj g u)" and "D \<subseteq> set (adj g u)"
    and J: "case st of (dist', mq') \<Rightarrow> dv_inv (wedges g) (nodes g) s {u} dist' mq' \<and> dist' ! u = dist ! u \<and>
    (dist_left dist' < dist_left dist \<or> (dist', mq') = (dist, mq)) \<and> (\<forall>x \<in> D. dist' ! nw_v x \<le> dist ! u + nw_w x)"
  obtain d1 m1 where st: "st = (d1, m1)" by (cases st)
  have e: "(u, nw_w x, nw_v x) \<in> wedges g" using x u by (auto simp: wedges_def)
  note v = weights_okD [OF E e]
  have W: "walk_inv (nodes g) (wedges g) s d1" using J by (simp add: st dv_inv_def)
  have len: "length d1 = nodes g" using W by (simp add: walk_inv_def)
  let ?d = "dist ! u + nw_w x"
  have d0: "0 \<le> dist ! u" using walk_invD(1) [OF W u] J by (simp add: st)
  have i: "int32 ?d = Some ?d" using d d0 v by (simp add: int32_def kDistInf_def)
  show "returns (dv_edge (dist ! u) x st) (\<lambda>(dist', mq'). dv_inv (wedges g) (nodes g) s {u} dist' mq' \<and> dist' ! u = dist ! u \<and>
    (dist_left dist' < dist_left dist \<or> (dist', mq') = (dist, mq)) \<and> (\<forall>y \<in> insert x D. dist' ! nw_v y \<le> dist ! u + nw_w y))"
  proof (cases "?d < d1 ! nw_v x")
    case False
    then show ?thesis using J i v len by (auto simp: st dv_edge_def)
  next
    case True
    have "dv_inv (wedges g) (nodes g) s {u} (d1[nw_v x := ?d]) (mq_push (?d, nw_v x) m1)"
      using dv_inv_lower [of "wedges g" "nodes g" s "{u}" d1 m1 u "nw_w x" "nw_v x"] J E e d True by (simp add: st)
    moreover have "nw_v x \<noteq> u" using True J v(3) by (auto simp: st)
    moreover have "dist_left (d1[nw_v x := ?d]) < dist_left d1"
      by (rule dist_left_lower) (use True len v d0 in simp_all)
    moreover have "d1[nw_v x := ?d] ! nw_v y \<le> dist ! u + nw_w y" if "y \<in> D" for y
      using J that True len v(2) by (cases "nw_v y = nw_v x") (auto simp: st)
    ultimately show ?thesis using J i v True len by (auto simp: st dv_edge_def)
  qed
next
  fix st
  assume J: "case st of (dist', mq') \<Rightarrow> dv_inv (wedges g) (nodes g) s {u} dist' mq' \<and> dist' ! u = dist ! u \<and>
    (dist_left dist' < dist_left dist \<or> (dist', mq') = (dist, mq)) \<and> (\<forall>x \<in> set (adj g u). dist' ! nw_v x \<le> dist ! u + nw_w x)"
  obtain d1 m1 where st: "st = (d1, m1)" by (cases st)
  have "settled (wedges g) d1 u" by (rule settled_wedges [OF u]) (use J in \<open>auto simp: st\<close>)
  then show "case st of (dist', mq') \<Rightarrow>
    dv_inv (wedges g) (nodes g) s {} dist' mq' \<and> (dist_left dist' < dist_left dist \<or> (dist', mq') = (dist, mq))"
    using J by (auto simp: st dv_inv_def)
qed (use I in simp)

lemma dv_loop_ok:
  assumes g: "csr_wf nw_v g" and E: "weights_ok (nodes g) (wedges g) s" and I: "dv_inv (wedges g) (nodes g) s {} dist mq"
  shows "returns (dv_loop g dist mq) (shortest_dists (nodes g) (wedges g) s)"
proof -
  have "wf (inv_image (less_than <*lex*> less_than) (\<lambda>(dist, mq :: (int \<times> nat) list). (dist_left dist, length mq)))" by auto
  then show ?thesis using I
  proof (induction "(dist, mq)" arbitrary: dist mq rule: wf_induct_rule)
    case less
    show ?case
    proof (cases mq)
      case Nil
      have "shortest_dists (nodes g) (wedges g) s dist"
        by (rule settled_shortest [OF _ E]) (use less.prems Nil in \<open>auto simp: dv_inv_def\<close>)
      then show ?thesis using Nil by (subst dv_loop.simps) simp
    next
      case (Cons x mq')
      obtain td u where x: "x = (td, u)" by (cases x)
      have u: "u < nodes g" "dist ! u \<le> td" "td < kDistInf" "length dist = nodes g"
        using less.prems by (auto simp: dv_inv_def walk_inv_def Cons x)
      show ?thesis
      proof (cases "td = dist ! u")
        case False
        then have "dv_inv (wedges g) (nodes g) s {} dist mq'" using less.prems by (auto simp: dv_inv_def Cons x)
        from less.hyps [OF _ this] show ?thesis using False u by (subst dv_loop.simps) (simp add: Cons x)
      next
        case True
        then have "dv_inv (wedges g) (nodes g) s {u} dist mq'" using less.prems by (auto simp: dv_inv_def Cons x)
        then obtain d1 m1 where r: "foldM (dv_edge (dist ! u)) (adj g u) (dist, mq') = Some (d1, m1)"
          "dv_inv (wedges g) (nodes g) s {} d1 m1" "dist_left d1 < dist_left dist \<or> (d1, m1) = (dist, mq')"
          using returns_pair [OF dv_edges_ok [OF g E u(1)]] u True by blast
        have "returns (dv_loop g d1 m1) (shortest_dists (nodes g) (wedges g) s)"
          by (rule less.hyps [OF _ r(2)]) (use r(3) in \<open>auto simp: Cons\<close>)
        then show ?thesis using True u r(1) out_neigh_wf [OF g u(1), of 0] by (subst dv_loop.simps) (simp add: Cons x)
      qed
    qed
  qed
qed

lemma compare_dists:
  assumes "length ds = k" "length os = k"
  shows "foldM (\<lambda>n all_ok. do { d \<leftarrow> rd ds n; od \<leftarrow> rd os n; Some (if d \<noteq> od then False else all_ok) }) [0..<k] True = Some (ds = os)"
proof -
  have "returns (foldM (\<lambda>n all_ok. do { d \<leftarrow> rd ds n; od \<leftarrow> rd os n; Some (if d \<noteq> od then False else all_ok) }) [0..<k] True)
      (\<lambda>b. b = (ds = os))"
    by (rule foldM_upt_rule [where I = "\<lambda>i b. b = (\<forall>j < i. ds ! j = os ! j)"])
      (use assms in \<open>auto simp: less_Suc_eq list_eq_iff_nth_eq\<close>)
  then show ?thesis by (auto simp: returns_iff)
qed

lemma SSSPVerifier_eq:
  assumes g: "csr_wf nw_v g" and E: "weights_ok (nodes g) (wedges g) s" and len: "length dist = nodes g"
  shows "SSSPVerifier g (int s) dist = Some (shortest_dists (nodes g) (wedges g) s dist)"
proof -
  have s: "s < nodes g" using E by (simp add: weights_ok_def)
  let ?o = "(replicate (nodes g) kDistInf)[s := 0]"
  have "dv_inv (wedges g) (nodes g) s {} ?o (mq_push (0, s) [])"
    using walk_inv_start [OF s, of "wedges g"] s by (auto simp: dv_inv_def nth_list_update split: if_splits)
  then obtain os where os: "dv_loop g ?o (mq_push (0, s) []) = Some os" "shortest_dists (nodes g) (wedges g) s os"
    using returns_ex [OF dv_loop_ok [OF g E]] by blast
  have "length os = nodes g" using os(2) by (simp add: shortest_dists_def)
  from compare_dists [OF len this] have "SSSPVerifier g (int s) dist = Some (dist = os)"
    using s os(1) by (simp add: SSSPVerifier_def nodes_def [symmetric] vertices_nodes)
  moreover have "dist = os \<longleftrightarrow> shortest_dists (nodes g) (wedges g) s dist"
    using os(2) shortest_dists_unique by blast
  ultimately show ?thesis by simp
qed

section \<open>Properties\<close>

text \<open>C18: The verifier decides correctness: on every array of distances it returns, and it accepts exactly the
  array that holds the length of a shortest walk for every reachable vertex and \<open>kDistInf\<close> for the others.\<close>

theorem SSSPVerifier_correct:
  assumes g: "csr_wf nw_v g" and E: "weights_ok (nodes g) (wedges g) s" and len: "length dist = nodes g"
  shows "SSSPVerifier g (int s) dist = Some (shortest_dists (nodes g) (wedges g) s dist)"
  using assms by (rule SSSPVerifier_eq)

lemma SSSPVerifier_correct_witness:
  "SSSPVerifier detour_graph 0 [0, 5, 1, 9] = Some False"
proof -
  have "\<not> shortest_dists 4 (wedges detour_graph) 0 [0, 5, 1, 9]" using detour_dists(2) by (force simp: kDistInf_def)
  then show ?thesis
    using SSSPVerifier_correct [of detour_graph 0 "[0, 5, 1, 9]"] detour_graph_ok by (simp add: detour_graph_simps)
qed

end
