(* ===== verification/SSSPMain.thy ===== *)
theory SSSPMain
  imports Construction SSSP SSSPCheck Bench
begin

text \<open>
  The weighted instance of the builder (\<^verbatim>\<open>WeightedBuilder\<close> of src/benchmark.h) and \<^verbatim>\<open>main\<close> of
  src/sssp.cc.  A weighted graph reaches the kernel by one way that is modelled to the end, a
  serialized file; a generated edge list needs weights and fails an assertion.  The remaining way, the
  shared constructor with entries of two ints, is the argument \<open>shared\<close>.
\<close>

section \<open>The weighted builder\<close>

definition SquishWeightedGraph where
  "SquishWeightedGraph shared bld g host_id =
     (if host_id = 0 then
        rbind (of_opt (SquishCSR nw_v nw_eq g False)) (\<lambda>(out_index, out_neighs, neighs_x).
        if bld_index_x bld = SIZE_MAX then Inl AssertFailed
        else if csr_directed g then Inl AssertFailed
        else shared (csr_num_nodes g) out_index (bld_index_x bld) out_neighs (word_of_nat neighs_x) host_id)
      else shared (csr_num_nodes g) [] (bld_index_x bld) [] (bld_neighs_x bld) host_id)"

definition MakeWeightedGraph where
  "MakeWeightedGraph shared fs generate invert cli bld host_id =
     rbind (if host_id = (0::int) then
              if cl_filename cli \<noteq> '''' then
                read_input True (\<lambda>(v, w). map_option (\<lambda>v. NodeWeight v w) (node_id v)) dec_wnode 8 invert fs
                  (cl_filename cli) (bld_needs_weights bld)
              else if cl_scale cli \<noteq> -1 then
                rbind (generate (cl_scale cli) (cl_degree cli) (cl_host_id cli) (cl_uniform cli))
                  (\<lambda>el. Inr (EdgeList el, bld_needs_weights bld))
              else Inr (EdgeList [], bld_needs_weights bld)
            else Inr (EdgeList [], bld_needs_weights bld)) (\<lambda>(inp, needs_weights). case inp of
       SerializedGraph g \<Rightarrow> Inr g
     | EdgeList el \<Rightarrow>
       rbind (MakeGraphFromEL nw_v GetSourceW invert (bld\<lparr>bld_needs_weights := needs_weights\<rparr>) el (cl_host_id cli)) (\<lambda>(g, bld).
       if bld_in_place bld then Inl AssertFailed
       else SquishWeightedGraph shared bld g (cl_host_id cli)))"

section \<open>The program\<close>

definition sssp_main where
  \<comment> \<open>a run takes its threads and their schedule from \<open>threads\<close> and \<open>team\<close>\<close>
  "sssp_main threads team draws shared opts fs generate =
     rbind (ParseArgs CLDelta_HandleArg opts (CLDelta ''single-source shortest-path'')) (\<lambda>(cli, ok).
     if \<not> ok then Inl (Exit (-1))
     else rbind (BuilderBase True cli) (\<lambda>b.
       rbind (assert_that (cl_host_id cli \<ge> 0)) (\<lambda>_.
       rbind (assert_that (cl_size_in_gib cli > 0)) (\<lambda>_.
       rbind (MakeWeightedGraph shared fs generate True cli b (cl_host_id cli)) (\<lambda>g.
       of_opt (BenchmarkKernel (cl_app.truncate cli)
         (\<lambda>(sp, vsp). do { (source, sp) \<leftarrow> PickNext g draws sp; dist \<leftarrow> DeltaStep threads team g source (cl_delta cli); Some (dist, sp, vsp) })
         (\<lambda>dist (sp, vsp). do { (source, vsp) \<leftarrow> PickNext g draws vsp; ok \<leftarrow> SSSPVerifier g source dist; Some (ok, sp, vsp) })
         (SourcePicker (cl_start_vertex cli), SourcePicker (cl_start_vertex cli))))))))"

text \<open>The graph of a serialized file, and what the options have to say.\<close>

definition weighted_rows :: "node_weight list list \<Rightarrow> node_weight list list \<Rightarrow> int \<Rightarrow> bool" where
  \<comment> \<open>rows of a graph with weights of at most W that no distance can overflow\<close>
  "weighted_rows rows irows W \<longleftrightarrow> rows \<noteq> [] \<and> length irows = length rows \<and> length (concat irows) = length (concat rows) \<and>
     length rows < 2 ^ 31 - 1 \<and> length (concat rows) < 2 ^ 63 \<and> 0 < length (concat rows) \<and>
     0 \<le> W \<and> int (length rows) * W < kDistInf \<and>
     (\<forall>x \<in> set (concat rows) \<union> set (concat irows). nw_v x < length rows \<and> 0 \<le> nw_w x \<and> nw_w x \<le> W)"

definition row_arcs :: "node_weight list list \<Rightarrow> warcs" where
  "row_arcs rows = {(u, nw_w x, nw_v x) | u x. u < length rows \<and> x \<in> set (rows ! u)}"

definition file_run where
  \<comment> \<open>the options name a serialized file on host 0, which holds the rows\<close>
  "file_run opts fs cli rows irows \<longleftrightarrow>
     ParseArgs CLDelta_HandleArg opts (CLDelta ''single-source shortest-path'') = Inr (cli, True) \<and>
     GetSuffix (cl_filename cli) = Inr ''.wsg'' \<and> cl_host_id cli = 0 \<and> cl_size_in_gib cli > 0 \<and> \<not> cl_in_place cli \<and>
     (\<exists>can_write fs'. WriteGraph enc_wnode show_wnode can_write fs' (csr_of_both rows irows) (cl_filename cli) True = Inr fs)"

lemma wedges_rows: "wedges (csr_of_both rows irows) = row_arcs rows"
  by (auto simp: wedges_def row_arcs_def)

lemma weighted_rowsD:
  assumes r: "weighted_rows rows irows W"
  defines "g \<equiv> csr_of_both rows irows"
  shows "csr_wf nw_v g" "s < length rows \<Longrightarrow> weights_ok (nodes g) (wedges g) s"
    "\<And>x. x \<in> set (concat rows) \<union> set (concat irows) \<Longrightarrow> nw_v x < 2 ^ 31 \<and> - (2 ^ 31) \<le> nw_w x \<and> nw_w x < 2 ^ 31"
proof -
  have "1 * W \<le> int (length rows) * W"
    by (rule mult_right_mono) (use r in \<open>auto simp: weighted_rows_def Suc_le_eq\<close>)
  then have W: "W < kDistInf" using r by (simp add: weighted_rows_def)
  show "csr_wf nw_v g" unfolding g_def
    by (rule csr_of_both_wf) (use r in \<open>auto simp: weighted_rows_def\<close>)
  show "weights_ok (nodes g) (wedges g) s" if "s < length rows"
  proof (rule weights_ok_bound)
    show "0 \<le> W" "int (nodes g) * W < kDistInf" "s < nodes g" using r that by (simp_all add: weighted_rows_def g_def)
    show "u < nodes g \<and> v < nodes g \<and> 0 \<le> w \<and> w \<le> W" if arc: "(u, w, v) \<in> wedges g" for u w v
    proof -
      obtain x where x: "u < length rows" "x \<in> set (rows ! u)" "w = nw_w x" "v = nw_v x"
        using arc by (auto simp: g_def wedges_rows row_arcs_def)
      then have "x \<in> set (concat rows)" using nth_mem [OF x(1)] by auto
      then show ?thesis using r x by (simp add: weighted_rows_def g_def)
    qed
  qed
  show "nw_v x < 2 ^ 31 \<and> - (2 ^ 31) \<le> nw_w x \<and> nw_w x < 2 ^ 31" if "x \<in> set (concat rows) \<union> set (concat irows)" for x
  proof -
    have "nw_v x < length rows" "0 \<le> nw_w x" "nw_w x \<le> W" "length rows < 2 ^ 31 - 1" using r that unfolding weighted_rows_def by blast+
    then show ?thesis using W by (simp add: kDistInf_def)
  qed
qed

lemma MakeWeightedGraph_file:
  assumes f: "file_run opts fs cli rows irows" and r: "weighted_rows rows irows W"
  shows "MakeWeightedGraph shared fs generate True cli b 0 = Inr (csr_of_both rows irows)"
proof -
  note w = weighted_rowsD(3) [OF r]
  obtain can_write fs' where wr: "WriteGraph enc_wnode show_wnode can_write fs' (csr_of_both rows irows) (cl_filename cli) True = Inr fs"
    using f by (auto simp: file_run_def)
  then have "cl_filename cli \<noteq> ''''" "can_write (cl_filename cli)" by (auto simp: WriteGraph_def split: if_splits)
  moreover have "GetSuffix (cl_filename cli) = Inr ''.wsg''" using f by (simp add: file_run_def)
  moreover obtain bs where bs: "WriteSerializedGraph enc_wnode (csr_of_both rows irows) = Some bs" "fs = fs'(cl_filename cli \<mapsto> bs)"
    using wr by (auto simp: WriteGraph_def rbind_eq_Inr of_opt_def split: if_splits option.splits)
  moreover have "read_graph dec_wnode 8 True bs = Some (csr_of_both rows irows)"
    using wnode_codec.serialized_eq [of rows irows, OF _ _ _ _ _ w] r bs(1) by (simp add: weighted_rows_def)
  ultimately show ?thesis
    by (simp add: MakeWeightedGraph_def read_input_def ReadSerializedGraph_def)
qed

text \<open>A generated graph needs weights, so it ends in the assertion of \<^verbatim>\<open>MakeGraphFromEL\<close>: this is the
  case in which, as README-SDM.md has it, sssp cannot be executed.\<close>

lemma sssp_generated_fails:
  assumes "ParseArgs CLDelta_HandleArg opts (CLDelta ''single-source shortest-path'') = Inr (cli, True)"
    and "cl_filename cli = ''''" "cl_scale cli \<noteq> -1" "cl_host_id cli = 0" "cl_size_in_gib cli > 0" "\<not> cl_in_place cli"
    and "generate (cl_scale cli) (cl_degree cli) 0 (cl_uniform cli) = Inr el" "FindMaxNodeID nw_v el < 2 ^ 31 - 1"
  shows "sssp_main threads team draws shared opts fs generate = Inl AssertFailed"
  using assms by (simp add: sssp_main_def BuilderBase_def MakeWeightedGraph_def MakeGraphFromEL_def)

section \<open>Properties\<close>

text \<open>C3: The shortest-path program, from a file to the log.  Given a weighted graph in a .wsg file (the format of
  \<^verbatim>\<open>WriteSerializedGraph\<close>), \<^verbatim>\<open>-x 0\<close> and a bin width for which the frontier array is large enough, \<^verbatim>\<open>main\<close> reads
  the graph back and makes the requested number of runs; each returns the shortest distances from its source, the
  vertex of \<^verbatim>\<open>-r\<close> when one is given, for every team and schedule, and with \<^verbatim>\<open>-v\<close> each verification passes.
  README-SDM.md says that sssp cannot be executed in this version.  The code does so only for generated graphs
  (\<open>sssp_generated_fails\<close>): on host 0 \<^verbatim>\<open>MakeGraph\<close> returns a graph read from a .wsg file directly, before
  the assertion on weights.\<close>

theorem sssp_main_distances:
  assumes f: "file_run opts fs cli rows irows" and r: "weighted_rows rows irows W"
    and delta: "0 < cl_delta cli" "cl_delta cli * int (card (targets (row_arcs rows))) \<le> int (length (concat rows))"
    and team: "\<And>iter i. team iter i < threads" and fair: "fair_draws (csr_of_both rows irows) draws"
    and start: "cl_start_vertex cli = -1 \<or> 0 \<le> cl_start_vertex cli \<and> cl_start_vertex cli < int (length rows)"
  shows "\<exists>st log. sssp_main threads team draws shared opts fs generate = Inr (st, log) \<and>
    log_ok (cl_app.truncate cli)
      (\<lambda>dist. \<exists>src. (cl_start_vertex cli = -1 \<or> cl_start_vertex cli = int src) \<and> shortest_dists (length rows) (row_arcs rows) src dist)
      (nat (cl_num_trials cli)) log"
proof -
  define g where "g = csr_of_both rows irows"
  note w = weighted_rowsD [OF r, folded g_def]
  have n: "nodes g = length rows" and E: "wedges g = row_arcs rows"
    and m: "num_edges_directed g = Some (int (length (concat rows)))"
    by (simp_all add: g_def wedges_rows)
  have m0: "0 < int (length (concat rows))" using r unfolding weighted_rows_def by linarith
  let ?cli = "cl_app.truncate cli"
  let ?I = "\<lambda>(sp, vsp). (cl_do_verify cli \<longrightarrow> vsp = sp) \<and> sp_given_source sp = cl_start_vertex cli"
  let ?kern = "\<lambda>(sp, vsp). do { (source, sp) \<leftarrow> PickNext g draws sp; dist \<leftarrow> DeltaStep threads team g source (cl_delta cli); Some (dist, sp, vsp) }"
  let ?verify = "\<lambda>dist (sp, vsp). do { (source, vsp) \<leftarrow> PickNext g draws vsp; ok \<leftarrow> SSSPVerifier g source dist; Some (ok, sp, vsp) }"
  let ?R = "\<lambda>dist. \<exists>src. (cl_start_vertex cli = -1 \<or> cl_start_vertex cli = int src) \<and> shortest_dists (length rows) (row_arcs rows) src dist"
  have t: "cl_do_verify ?cli = cl_do_verify cli" "cl_num_trials ?cli = cl_num_trials cli" by (simp_all add: cl_app.truncate_def)
  have "good_trial ?cli ?I ?R ?kern ?verify st" if st: "?I st" for st :: "source_picker \<times> source_picker"
  proof -
    obtain sp vsp where sp: "st = (sp, vsp)" "cl_do_verify cli \<longrightarrow> vsp = sp" "sp_given_source sp = cl_start_vertex cli"
      using st by (cases st) auto
    have "sp_given_source sp = -1 \<or> 0 \<le> sp_given_source sp \<and> sp_given_source sp < int (nodes g)"
      using start n sp(3) by auto
    from PickNext_returns [OF w(1) fair [folded g_def] this]
    obtain v sp' where p: "PickNext g draws sp = Some (int v, sp')" "v < nodes g" "sp_given_source sp' = sp_given_source sp" by blast
    have src: "cl_start_vertex cli = -1 \<or> cl_start_vertex cli = int v"
      using p(1) sp(3) by (auto simp: PickNext_def split: if_splits)
    have ok: "weights_ok (nodes g) (wedges g) v" using w(2) p(2) n by simp
    obtain dist where d: "DeltaStep threads team g (int v) (cl_delta cli) = Some dist" "shortest_dists (nodes g) (wedges g) v dist"
      using DeltaStep_returns [where team = team, OF w(1) ok delta(1) team m m0] delta(2) by (auto simp: E)
    have "SSSPVerifier g (int v) dist = Some True"
      using SSSPVerifier_eq [OF w(1) ok, of dist] d(2) by (simp add: shortest_dists_def)
    then show ?thesis
      using p d sp src by (auto simp: good_trial_def t n E)
  qed
  from returns_pair [OF BenchmarkKernel_verifies [where I = ?I, OF this, of "(SourcePicker (cl_start_vertex cli), SourcePicker (cl_start_vertex cli))"]]
  obtain st log where log: "BenchmarkKernel ?cli ?kern ?verify (SourcePicker (cl_start_vertex cli), SourcePicker (cl_start_vertex cli)) = Some (st, log)"
    "log_ok ?cli ?R (nat (cl_num_trials cli)) log" by (auto simp: SourcePicker_def t)
  have "BuilderBase True cli = Inr \<lparr>bld_symmetrize = cl_symmetrize cli, bld_needs_weights = True, bld_in_place = False,
      bld_num_nodes = -1, bld_index_x = SIZE_MAX, bld_neighs_x = SIZE_MAX\<rparr>"
    using f by (simp add: BuilderBase_def file_run_def)
  then have "sssp_main threads team draws shared opts fs generate = Inr (st, log)"
    using f MakeWeightedGraph_file [OF f r] log(1) by (simp add: sssp_main_def file_run_def g_def)
  then show ?thesis using log(2) by blast
qed

definition detour_opts :: "(char \<times> string) list" where
  \<comment> \<open>\<^verbatim>\<open>-f g.wsg -x 0 -S 1 -r 0 -v\<close>\<close>
  "detour_opts = [(CHR ''f'', ''g.wsg''), (CHR ''x'', ''0''), (CHR ''S'', ''1''), (CHR ''r'', ''0''), (CHR ''v'', '''')]"

definition detour_cli :: cl_delta where
  "detour_cli = (CLDelta ''single-source shortest-path'')
     \<lparr>cl_filename := ''g.wsg'', cl_host_id := 0, cl_size_in_gib := 1, cl_start_vertex := 0, cl_do_verify := True\<rparr>"

lemma detour_fields:
  "cl_num_trials detour_cli = 16" "cl_start_vertex detour_cli = 0" "cl_delta detour_cli = 1" "\<not> cl_in_place detour_cli"
  "cl_filename detour_cli = ''g.wsg''" "cl_host_id detour_cli = 0" "cl_size_in_gib detour_cli = 1"
  by (simp_all add: detour_cli_def CLDelta_defaults)

lemma detour_parse: "ParseArgs CLDelta_HandleArg detour_opts (CLDelta ''single-source shortest-path'') = Inr (detour_cli, True)"
proof -
  have "atoi ''0'' = Inr 0" "atoi ''1'' = Inr 1" "atol ''0'' = Inr 0"
    by (simp_all add: atoi_def atol_def read_int_def is_space_def digit_of_def)
  then show ?thesis
    by (simp add: ParseArgs_def CLBase_HandleArg_def CLApp_HandleArg_def CLDelta_HandleArg_def detour_opts_def detour_cli_def
      CLDelta_defaults)
qed

lemma sssp_main_distances_witness:
  "\<exists>fs st log. sssp_main 2 (\<lambda>iter i. i mod 2) (\<lambda>j. 0) (\<lambda>n i x m k h. Inl NoDefinedResult) detour_opts fs
      (\<lambda>s d h u. Inl NoDefinedResult) = Inr (st, log) \<and>
    (\<exists>src. src = 0 \<and> (\<forall>dist. Ran dist \<in> set log \<longrightarrow> shortest_dists 4 (wedges detour_graph) src dist)) \<and>
    Verified False \<notin> set log"
proof -
  let ?rows = "[[NodeWeight 1 5, NodeWeight 2 1], [], [NodeWeight 1 2], []]"
  let ?irows = "[[], [NodeWeight 0 5, NodeWeight 2 2], [NodeWeight 0 1], []]"
  have r: "weighted_rows ?rows ?irows 5" by (simp add: weighted_rows_def kDistInf_def)
  have E: "row_arcs ?rows = wedges detour_graph" by (simp only: detour_graph_def wedges_rows)
  have "targets (row_arcs ?rows) = {1, 2}" unfolding E by (auto simp: targets_def detour_graph_simps)
  then have c: "1 * int (card (targets (row_arcs ?rows))) \<le> int (length (concat ?rows))" by simp
  have "WriteSerializedGraph enc_wnode (csr_of_both ?rows ?irows) \<noteq> None"
    using wnode_codec.serialized_eq [of ?rows ?irows, OF _ _ _ _ _ weighted_rowsD(3) [OF r]] by (auto simp: bind_eq_Some_conv)
  then obtain bs where "WriteSerializedGraph enc_wnode (csr_of_both ?rows ?irows) = Some bs" by blast
  then have "WriteGraph enc_wnode show_wnode (\<lambda>f. True) Map.empty (csr_of_both ?rows ?irows) ''g.wsg'' True = Inr [''g.wsg'' \<mapsto> bs]"
    by (simp add: WriteGraph_def)
  then have f: "file_run detour_opts [''g.wsg'' \<mapsto> bs] detour_cli ?rows ?irows"
    using detour_parse detour_fields by (auto simp: file_run_def GetSuffix_def)
  have "fair_draws (csr_of_both ?rows ?irows) (\<lambda>j. 0)" by (auto simp: fair_draws_def)
  then obtain st log where "sssp_main 2 (\<lambda>iter i. i mod 2) (\<lambda>j. 0) (\<lambda>n i x m k h. Inl NoDefinedResult) detour_opts [''g.wsg'' \<mapsto> bs]
      (\<lambda>s d h u. Inl NoDefinedResult) = Inr (st, log)"
    "log_ok (cl_app.truncate detour_cli) (\<lambda>dist. \<exists>src. (0 = (-1::int) \<or> 0 = int src) \<and> shortest_dists 4 (wedges detour_graph) src dist) 16 log"
    using sssp_main_distances [OF f r, where threads = 2 and team = "\<lambda>iter i. i mod 2" and draws = "\<lambda>j. 0"
        and shared = "\<lambda>n i x m k h. Inl NoDefinedResult" and generate = "\<lambda>s d h u. Inl NoDefinedResult"] c
    unfolding E detour_fields by (auto simp: eval_nat_numeral)
  then show ?thesis unfolding log_ok_def by (intro exI [of _ "[''g.wsg'' \<mapsto> bs]"] exI [of _ st] exI [of _ log]) auto
qed

end
