(* ===== verification/Dmalloc.thy ===== *)
theory Dmalloc
  imports Construction
begin

text \<open>
  The mapping of the shared region (src/dmalloc.h) and the two tools that make graphs,
  src/allocator.cc and src/converter.cc.  What the operating system answers is the argument
  \<open>os\<close>; the contents of the devices are words, a mapping is a device with the number of bytes
  that are mapped.  An access past the end of a device, which raises \<^verbatim>\<open>SIGBUS\<close>, has no defined
  result.
\<close>

unbundle bit_operations_syntax

section \<open>Mappings\<close>

datatype device = Dax | Shmem | Zero

record os =
  os_opens :: "device \<Rightarrow> bool \<Rightarrow> bool"
  os_truncates :: "nat \<Rightarrow> bool"
  os_maps :: "device \<Rightarrow> nat \<Rightarrow> bool \<Rightarrow> bool"

record mapping =
  map_device :: device
  map_bytes :: nat
  map_writable :: bool

type_synonym devices = "device \<Rightarrow> 32 word list"

definition ONE_G :: "64 word" where
  "ONE_G = 0x40000000"

definition mmap :: "os \<Rightarrow> device \<Rightarrow> 64 word \<Rightarrow> bool \<Rightarrow> mapping result" where
  "mmap os d gib writable =
     (if os_maps os d (unat (gib * ONE_G)) writable
      then Inr \<lparr>map_device = d, map_bytes = unat (gib * ONE_G), map_writable = writable\<rparr>
      else Inl (Exit 1))"

definition dmalloc :: "os \<Rightarrow> 64 word \<Rightarrow> int \<Rightarrow> mapping result" where
  "dmalloc os gib host_id =
     (if \<not> os_opens os Dax (host_id = 0) then Inl (Exit 1) else mmap os Dax gib (host_id = 0))"

definition hmalloc :: "os \<Rightarrow> 64 word \<Rightarrow> int \<Rightarrow> mapping result" where
  \<comment> \<open>both kinds of host open the file for writing\<close>
  "hmalloc os gib host_id =
     (if \<not> os_opens os Zero True then Inl (Exit 1) else mmap os Zero gib (host_id = 0))"

definition file_truncate :: "nat \<Rightarrow> 32 word list \<Rightarrow> 32 word list" where
  "file_truncate n ws = take n ws @ replicate (n - length ws) 0"

definition shmalloc :: "os \<Rightarrow> 64 word \<Rightarrow> int \<Rightarrow> devices \<Rightarrow> (mapping \<times> devices) result" where
  "shmalloc os gib host_id mem =
     (if \<not> os_opens os Shmem True then Inl (Exit 1)
      else if \<not> os_truncates os (unat (gib * ONE_G)) then Inl (Exit 1)
      else rbind (mmap os Shmem gib (host_id = 0)) (\<lambda>m.
        Inr (m, mem(Shmem := file_truncate (unat (gib * ONE_G) div 4) (mem Shmem)))))"

definition clear_byte :: "nat \<Rightarrow> 32 word list \<Rightarrow> 32 word list option" where
  \<comment> \<open>\<^verbatim>\<open>arr[i] = 0\<close>\<close>
  "clear_byte i ws = do {
     w \<leftarrow> rd ws (i div 4);
     wr ws (i div 4) (w AND NOT (push_bit (8 * (i mod 4)) (mask 8))) }"

definition munmap_memory :: "os \<Rightarrow> 64 word \<Rightarrow> int \<Rightarrow> int \<Rightarrow> devices \<Rightarrow> devices result" where
  "munmap_memory os gib test_mode host_id mem =
     (if host_id = 0 then
        rbind (if test_mode \<noteq> 0 then shmalloc os gib host_id mem
               else rbind (dmalloc os gib host_id) (\<lambda>m. Inr (m, mem))) (\<lambda>(m, mem).
        rbind (of_opt (foldM clear_byte [0..<unat (gib * ONE_G)] (mem (map_device m)))) (\<lambda>ws.
        Inr (mem(map_device m := ws))))
      else Inr mem)"

function flush_lines :: "nat \<Rightarrow> nat \<Rightarrow> nat list" where
  \<comment> \<open>the byte offsets that are flushed, from index i of an array of \<^verbatim>\<open>size_t\<close> on\<close>
  "flush_lines i n = (if i < n then 8 * i # flush_lines (i + 8) n else [])"
  by pat_completeness auto
termination
  by (relation "measure (\<lambda>(i, n). n - i)") auto

declare flush_lines.simps [simp del]

definition flush_x86_cache :: "64 word \<Rightarrow> nat list" where
  "flush_x86_cache gib = flush_lines 0 (unat (gib * ONE_G div 8))"

definition map_graph :: "os \<Rightarrow> int \<Rightarrow> int \<Rightarrow> int \<Rightarrow> devices \<Rightarrow> shm result" where
  \<comment> \<open>the first statement of the shared constructor: the region it works on\<close>
  "map_graph os size_of_shmem test_mode host_id mem =
     rbind (if test_mode = 1 then shmalloc os (word_of_int size_of_shmem) host_id mem
            else rbind (dmalloc os (word_of_int size_of_shmem) host_id) (\<lambda>m. Inr (m, mem))) (\<lambda>(m, mem).
     Inr \<lparr>shm_words = take (map_bytes m div 4) (mem (map_device m)), shm_stores = []\<rparr>)"

section \<open>The tools\<close>

definition allocator_main ::
  "os \<Rightarrow> (char \<times> string) list \<Rightarrow> files \<Rightarrow> (int \<Rightarrow> int \<Rightarrow> int \<Rightarrow> bool \<Rightarrow> (nat, nat) edge_pair list result) \<Rightarrow>
   devices \<Rightarrow> (nat \<Rightarrow> 32 word list) \<Rightarrow> (nat csr_graph \<times> shm) result" where
  \<comment> \<open>\<open>polls\<close> is what a worker sees\<close>
  "allocator_main os opts fs generate mem polls =
     rbind (ParseArgs CLApp_HandleArg opts (CLApp ''allocator'')) (\<lambda>(cli, ok).
     if \<not> ok then Inl (Exit (-1))
     else rbind (BuilderBase False cli) (\<lambda>b.
       rbind (assert_that (cl_host_id cli \<ge> 0)) (\<lambda>_.
       rbind (assert_that (cl_size_in_gib cli > 0)) (\<lambda>_.
       rbind (if cl_munmap cli = 1
              then munmap_memory os (word_of_int (cl_size_in_gib cli)) (cl_test_mode cli) (cl_host_id cli) mem
              else Inr mem) (\<lambda>mem.
       MakeGraph fs generate True cli b (cl_host_id cli)
         (map_graph os (cl_size_in_gib cli) (cl_test_mode cli) (cl_host_id cli) mem) polls)))))"

definition converter_main :: "(string \<Rightarrow> bool) \<Rightarrow> (char \<times> string) list \<Rightarrow> files \<Rightarrow> files result" where
  "converter_main can_write opts fs =
     rbind (ParseArgs CLConvert_HandleArg opts (CLConvert ''converter'')) (\<lambda>(cli, ok).
     if cl_out_weighted cli then
       rbind (BuilderBase True cli) (\<lambda>b.
       rbind MakeGraph_no_host (\<lambda>wg.
       WriteGraph enc_wnode show_wnode can_write fs wg (cl_out_filename cli) (cl_out_sg cli)))
     else
       rbind (BuilderBase False cli) (\<lambda>b.
       rbind MakeGraph_no_host (\<lambda>g.
       WriteGraph enc_id (\<lambda>v. to_string (int v)) can_write fs g (cl_out_filename cli) (cl_out_sg cli))))"

section \<open>Clearing the region\<close>

lemma clear_byte_bit:
  "bit (w AND NOT (push_bit (8 * k) (mask 8)) :: 32 word) j \<longleftrightarrow> bit w j \<and> \<not> (8 * k \<le> j \<and> j < 8 * k + 8)"
  by (auto simp: bit_simps dest: bit_imp_le_length)

lemma clear_bytes:
  fixes ws :: "32 word list"
  assumes "n \<le> 4 * length ws"
  shows "returns (foldM clear_byte [0..<n] ws) (\<lambda>ws'. length ws' = length ws \<and>
    (\<forall>p < length ws. \<forall>j < 32. bit (ws' ! p) j \<longleftrightarrow> bit (ws ! p) j \<and> n \<le> 4 * p + j div 8))"
proof (rule foldM_upt_rule [where I = "\<lambda>i ws'. length ws' = length ws \<and>
    (\<forall>p < length ws. \<forall>j < 32. bit (ws' ! p) j \<longleftrightarrow> bit (ws ! p) j \<and> i \<le> 4 * p + j div 8)"])
  fix i and ws' :: "32 word list"
  assume i: "i < n" and I: "length ws' = length ws \<and>
    (\<forall>p < length ws. \<forall>j < 32. bit (ws' ! p) j \<longleftrightarrow> bit (ws ! p) j \<and> i \<le> 4 * p + j div 8)"
  let ?v = "(ws' ! (i div 4)) AND NOT (push_bit (8 * (i mod 4)) (mask 8))"
  have l: "i div 4 < length ws'" using i assms I by linarith
  have "bit (ws'[i div 4 := ?v] ! p) j \<longleftrightarrow> bit (ws ! p) j \<and> Suc i \<le> 4 * p + j div 8" if p: "p < length ws" "j < 32" for p j
  proof (cases "p = i div 4")
    case True
    have r: "8 * r \<le> j \<and> j < 8 * r + 8 \<longleftrightarrow> j div 8 = r" for r by auto
    have q: "i = 4 * p + i mod 4" unfolding True by presburger
    have lin: "i \<le> 4 * p + j div 8 \<and> j div 8 \<noteq> i mod 4 \<longleftrightarrow> Suc i \<le> 4 * p + j div 8" by (subst (1 3) q) linarith
    have bv: "bit ?v j \<longleftrightarrow> bit (ws' ! p) j \<and> j div 8 \<noteq> i mod 4" unfolding True [symmetric] clear_byte_bit r ..
    have v: "ws'[i div 4 := ?v] ! p = ?v" using l True by simp
    have w: "bit (ws' ! p) j \<longleftrightarrow> bit (ws ! p) j \<and> i \<le> 4 * p + j div 8" using I p by blast
    show ?thesis unfolding v bv w using lin by blast
  next
    case False
    have "j div 8 < 4" using p(2) by presburger
    then have "i \<noteq> 4 * p + j div 8" using False by auto
    then show ?thesis using False I p by auto
  qed
  then show "returns (clear_byte i ws') (\<lambda>ws'. length ws' = length ws \<and>
      (\<forall>p < length ws. \<forall>j < 32. bit (ws' ! p) j \<longleftrightarrow> bit (ws ! p) j \<and> Suc i \<le> 4 * p + j div 8))"
    using l I by (simp add: clear_byte_def)
qed auto

lemma cleared_words:
  fixes ws :: "32 word list"
  assumes "n \<le> 4 * length ws" "4 dvd n"
  shows "foldM clear_byte [0..<n] ws = Some (replicate (n div 4) 0 @ drop (n div 4) ws)"
proof -
  obtain ws' where ws': "foldM clear_byte [0..<n] ws = Some ws'" "length ws' = length ws"
    "\<forall>p < length ws. \<forall>j < 32. bit (ws' ! p) j \<longleftrightarrow> bit (ws ! p) j \<and> n \<le> 4 * p + j div 8"
    using returns_ex [OF clear_bytes [OF assms(1)]] by blast
  have "ws' ! p = (replicate (n div 4) 0 @ drop (n div 4) ws) ! p" if p: "p < length ws'" for p
  proof (rule bit_word_eqI)
    fix j assume j: "j < LENGTH(32)"
    have "j div 8 < 4" using j by simp
    then have "n \<le> 4 * p + j div 8 \<longleftrightarrow> n div 4 \<le> p" using assms(2) by auto
    then show "bit (ws' ! p) j \<longleftrightarrow> bit ((replicate (n div 4) 0 @ drop (n div 4) ws) ! p) j"
      using ws' p j by (simp add: nth_append)
  qed
  moreover have "length ws' = length (replicate (n div 4) 0 @ drop (n div 4) ws)" using ws'(2) assms(1) by simp
  ultimately show ?thesis using ws'(1) by (simp add: nth_equalityI)
qed

lemma ONE_G_dvd: "64 dvd unat (gib * ONE_G)"
proof -
  have "gib * ONE_G = push_bit 6 (gib * 0x1000000)"
    by (simp add: ONE_G_def push_bit_eq_mult mult.assoc)
  also have "unat \<dots> mod 64 = 0"
  proof -
    have "take_bit 6 (unat (push_bit 6 (gib * 0x1000000))) = 0"
      by (simp add: unsigned_push_bit_eq take_bit_push_bit)
    then show ?thesis by (simp add: take_bit_eq_mod)
  qed
  finally show ?thesis by presburger
qed

lemma ONE_G_words: "4 dvd unat (gib * ONE_G)"
  by (rule dvd_trans [OF _ ONE_G_dvd]) simp

lemma file_truncate_length [simp]: "length (file_truncate n ws) = n"
  by (simp add: file_truncate_def)

lemma munmap_cleared:
  assumes "dmalloc os gib 0 = Inr m" "unat (gib * ONE_G) div 4 \<le> length (mem Dax)" "test_mode = 0"
  shows "munmap_memory os gib test_mode 0 mem =
    Inr (mem(Dax := replicate (unat (gib * ONE_G) div 4) 0 @ drop (unat (gib * ONE_G) div 4) (mem Dax)))"
proof -
  have "map_device m = Dax" using assms(1) by (auto simp: dmalloc_def mmap_def split: if_splits)
  moreover have "unat (gib * ONE_G) \<le> 4 * length (mem Dax)" using assms(2) ONE_G_words [of gib] by (auto elim!: dvdE)
  ultimately show ?thesis using assms cleared_words [OF _ ONE_G_words, of gib "mem Dax"] by (simp add: munmap_memory_def)
qed

lemma munmap_cleared_shm:
  assumes "shmalloc os gib 0 mem = Inr (m, mem')" "test_mode \<noteq> 0"
  shows "munmap_memory os gib test_mode 0 mem = Inr (mem(Shmem := replicate (unat (gib * ONE_G) div 4) 0))"
proof -
  have m: "map_device m = Shmem" "mem' = mem(Shmem := file_truncate (unat (gib * ONE_G) div 4) (mem Shmem))"
    using assms(1) by (auto simp: shmalloc_def mmap_def rbind_eq_Inr split: if_splits)
  have "unat (gib * ONE_G) \<le> 4 * length (mem' Shmem)" using ONE_G_words [of gib] by (auto simp: m elim!: dvdE)
  then show ?thesis
    using assms cleared_words [OF _ ONE_G_words, of gib "mem' Shmem"] by (simp add: munmap_memory_def m)
qed

text \<open>The region after it was cleared.\<close>

definition os_ready :: "os \<Rightarrow> int \<Rightarrow> 64 word \<Rightarrow> devices \<Rightarrow> bool" where
  \<comment> \<open>the calls of host 0 succeed, and a DAX device has as many bytes as are mapped\<close>
  "os_ready os test_mode gib mem \<longleftrightarrow>
     (if test_mode = 1 then os_opens os Shmem True \<and> os_truncates os (unat (gib * ONE_G)) \<and> os_maps os Shmem (unat (gib * ONE_G)) True
      else os_opens os Dax True \<and> os_maps os Dax (unat (gib * ONE_G)) True \<and> unat (gib * ONE_G) div 4 \<le> length (mem Dax))"

lemma cleared_region:
  assumes "os_ready os test_mode (word_of_int n) mem" "test_mode \<in> {0, 1}"
  shows "\<exists>mem'. munmap_memory os (word_of_int n) test_mode 0 mem = Inr mem' \<and>
    map_graph os n test_mode 0 mem' = Inr \<lparr>shm_words = replicate (unat (word_of_int n * ONE_G) div 4) 0, shm_stores = []\<rparr>"
proof (cases "test_mode = 1")
  case True
  then have "shmalloc os (word_of_int n) 0 mem' = Inr (\<lparr>map_device = Shmem, map_bytes = unat (word_of_int n * ONE_G), map_writable = True\<rparr>,
      mem'(Shmem := file_truncate (unat (word_of_int n * ONE_G) div 4) (mem' Shmem)))" for mem'
    using assms(1) by (simp add: os_ready_def shmalloc_def mmap_def)
  then show ?thesis
    using True munmap_cleared_shm [of os "word_of_int n" mem] by (simp add: map_graph_def file_truncate_def)
next
  case False
  then have d: "dmalloc os (word_of_int n) 0 = Inr \<lparr>map_device = Dax, map_bytes = unat (word_of_int n * ONE_G), map_writable = True\<rparr>"
    and l: "unat (word_of_int n * ONE_G) div 4 \<le> length (mem Dax)"
    using assms(1) by (simp_all add: os_ready_def dmalloc_def mmap_def)
  then show ?thesis
    using False assms(2) munmap_cleared [where mem = mem, OF d l] by (simp add: map_graph_def)
qed

lemma flush_lines_covers:
  assumes "i \<le> j" "j < n" "8 dvd j - i"
  shows "8 * j \<in> set (flush_lines i n)"
  using assms
proof (induction i n rule: flush_lines.induct)
  case (1 i n)
  show ?case
  proof (cases "i = j")
    case False
    obtain q where "j - i = 8 * q" using "1.prems"(3) by (rule dvdE)
    moreover from this have "q \<noteq> 0" using False "1.prems"(1) by (intro notI) simp
    ultimately have "j - (i + 8) = 8 * (q - 1)" "i + 8 \<le> j" using "1.prems"(1) by auto
    then have "i + 8 \<le> j" "8 dvd j - (i + 8)" by simp_all
    then show ?thesis using "1.IH" "1.prems" by (subst flush_lines.simps) auto
  qed (use "1.prems" in \<open>simp add: flush_lines.simps [of j n]\<close>)
qed

text \<open>Two things that do not work: the converter leaves the program before it writes a file, because it makes its graph
  without a host id, and with \<^verbatim>\<open>-T 2\<close> the device that is cleared is not the one the graph is written to.\<close>

lemma converter_never_writes: "converter_main can_write opts fs \<noteq> Inr fs'"
  by (auto simp: converter_main_def MakeGraph_no_host_def rbind_eq_Inr split: if_splits)

lemma clears_another_device:
  assumes "test_mode \<noteq> 0" "test_mode \<noteq> 1" "munmap_memory os (word_of_int n) test_mode host_id mem = Inr mem'"
  shows "mem' Dax = mem Dax \<and> map_graph os n test_mode host_id mem' = map_graph os n test_mode host_id mem"
  using assms
  by (auto simp: munmap_memory_def map_graph_def shmalloc_def dmalloc_def mmap_def rbind_eq_Inr of_opt_def
    split: if_splits option.splits)

section \<open>Properties\<close>

text \<open>C23: Clearing serves a fresh graph.  The allocator that is started with \<^verbatim>\<open>-l 1\<close> clears the whole region, whatever was
  left in it, and publishes the graph of its edge list there, when region and degree counters are large enough for it; every worker that maps the region afterwards and polls
  while the stores arrive gets that graph, and none attaches to what was there before.\<close>

theorem allocator_main_serves:
  assumes parse: "ParseArgs CLApp_HandleArg opts (CLApp ''allocator'') = Inr (cli, True)"
    and o: "cl_filename cli = ''''" "cl_scale cli \<noteq> -1" "cl_host_id cli = 0" "cl_size_in_gib cli > 0" "\<not> cl_in_place cli"
      "cl_munmap cli = 1" "cl_test_mode cli \<in> {0, 1}"
    and gen: "generate (cl_scale cli) (cl_degree cli) 0 (cl_uniform cli) = Inr el"
    and fit: "edges_fit el"
    and os: "os_ready os (cl_test_mode cli) (word_of_int (cl_size_in_gib cli)) mem"
    and f: "fits (simple_rows el) (unat (word_of_int (cl_size_in_gib cli) * ONE_G) div 4)"
  shows "\<exists>g t. allocator_main os opts fs generate mem polls = Inr (g, t) \<and> nodes g = Suc (FindMaxNodeID (\<lambda>v. v) el) \<and>
    (\<forall>u < nodes g. out_neigh g u 0 = Some (sorted_list_of_set (simple_neighbors el u))) \<and>
    (\<forall>cli' :: cl_app. \<forall>k i s'. cl_host_id cli' > 0 \<and> length (shm_stores t) \<le> k i \<longrightarrow>
      MakeGraph fs' generate' True cli' (plain_builder (-1) SIZE_MAX) (cl_host_id cli') (Inr s')
        (\<lambda>i. replay (take (k i) (shm_stores t)) (replicate (unat (word_of_int (cl_size_in_gib cli) * ONE_G) div 4) 0)) = Inr (g, s'))"
proof -
  note small = edges_fit_ids [OF fit]
  let ?n = "unat (word_of_int (cl_size_in_gib cli) * ONE_G) div 4"
  let ?s = "\<lparr>shm_words = replicate ?n 0, shm_stores = []\<rparr>"
  have f': "fits (simple_rows el) (length (shm_words ?s))" using f by simp
  obtain mem' where m: "munmap_memory os (word_of_int (cl_size_in_gib cli)) (cl_test_mode cli) 0 mem = Inr mem'"
    "map_graph os (cl_size_in_gib cli) (cl_test_mode cli) 0 mem' = Inr ?s"
    using cleared_region [OF os o(7)] by blast
  obtain t where t: "MakeGraph fs generate True cli (plain_builder (-1) SIZE_MAX) 0 (Inr ?s) polls = Inr (region_graph (simple_rows el) (shm_words t), t)"
    "published (simple_rows el) ?s t" "layout (simple_rows el) (shm_words t)" "fits (simple_rows el) (length (shm_words t))"
    using MakeGraph_region [where generate = generate, OF o(1,2) gen o(3) fit f'] by blast
  have "cl_symmetrize cli" using parse o by (auto simp: ParseArgs_def rbind_eq_Inr split: if_splits)
  then have b: "BuilderBase False cli = Inr (plain_builder (-1) SIZE_MAX)"
    using o by (simp add: BuilderBase_def plain_builder_def)
  have run: "allocator_main os opts fs generate mem polls = Inr (region_graph (simple_rows el) (shm_words t), t)"
    using parse o b m t(1) by (simp add: allocator_main_def)
  have "?n > 0" using f by (simp add: fits_def rows_base_def)
  then have fresh: "shm_words ?s ! 0 \<noteq> 1" by simp
  note rg = region_graph_simple [OF t(3,4) small]
  have "MakeGraph fs' generate' True cli' (plain_builder (-1) SIZE_MAX) (cl_host_id cli') (Inr s')
      (\<lambda>i. replay (take (k i) (shm_stores t)) (replicate ?n 0)) = Inr (region_graph (simple_rows el) (shm_words t), s')"
    if "cl_host_id cli' > 0 \<and> length (shm_stores t) \<le> k i" for cli' :: cl_app and k i s'
    using worker_attaches [where k = k and i = i and L = "shm_stores t" and cli = cli' and
      mem = "\<lambda>i. replay (take (k i) (shm_stores t)) (replicate ?n 0)", OF small f' fresh t(2)] that by simp
  then show ?thesis using run rg by blast
qed

lemma allocator_main_serves_witness:
  "\<exists>g t. allocator_main \<lparr>os_opens = \<lambda>d w. True, os_truncates = \<lambda>n. True, os_maps = \<lambda>d n w. True\<rparr>
      [(CHR ''g'', ''1''), (CHR ''x'', ''0''), (CHR ''S'', ''1''), (CHR ''l'', ''1''), (CHR ''T'', ''1'')] Map.empty
      (\<lambda>s d h u. Inr [EdgePair 0 1]) (\<lambda>d. [1, 1, 0]) (\<lambda>_. []) = Inr (g, t) \<and> nodes g = 2 \<and> out_neigh g 0 0 = Some [1]"
proof -
  let ?el = "[EdgePair 0 1] :: (nat, nat) edge_pair list"
  let ?cli = "(CLApp ''allocator'')\<lparr>cl_scale := 1, cl_host_id := 0, cl_size_in_gib := 1, cl_munmap := 1, cl_test_mode := 1, cl_symmetrize := True\<rparr>"
  let ?opts = "[(CHR ''g'', ''1''), (CHR ''x'', ''0''), (CHR ''S'', ''1''), (CHR ''l'', ''1''), (CHR ''T'', ''1'')]"
  let ?os = "\<lparr>os_opens = \<lambda>d w. True, os_truncates = \<lambda>n. True, os_maps = \<lambda>d n w. True\<rparr>"
  have "atoi ''0'' = Inr 0" "atoi ''1'' = Inr 1"
    by (simp_all add: atoi_def read_int_def is_space_def digit_of_def)
  then have parse: "ParseArgs CLApp_HandleArg ?opts (CLApp ''allocator'') = Inr (?cli, True)"
    by (simp add: ParseArgs_def CLBase_HandleArg_def CLApp_HandleArg_def)
  have n: "FindMaxNodeID (\<lambda>v. v) ?el = 1" by (simp add: FindMaxNodeID_def)
  have fit: "edges_fit ?el" using edges_fit_short [of ?el] unfolding n by simp
  have nb: "simple_neighbors ?el 0 = {1}" "simple_neighbors ?el 1 = {0}" by (auto simp: simple_neighbors_def edge_rel_def)
  have "unat (word_of_int 1 * ONE_G) = 0x40000000" by (simp add: ONE_G_def)
  moreover have "[0..<Suc 1] = [0, 1]" by (simp add: upt_rec)
  then have "simple_rows ?el = [[1], [0]]" unfolding simple_rows_def n by (simp only: list.map nb) simp
  ultimately have f: "fits (simple_rows ?el) (unat (word_of_int (cl_size_in_gib ?cli) * ONE_G) div 4)"
    by (simp add: fits_def rows_base_def cells_def)
  have os: "os_ready ?os (cl_test_mode ?cli) (word_of_int (cl_size_in_gib ?cli)) (\<lambda>d. [1, 1, 0])" by (simp add: os_ready_def)
  have o: "cl_filename ?cli = ''''" "cl_scale ?cli \<noteq> -1" "cl_host_id ?cli = 0" "cl_size_in_gib ?cli > 0" "\<not> cl_in_place ?cli"
      "cl_munmap ?cli = 1" "cl_test_mode ?cli \<in> {0, 1}"
    by (simp_all add: CLApp_defaults)
  obtain g t where "allocator_main ?os ?opts Map.empty (\<lambda>s d h u. Inr ?el) (\<lambda>d. [1, 1, 0]) (\<lambda>_. []) = Inr (g, t)"
    "nodes g = Suc (FindMaxNodeID (\<lambda>v. v) ?el)" "\<forall>u < nodes g. out_neigh g u 0 = Some (sorted_list_of_set (simple_neighbors ?el u))"
    using allocator_main_serves [where fs = Map.empty and polls = "\<lambda>_. []", OF parse o refl fit os f] by blast
  then show ?thesis using nb n by force
qed

text \<open>C24: The flush leaves no part of the region in the cache: for every byte of the region the first byte of its 64-byte line is
  flushed, though the loop steps over an array of 8-byte elements.\<close>

lemma flush_covers:
  assumes "b < unat (gib * ONE_G)"
  shows "64 * (b div 64) \<in> set (flush_x86_cache gib)"
proof -
  have "unat (gib * ONE_G div 8) = unat (gib * ONE_G) div 8" by (simp add: unat_div)
  moreover have "8 * (b div 64) < unat (gib * ONE_G) div 8" using assms ONE_G_dvd [of gib] by (auto elim!: dvdE)
  ultimately show ?thesis using flush_lines_covers [of 0 "8 * (b div 64)" "unat (gib * ONE_G div 8)"]
    by (simp add: flush_x86_cache_def)
qed

lemma flush_covers_witness: "64 \<in> set (flush_x86_cache 1)"
  using flush_covers [of 100 1] by (simp add: ONE_G_def)

end
