(* ===== verification/PageRank.thy ===== *)
theory PageRank
  imports Complex_Main Bench
begin

text \<open>
  PageRank: src/pr.cc.  A floating-point operation is the exact operation followed by a rounding;
  the two roundings are arguments, \<open>fl\<close> for \<^verbatim>\<open>float\<close> and \<open>db\<close> for \<^verbatim>\<open>double\<close>, over any ordered field, so that one set of
  definitions covers the arithmetic of the machine and, with both the identity, exact arithmetic.  A quotient by the
  degree of a vertex without neighbours, infinite on the machine, is 0 here: no vertex pulls it.
\<close>

section \<open>The kernel\<close>

definition kDamp :: "('a::linordered_field \<Rightarrow> 'a) \<Rightarrow> 'a" where
  "kDamp fl = fl (85 / 100)"

definition base_score :: "('a::linordered_field \<Rightarrow> 'a) \<Rightarrow> nat csr_graph \<Rightarrow> 'a" where
  "base_score fl g = fl (fl (1 - kDamp fl) / fl (of_int (csr_num_nodes g)))"

definition pr_contrib :: "('a::linordered_field \<Rightarrow> 'a) \<Rightarrow> nat csr_graph \<Rightarrow> 'a list \<Rightarrow> nat \<Rightarrow> 'a option" where
  \<comment> \<open>\<^verbatim>\<open>scores[n] / g.out_degree(n)\<close>\<close>
  "pr_contrib fl g scores n = do {
     s \<leftarrow> rd scores n;
     d \<leftarrow> out_degree g n;
     Some (fl (s / fl (of_int d))) }"

definition pr_vertex ::
  "('a::linordered_field \<Rightarrow> 'a) \<Rightarrow> ('a \<Rightarrow> 'a) \<Rightarrow> nat csr_graph \<Rightarrow> 'a list \<Rightarrow> nat \<Rightarrow> 'a list \<times> 'a \<Rightarrow> ('a list \<times> 'a) option" where
  "pr_vertex fl db g outgoing_contrib u s = (case s of (scores, err) \<Rightarrow> do {
     vs \<leftarrow> in_neigh g u 0;
     incoming_total \<leftarrow> foldM (\<lambda>v total. do { c \<leftarrow> rd outgoing_contrib v; Some (fl (total + c)) }) vs 0;
     old_score \<leftarrow> rd scores u;
     scores \<leftarrow> wr scores u (fl (base_score fl g + fl (kDamp fl * incoming_total)));
     score \<leftarrow> rd scores u;
     Some (scores, db (err + \<bar>fl (score - old_score)\<bar>)) })"

fun pr_loop ::
  "('a::linordered_field \<Rightarrow> 'a) \<Rightarrow> ('a \<Rightarrow> 'a) \<Rightarrow> nat csr_graph \<Rightarrow> 'a \<Rightarrow> nat \<Rightarrow> 'a list \<Rightarrow> 'a list \<Rightarrow> 'a list option" where
  \<comment> \<open>k iterations are left\<close>
  "pr_loop fl db g epsilon 0 scores outgoing_contrib = Some scores"
| "pr_loop fl db g epsilon (Suc k) scores outgoing_contrib = do {
     outgoing_contrib \<leftarrow> foldM (\<lambda>n out. do { c \<leftarrow> pr_contrib fl g scores n; wr out n c }) (vertices g) outgoing_contrib;
     (scores, err) \<leftarrow> foldM (pr_vertex fl db g outgoing_contrib) (vertices g) (scores, 0);
     if err < epsilon then Some scores else pr_loop fl db g epsilon k scores outgoing_contrib }"

definition PageRankPull ::
  "('a::linordered_field \<Rightarrow> 'a) \<Rightarrow> ('a \<Rightarrow> 'a) \<Rightarrow> nat csr_graph \<Rightarrow> int \<Rightarrow> 'a \<Rightarrow> 'a list option" where
  "PageRankPull fl db g max_iters epsilon =
     pr_loop fl db g epsilon (nat max_iters)
       (replicate (nat (csr_num_nodes g)) (fl (1 / fl (of_int (csr_num_nodes g))))) (uninit (nat (csr_num_nodes g)))"

section \<open>The verifier\<close>

definition PRVerifier ::
  "('a::linordered_field \<Rightarrow> 'a) \<Rightarrow> ('a \<Rightarrow> 'a) \<Rightarrow> nat csr_graph \<Rightarrow> 'a list \<Rightarrow> 'a \<Rightarrow> bool option" where
  "PRVerifier fl db g scores target_error = do {
     incomming_sums \<leftarrow> foldM (\<lambda>u insums. do {
         c \<leftarrow> pr_contrib fl g scores u;
         vs \<leftarrow> out_neigh g u 0;
         foldM (\<lambda>v insums. do { x \<leftarrow> rd insums v; wr insums v (fl (x + c)) }) vs insums })
       (vertices g) (replicate (nat (csr_num_nodes g)) 0);
     (err, incomming_sums) \<leftarrow> foldM (\<lambda>n (err, insums). do {
         x \<leftarrow> rd insums n;
         s \<leftarrow> rd scores n;
         insums \<leftarrow> wr insums n 0;
         Some (db (err + \<bar>fl (fl (base_score fl g + fl (kDamp fl * x)) - s)\<bar>), insums) })
       (vertices g) (0, incomming_sums);
     Some (err < target_error) }"

definition PrintTopScores :: "nat csr_graph \<Rightarrow> 'a::linordered_field list \<Rightarrow> ('a \<times> nat) list option" where
  \<comment> \<open>the pairs that are printed\<close>
  "PrintTopScores g scores = do {
     score_pairs \<leftarrow> foldM (\<lambda>n ps. do { s \<leftarrow> rd scores n; wr ps n (n, s) }) (vertices g) (uninit (nat (csr_num_nodes g)));
     TopK score_pairs 5 }"

section \<open>Exact arithmetic\<close>

text \<open>
  The step of the iteration as a function on vectors, and the distance of two vectors.  A step is a
  contraction: it brings two vectors closer by the damping factor.
\<close>

definition transposed :: "nat csr_graph \<Rightarrow> bool" where
  \<comment> \<open>the inverse rows hold every edge as often as the rows\<close>
  "transposed g \<longleftrightarrow> graph_ok g \<and> (\<forall>u < nodes g. \<forall>v < nodes g. count_list (adj g u) v = count_list (inv_adj g v) u)"

definition share :: "nat csr_graph \<Rightarrow> (nat \<Rightarrow> 'a::linordered_field) \<Rightarrow> nat \<Rightarrow> 'a" where
  "share g x v = x v / of_nat (length (adj g v))"

definition pr_step :: "nat csr_graph \<Rightarrow> (nat \<Rightarrow> 'a::linordered_field) \<Rightarrow> nat \<Rightarrow> 'a" where
  "pr_step g x u = 3 / 20 / of_nat (nodes g) + 17 / 20 * (\<Sum>v \<leftarrow> inv_adj g u. share g x v)"

definition dist1 :: "nat csr_graph \<Rightarrow> (nat \<Rightarrow> 'a::linordered_field) \<Rightarrow> (nat \<Rightarrow> 'a) \<Rightarrow> 'a" where
  "dist1 g x y = (\<Sum>u < nodes g. \<bar>x u - y u\<bar>)"

lemma sum_counts:
  fixes vs :: "nat list"
  assumes "\<And>v. v \<in> set vs \<Longrightarrow> v < n"
  shows "(\<Sum>v < n. of_nat (count_list vs v)) = (of_nat (length vs) :: 'a::linordered_field)"
  using sum_list_counts [of vs n "\<lambda>v. 1 :: 'a"] assms by (simp add: sum_list_triv)

lemma tr_rows:
  assumes "transposed g"
  shows "graph_ok g" "u < nodes g \<Longrightarrow> v \<in> set (adj g u) \<Longrightarrow> v < nodes g" "u < nodes g \<Longrightarrow> v \<in> set (inv_adj g u) \<Longrightarrow> v < nodes g"
  using assms adj_range [of "\<lambda>v. v" g u v] inv_adj_range [of "\<lambda>v. v" g u v] by (auto simp: transposed_def graph_ok_def)

lemma inflow:
  assumes g: "transposed g" and u: "u < nodes g"
  shows "(\<Sum>v \<leftarrow> inv_adj g u. f v) = (\<Sum>v < nodes g. of_nat (count_list (adj g v) u) * (f v :: 'a::linordered_field))"
proof -
  have "(\<Sum>v \<leftarrow> inv_adj g u. f v) = (\<Sum>v < nodes g. of_nat (count_list (inv_adj g u) v) * f v)"
    by (rule sum_list_counts) (rule tr_rows(3) [OF g u])
  also have "\<dots> = (\<Sum>v < nodes g. of_nat (count_list (adj g v) u) * f v)"
    using g u by (intro sum.cong) (auto simp: transposed_def)
  finally show ?thesis .
qed

lemma outflow:
  assumes g: "transposed g" and v: "v < nodes g"
  shows "(\<Sum>u < nodes g. of_nat (count_list (adj g v) u) * \<bar>share g x v\<bar>) \<le> \<bar>x v :: 'a::linordered_field\<bar>"
proof -
  have "(\<Sum>u < nodes g. of_nat (count_list (adj g v) u)) = (of_nat (length (adj g v)) :: 'a)"
    by (rule sum_counts) (rule tr_rows(2) [OF g v])
  then have "(\<Sum>u < nodes g. of_nat (count_list (adj g v) u) * \<bar>share g x v\<bar>) = of_nat (length (adj g v)) * \<bar>share g x v\<bar>"
    by (simp only: sum_distrib_right [symmetric])
  also have "\<dots> \<le> \<bar>x v\<bar>" by (cases "adj g v") (simp_all add: share_def abs_divide)
  finally show ?thesis .
qed

lemma total_flow:
  assumes g: "transposed g"
  shows "(\<Sum>u < nodes g. \<bar>\<Sum>v \<leftarrow> inv_adj g u. share g x v\<bar>) \<le> (\<Sum>v < nodes g. \<bar>x v :: 'a::linordered_field\<bar>)"
proof -
  have "\<bar>\<Sum>v \<leftarrow> inv_adj g u. share g x v\<bar> \<le> (\<Sum>v < nodes g. of_nat (count_list (adj g v) u) * \<bar>share g x v\<bar>)" if "u < nodes g" for u
    unfolding inflow [OF g that] by (rule order.trans [OF sum_abs]) (simp add: abs_mult)
  then have "(\<Sum>u < nodes g. \<bar>\<Sum>v \<leftarrow> inv_adj g u. share g x v\<bar>)
      \<le> (\<Sum>u < nodes g. \<Sum>v < nodes g. of_nat (count_list (adj g v) u) * \<bar>share g x v\<bar>)" by (intro sum_mono) simp
  also have "\<dots> = (\<Sum>v < nodes g. \<Sum>u < nodes g. of_nat (count_list (adj g v) u) * \<bar>share g x v\<bar>)" by (rule sum.swap)
  also have "\<dots> \<le> (\<Sum>v < nodes g. \<bar>x v\<bar>)" by (intro sum_mono) (simp add: outflow [OF g])
  finally show ?thesis .
qed

lemma pr_step_contracts:
  assumes g: "transposed g"
  shows "dist1 g (pr_step g x) (pr_step g y) \<le> 17 / 20 * dist1 g x (y :: nat \<Rightarrow> 'a::linordered_field)"
proof -
  have "pr_step g x u - pr_step g y u = 17 / 20 * ((\<Sum>v \<leftarrow> inv_adj g u. share g x v) - (\<Sum>v \<leftarrow> inv_adj g u. share g y v))" for u
    unfolding pr_step_def right_diff_distrib by simp
  then have eq: "pr_step g x u - pr_step g y u = 17 / 20 * (\<Sum>v \<leftarrow> inv_adj g u. share g (\<lambda>v. x v - y v) v)" for u
    by (simp only: sum_list_subtractf [symmetric] share_def diff_divide_distrib)
  have "dist1 g (pr_step g x) (pr_step g y) = 17 / 20 * (\<Sum>u < nodes g. \<bar>\<Sum>v \<leftarrow> inv_adj g u. share g (\<lambda>v. x v - y v) v\<bar>)"
    unfolding dist1_def eq abs_mult sum_distrib_left by simp
  also have "\<dots> \<le> 17 / 20 * dist1 g x y"
    unfolding dist1_def by (intro mult_left_mono total_flow [OF g]) simp
  finally show ?thesis .
qed

lemma pr_first_step:
  assumes g: "transposed g" and n: "0 < nodes g"
  defines "x \<equiv> \<lambda>v. 1 / of_nat (nodes g)"
  shows "dist1 g (pr_step g x) x \<le> (2 :: 'a::linordered_field)"
proof -
  let ?f = "\<lambda>u. \<Sum>v \<leftarrow> inv_adj g u. share g x v :: 'a"
  have x: "(\<Sum>v < nodes g. \<bar>x v :: 'a\<bar>) = 1" "x v \<ge> (0 :: 'a)" for v using n by (simp_all add: x_def)
  have pos: "?f u \<ge> 0" for u by (rule sum_list_nonneg) (auto simp: share_def x_def)
  have c: "(3 / 20 / of_nat (nodes g) :: 'a) \<ge> 0" by simp
  have "\<bar>pr_step g x u - x u\<bar> \<le> 3 / 20 / of_nat (nodes g) + 17 / 20 * \<bar>?f u\<bar> + \<bar>x u\<bar>" for u
  proof -
    have "\<bar>pr_step g x u - x u\<bar> \<le> \<bar>pr_step g x u\<bar> + \<bar>x u\<bar>" by (rule abs_triangle_ineq4)
    also have "\<bar>pr_step g x u\<bar> = 3 / 20 / of_nat (nodes g) + 17 / 20 * \<bar>?f u\<bar>"
      unfolding pr_step_def using c pos [of u] by (simp only: abs_of_nonneg add_nonneg_nonneg mult_nonneg_nonneg divide_nonneg_nonneg zero_le_numeral)
    finally show ?thesis .
  qed
  then have "dist1 g (pr_step g x) x \<le> (\<Sum>u < nodes g. 3 / 20 / of_nat (nodes g) + 17 / 20 * \<bar>?f u\<bar> + \<bar>x u\<bar>)"
    unfolding dist1_def by (intro sum_mono)
  also have "\<dots> = 3 / 20 + 17 / 20 * (\<Sum>u < nodes g. \<bar>?f u\<bar>) + 1"
    unfolding sum.distrib sum_distrib_left [symmetric] x(1) using n by simp
  also have "\<dots> \<le> 3 / 20 + 17 / 20 * 1 + 1"
    using total_flow [OF g, of x] unfolding x(1) by (intro add_mono mult_left_mono) simp_all
  finally show ?thesis by simp
qed

section \<open>The kernel in exact arithmetic\<close>

lemma dist1_cong: "(\<And>u. u < nodes g \<Longrightarrow> x u = x' u) \<Longrightarrow> (\<And>u. u < nodes g \<Longrightarrow> y u = y' u) \<Longrightarrow> dist1 g x y = dist1 g x' y'"
  unfolding dist1_def by (intro sum.cong) simp_all

lemma share_rows_cong:
  assumes "transposed g" "u < nodes g" "\<And>v. v < nodes g \<Longrightarrow> x v = y v"
  shows "pr_step g x u = pr_step g y u"
proof -
  have "(\<Sum>v \<leftarrow> inv_adj g u. share g x v) = (\<Sum>v \<leftarrow> inv_adj g u. share g y v)"
    using tr_rows(3) [OF assms(1,2)] assms(3) by (intro arg_cong [where f = sum_list] map_cong) (simp_all add: share_def)
  then show ?thesis by (simp add: pr_step_def)
qed

lemma num_nodes_of_int [simp]: "graph_ok g \<Longrightarrow> (of_int (csr_num_nodes g) :: 'a::linordered_field) = of_nat (nodes g)"
  by (simp add: graph_ok_def csr_wf_def nodes_def)

lemma exact_base: "graph_ok g \<Longrightarrow> base_score (\<lambda>x. x) g = (3 / 20 / of_nat (nodes g) :: 'a::linordered_field)"
  by (simp add: base_score_def kDamp_def)

lemma pr_contrib_eq:
  "graph_ok g \<Longrightarrow> n < nodes g \<Longrightarrow> length xs = nodes g \<Longrightarrow>
   pr_contrib (\<lambda>x. x) g xs n = Some (share g ((!) xs) n :: 'a::linordered_field)"
  using graph_ok_neigh(3) [of g n] by (simp add: pr_contrib_def share_def)

lemma store_all:
  assumes "\<And>i. i < n \<Longrightarrow> f i = Some (h i)" "length out = n"
  shows "foldM (\<lambda>i out. do { c \<leftarrow> f i; wr out i c }) [0..<n] out = Some (map h [0..<n])"
proof -
  have "returns (foldM (\<lambda>i out. do { c \<leftarrow> f i; wr out i c }) [0..<n] out) (\<lambda>out. out = map h [0..<n])"
  proof (rule foldM_upt_rule [where I = "\<lambda>i out. length out = n \<and> (\<forall>j < i. out ! j = h j)"])
    show "out = map h [0..<n]" if "length out = n \<and> (\<forall>j < n. out ! j = h j)" for out
      by (rule nth_equalityI) (use that in simp_all)
  qed (use assms in \<open>auto simp: nth_list_update less_Suc_eq\<close>)
  then show ?thesis by (auto simp: returns_iff)
qed

lemma foldM_total: "foldM (\<lambda>v t. do { c \<leftarrow> rd cs v; Some (t + c) }) vs t = Some (t + (\<Sum>v \<leftarrow> vs. cs ! v :: 'a::linordered_field))"
  if "\<And>v. v \<in> set vs \<Longrightarrow> v < length cs"
  using that by (induction vs arbitrary: t) (simp_all add: add.assoc)

lemma pr_pass:
  fixes xs :: "'a::linordered_field list"
  assumes g: "transposed g" and l: "length xs = nodes g"
  shows "foldM (pr_vertex (\<lambda>x. x) (\<lambda>x. x) g (map (share g ((!) xs)) [0..<nodes g])) (vertices g) (xs, 0) =
    Some (map (pr_step g ((!) xs)) [0..<nodes g], dist1 g (pr_step g ((!) xs)) ((!) xs))"
proof -
  note ok = tr_rows(1) [OF g]
  let ?x = "(!) xs"
  let ?I = "\<lambda>i (ys, err). length ys = nodes g \<and> (\<forall>j < i. ys ! j = pr_step g ?x j) \<and> (\<forall>j. i \<le> j \<and> j < nodes g \<longrightarrow> ys ! j = xs ! j) \<and>
    err = (\<Sum>u < i. \<bar>pr_step g ?x u - ?x u\<bar>)"
  have "returns (foldM (pr_vertex (\<lambda>x. x) (\<lambda>x. x) g (map (share g ?x) [0..<nodes g])) [0..<nodes g] (xs, 0))
      (\<lambda>s. s = (map (pr_step g ?x) [0..<nodes g], dist1 g (pr_step g ?x) ?x))"
  proof (rule foldM_upt_rule [where I = ?I])
    fix i and s :: "'a list \<times> 'a"
    assume i: "i < nodes g" and I: "?I i s"
    obtain ys err where s: "s = (ys, err)" by (cases s)
    have y: "length ys = nodes g" "ys ! i = xs ! i" using I i by (auto simp: s)
    have r: "v < nodes g" if "v \<in> set (inv_adj g i)" for v using tr_rows(3) [OF g i that] .
    have "(\<Sum>v \<leftarrow> inv_adj g i. map (share g ?x) [0..<nodes g] ! v) = (\<Sum>v \<leftarrow> inv_adj g i. share g ?x v)"
      by (intro arg_cong [where f = sum_list] map_cong) (use r in simp_all)
    then have "foldM (\<lambda>v t. do { c \<leftarrow> rd (map (share g ?x) [0..<nodes g]) v; Some (t + c) }) (inv_adj g i) 0
        = Some (\<Sum>v \<leftarrow> inv_adj g i. share g ?x v)"
      using foldM_total [of "inv_adj g i" "map (share g ?x) [0..<nodes g]" 0] r by simp
    then have "pr_vertex (\<lambda>x. x) (\<lambda>x. x) g (map (share g ?x) [0..<nodes g]) i s =
        Some (ys[i := pr_step g ?x i], err + \<bar>pr_step g ?x i - xs ! i\<bar>)"
      using graph_ok_neigh(2) [OF ok i, of 0] y i by (simp add: s pr_vertex_def exact_base [OF ok] kDamp_def pr_step_def)
    then show "returns (pr_vertex (\<lambda>x. x) (\<lambda>x. x) g (map (share g ?x) [0..<nodes g]) i s) (?I (Suc i))"
      using I y(1) i by (auto simp: s nth_list_update less_Suc_eq)
  next
    fix s :: "'a list \<times> 'a"
    assume "?I (nodes g) s"
    then show "s = (map (pr_step g ?x) [0..<nodes g], dist1 g (pr_step g ?x) ?x)"
      by (cases s) (auto simp: dist1_def intro: nth_equalityI)
  qed (use l in auto)
  then show ?thesis by (auto simp: returns_iff vertices_nodes)
qed

text \<open>The loop stops with a small change, or with the change that is left after all iterations.\<close>

lemma pr_loop_stops:
  fixes xs :: "'a::linordered_field list"
  assumes g: "transposed g" and l: "length xs = nodes g" "length cs = nodes g"
  shows "\<exists>s x. pr_loop (\<lambda>x. x) (\<lambda>x. x) g epsilon (Suc k) xs cs = Some s \<and> s = map (pr_step g x) [0..<nodes g] \<and>
    (dist1 g (pr_step g x) x < epsilon \<or> dist1 g (pr_step g x) x \<le> (17 / 20) ^ k * dist1 g (pr_step g ((!) xs)) ((!) xs))"
  using l
proof (induction k arbitrary: xs cs)
  let ?D = "\<lambda>xs. dist1 g (pr_step g ((!) xs)) ((!) xs)"
  have c: "foldM (\<lambda>n out. do { c \<leftarrow> pr_contrib (\<lambda>x. x) g xs n; wr out n c }) (vertices g) cs = Some (map (share g ((!) xs)) [0..<nodes g])"
    if "length xs = nodes g" "length cs = nodes g" for xs cs :: "'a list"
    using store_all [of "nodes g" "pr_contrib (\<lambda>x. x) g xs" "share g ((!) xs)" cs] pr_contrib_eq [OF tr_rows(1) [OF g] _ that(1)] that(2)
    by (simp add: vertices_nodes)
  {
    case 0
    have "\<exists>s. pr_loop (\<lambda>x. x) (\<lambda>x. x) g epsilon (Suc 0) xs cs = Some s \<and> s = map (pr_step g ((!) xs)) [0..<nodes g]"
      using c [OF 0] pr_pass [OF g 0(1)] by simp
    then show ?case by (auto intro!: exI [of _ "(!) xs"])
  next
    case (Suc k)
    let ?ys = "map (pr_step g ((!) xs)) [0..<nodes g]"
    show ?case
    proof (cases "?D xs < epsilon")
      case True
      then show ?thesis using c [OF Suc.prems(1,2)] pr_pass [OF g Suc.prems(1)] by auto
    next
      case False
      have "?D ?ys = dist1 g (pr_step g (pr_step g ((!) xs))) (pr_step g ((!) xs))"
        by (rule dist1_cong) (auto intro: share_rows_cong [OF g])
      also have "\<dots> \<le> 17 / 20 * ?D xs" by (rule pr_step_contracts [OF g])
      finally have "(17 / 20) ^ k * ?D ?ys \<le> (17 / 20) ^ k * (17 / 20 * ?D xs)" by (intro mult_left_mono) simp_all
      then have le: "(17 / 20) ^ k * ?D ?ys \<le> (17 / 20) ^ Suc k * ?D xs" by (simp add: mult_ac)
      obtain s x where s: "pr_loop (\<lambda>x. x) (\<lambda>x. x) g epsilon (Suc k) ?ys (map (share g ((!) xs)) [0..<nodes g]) = Some s"
        "s = map (pr_step g x) [0..<nodes g]" "dist1 g (pr_step g x) x < epsilon \<or> dist1 g (pr_step g x) x \<le> (17 / 20) ^ k * ?D ?ys"
        using Suc.IH [of ?ys "map (share g ((!) xs)) [0..<nodes g]"] by auto
      have "pr_loop (\<lambda>x. x) (\<lambda>x. x) g epsilon (Suc (Suc k)) xs cs = Some s"
        using False c [OF Suc.prems(1,2)] pr_pass [OF g Suc.prems(1)] s(1) by simp
      then show ?thesis using s(2,3) le order.trans by blast
    qed
  }
qed

lemma PageRankPull_returns:
  assumes g: "transposed g" and n: "0 < nodes g" and k: "0 < max_iters"
  shows "\<exists>s x. PageRankPull (\<lambda>x. x) (\<lambda>x. x) g max_iters (epsilon :: 'a::linordered_field) = Some s \<and> s = map (pr_step g x) [0..<nodes g] \<and>
    (dist1 g (pr_step g x) x < epsilon \<or> dist1 g (pr_step g x) x \<le> 2 * (17 / 20) ^ (nat max_iters - 1))"
proof -
  let ?xs = "replicate (nodes g) (1 / of_nat (nodes g)) :: 'a list"
  have "dist1 g (pr_step g ((!) ?xs)) ((!) ?xs) = dist1 g (pr_step g (\<lambda>v. 1 / of_nat (nodes g))) (\<lambda>v. 1 / of_nat (nodes g) :: 'a)"
    by (rule dist1_cong) (auto intro: share_rows_cong [OF g])
  then have "dist1 g (pr_step g ((!) ?xs)) ((!) ?xs) \<le> 2" using pr_first_step [OF g n] by simp
  then have le: "(17 / 20) ^ (nat max_iters - 1) * dist1 g (pr_step g ((!) ?xs)) ((!) ?xs) \<le> (17 / 20) ^ (nat max_iters - 1) * 2"
    by (intro mult_left_mono) simp_all
  obtain s x where s: "pr_loop (\<lambda>x. x) (\<lambda>x. x) g epsilon (Suc (nat max_iters - 1)) ?xs (uninit (nodes g)) = Some s"
    "s = map (pr_step g x) [0..<nodes g]"
    "dist1 g (pr_step g x) x < epsilon \<or> dist1 g (pr_step g x) x \<le> (17 / 20) ^ (nat max_iters - 1) * dist1 g (pr_step g ((!) ?xs)) ((!) ?xs)"
    using pr_loop_stops [OF g, of ?xs "uninit (nodes g)" epsilon "nat max_iters - 1"] by auto
  have "PageRankPull (\<lambda>x. x) (\<lambda>x. x) g max_iters epsilon = Some s"
    using s(1) k tr_rows(1) [OF g] by (simp add: PageRankPull_def nodes_def [symmetric] del: pr_loop.simps)
  moreover have "dist1 g (pr_step g x) x < epsilon \<or> dist1 g (pr_step g x) x \<le> 2 * (17 / 20) ^ (nat max_iters - 1)"
    using s(3) order.trans [OF _ le] by (auto simp: mult.commute)
  ultimately show ?thesis using s(2) by blast
qed

section \<open>The verifier in exact arithmetic\<close>

lemma push_row:
  fixes c :: "'a::linordered_field"
  assumes "\<And>v. v \<in> set vs \<Longrightarrow> v < length xs"
  shows "foldM (\<lambda>v xs. do { x \<leftarrow> rd xs v; wr xs v (x + c) }) vs xs
    = Some (map (\<lambda>v. xs ! v + of_nat (count_list vs v) * c) [0..<length xs])"
  using assms
proof (induction vs arbitrary: xs)
  case Nil
  then show ?case by (simp add: map_nth)
next
  case (Cons w vs)
  have "map (\<lambda>v. xs[w := xs ! w + c] ! v + of_nat (count_list vs v) * c) [0..<length xs] =
      map (\<lambda>v. xs ! v + of_nat (count_list (w # vs) v) * c) [0..<length xs]"
    by (rule map_cong) (auto simp: nth_list_update algebra_simps)
  then show ?case using Cons.IH [of "xs[w := xs ! w + c]"] Cons.prems by simp
qed

lemma PRVerifier_eq:
  fixes s :: "'a::linordered_field list"
  assumes g: "transposed g" and l: "length s = nodes g"
  shows "PRVerifier (\<lambda>x. x) (\<lambda>x. x) g s target = Some (dist1 g (pr_step g ((!) s)) ((!) s) < target)"
proof -
  note ok = tr_rows(1) [OF g]
  let ?c = "share g ((!) s)"
  let ?push = "\<lambda>u insums. do { c \<leftarrow> pr_contrib (\<lambda>x. x) g s u; vs \<leftarrow> out_neigh g u 0;
    foldM (\<lambda>v insums. do { x \<leftarrow> rd insums v; wr insums v (x + c) }) vs insums }"
  let ?insums = "map (\<lambda>v. \<Sum>u < nodes g. of_nat (count_list (adj g u) v) * ?c u) [0..<nodes g]"
  have "returns (foldM ?push [0..<nodes g] (replicate (nodes g) 0)) (\<lambda>insums. insums = ?insums)"
  proof (rule foldM_upt_rule [where I = "\<lambda>i insums. insums = map (\<lambda>v. \<Sum>u < i. of_nat (count_list (adj g u) v) * ?c u) [0..<nodes g]"])
    fix i insums
    assume i: "i < nodes g" and I: "insums = map (\<lambda>v. \<Sum>u < i. of_nat (count_list (adj g u) v) * ?c u) [0..<nodes g]"
    have "length insums = nodes g" by (simp add: I)
    then have "?push i insums = Some (map (\<lambda>v. insums ! v + of_nat (count_list (adj g i) v) * ?c i) [0..<nodes g])"
      using push_row [of "adj g i" insums "?c i"] tr_rows(2) [OF g i] pr_contrib_eq [OF ok i l] graph_ok_neigh(1) [OF ok i, of 0] by simp
    then show "returns (?push i insums) (\<lambda>insums. insums = map (\<lambda>v. \<Sum>u < Suc i. of_nat (count_list (adj g u) v) * ?c u) [0..<nodes g])"
      by (simp add: I)
  qed (simp_all add: map_replicate_const)
  then have push: "foldM ?push (vertices g) (replicate (nodes g) 0) = Some ?insums" by (auto simp: returns_iff vertices_nodes)
  have step: "3 / 20 / of_nat (nodes g) + 17 / 20 * ?insums ! n = pr_step g ((!) s) n" if "n < nodes g" for n
    using inflow [OF g that, of ?c] that by (simp add: pr_step_def)
  let ?check = "\<lambda>n (err, insums). do { x \<leftarrow> rd insums n; sc \<leftarrow> rd s n; insums \<leftarrow> wr insums n 0;
      Some (err + \<bar>base_score (\<lambda>x. x) g + kDamp (\<lambda>x. x) * x - sc\<bar>, insums) }"
  let ?I = "\<lambda>i (err, insums). length insums = nodes g \<and> (\<forall>j. i \<le> j \<and> j < nodes g \<longrightarrow> insums ! j = ?insums ! j) \<and>
    err = (\<Sum>u < i. \<bar>pr_step g ((!) s) u - s ! u\<bar>)"
  have "returns (foldM ?check [0..<nodes g] (0, ?insums)) (\<lambda>(err, insums). err = dist1 g (pr_step g ((!) s)) ((!) s))"
  proof (rule foldM_upt_rule [where I = ?I])
    fix i and st :: "'a \<times> 'a list"
    assume i: "i < nodes g" and I: "?I i st"
    obtain err insums where st: "st = (err, insums)" by (cases st)
    have "length insums = nodes g" "insums ! i = ?insums ! i" using I i by (auto simp: st)
    then have "?check i st = Some (err + \<bar>pr_step g ((!) s) i - s ! i\<bar>, insums[i := 0])"
      using i l step [OF i] by (simp add: st exact_base [OF ok] kDamp_def)
    then show "returns (?check i st) (?I (Suc i))" using I by (auto simp: st)
  qed (auto simp: dist1_def)
  then obtain insums where "foldM ?check (vertices g) (0, ?insums) = Some (dist1 g (pr_step g ((!) s)) ((!) s), insums)"
    by (auto simp: returns_iff vertices_nodes)
  then show ?thesis
    using push ok by (simp add: PRVerifier_def nodes_def [symmetric])
qed

lemma PageRankPull_good:
  assumes g: "transposed g" and n: "0 < nodes g" and k: "0 < max_iters"
  defines "left \<equiv> 2 * (17 / 20) ^ (nat max_iters - 1) :: 'a::linordered_field"
  shows "\<exists>s. PageRankPull (\<lambda>x. x) (\<lambda>x. x) g max_iters epsilon = Some s \<and> length s = nodes g \<and>
    (left < epsilon \<longrightarrow> PRVerifier (\<lambda>x. x) (\<lambda>x. x) g s epsilon = Some True) \<and>
    (\<exists>accepted. PRVerifier (\<lambda>x. x) (\<lambda>x. x) g s epsilon = Some accepted) \<and>
    (\<forall>p. (\<forall>u < nodes g. p u = pr_step g p u) \<longrightarrow> (\<Sum>u < nodes g. \<bar>s ! u - p u\<bar>) \<le> 17 / 3 * max epsilon left)"
proof -
  obtain s x where s: "PageRankPull (\<lambda>x. x) (\<lambda>x. x) g max_iters epsilon = Some s" "s = map (pr_step g x) [0..<nodes g]"
    "dist1 g (pr_step g x) x < epsilon \<or> dist1 g (pr_step g x) x \<le> left"
    using PageRankPull_returns [OF g n k] unfolding left_def by blast
  have same: "dist1 g ((!) s) y = dist1 g (pr_step g x) y" for y by (rule dist1_cong) (simp_all add: s(2))
  have pos: "0 \<le> dist1 g (pr_step g x) x" unfolding dist1_def by (simp add: sum_nonneg)
  have "dist1 g (pr_step g ((!) s)) ((!) s) = dist1 g (pr_step g (pr_step g x)) (pr_step g x)"
    by (rule dist1_cong) (auto simp: s(2) intro: share_rows_cong [OF g])
  also have "\<dots> \<le> 17 / 20 * dist1 g (pr_step g x) x" by (rule pr_step_contracts [OF g])
  also have "\<dots> \<le> dist1 g (pr_step g x) x" using pos by simp
  finally have "left < epsilon \<longrightarrow> dist1 g (pr_step g ((!) s)) ((!) s) < epsilon" using s(3) by auto
  then have v: "left < epsilon \<longrightarrow> PRVerifier (\<lambda>x. x) (\<lambda>x. x) g s epsilon = Some True"
    "\<exists>accepted. PRVerifier (\<lambda>x. x) (\<lambda>x. x) g s epsilon = Some accepted"
    using PRVerifier_eq [OF g, of s] by (simp_all add: s(2))
  have "dist1 g ((!) s) p \<le> 17 / 3 * max epsilon left" if p: "\<forall>u < nodes g. p u = pr_step g p u" for p
  proof -
    have "dist1 g (pr_step g x) p = dist1 g (pr_step g x) (pr_step g p)" by (rule dist1_cong) (use p in simp_all)
    also have "\<dots> \<le> 17 / 20 * dist1 g x p" by (rule pr_step_contracts [OF g])
    finally have c: "dist1 g (pr_step g x) p \<le> 17 / 20 * dist1 g x p" .
    have "dist1 g x p \<le> dist1 g (pr_step g x) x + dist1 g (pr_step g x) p"
      unfolding dist1_def sum.distrib [symmetric]
    proof (rule sum_mono)
      show "\<bar>x i - p i\<bar> \<le> \<bar>pr_step g x i - x i\<bar> + \<bar>pr_step g x i - p i\<bar>" for i
        using abs_triangle_ineq4 [of "pr_step g x i - p i" "pr_step g x i - x i"] by simp
    qed
    then have "3 * dist1 g (pr_step g x) p \<le> 17 * dist1 g (pr_step g x) x" using c by simp
    then have "dist1 g ((!) s) p \<le> 17 / 3 * dist1 g (pr_step g x) x" using same by simp
    also have "\<dots> \<le> 17 / 3 * max epsilon left" using s(3) by (intro mult_left_mono) auto
    finally show ?thesis .
  qed
  then show ?thesis using s v by (auto simp: dist1_def)
qed

section \<open>Properties\<close>

text \<open>C15: In exact arithmetic PageRank converges.  When the iteration limit leaves room for the change, which shrinks by
  the damping factor, to fall below epsilon, the kernel returns scores that the verifier accepts and whose
  distance to every fixed point of the PageRank equation is at most 17/3 of epsilon.\<close>

theorem PageRankPull_converges:
  assumes g: "transposed g" and n: "0 < nodes g" and k: "0 < max_iters"
    and e: "2 * (17 / 20) ^ (nat max_iters - 1) < (epsilon :: 'a::linordered_field)"
  shows "\<exists>s. PageRankPull (\<lambda>x. x) (\<lambda>x. x) g max_iters epsilon = Some s \<and> length s = nodes g \<and>
    PRVerifier (\<lambda>x. x) (\<lambda>x. x) g s epsilon = Some True \<and>
    (\<forall>p. (\<forall>u < nodes g. p u = pr_step g p u) \<longrightarrow> (\<Sum>u < nodes g. \<bar>s ! u - p u\<bar>) \<le> 17 / 3 * epsilon)"
  using PageRankPull_good [OF g n k, of epsilon] e by (auto simp: max_def)

lemma PageRankPull_converges_witness:
  "\<exists>s :: real list. PageRankPull (\<lambda>x. x) (\<lambda>x. x) (csr_of_rows [[1], [0]]) 6 1 = Some s \<and> \<bar>s ! 0 - 1 / 2\<bar> + \<bar>s ! 1 - 1 / 2\<bar> \<le> 17 / 3"
proof -
  let ?g = "csr_of_rows [[1], [0 :: nat]]"
  have "graph_ok ?g" using sym_rows_graph(1) [of "[[1], [0]]"] by (auto simp: sym_rows_def upt_rec)
  then have g: "transposed ?g" by (auto simp: transposed_def less_Suc_eq)
  have e: "2 * (17 / 20) ^ (nat 6 - 1) < (1 :: real)" by (simp add: power_divide eval_nat_numeral)
  have p: "\<forall>u < nodes ?g. (1 / 2 :: real) = pr_step ?g (\<lambda>v. 1 / 2) u" by (auto simp: pr_step_def share_def less_Suc_eq)
  obtain s where s: "PageRankPull (\<lambda>x. x) (\<lambda>x. x) ?g 6 1 = Some s"
    "\<forall>p. (\<forall>u < nodes ?g. p u = pr_step ?g p u) \<longrightarrow> (\<Sum>u < nodes ?g. \<bar>s ! u - p u\<bar>) \<le> 17 / 3 * (1 :: real)"
    using PageRankPull_converges [OF g _ _ e] by auto
  from mp [OF spec [OF s(2), of "\<lambda>v. 1 / 2"]] p have "(\<Sum>u < nodes ?g. \<bar>s ! u - 1 / 2\<bar>) \<le> 17 / 3" by simp
  moreover have "nodes ?g = 2" by simp
  ultimately have "\<bar>s ! 0 - 1 / 2\<bar> + \<bar>s ! 1 - 1 / 2\<bar> \<le> 17 / 3" by (simp only: numeral_2_eq_2 sum.lessThan_Suc sum.empty lessThan_0 One_nat_def add_0)
  then show ?thesis using s(1) by blast
qed

text \<open>C16: The verifier of PageRank decides what it says it does: in exact arithmetic it accepts exactly the scores that one more
  step of the iteration changes by less than the target, though it pushes along the edges where the
  kernel pulls.\<close>

lemma PRVerifier_decides:
  assumes "transposed g" "length s = nodes g"
  shows "PRVerifier (\<lambda>x. x) (\<lambda>x. x) g s (target :: 'a::linordered_field) = Some ((\<Sum>u < nodes g. \<bar>pr_step g ((!) s) u - s ! u\<bar>) < target)"
  using PRVerifier_eq [OF assms] by (simp add: dist1_def)

lemma PRVerifier_decides_witness:
  "PRVerifier (\<lambda>x. x) (\<lambda>x. x) (csr_of_rows [[1], [0]]) [1, 0] (1 :: real) = Some False"
proof -
  let ?g = "csr_of_rows [[1], [0 :: nat]]"
  have "graph_ok ?g" using sym_rows_graph(1) [of "[[1], [0]]"] by (auto simp: sym_rows_def upt_rec)
  then have g: "transposed ?g" by (auto simp: transposed_def less_Suc_eq)
  show ?thesis
    using PRVerifier_decides [OF g, of "[1, 0 :: real]" 1] by (simp add: pr_step_def share_def eval_nat_numeral)
qed

end
