(* ===== verification/PageRankMain.thy ===== *)
theory PageRankMain
  imports PageRank Programs
begin

text \<open>
  \<^verbatim>\<open>main\<close> of src/pr.cc, and its run from the command line to the log in exact arithmetic.
\<close>

definition pr_main where
  "pr_main fl db print_double stod opts fs generate region mem =
     rbind (ParseArgs (CLPageRank_HandleArg stod) opts (CLPageRank print_double ''pagerank'' (db (1 / 10000)) 20)) (\<lambda>(cli, ok).
     if \<not> ok then Inl (Exit (-1))
     else rbind (BuilderBase False cli) (\<lambda>b.
       rbind (assert_that (cl_host_id cli \<ge> 0)) (\<lambda>_.
       rbind (assert_that (cl_size_in_gib cli > 0)) (\<lambda>_.
       rbind (MakeGraph fs generate True cli b (cl_host_id cli) region mem) (\<lambda>(g, t).
       of_opt (BenchmarkKernel (cl_app.truncate cli)
         (\<lambda>st. do { scores \<leftarrow> PageRankPull fl db g (cl_max_iters cli) (cl_tolerance cli); Some (scores, st) })
         (\<lambda>scores st. do { ok \<leftarrow> PRVerifier fl db g scores (cl_tolerance cli); Some (ok, st) }) ()))))))"

section \<open>The equation in terms of the edge list\<close>

definition edge_pagerank :: "(nat, nat) edge_pair list \<Rightarrow> (nat \<Rightarrow> 'a::linordered_field) \<Rightarrow> bool" where
  "edge_pagerank el p \<longleftrightarrow> (\<forall>u < Suc (FindMaxNodeID (\<lambda>v. v) el). p u = 3 / 20 / of_nat (Suc (FindMaxNodeID (\<lambda>v. v) el)) +
     17 / 20 * (\<Sum>v \<in> simple_neighbors el u. p v / of_nat (card (simple_neighbors el v))))"

lemma count_distinct: "distinct xs \<Longrightarrow> count_list xs v = (if v \<in> set xs then 1 else 0)"
  by (induction xs) auto

lemma region_graph_transposed:
  assumes "layout (simple_rows el) ws" "fits (simple_rows el) (length ws)" "FindMaxNodeID (\<lambda>v. v) el < 2 ^ 31 - 1"
  defines "g \<equiv> region_graph (simple_rows el) ws"
  shows "transposed g" "u < nodes g \<Longrightarrow> pr_step g p u = 3 / 20 / of_nat (nodes g) +
     17 / 20 * (\<Sum>v \<in> simple_neighbors el u. p v / of_nat (card (simple_neighbors el v)) :: 'a::linordered_field)"
proof -
  note rr = region_graph_rows [OF assms(1,2) small_ids_simple_rows [OF assms(3)] simple_rows_range, folded g_def]
  have n: "nodes g = Suc (FindMaxNodeID (\<lambda>v. v) el)" using rr(2) by simp
  have a: "adj g v = sorted_list_of_set (simple_neighbors el v)" "inv_adj g v = sorted_list_of_set (simple_neighbors el v)"
    if "v < nodes g" for v
    using rr(3,4) that n by (simp_all add: nth_simple_rows)
  have "count_list (sorted_list_of_set S) v = (if v \<in> S then 1 else 0)" if "finite S" for S :: "nat set" and v
    using that by (simp add: count_distinct)
  then have "count_list (adj g u) v = count_list (inv_adj g v) u" if "u < nodes g" "v < nodes g" for u v
    using a that simple_neighbors_sym by auto
  then show "transposed g" using rr(1) by (simp add: transposed_def)
  show "pr_step g p u = 3 / 20 / of_nat (nodes g) +
      17 / 20 * (\<Sum>v \<in> simple_neighbors el u. p v / of_nat (card (simple_neighbors el v)))" if u: "u < nodes g"
  proof -
    have "(\<Sum>v \<leftarrow> inv_adj g u. share g p v) = (\<Sum>v \<in> simple_neighbors el u. share g p v)"
      using a(2) [OF u] by (simp add: sum_list_distinct_conv_sum_set)
    also have "\<dots> = (\<Sum>v \<in> simple_neighbors el u. p v / of_nat (card (simple_neighbors el v)))"
      using a(1) simple_neighbors_range n by (intro sum.cong) (simp_all add: share_def)
    finally show ?thesis by (simp add: pr_step_def)
  qed
qed

section \<open>Properties\<close>

text \<open>C4: The PageRank program, from the command line to the log, in exact arithmetic.  On host 0, for every generated edge list
  that fits the region and the 32-bit degree counters, each run of \<^verbatim>\<open>main\<close> returns scores close to every solution of the PageRank equation of the edge list:
  within 17/3 of the tolerance, or of \<^verbatim>\<open>2 * (17/20)^(iterations - 1)\<close> where that is larger.  With \<^verbatim>\<open>-v\<close>, and only
  then, the tolerance is assumed to be above this number, and each verification passes.  The defaults (20 iterations,
  tolerance 0.0001) are covered without \<^verbatim>\<open>-v\<close>, but not with it, as 2 * (17/20)^19 is about 0.09: the iterations may end
  before the change is below the tolerance, and nothing is said of a verification then.\<close>

theorem pr_main_scores:
  fixes cli :: "'a::linordered_field cl_page_rank"
  assumes parse: "ParseArgs (CLPageRank_HandleArg stod) opts (CLPageRank print_double ''pagerank'' (1 / 10000) 20) = Inr (cli, True)"
    and o: "cl_filename cli = ''''" "cl_scale cli \<noteq> -1" "cl_host_id cli = 0" "cl_size_in_gib cli > 0" "\<not> cl_in_place cli"
    and gen: "generate (cl_scale cli) (cl_degree cli) 0 (cl_uniform cli) = Inr el"
    and fit: "edges_fit el"
    and f: "fits (simple_rows el) (length (shm_words s))"
    and iters: "0 < cl_max_iters cli"
    and v: "cl_do_verify cli \<Longrightarrow> 2 * (17 / 20) ^ (nat (cl_max_iters cli) - 1) < cl_tolerance cli"
  shows "\<exists>st log. pr_main (\<lambda>x. x) (\<lambda>x. x) print_double stod opts fs generate (Inr s) mem = Inr (st, log) \<and>
    log_ok (cl_app.truncate cli) (\<lambda>scores. length scores = Suc (FindMaxNodeID (\<lambda>v. v) el) \<and>
      (\<forall>p. edge_pagerank el p \<longrightarrow> (\<Sum>u < length scores. \<bar>scores ! u - p u\<bar>) \<le>
         17 / 3 * max (cl_tolerance cli) (2 * (17 / 20) ^ (nat (cl_max_iters cli) - 1))))
      (nat (cl_num_trials cli)) log"
proof -
  note small = edges_fit_ids [OF fit]
  obtain t where t: "MakeGraph fs generate True cli (plain_builder (-1) SIZE_MAX) 0 (Inr s) mem = Inr (region_graph (simple_rows el) (shm_words t), t)"
    "layout (simple_rows el) (shm_words t)" "fits (simple_rows el) (length (shm_words t))"
    using MakeGraph_region [where generate = generate, OF o(1,2) gen o(3) fit f] by blast
  define g where "g = region_graph (simple_rows el) (shm_words t)"
  note tr = region_graph_transposed [OF t(2,3) small, folded g_def]
  have n: "nodes g = Suc (FindMaxNodeID (\<lambda>v. v) el)"
    using region_graph_simple(2) [OF t(2,3) small] by (simp add: g_def)
  define left :: 'a where "left = 2 * (17 / 20) ^ (nat (cl_max_iters cli) - 1)"
  obtain sc where sc: "PageRankPull (\<lambda>x. x) (\<lambda>x. x) g (cl_max_iters cli) (cl_tolerance cli) = Some sc" "length sc = nodes g"
    "left < cl_tolerance cli \<longrightarrow> PRVerifier (\<lambda>x. x) (\<lambda>x. x) g sc (cl_tolerance cli) = Some True"
    "\<forall>p. (\<forall>u < nodes g. p u = pr_step g p u) \<longrightarrow> (\<Sum>u < nodes g. \<bar>sc ! u - p u\<bar>) \<le> 17 / 3 * max (cl_tolerance cli) left"
    using PageRankPull_good [OF tr(1) _ iters, of "cl_tolerance cli"] unfolding left_def n by blast
  define R where "R = (\<lambda>scores. length scores = Suc (FindMaxNodeID (\<lambda>v. v) el) \<and>
    (\<forall>p. edge_pagerank el p \<longrightarrow> (\<Sum>u < length scores. \<bar>scores ! u - p u\<bar>) \<le> 17 / 3 * max (cl_tolerance cli) left))"
  have eq: "(\<forall>u < nodes g. p u = pr_step g p u) \<longleftrightarrow> edge_pagerank el p" for p :: "nat \<Rightarrow> 'a"
  proof -
    have "(p u = pr_step g p u) = (p u = 3 / 20 / of_nat (nodes g) +
        17 / 20 * (\<Sum>v \<in> simple_neighbors el u. p v / of_nat (card (simple_neighbors el v))))" if "u < nodes g" for u
      unfolding tr(2) [OF that] ..
    then show ?thesis unfolding edge_pagerank_def n [symmetric] by blast
  qed
  have R: "R sc" unfolding R_def sc(2) n by (rule conjI [OF refl sc(4) [unfolded eq, unfolded n]])
  have "good_trial (cl_app.truncate cli) (\<lambda>_. True) R
      (\<lambda>st. do { scores \<leftarrow> PageRankPull (\<lambda>x. x) (\<lambda>x. x) g (cl_max_iters cli) (cl_tolerance cli); Some (scores, st) })
      (\<lambda>scores st. do { ok \<leftarrow> PRVerifier (\<lambda>x. x) (\<lambda>x. x) g scores (cl_tolerance cli); Some (ok, st) }) st" for st :: unit
    unfolding good_trial_def using R sc(3) v [folded left_def] by (cases "cl_do_verify cli") (simp_all add: sc(1) cl_app.truncate_def)
  from returns_pair [OF BenchmarkKernel_verifies [OF this TrueI]]
  obtain st log where log: "BenchmarkKernel (cl_app.truncate cli)
      (\<lambda>st. do { scores \<leftarrow> PageRankPull (\<lambda>x. x) (\<lambda>x. x) g (cl_max_iters cli) (cl_tolerance cli); Some (scores, st) })
      (\<lambda>scores st. do { ok \<leftarrow> PRVerifier (\<lambda>x. x) (\<lambda>x. x) g scores (cl_tolerance cli); Some (ok, st) }) () = Some (st, log)"
    "log_ok (cl_app.truncate cli) R (nat (cl_num_trials cli)) log" by (auto simp: cl_app.truncate_def)
  have "cl_symmetrize cli" using parse o by (auto simp: ParseArgs_def rbind_eq_Inr split: if_splits)
  then have "BuilderBase False cli = Inr (plain_builder (-1) SIZE_MAX)"
    using o by (simp add: BuilderBase_def plain_builder_def)
  then have "pr_main (\<lambda>x. x) (\<lambda>x. x) print_double stod opts fs generate (Inr s) mem = Inr (st, log)"
    using parse o t(1) log(1) by (simp add: pr_main_def g_def)
  then show ?thesis using log(2) unfolding R_def left_def by blast
qed

definition pr_cli :: "real cl_page_rank" where
  "pr_cli = (CLPageRank (\<lambda>_. '''') ''pagerank'' (1 / 10000) 20)
     \<lparr>cl_scale := 2, cl_host_id := 0, cl_size_in_gib := 1, cl_do_verify := True, cl_symmetrize := True, cl_tolerance := 1, cl_max_iters := 6\<rparr>"

lemma pr_fields:
  "cl_filename pr_cli = ''''" "cl_scale pr_cli = 2" "cl_host_id pr_cli = 0" "cl_size_in_gib pr_cli = 1" "\<not> cl_in_place pr_cli"
  "cl_max_iters pr_cli = 6" "cl_tolerance pr_cli = 1" "cl_num_trials pr_cli = 16"
  by (simp_all add: pr_cli_def CLPageRank_def Let_def cl_app.extend_def cl_page_rank.fields_def CLApp_defaults)

lemma pr_main_scores_witness:
  "\<exists>st log. pr_main (\<lambda>x. x) (\<lambda>x. x) (\<lambda>_. '''') (\<lambda>_. Inr (1 :: real))
      (example_opts @ [(CHR ''t'', ''1''), (CHR ''i'', ''6'')]) Map.empty example_generate (Inr example_shm) (\<lambda>_. []) = Inr (st, log) \<and>
    Verified False \<notin> set log"
proof -
  have "atoi ''2'' = Inr 2" "atoi ''0'' = Inr 0" "atoi ''1'' = Inr 1" "atoi ''6'' = Inr 6"
    by (simp_all add: atoi_def read_int_def is_space_def digit_of_def)
  then have p: "ParseArgs (CLPageRank_HandleArg (\<lambda>_. Inr 1)) (example_opts @ [(CHR ''t'', ''1''), (CHR ''i'', ''6'')])
      (CLPageRank (\<lambda>_. '''') ''pagerank'' (1 / 10000) 20) = Inr (pr_cli, True)"
    by (simp add: ParseArgs_def CLBase_HandleArg_def CLApp_HandleArg_def CLPageRank_HandleArg_def example_opts_def pr_cli_def)
  have e: "2 * (17 / 20) ^ (nat (cl_max_iters pr_cli) - 1) < cl_tolerance pr_cli" "0 < cl_max_iters pr_cli"
    by (simp_all add: pr_fields power_divide eval_nat_numeral)
  have r: "edges_fit example_el" "fits (simple_rows example_el) (length (shm_words example_shm))"
    using example_run [of "''pagerank''"] by (simp_all add: good_run_def)
  obtain st log where "pr_main (\<lambda>x. x) (\<lambda>x. x) (\<lambda>_. '''') (\<lambda>_. Inr 1)
      (example_opts @ [(CHR ''t'', ''1''), (CHR ''i'', ''6'')]) Map.empty example_generate (Inr example_shm) (\<lambda>_. []) = Inr (st, log)"
    "log_ok (cl_app.truncate pr_cli) (\<lambda>scores. length scores = Suc (FindMaxNodeID (\<lambda>v. v) example_el) \<and>
      (\<forall>p. edge_pagerank example_el p \<longrightarrow> (\<Sum>u < length scores. \<bar>scores ! u - p u\<bar>) \<le>
        17 / 3 * max (cl_tolerance pr_cli) (2 * (17 / 20) ^ (nat (cl_max_iters pr_cli) - 1)))) (nat (cl_num_trials pr_cli)) log"
    using pr_main_scores [OF p _ _ _ _ _ _ r e(2,1), of example_generate Map.empty "\<lambda>_. []"] pr_fields
    by (auto simp: example_generate_def)
  then show ?thesis unfolding log_ok_def by blast
qed

end
