(* ===== verification/Betweenness.thy ===== *)
theory Betweenness
  imports BFSCheck
begin

text \<open>
  Betweenness, the vocabulary of the theories Brandes and BCCheck.  \<open>paths nb s k\<close> lists the walks of k
  steps from s, with parallel edges as different walks.  \<open>dependency\<close> is the quantity the kernel of
  src/bc.cc accumulates, stated without any algorithm: the share of the shortest paths from s to t that
  run through u, summed over the targets t.  \<open>dependency_recursion\<close> is Brandes' theorem.
\<close>

section \<open>Walks\<close>

primrec paths :: "(nat \<Rightarrow> nat list) \<Rightarrow> nat \<Rightarrow> nat \<Rightarrow> nat list list" where
  "paths nb s 0 = [[s]]"
| "paths nb s (Suc k) = concat (map (\<lambda>v. map ((#) s) (paths nb v k)) (nb s))"

definition wcount :: "(nat \<Rightarrow> nat list) \<Rightarrow> nat \<Rightarrow> nat \<Rightarrow> nat \<Rightarrow> nat" where
  \<comment> \<open>the number of walks of k steps from s to t\<close>
  "wcount nb s k t = length (filter (\<lambda>p. last p = t) (paths nb s k))"

lemma paths_shape: "p \<in> set (paths nb s k) \<Longrightarrow> length p = Suc k \<and> p ! 0 = s"
  by (induction k arbitrary: s p) auto

lemma paths_nonempty: "p \<in> set (paths nb s k) \<Longrightarrow> p \<noteq> []"
  using paths_shape by fastforce

lemma length_filter_paths:
  "length (filter P (paths nb s (Suc k))) = (\<Sum>v \<leftarrow> nb s. length (filter (\<lambda>p. P (s # p)) (paths nb v k)))"
  by (simp add: filter_concat length_concat o_def filter_map)

lemma wcount_0 [simp]: "wcount nb s 0 t = (if s = t then 1 else 0)"
  by (simp add: wcount_def)

lemma wcount_Suc: "wcount nb s (Suc k) t = (\<Sum>v \<leftarrow> nb s. wcount nb v k t)"
proof -
  have "filter (\<lambda>p. last (s # p) = t) (paths nb v k) = filter (\<lambda>p. last p = t) (paths nb v k)" for v
    by (rule filter_cong) (auto dest: paths_nonempty)
  then show ?thesis unfolding wcount_def length_filter_paths by simp
qed

text \<open>The walks through a vertex at a position are the walks to it followed by the walks from it.\<close>

lemma paths_split:
  "i \<le> k \<Longrightarrow> length (filter (\<lambda>p. last p = t \<and> p ! i = u) (paths nb s k)) = wcount nb s i u * wcount nb u (k - i) t"
proof (induction i arbitrary: s k)
  case 0
  have "filter (\<lambda>p. last p = t \<and> p ! 0 = u) (paths nb s k) = (if s = u then filter (\<lambda>p. last p = t) (paths nb s k) else [])"
    by (auto intro: filter_cong simp: filter_empty_conv dest: paths_shape)
  then show ?case by (simp add: wcount_def)
next
  case (Suc i)
  then obtain m where k: "k = Suc m" "i \<le> m" by (cases k) auto
  have "filter (\<lambda>p. last (s # p) = t \<and> (s # p) ! Suc i = u) (paths nb v m) = filter (\<lambda>p. last p = t \<and> p ! i = u) (paths nb v m)" for v
    by (rule filter_cong) (auto dest: paths_nonempty)
  then show ?case
    unfolding k(1) length_filter_paths using Suc.IH [OF k(2)] by (simp add: wcount_Suc sum_list_mult_const)
qed

definition rows_below :: "nat \<Rightarrow> (nat \<Rightarrow> nat list) \<Rightarrow> bool" where
  "rows_below n nb \<longleftrightarrow> (\<forall>u < n. \<forall>v \<in> set (nb u). v < n)"

lemma rows_belowD: "rows_below n nb \<Longrightarrow> u < n \<Longrightarrow> v \<in> set (nb u) \<Longrightarrow> v < n"
  by (auto simp: rows_below_def)

lemma rows_arcs_below: "rows_below n nb \<Longrightarrow> edges_below n (arcs n nb)"
  by (auto simp: edges_below_def arcs_def rows_below_def)

text \<open>Counting by the last step instead of the first.\<close>

lemma wcount_last:
  assumes w: "rows_below n nb" and s: "s < n"
  shows "wcount nb s (Suc k) t = (\<Sum>u < n. wcount nb s k u * count_list (nb u) t)"
  using s
proof (induction k arbitrary: s)
  case 0
  have "(\<Sum>u < n. wcount nb s 0 u * count_list (nb u) t) = (\<Sum>u < n. if u = s then count_list (nb s) t else 0)"
    by (intro sum.cong) auto
  also have "\<dots> = count_list (nb s) t" using 0 by simp
  moreover have "(\<Sum>v \<leftarrow> vs. if v = t then 1 else 0) = count_list vs t" for vs by (induction vs) auto
  ultimately show ?case by (simp add: wcount_Suc)
next
  case (Suc k)
  have "wcount nb s (Suc (Suc k)) t = (\<Sum>v < n. count_list (nb s) v * wcount nb v (Suc k) t)"
    using sum_list_counts [of "nb s" n "\<lambda>v. wcount nb v (Suc k) t"] rows_belowD [OF w Suc.prems] by (simp add: wcount_Suc [of nb s])
  also have "\<dots> = (\<Sum>v < n. \<Sum>u < n. count_list (nb s) v * wcount nb v k u * count_list (nb u) t)"
    using Suc.IH by (simp add: sum_distrib_left mult.assoc)
  also have "\<dots> = (\<Sum>u < n. \<Sum>v < n. count_list (nb s) v * wcount nb v k u * count_list (nb u) t)" by (rule sum.swap)
  also have "\<dots> = (\<Sum>u < n. wcount nb s (Suc k) u * count_list (nb u) t)"
    using sum_list_counts [of "nb s" n "\<lambda>v. wcount nb v k u" for u] rows_belowD [OF w Suc.prems]
    by (simp add: wcount_Suc [of nb s] sum_distrib_right)
  finally show ?case .
qed

lemma wcount_ball:
  assumes w: "rows_below n nb" and s: "s < n" and pos: "0 < wcount nb s k t"
  shows "t \<in> ball (arcs n nb) s k"
  using pos
proof (induction k arbitrary: t)
  case 0
  then show ?case by (simp split: if_splits)
next
  case (Suc k)
  then obtain u where u: "u < n" "0 < wcount nb s k u * count_list (nb u) t"
    unfolding wcount_last [OF w s] by (metis (no_types, lifting) gr0I lessThan_iff less_irrefl sum.neutral)
  then have "0 < wcount nb s k u" "t \<in> set (nb u)" using count_list_0_iff [of "nb u" t] by auto
  then show ?case using Suc.IH [of u] u(1) by (auto simp: arcs_def)
qed

lemma ball_wcount:
  assumes w: "rows_below n nb" and s: "s < n"
  shows "t \<in> layer (arcs n nb) s k \<Longrightarrow> 0 < wcount nb s k t"
proof (induction k arbitrary: t)
  case (Suc k)
  then obtain u where u: "u \<in> layer (arcs n nb) s k" "u < n" "t \<in> set (nb u)" by (auto simp: layer_Suc arcs_def)
  then have "0 < wcount nb s k u * count_list (nb u) t" using Suc.IH count_list_0_iff [of "nb u" t] by simp
  also have "\<dots> \<le> wcount nb s (Suc k) t" unfolding wcount_last [OF w s] by (rule member_le_sum) (use u(2) in simp_all)
  finally show ?case .
qed simp

section \<open>Shortest paths\<close>

definition through :: "(nat \<Rightarrow> nat list) \<Rightarrow> nat \<Rightarrow> nat \<Rightarrow> nat \<Rightarrow> nat \<Rightarrow> nat" where
  \<comment> \<open>the walks of k steps from s to t that visit u\<close>
  "through nb s k u t = length (filter (\<lambda>p. last p = t \<and> u \<in> set p) (paths nb s k))"

definition dependency :: "nat \<Rightarrow> (nat \<Rightarrow> nat list) \<Rightarrow> nat \<Rightarrow> nat \<Rightarrow> 'a::linordered_field" where
  \<comment> \<open>\<open>level_of\<close> is the distance from s, so the walks counted are the shortest paths from s to t\<close>
  "dependency n nb s u = (\<Sum>t | t < n \<and> t \<noteq> u \<and> (s, t) \<in> (arcs n nb)\<^sup>*.
     of_nat (through nb s (level_of (arcs n nb) s t) u t) / of_nat (wcount nb s (level_of (arcs n nb) s t) t))"

definition sigma :: "nat \<Rightarrow> (nat \<Rightarrow> nat list) \<Rightarrow> nat \<Rightarrow> nat \<Rightarrow> nat" where
  \<comment> \<open>the number of shortest paths from s to v\<close>
  "sigma n nb s v = wcount nb s (level_of (arcs n nb) s v) v"

lemma level_of_source [simp]: "level_of E s s = 0"
  by (rule level_of_layer) simp

lemma sigma_source [simp]: "sigma n nb s s = 1"
  by (simp add: sigma_def)

lemma sigma_pos: "rows_below n nb \<Longrightarrow> s < n \<Longrightarrow> (s, v) \<in> (arcs n nb)\<^sup>* \<Longrightarrow> 0 < sigma n nb s v"
  unfolding sigma_def by (rule ball_wcount [OF _ _ level_of_reach])

lemma paths_arcs:
  "rows_below n nb \<Longrightarrow> s < n \<Longrightarrow> p \<in> set (paths nb s k) \<Longrightarrow> i < k \<Longrightarrow> (p ! i, p ! Suc i) \<in> arcs n nb"
proof (induction k arbitrary: s p i)
  case (Suc k)
  then obtain v q where p: "p = s # q" "v \<in> set (nb s)" "q \<in> set (paths nb v k)" by auto
  have v: "v < n" by (rule rows_belowD [OF Suc.prems(1,2) p(2)])
  show ?case
  proof (cases i)
    case 0
    then show ?thesis using p Suc.prems(2) paths_shape [OF p(3)] by (simp add: arcs_def)
  next
    case (Suc j)
    then show ?thesis using Suc.IH [OF Suc.prems(1) v p(3)] Suc.prems(4) p(1) by simp
  qed
qed simp

text \<open>On a shortest path the level rises by one with each step.\<close>

lemma shortest_levels:
  assumes w: "rows_below n nb" and s: "s < n" and p: "p \<in> set (paths nb s k)" and k: "level_of (arcs n nb) s (p ! k) = k" and i: "i \<le> k"
  shows "level_of (arcs n nb) s (p ! i) = i"
proof -
  let ?l = "level_of (arcs n nb) s"
  have reach: "(s, p ! j) \<in> (arcs n nb)\<^sup>*" if "j \<le> k" for j
    using that
  proof (induction j)
    case 0
    then show ?case using paths_shape [OF p] by simp
  next
    case (Suc j)
    then show ?case using paths_arcs [OF w s p, of j] by (simp add: rtrancl.rtrancl_into_rtrancl)
  qed
  have step: "?l (p ! (j + m)) \<le> ?l (p ! j) + m" if "j + m \<le> k" for j m
    using that
  proof (induction m)
    case (Suc m)
    then have "?l (p ! Suc (j + m)) \<le> Suc (?l (p ! (j + m)))"
      using level_of_edge [OF reach paths_arcs [OF w s p]] by simp
    then show ?case using Suc by simp
  qed simp
  have "?l (p ! i) \<le> i" using step [of 0 i] i paths_shape [OF p] by simp
  moreover have "k \<le> ?l (p ! i) + (k - i)" using step [of i "k - i"] i k by simp
  ultimately show ?thesis using i by linarith
qed

lemma through_eq:
  assumes w: "rows_below n nb" and s: "s < n"
  defines "l \<equiv> level_of (arcs n nb) s"
  shows "through nb s (l t) u t = (if l u \<le> l t then sigma n nb s u * wcount nb u (l t - l u) t else 0)"
proof -
  have last: "last p = p ! l t" if "p \<in> set (paths nb s (l t))" for p
    using paths_shape [OF that] by (simp add: last_conv_nth paths_nonempty [OF that])
  have lev: "l (p ! i) = i" if "p \<in> set (paths nb s (l t))" "last p = t" "i \<le> l t" for p i
    using shortest_levels [OF w s that(1) _ that(3)] last [OF that(1)] that(2) by (simp add: l_def)
  have mem: "u \<in> set p \<longleftrightarrow> l u \<le> l t \<and> p ! l u = u" if p: "p \<in> set (paths nb s (l t))" "last p = t" for p
  proof
    assume "u \<in> set p"
    then obtain i where i: "i \<le> l t" "p ! i = u" using paths_shape [OF p(1)] by (auto simp: in_set_conv_nth less_Suc_eq_le)
    then show "l u \<le> l t \<and> p ! l u = u" using lev [OF p i(1)] by simp
  next
    assume "l u \<le> l t \<and> p ! l u = u"
    then show "u \<in> set p" using paths_shape [OF p(1)] by (metis less_Suc_eq_le nth_mem)
  qed
  show ?thesis
  proof (cases "l u \<le> l t")
    case True
    then have "filter (\<lambda>p. last p = t \<and> u \<in> set p) (paths nb s (l t)) = filter (\<lambda>p. last p = t \<and> p ! l u = u) (paths nb s (l t))"
      by (intro filter_cong) (auto simp: mem)
    then show ?thesis using True paths_split [OF True] by (simp add: through_def sigma_def l_def)
  next
    case False
    then have "filter (\<lambda>p. last p = t \<and> u \<in> set p) (paths nb s (l t)) = []"
      by (auto simp: filter_empty_conv mem)
    then show ?thesis using False by (simp add: through_def)
  qed
qed

section \<open>Brandes' theorem\<close>

definition successors :: "nat \<Rightarrow> (nat \<Rightarrow> nat list) \<Rightarrow> nat \<Rightarrow> nat \<Rightarrow> nat list" where
  "successors n nb s u = filter (\<lambda>v. level_of (arcs n nb) s v = Suc (level_of (arcs n nb) s u)) (nb u)"

text \<open>A walk that is as short as the levels allow steps to a successor first.\<close>

lemma wcount_successors:
  assumes w: "rows_below n nb" and s: "s < n" and u: "u < n" "(s, u) \<in> (arcs n nb)\<^sup>*"
  defines "l \<equiv> level_of (arcs n nb) s"
  assumes t: "l t = l u + Suc k"
  shows "wcount nb u (Suc k) t = (\<Sum>v \<leftarrow> successors n nb s u. wcount nb v k t)"
proof -
  have zero: "wcount nb v k t = 0" if v: "v \<in> set (nb u)" "l v \<noteq> Suc (l u)" for v
  proof (rule ccontr)
    assume "wcount nb v k t \<noteq> 0"
    then obtain p where p: "p \<in> set (paths nb v k)" "last p = t" unfolding wcount_def by (auto simp: filter_empty_conv)
    have e: "(u, v) \<in> arcs n nb" using u v by (simp add: arcs_def)
    have vn: "v < n" by (rule rows_belowD [OF w u(1) v(1)])
    have sv: "(s, v) \<in> (arcs n nb)\<^sup>*" by (rule rtrancl.rtrancl_into_rtrancl [OF u(2) e])
    have "(s, p ! j) \<in> (arcs n nb)\<^sup>* \<and> l (p ! j) \<le> l v + j" if "j \<le> k" for j
      using that
    proof (induction j)
      case 0
      then show ?case using paths_shape [OF p(1)] sv by simp
    next
      case (Suc j)
      have a: "(p ! j, p ! Suc j) \<in> arcs n nb" using paths_arcs [OF w vn p(1), of j] Suc.prems by simp
      then show ?case using Suc level_of_edge [OF _ a] by (fastforce simp: l_def intro: rtrancl.rtrancl_into_rtrancl)
    qed
    from this [of k] have "l t \<le> l v + k"
      using p paths_shape [OF p(1)] by (simp add: last_conv_nth paths_nonempty [OF p(1)])
    moreover have "l v \<le> Suc (l u)" unfolding l_def by (rule level_of_edge [OF u(2) e])
    ultimately show False using t v(2) by simp
  qed
  have "(\<Sum>v \<leftarrow> filter P vs. f v) = (\<Sum>v \<leftarrow> vs. f v)" if "\<And>v. v \<in> set vs \<Longrightarrow> \<not> P v \<Longrightarrow> f v = 0" for P vs and f :: "nat \<Rightarrow> nat"
    using that by (induction vs) simp_all
  then show ?thesis unfolding wcount_Suc successors_def using zero by (simp add: l_def)
qed

lemma sum_sum_list: "(\<Sum>t \<in> A. \<Sum>v \<leftarrow> vs. f v t) = (\<Sum>v \<leftarrow> vs. \<Sum>t \<in> A. f v t :: 'a::comm_monoid_add)"
  by (induction vs) (simp_all add: sum.distrib)

lemma sum_list_scaled: "c * of_nat (\<Sum>v \<leftarrow> vs. f v) / d = (\<Sum>v \<leftarrow> vs. c * of_nat (f v) / d :: 'a::linordered_field)"
  by (induction vs) (simp_all add: algebra_simps add_divide_distrib)

definition fraction :: "nat \<Rightarrow> (nat \<Rightarrow> nat list) \<Rightarrow> nat \<Rightarrow> nat \<Rightarrow> nat \<Rightarrow> 'a::linordered_field" where
  \<comment> \<open>the share of the shortest paths from s to t that run through u\<close>
  "fraction n nb s u t = of_nat (through nb s (level_of (arcs n nb) s t) u t) / of_nat (sigma n nb s t)"

lemma dependency_fractions:
  "dependency n nb s u = (\<Sum>t \<in> {t. t < n \<and> (s, t) \<in> (arcs n nb)\<^sup>*} - {u}. fraction n nb s u t)"
  unfolding dependency_def fraction_def sigma_def by (rule sum.cong) auto

lemma fraction_step:
  assumes w: "rows_below n nb" and s: "s < n" and u: "u < n" "(s, u) \<in> (arcs n nb)\<^sup>*"
    and t: "t < n" "(s, t) \<in> (arcs n nb)\<^sup>*" "t \<noteq> u"
  shows "(fraction n nb s u t :: 'a::linordered_field)
    = (\<Sum>v \<leftarrow> successors n nb s u. of_nat (sigma n nb s u) / of_nat (sigma n nb s v) * fraction n nb s v t)"
proof -
  let ?l = "level_of (arcs n nb) s" and ?\<sigma> = "\<lambda>v. of_nat (sigma n nb s v) :: 'a"
  have lv: "?l v = Suc (?l u)" "?\<sigma> v \<noteq> 0" if v: "v \<in> set (successors n nb s u)" for v
  proof -
    show "?l v = Suc (?l u)" using v by (simp add: successors_def)
    have "(u, v) \<in> arcs n nb" using v u(1) by (simp add: successors_def arcs_def)
    then show "?\<sigma> v \<noteq> 0" using sigma_pos [OF w s rtrancl.rtrancl_into_rtrancl [OF u(2)], of v] by simp
  qed
  show ?thesis
  proof (cases "?l t \<le> ?l u")
    case True
    then have "fraction n nb s u t = (0 :: 'a)" using t(3) by (auto simp: fraction_def through_eq [OF w s])
    moreover have "fraction n nb s v t = (0 :: 'a)" if "v \<in> set (successors n nb s u)" for v
      using lv(1) [OF that] True by (simp add: fraction_def through_eq [OF w s])
    then have "(\<Sum>v \<leftarrow> successors n nb s u. ?\<sigma> u / ?\<sigma> v * fraction n nb s v t) = (\<Sum>v \<leftarrow> successors n nb s u. 0)"
      by (intro arg_cong [where f = sum_list] map_cong) simp_all
    ultimately show ?thesis by simp
  next
    case False
    then obtain k where k: "?l t = ?l u + Suc k" by (metis add_Suc_right less_iff_Suc_add linorder_not_le)
    have "fraction n nb s u t = ?\<sigma> u * of_nat (wcount nb u (Suc k) t) / ?\<sigma> t"
      using through_eq [OF w s, of t u] k by (simp add: fraction_def)
    also have "\<dots> = (\<Sum>v \<leftarrow> successors n nb s u. ?\<sigma> u * of_nat (wcount nb v k t) / ?\<sigma> t)"
      unfolding wcount_successors [OF w s u k] by (rule sum_list_scaled)
    also have "\<dots> = (\<Sum>v \<leftarrow> successors n nb s u. ?\<sigma> u / ?\<sigma> v * fraction n nb s v t)"
    proof (intro arg_cong [where f = sum_list] map_cong refl)
      fix v assume v: "v \<in> set (successors n nb s u)"
      have "fraction n nb s v t = ?\<sigma> v * of_nat (wcount nb v k t) / ?\<sigma> t"
        using through_eq [OF w s, of t v] k lv(1) [OF v] by (simp add: fraction_def)
      then show "?\<sigma> u * of_nat (wcount nb v k t) / ?\<sigma> t = ?\<sigma> u / ?\<sigma> v * fraction n nb s v t"
        using lv(2) [OF v] by simp
    qed
    finally show ?thesis .
  qed
qed

text \<open>The dependency on a vertex follows from those on its successors.\<close>

lemma dependency_recursion:
  assumes w: "rows_below n nb" and s: "s < n" and u: "u < n" "(s, u) \<in> (arcs n nb)\<^sup>*"
  shows "(dependency n nb s u :: 'a::linordered_field)
    = (\<Sum>v \<leftarrow> successors n nb s u. of_nat (sigma n nb s u) / of_nat (sigma n nb s v) * (1 + dependency n nb s v))"
proof -
  let ?R = "{t. t < n \<and> (s, t) \<in> (arcs n nb)\<^sup>*}" and ?\<sigma> = "\<lambda>v. of_nat (sigma n nb s v) :: 'a"
  have one: "1 + dependency n nb s v = (\<Sum>t \<in> ?R - {u}. fraction n nb s v t :: 'a)" if v: "v \<in> set (successors n nb s u)" for v
  proof -
    have e: "(u, v) \<in> arcs n nb" and l: "level_of (arcs n nb) s v = Suc (level_of (arcs n nb) s u)"
      using v u(1) by (simp_all add: successors_def arcs_def)
    have vR: "v \<in> ?R" using rtrancl.rtrancl_into_rtrancl [OF u(2) e] edges_belowD [OF rows_arcs_below [OF w] e] by simp
    then have "fraction n nb s v v = (1 :: 'a)"
      using sigma_pos [OF w s, of v] by (simp add: fraction_def through_eq [OF w s])
    moreover have "fraction n nb s v u = (0 :: 'a)" using l by (simp add: fraction_def through_eq [OF w s])
    moreover have "(\<Sum>t \<in> ?R. fraction n nb s v t :: 'a) = fraction n nb s v v + (\<Sum>t \<in> ?R - {v}. fraction n nb s v t)"
      by (rule sum.remove) (use vR in simp_all)
    moreover have "(\<Sum>t \<in> ?R. fraction n nb s v t :: 'a) = fraction n nb s v u + (\<Sum>t \<in> ?R - {u}. fraction n nb s v t)"
      by (rule sum.remove) (use u in simp_all)
    ultimately show ?thesis by (simp add: dependency_fractions)
  qed
  have "dependency n nb s u = (\<Sum>t \<in> ?R - {u}. \<Sum>v \<leftarrow> successors n nb s u. ?\<sigma> u / ?\<sigma> v * fraction n nb s v t)"
    unfolding dependency_fractions by (rule sum.cong [OF refl]) (use fraction_step [OF w s u] in auto)
  also have "\<dots> = (\<Sum>v \<leftarrow> successors n nb s u. ?\<sigma> u / ?\<sigma> v * (\<Sum>t \<in> ?R - {u}. fraction n nb s v t))"
    by (simp only: sum_sum_list sum_distrib_left)
  also have "\<dots> = (\<Sum>v \<leftarrow> successors n nb s u. ?\<sigma> u / ?\<sigma> v * (1 + dependency n nb s v))"
    by (intro arg_cong [where f = sum_list] map_cong) (simp_all only: one)
  finally show ?thesis .
qed

lemma dependency_nonneg: "0 \<le> (dependency n nb s u :: 'a::linordered_field)"
  unfolding dependency_def by (rule sum_nonneg) simp

text \<open>A source with a neighbour other than itself has a positive score.\<close>

lemma dependency_source:
  assumes w: "rows_below n nb" and s: "s < n" and v: "v \<in> set (nb s)" "v \<noteq> s"
  shows "0 < (dependency n nb s s :: 'a::linordered_field)"
proof -
  have e: "(s, v) \<in> arcs n nb" using s v by (simp add: arcs_def)
  have vn: "v < n" by (rule rows_belowD [OF w s v(1)])
  have "sigma n nb s v \<noteq> 0" using sigma_pos [OF w s r_into_rtrancl [OF e]] by simp
  then have one: "fraction n nb s s v = (1 :: 'a)" by (simp add: fraction_def through_eq [OF w s]) (simp add: sigma_def)
  have "(fraction n nb s s v :: 'a) \<le> (\<Sum>t \<in> {t. t < n \<and> (s, t) \<in> (arcs n nb)\<^sup>*} - {s}. fraction n nb s s t)"
    by (rule member_le_sum) (use vn v e in \<open>auto simp: fraction_def\<close>)
  then show ?thesis unfolding dependency_fractions one using zero_less_one by (rule less_le_trans [rotated])
qed

section \<open>Counting paths during a search\<close>

text \<open>
  What the searches of the kernel and of its verifier have counted at v when the vertices of X have handed
  their counts on along their edges.
\<close>

definition counted :: "nat \<Rightarrow> (nat \<Rightarrow> nat list) \<Rightarrow> nat \<Rightarrow> nat set \<Rightarrow> nat \<Rightarrow> nat" where
  "counted n nb s X v = (if v = s then 1 else 0) +
     (\<Sum>u \<in> X. if level_of (arcs n nb) s v = Suc (level_of (arcs n nb) s u) then sigma n nb s u * count_list (nb u) v else 0)"

lemma counted_empty [simp]: "counted n nb s {} v = (if v = s then 1 else 0)"
  by (simp add: counted_def)

text \<open>Once the last layer before v is among them, v has its full count.\<close>

lemma counted_settled:
  assumes w: "rows_below n nb" and s: "s < n" and X: "X \<subseteq> (arcs n nb)\<^sup>* `` {s}" and v: "v \<in> layer (arcs n nb) s k"
    and before: "k = 0 \<or> layer (arcs n nb) s (k - 1) \<subseteq> X"
  shows "counted n nb s X v = sigma n nb s v"
proof -
  let ?E = "arcs n nb" and ?l = "level_of (arcs n nb) s"
  have lv: "?l v = k" by (rule level_of_layer [OF v])
  have E: "edges_below n ?E" by (rule rows_arcs_below [OF w])
  have less: "x < n" if "(s, x) \<in> ?E\<^sup>*" for x
    using that s edges_belowD [OF E] by (induction rule: rtrancl_induct) auto
  have fin: "finite X" by (rule finite_subset [of _ "{..<n}"]) (use X less in auto)
  show ?thesis
  proof (cases k)
    case 0
    then have "v = s" using v by simp
    then show ?thesis by (simp add: counted_def)
  next
    case (Suc j)
    have vs: "v \<noteq> s" using lv Suc by auto
    have "sigma n nb s v = (\<Sum>u < n. wcount nb s j u * count_list (nb u) v)"
      unfolding sigma_def lv Suc by (rule wcount_last [OF w s])
    also have "\<dots> = (\<Sum>u \<in> layer ?E s j. wcount nb s j u * count_list (nb u) v)"
    proof (rule sum.mono_neutral_right)
      show "layer ?E s j \<subseteq> {..<n}" by (rule layer_below [OF E s])
      show "\<forall>u \<in> {..<n} - layer ?E s j. wcount nb s j u * count_list (nb u) v = 0"
      proof (rule ballI, rule ccontr)
        fix u assume u: "u \<in> {..<n} - layer ?E s j" "wcount nb s j u * count_list (nb u) v \<noteq> 0"
        then have "u \<in> ball ?E s j" "(u, v) \<in> ?E" using wcount_ball [OF w s, of j u] count_list_0_iff [of "nb u" v] by (auto simp: arcs_def)
        moreover have "v \<notin> ball ?E s j" using v layer_outside [of j k v ?E s] Suc by simp
        ultimately show False using neighbour_in_layer(1) [of v ?E s j u] u(1) by blast
      qed
    qed simp
    also have "\<dots> = (\<Sum>u \<in> X. if ?l v = Suc (?l u) then sigma n nb s u * count_list (nb u) v else 0)"
    proof (rule sum.mono_neutral_cong_left [OF fin])
      show "layer ?E s j \<subseteq> X" using before Suc by simp
      show "\<forall>u \<in> X - layer ?E s j. (if ?l v = Suc (?l u) then sigma n nb s u * count_list (nb u) v else 0) = 0"
        using X level_of_reach lv Suc by fastforce
      show "wcount nb s j u * count_list (nb u) v = (if ?l v = Suc (?l u) then sigma n nb s u * count_list (nb u) v else 0)"
        if "u \<in> layer ?E s j" for u
        using level_of_layer [OF that] lv Suc by (simp add: sigma_def)
    qed
    finally show ?thesis using vs by (simp add: counted_def)
  qed
qed

end
