(* ===== verification/ParallelBFS.thy ===== *)
theory ParallelBFS
  imports Betweenness Bitmap SlidingQueue
begin

text \<open>
  \<^verbatim>\<open>PBFS\<close> of src/bc.cc: the search that counts the shortest paths from the source, level by level, with a
  \<^verbatim>\<open>SlidingQueue\<close>.  The edges it finds to be steps of shortest paths are bits of a bitmap, addressed by the
  position of the edge in the neighbour array, and \<open>depth_index\<close> holds the queue's positions at which the
  levels begin.  A floating-point operation is the exact operation followed by a rounding, \<open>db\<close> for \<^verbatim>\<open>CountT\<close>.
\<close>

section \<open>The search\<close>

definition out_neigh_refs :: "nat csr_graph \<Rightarrow> nat \<Rightarrow> (nat \<times> nat) list option" where
  \<comment> \<open>\<^verbatim>\<open>for (NodeID &v : g.out_neigh(u))\<close>: the address and the value of each neighbour\<close>
  "out_neigh_refs g u = do {
     (b, e) \<leftarrow> neighborhood (csr_out_index g) u 0;
     vs \<leftarrow> visit_cells (csr_out_neighbors g) (b, e);
     Some (zip [b..<e] vs) }"

definition edge_position :: "nat \<Rightarrow> nat \<Rightarrow> 64 word" where
  \<comment> \<open>\<^verbatim>\<open>&v - g_out_start\<close>, converted to \<^verbatim>\<open>size_t\<close>\<close>
  "edge_position p g_out_start = word_of_int (int p - int g_out_start)"

record 'a pbfs =
  pb_depths :: "int list"
  pb_counts :: "'a list"
  pb_succ :: bitmap
  pb_queue :: "nat queue_buffer \<times> nat sliding_queue"

definition pb_visit :: "int \<Rightarrow> nat \<Rightarrow> 'a pbfs \<Rightarrow> 'a pbfs option" where
  \<comment> \<open>the first thread that finds v queues it\<close>
  "pb_visit depth v st = do {
     dv \<leftarrow> rd (pb_depths st) v;
     if dv = -1 then do {
       cell \<leftarrow> rd (pb_depths st) v;
       let (new, swapped) = compare_and_swap cell (-1) depth;
       dep \<leftarrow> wr (pb_depths st) v new;
       let st = st\<lparr>pb_depths := dep\<rparr>;
       if swapped then do { lq \<leftarrow> qb_push_back (pb_queue st) v; Some (st\<lparr>pb_queue := lq\<rparr>) } else Some st }
     else Some st }"

definition pb_count :: "('a::linordered_field \<Rightarrow> 'a) \<Rightarrow> nat \<Rightarrow> int \<Rightarrow> nat \<Rightarrow> nat \<times> nat \<Rightarrow> 'a pbfs \<Rightarrow> 'a pbfs option" where
  \<comment> \<open>an edge to the next level is a successor and hands the count on\<close>
  "pb_count db g_out_start depth u pv st = (case pv of (p, v) \<Rightarrow> do {
     dv \<leftarrow> rd (pb_depths st) v;
     if dv = depth then do {
       bm \<leftarrow> bm_set_bit_atomic (pb_succ st) (edge_position p g_out_start);
       cv \<leftarrow> rd (pb_counts st) v;
       cu \<leftarrow> rd (pb_counts st) u;
       cs \<leftarrow> wr (pb_counts st) v (db (cv + cu));
       Some (st\<lparr>pb_succ := bm, pb_counts := cs\<rparr>) }
     else Some st })"

definition pb_edge :: "('a::linordered_field \<Rightarrow> 'a) \<Rightarrow> nat \<Rightarrow> int \<Rightarrow> nat \<Rightarrow> nat \<times> nat \<Rightarrow> 'a pbfs \<Rightarrow> 'a pbfs option" where
  "pb_edge db g_out_start depth u pv st = pb_visit depth (snd pv) st \<bind> pb_count db g_out_start depth u pv"

partial_function (option) pb_loop ::
  "('a::linordered_field \<Rightarrow> 'a) \<Rightarrow> nat csr_graph \<Rightarrow> nat \<Rightarrow> int \<Rightarrow> nat list \<Rightarrow> 'a pbfs \<Rightarrow> (nat list \<times> 'a pbfs) option" where
  "pb_loop db g g_out_start depth depth_index st =
     (if sq_empty (snd (pb_queue st)) then Some (depth_index, st)
      else do {
        let depth = depth + 1;
        st \<leftarrow> foldM (\<lambda>u st. do { vs \<leftarrow> out_neigh_refs g u; foldM (pb_edge db g_out_start depth u) vs st })
          (sq_window (snd (pb_queue st))) st;
        (lqueue, queue) \<leftarrow> qb_flush (pb_queue st);
        pb_loop db g g_out_start depth (depth_index @ [sq_begin queue])
          (st\<lparr>pb_queue := (lqueue, sq_slide_window queue)\<rparr>) })"

definition PBFS ::
  "('a::linordered_field \<Rightarrow> 'a) \<Rightarrow> nat csr_graph \<Rightarrow> int \<Rightarrow> 'a list \<Rightarrow> bitmap \<Rightarrow> nat list \<Rightarrow> nat sliding_queue \<Rightarrow>
   ('a list \<times> bitmap \<times> nat list \<times> nat sliding_queue) option" where
  "PBFS db g source path_counts succ depth_index queue = (if source < 0 then None else do {
     dep \<leftarrow> wr (replicate (nat (csr_num_nodes g)) (-1)) (nat source) 0;
     path_counts \<leftarrow> wr path_counts (nat source) 1;
     queue \<leftarrow> sq_push_back queue (nat source);
     let depth_index = depth_index @ [sq_begin queue];
     let queue = sq_slide_window queue;
     (g_out_start, e) \<leftarrow> neighborhood (csr_out_index g) 0 0;
     (depth_index, st) \<leftarrow> pb_loop db g g_out_start 0 depth_index
       \<lparr>pb_depths = dep, pb_counts = path_counts, pb_succ = succ, pb_queue = (qb_new qb_default_size, queue)\<rparr>;
     Some (pb_counts st, pb_succ st, depth_index @ [sq_begin (snd (pb_queue st))], snd (pb_queue st)) })"

section \<open>Edges and their positions\<close>

abbreviation lev :: "nat csr_graph \<Rightarrow> nat \<Rightarrow> nat \<Rightarrow> nat" where
  "lev g s \<equiv> level_of (arcs (nodes g) (adj g)) s"

abbreviation sig :: "nat csr_graph \<Rightarrow> nat \<Rightarrow> nat \<Rightarrow> nat" where
  "sig g s \<equiv> sigma (nodes g) (adj g) s"

definition pos :: "nat csr_graph \<Rightarrow> nat \<Rightarrow> nat \<Rightarrow> nat" where
  \<comment> \<open>the distance of the j-th edge of u from the first edge of vertex 0\<close>
  "pos g u j = csr_out_index g ! u + j - csr_out_index g ! 0"

definition edge_room :: "nat csr_graph \<Rightarrow> bitmap \<Rightarrow> bool" where
  "edge_room g bm \<longleftrightarrow> (\<forall>u < nodes g. \<forall>j < length (adj g u). pos g u j < bm_cap bm)"

definition succ_bits :: "nat csr_graph \<Rightarrow> nat \<Rightarrow> nat set \<Rightarrow> nat set" where
  "succ_bits g s X = {pos g u j | u j. u \<in> X \<and> j < length (adj g u) \<and> lev g s (adj g u ! j) = Suc (lev g s u)}"

lemma graph_rows_below: "graph_ok g \<Longrightarrow> rows_below (nodes g) (adj g)"
  unfolding rows_below_def using gv.neigh_less by blast

lemma index_mono:
  assumes "graph_ok g" "u \<le> v" "v \<le> nodes g"
  shows "csr_out_index g ! u \<le> csr_out_index g ! v"
proof -
  have "sorted (csr_out_index g)" "length (csr_out_index g) = Suc (nodes g)"
    using assms(1) by (simp_all add: graph_ok_def csr_wf_def index_wf_def)
  then show ?thesis using assms(2,3) by (simp add: sorted_nth_mono)
qed

lemma out_index_step: "graph_ok g \<Longrightarrow> u < nodes g \<Longrightarrow> csr_out_index g ! Suc u = csr_out_index g ! u + length (adj g u)"
proof -
  assume ok: "graph_ok g" and u: "u < nodes g"
  note wf = csr_wf_index(1) [OF ok [unfolded graph_ok_def]]
  show ?thesis using index_wf_step(3) [OF wf u] length_row [OF wf u] by (simp add: adj_def)
qed

lemma pos_inject:
  assumes ok: "graph_ok g" and u: "u < nodes g" "j < length (adj g u)" and v: "v < nodes g" "i < length (adj g v)"
    and eq: "pos g u j = pos g v i"
  shows "u = v \<and> j = i"
proof -
  have le: "csr_out_index g ! 0 \<le> csr_out_index g ! u" "csr_out_index g ! 0 \<le> csr_out_index g ! v"
    using index_mono [OF ok] u(1) v(1) by simp_all
  have apart: "csr_out_index g ! a + k < csr_out_index g ! b" if "a < b" "b < nodes g" "k < length (adj g a)" for a b k
    using index_mono [OF ok, of "Suc a" b] out_index_step [OF ok, of a] that by simp
  have "csr_out_index g ! u + j = csr_out_index g ! v + i" using eq le by (simp add: pos_def)
  then show ?thesis using apart [of u v j] apart [of v u i] u v by (cases u v rule: linorder_cases) auto
qed

lemma succ_bits_iff:
  assumes "graph_ok g" "X \<subseteq> {..<nodes g}" "u < nodes g" "j < length (adj g u)"
  shows "pos g u j \<in> succ_bits g s X \<longleftrightarrow> u \<in> X \<and> lev g s (adj g u ! j) = Suc (lev g s u)"
proof
  assume "pos g u j \<in> succ_bits g s X"
  then obtain v i where v: "pos g u j = pos g v i" "v \<in> X" "i < length (adj g v)" "lev g s (adj g v ! i) = Suc (lev g s v)"
    by (auto simp: succ_bits_def)
  have "v < nodes g" using v(2) assms(2) by blast
  from pos_inject [OF assms(1,3,4) this v(3,1)] have "u = v \<and> j = i" .
  then show "u \<in> X \<and> lev g s (adj g u ! j) = Suc (lev g s u)" using v by simp
qed (use assms in \<open>auto simp: succ_bits_def\<close>)

lemma out_neigh_refs_eq:
  assumes ok: "graph_ok g" and u: "u < nodes g"
  shows "out_neigh_refs g u = Some (map (\<lambda>j. (csr_out_index g ! u + j, adj g u ! j)) [0..<length (adj g u)])"
proof -
  have "neighborhood (csr_out_index g) u 0 = Some (csr_out_index g ! u, csr_out_index g ! Suc u)"
    by (rule neighborhood_bounds [OF csr_wf_index(1) [OF ok [unfolded graph_ok_def]] u])
  moreover have "out_neigh g u 0 = Some (adj g u)" using graph_ok_neigh(1) [OF ok u] by simp
  moreover have "zip [csr_out_index g ! u..<csr_out_index g ! Suc u] (adj g u) = map (\<lambda>j. (csr_out_index g ! u + j, adj g u ! j)) [0..<length (adj g u)]"
    using out_index_step [OF ok u] by (intro nth_equalityI) simp_all
  ultimately show ?thesis by (simp add: out_neigh_refs_def out_neigh_def)
qed

lemma edge_position_pos:
  assumes "graph_ok g" "u < nodes g"
  shows "edge_position (csr_out_index g ! u + j) (csr_out_index g ! 0) = of_nat (pos g u j)"
proof -
  have "csr_out_index g ! 0 \<le> csr_out_index g ! u" using index_mono [OF assms(1)] assms(2) by simp
  then have "int (csr_out_index g ! u + j) - int (csr_out_index g ! 0) = int (pos g u j)" by (simp add: pos_def)
  then show ?thesis by (simp add: edge_position_def)
qed

lemma get_edge_bit:
  assumes "graph_ok g" "u < nodes g" "j < length (adj g u)" "edge_room g bm"
  shows "bm_get_bit bm (edge_position (csr_out_index g ! u + j) (csr_out_index g ! 0)) = Some (pos g u j \<in> bm_bits bm)"
  unfolding edge_position_pos [OF assms(1,2)] using bm.get_elems [of "pos g u j" bm] assms by (simp add: edge_room_def get_vertex_bit_def)

lemma set_edge_bit:
  assumes "graph_ok g" "u < nodes g" "j < length (adj g u)" "edge_room g bm"
  shows "\<exists>bm'. bm_set_bit bm (edge_position (csr_out_index g ! u + j) (csr_out_index g ! 0)) = Some bm' \<and>
    bm_bits bm' = insert (pos g u j) (bm_bits bm) \<and> edge_room g bm'"
  unfolding edge_position_pos [OF assms(1,2)] using bm.put_elems [of "pos g u j" bm] assms by (auto simp: edge_room_def set_vertex_bit_def)

section \<open>One level of the search\<close>

text \<open>
  The state within level d: the queue holds the vertices \<open>L\<close> of the levels up to d and then those of the next level
  found so far, among them \<open>V\<close>; the counts are those of \<open>c\<close> and the successors those of \<open>B\<close>.
\<close>

definition pb_inv ::
  "nat csr_graph \<Rightarrow> nat \<Rightarrow> nat \<Rightarrow> nat list \<Rightarrow> nat \<times> nat \<Rightarrow> nat set \<Rightarrow> (nat \<Rightarrow> nat) \<Rightarrow> nat set \<Rightarrow> 'a::linordered_field pbfs \<Rightarrow> bool" where
  "pb_inv g s d L cursors V c B st \<longleftrightarrow>
     (\<exists>R. bq_all (pb_queue st) = L @ R \<and> set R \<subseteq> layer (arcs (nodes g) (adj g)) s (Suc d) \<and> distinct (L @ R) \<and> V \<subseteq> set (L @ R) \<and>
        depths (nodes g) (arcs (nodes g) (adj g)) s (set (L @ R)) (pb_depths st) \<and> nodes g \<le> bq_room (pb_queue st) + length (L @ R)) \<and>
     bq_wf (pb_queue st) \<and> bq_cursors (pb_queue st) = cursors \<and>
     length (pb_counts st) = nodes g \<and> (\<forall>v < nodes g. pb_counts st ! v = of_nat (c v)) \<and>
     bm_bits (pb_succ st) = B \<and> edge_room g (pb_succ st)"

lemma pb_visit_step:
  assumes ok: "graph_ok g" and s: "s < nodes g" and L: "set L = ball (arcs (nodes g) (adj g)) s d"
    and u: "u \<in> layer (arcs (nodes g) (adj g)) s d" and v: "v \<in> set (adj g u)" and I: "pb_inv g s d L cur V c B st"
  shows "returns (pb_visit (int (Suc d)) v st) (pb_inv g s d L cur (insert v V) c B)"
proof -
  let ?E = "arcs (nodes g) (adj g)"
  obtain R where R: "bq_all (pb_queue st) = L @ R" "set R \<subseteq> layer ?E s (Suc d)" "distinct (L @ R)" "V \<subseteq> set (L @ R)"
    "depths (nodes g) ?E s (set (L @ R)) (pb_depths st)" "nodes g \<le> bq_room (pb_queue st) + length (L @ R)"
    using I unfolding pb_inv_def by blast
  have q: "bq_wf (pb_queue st)" "bq_cursors (pb_queue st) = cur"
    and rest: "length (pb_counts st) = nodes g" "\<forall>v < nodes g. pb_counts st ! v = of_nat (c v)" "bm_bits (pb_succ st) = B" "edge_room g (pb_succ st)"
    using I by (simp_all add: pb_inv_def)
  note E = rows_arcs_below [OF graph_rows_below [OF ok]]
  have un: "u < nodes g" using u layer_below [OF E s] by blast
  have vn: "v < nodes g" by (rule rows_belowD [OF graph_rows_below [OF ok] un v])
  have uv: "(u, v) \<in> ?E" using un v by (simp add: arcs_def)
  have len: "length (pb_depths st) = nodes g" and dv: "pb_depths st ! v = (if v \<in> set (L @ R) then int (lev g s v) else -1)"
    using R(5) vn by (simp_all add: depths_def)
  show ?thesis
  proof (cases "v \<in> set (L @ R)")
    case True
    then have "pb_visit (int (Suc d)) v st = Some st" using len dv vn by (simp add: pb_visit_def)
    moreover have "pb_inv g s d L cur (insert v V) c B st" using True R q rest unfolding pb_inv_def by blast
    ultimately show ?thesis by simp
  next
    case False
    then have vl: "v \<in> layer ?E s (Suc d)" using L u uv by (auto simp: layer_Suc)
    have lv: "lev g s v = Suc d" by (rule level_of_layer [OF vl])
    have below: "set (L @ R @ [v]) \<subseteq> {..<nodes g}"
      using L R(2) ball_below [OF E s, of d] layer_below [OF E s, of "Suc d"] vn by auto
    have dist: "distinct (L @ R @ [v])" using R(3) False by auto
    have "length (L @ R @ [v]) \<le> nodes g"
      using card_mono [OF finite_lessThan below] distinct_card [OF dist] by simp
    then have room: "0 < bq_room (pb_queue st)" using R(6) by simp
    obtain q' where q': "qb_push_back (pb_queue st) v = Some q'" "bq_wf q'" "bq_all q' = L @ R @ [v]" "bq_cursors q' = cur"
      "bq_room q' = bq_room (pb_queue st) - 1"
      using aq.push_law [OF q(1) room, of v] R(1) q(2) by auto
    let ?dep = "(pb_depths st)[v := int (Suc d)]"
    have "pb_visit (int (Suc d)) v st = Some (st\<lparr>pb_depths := ?dep, pb_queue := q'\<rparr>)"
      using False len dv vn q'(1) by (simp add: pb_visit_def compare_and_swap_def)
    moreover have "depths (nodes g) ?E s (set (L @ R @ [v])) ?dep"
      using R(5) lv vn by (auto simp: depths_def nth_list_update)
    moreover have "V \<subseteq> set (L @ R @ [v])" using R(4) by auto
    ultimately show ?thesis
      using q' R(2,6) dist vl rest room by (auto simp: pb_inv_def intro!: exI [of _ "R @ [v]"])
  qed
qed

lemma pb_count_step:
  assumes ok: "graph_ok g" and s: "s < nodes g" and L: "set L = ball (arcs (nodes g) (adj g)) s d"
    and u: "u \<in> layer (arcs (nodes g) (adj g)) s d" "c u = sig g s u" and j: "j < length (adj g u)"
    and I: "pb_inv g s d L cur V c B st" and v: "adj g u ! j \<in> V"
  shows "returns (pb_count (\<lambda>x. x) (csr_out_index g ! 0) (int (Suc d)) u (csr_out_index g ! u + j, adj g u ! j) st)
    (pb_inv g s d L cur V (\<lambda>w. c w + (if w = adj g u ! j \<and> lev g s w = Suc d then sig g s u else 0))
      (if lev g s (adj g u ! j) = Suc d then insert (pos g u j) B else B))"
proof -
  let ?E = "arcs (nodes g) (adj g)" and ?v = "adj g u ! j"
  have un: "u < nodes g" using u(1) layer_below [OF rows_arcs_below [OF graph_rows_below [OF ok]] s] by blast
  have vn: "?v < nodes g" by (rule rows_belowD [OF graph_rows_below [OF ok] un nth_mem [OF j]])
  have dv: "length (pb_depths st) = nodes g" "pb_depths st ! ?v = int (lev g s ?v)"
    using I vn v by (auto simp: pb_inv_def depths_def)
  have cs: "length (pb_counts st) = nodes g" "\<forall>v < nodes g. pb_counts st ! v = of_nat (c v)" and b: "bm_bits (pb_succ st) = B" "edge_room g (pb_succ st)"
    using I by (simp_all add: pb_inv_def)
  show ?thesis
  proof (cases "lev g s ?v = Suc d")
    case False
    then have "(\<lambda>w. c w + (if w = ?v \<and> lev g s w = Suc d then sig g s u else 0)) = c" by auto
    then show ?thesis using False I vn dv by (simp add: pb_count_def)
  next
    case True
    obtain bm' where bm': "bm_set_bit (pb_succ st) (edge_position (csr_out_index g ! u + j) (csr_out_index g ! 0)) = Some bm'"
      "bm_bits bm' = insert (pos g u j) B" "edge_room g bm'"
      using set_edge_bit [OF ok un j b(2)] b(1) by blast
    let ?cs = "(pb_counts st)[?v := of_nat (c ?v) + of_nat (c u)]"
    have "pb_count (\<lambda>x. x) (csr_out_index g ! 0) (int (Suc d)) u (csr_out_index g ! u + j, ?v) st = Some (st\<lparr>pb_succ := bm', pb_counts := ?cs\<rparr>)"
      using True vn un dv cs bm'(1) by (simp add: pb_count_def)
    moreover have "?cs ! w = of_nat (c w + (if w = ?v \<and> lev g s w = Suc d then sig g s u else 0))" if "w < nodes g" for w
      using that True cs vn u(2) by (auto simp: nth_list_update)
    ultimately show ?thesis using True I bm' cs(1) by (simp add: pb_inv_def)
  qed
qed

lemma pb_row_step:
  assumes ok: "graph_ok g" and s: "s < nodes g" and L: "set L = ball (arcs (nodes g) (adj g)) s d"
    and X: "finite X" "u \<notin> X" and u: "u \<in> layer (arcs (nodes g) (adj g)) s d" "counted (nodes g) (adj g) s X u = sig g s u"
    and I: "pb_inv g s d L cur V (counted (nodes g) (adj g) s X) (succ_bits g s X) st"
  shows "returns (do { vs \<leftarrow> out_neigh_refs g u; foldM (pb_edge (\<lambda>x. x) (csr_out_index g ! 0) (int (Suc d)) u) vs st })
    (pb_inv g s d L cur (V \<union> set (adj g u)) (counted (nodes g) (adj g) s (insert u X)) (succ_bits g s (insert u X)))"
proof -
  have un: "u < nodes g" using u(1) layer_below [OF rows_arcs_below [OF graph_rows_below [OF ok]] s] by blast
  have lu: "lev g s u = d" by (rule level_of_layer [OF u(1)])
  let ?m = "length (adj g u)" and ?c = "counted (nodes g) (adj g) s X"
  let ?C = "\<lambda>j w. ?c w + (if lev g s w = Suc d then sig g s u * count_list (take j (adj g u)) w else 0)"
  let ?B = "\<lambda>j. succ_bits g s X \<union> {pos g u i | i. i < j \<and> lev g s (adj g u ! i) = Suc d}"
  have "returns (foldM (\<lambda>j. pb_edge (\<lambda>x. x) (csr_out_index g ! 0) (int (Suc d)) u (csr_out_index g ! u + j, adj g u ! j)) [0..<?m] st)
    (pb_inv g s d L cur (V \<union> set (adj g u)) (counted (nodes g) (adj g) s (insert u X)) (succ_bits g s (insert u X)))"
  proof (rule foldM_upt_rule [where I = "\<lambda>j. pb_inv g s d L cur (V \<union> set (take j (adj g u))) (?C j) (?B j)"])
    show "pb_inv g s d L cur (V \<union> set (take 0 (adj g u))) (?C 0) (?B 0) st"
    proof -
      have "?C 0 = ?c" by (rule ext) simp
      then show ?thesis using I by simp
    qed
  next
    fix j st
    assume j: "j < ?m" and I: "pb_inv g s d L cur (V \<union> set (take j (adj g u))) (?C j) (?B j) st"
    let ?v = "adj g u ! j"
    obtain st1 where st1: "pb_visit (int (Suc d)) ?v st = Some st1"
      "pb_inv g s d L cur (insert ?v (V \<union> set (take j (adj g u)))) (?C j) (?B j) st1"
      using returns_ex [OF pb_visit_step [OF ok s L u(1) nth_mem [OF j] I]] by blast
    have V: "insert ?v (V \<union> set (take j (adj g u))) = V \<union> set (take (Suc j) (adj g u))"
      using j by (simp add: take_Suc_conv_app_nth)
    have C: "(\<lambda>w. ?C j w + (if w = ?v \<and> lev g s w = Suc d then sig g s u else 0)) = ?C (Suc j)"
      using j by (auto simp: take_Suc_conv_app_nth algebra_simps)
    have B: "(if lev g s ?v = Suc d then insert (pos g u j) (?B j) else ?B j) = ?B (Suc j)"
      by (auto simp: less_Suc_eq)
    have "returns (pb_count (\<lambda>x. x) (csr_out_index g ! 0) (int (Suc d)) u (csr_out_index g ! u + j, ?v) st1)
      (pb_inv g s d L cur (V \<union> set (take (Suc j) (adj g u))) (?C (Suc j)) (?B (Suc j)))"
      unfolding V [symmetric] C [symmetric] B [symmetric]
      by (rule pb_count_step [OF ok s L u(1) _ j st1(2)]) (simp_all add: u(2) lu)
    then show "returns (pb_edge (\<lambda>x. x) (csr_out_index g ! 0) (int (Suc d)) u (csr_out_index g ! u + j, ?v) st)
      (pb_inv g s d L cur (V \<union> set (take (Suc j) (adj g u))) (?C (Suc j)) (?B (Suc j)))"
      unfolding pb_edge_def snd_conv st1(1) Option.bind.simps .
  next
    fix st
    assume I: "pb_inv g s d L cur (V \<union> set (take ?m (adj g u))) (?C ?m) (?B ?m) st"
    have "?C ?m = counted (nodes g) (adj g) s (insert u X)"
      using X lu by (auto simp: counted_def)
    moreover have "?B ?m = succ_bits g s (insert u X)" unfolding succ_bits_def lu [symmetric] by blast
    ultimately show "pb_inv g s d L cur (V \<union> set (adj g u)) (counted (nodes g) (adj g) s (insert u X)) (succ_bits g s (insert u X)) st"
      using I by simp
  qed
  then show ?thesis by (simp add: out_neigh_refs_eq [OF ok un] foldM_map)
qed

definition handled :: "nat list list \<Rightarrow> nat \<Rightarrow> nat set" where
  "handled Ls d = set (concat (take d Ls))"

definition level_starts :: "nat list list \<Rightarrow> nat \<Rightarrow> nat list" where
  "level_starts Ls d = map (\<lambda>i. length (concat (take i Ls))) [0..<d]"

definition levels_of :: "nat csr_graph \<Rightarrow> nat \<Rightarrow> nat \<Rightarrow> nat list list \<Rightarrow> bool" where
  "levels_of g s d Ls \<longleftrightarrow> length Ls = Suc d \<and> distinct (concat Ls) \<and> (\<forall>i \<le> d. set (Ls ! i) = layer (arcs (nodes g) (adj g)) s i)"

lemma levels_sets:
  assumes "levels_of g s d Ls"
  shows "set (concat Ls) = ball (arcs (nodes g) (adj g)) s d" "x \<in> handled Ls d \<longleftrightarrow> (\<exists>i < d. x \<in> layer (arcs (nodes g) (adj g)) s i)"
    "concat Ls = concat (take d Ls) @ Ls ! d"
proof -
  let ?E = "arcs (nodes g) (adj g)"
  have l: "length Ls = Suc d" and L: "set (Ls ! i) = layer ?E s i" if "i \<le> d" for i using assms that by (simp_all add: levels_of_def)
  show "concat Ls = concat (take d Ls) @ Ls ! d"
    using l [of 0] by (metis append.right_neutral concat.simps concat_append lessI take_Suc_conv_app_nth take_all_iff le_refl zero_le)
  show "set (concat Ls) = ball ?E s d"
  proof (intro equalityI subsetI)
    fix x assume "x \<in> set (concat Ls)"
    then obtain i where "i \<le> d" "x \<in> set (Ls ! i)" using l [of 0] by (auto simp: in_set_conv_nth [of _ Ls] less_Suc_eq_le)
    then show "x \<in> ball ?E s d" using L [of i] layer_subset ball_mono [of i d ?E s] by blast
  next
    fix x assume "x \<in> ball ?E s d"
    then obtain i where i: "i \<le> d" "x \<in> layer ?E s i" using layer_cases by blast
    then have "Ls ! i \<in> set Ls" "x \<in> set (Ls ! i)" using l [of 0] L [of i] by auto
    then show "x \<in> set (concat Ls)" by auto
  qed
  show "x \<in> handled Ls d \<longleftrightarrow> (\<exists>i < d. x \<in> layer ?E s i)"
  proof
    assume "x \<in> handled Ls d"
    then obtain i where "i < d" "x \<in> set (Ls ! i)"
      using l [of 0] by (auto simp: handled_def in_set_conv_nth [of _ "take d Ls"])
    then show "\<exists>i < d. x \<in> layer ?E s i" using L [of i] by auto
  next
    assume "\<exists>i < d. x \<in> layer ?E s i"
    then obtain i where i: "i < d" "x \<in> set (Ls ! i)" using L by auto
    then have "Ls ! i \<in> set (take d Ls)" using l [of 0] by (auto simp: in_set_conv_nth)
    then show "x \<in> handled Ls d" using i(2) by (auto simp: handled_def)
  qed
qed

text \<open>At the head of the loop the window is level d, and the levels before it have handed on their counts.\<close>

definition pb_head :: "nat csr_graph \<Rightarrow> nat \<Rightarrow> nat \<Rightarrow> nat list list \<Rightarrow> nat list \<Rightarrow> 'a::linordered_field pbfs \<Rightarrow> bool" where
  "pb_head g s d Ls depth_index st \<longleftrightarrow> levels_of g s d Ls \<and>
     bq_all (pb_queue st) = concat Ls \<and> qb_in (fst (pb_queue st)) = 0 \<and>
     depth_index = 0 # level_starts Ls d \<and>
     pb_inv g s d (concat Ls) (length (concat (take d Ls)), length (concat Ls)) {}
       (counted (nodes g) (adj g) s (handled Ls d)) (succ_bits g s (handled Ls d)) st"

lemma window_all:
  assumes "bq_wf (qb, q)" "qb_in qb = 0" "bq_cursors (qb, q) = (a, b)"
  shows "sq_window q = drop a (take b (bq_all (qb, q)))" "sq_empty q \<longleftrightarrow> a = b" "sq_begin q = a"
  using assms
  by (auto simp: bq_wf_def sq_wf_def bq_cursors_def sq_window_def segment_def drop_take bq_all_def sq_all_def sq_empty_def sq_begin_def sq_end_def min_def)

lemma level_window:
  assumes "pb_head g s d Ls depth_index st"
  shows "sq_window (snd (pb_queue st)) = Ls ! d" "sq_empty (snd (pb_queue st)) \<longleftrightarrow> Ls ! d = []"
proof -
  obtain qb q where q: "pb_queue st = (qb, q)" by (cases "pb_queue st")
  have w: "bq_wf (qb, q)" "qb_in qb = 0" "bq_cursors (qb, q) = (length (concat (take d Ls)), length (concat Ls))" "bq_all (qb, q) = concat Ls"
    using assms by (auto simp: pb_head_def pb_inv_def q)
  have "levels_of g s d Ls" using assms by (simp add: pb_head_def)
  note c = levels_sets(3) [OF this]
  show "sq_window (snd (pb_queue st)) = Ls ! d"
    unfolding q snd_conv window_all(1) [OF w(1-3)] w(4) take_all [OF order_refl] by (subst c) simp
  show "sq_empty (snd (pb_queue st)) \<longleftrightarrow> Ls ! d = []"
    unfolding q snd_conv window_all(2) [OF w(1-3)] using arg_cong [OF c, of length] by (simp del: length_concat)
qed

lemma pb_level_step:
  assumes ok: "graph_ok g" and s: "s < nodes g" and h: "pb_head g s d Ls depth_index st"
  shows "returns (foldM (\<lambda>u st. do { vs \<leftarrow> out_neigh_refs g u; foldM (pb_edge (\<lambda>x. x) (csr_out_index g ! 0) (int (Suc d)) u) vs st }) (Ls ! d) st)
    (pb_inv g s d (concat Ls) (length (concat (take d Ls)), length (concat Ls)) (arcs (nodes g) (adj g) `` layer (arcs (nodes g) (adj g)) s d)
       (counted (nodes g) (adj g) s (set (concat Ls))) (succ_bits g s (set (concat Ls))))"
proof -
  let ?E = "arcs (nodes g) (adj g)" and ?W = "Ls ! d" and ?cur = "(length (concat (take d Ls)), length (concat Ls))"
  let ?X = "\<lambda>i. handled Ls d \<union> set (take i ?W)" and ?V = "\<lambda>i. (\<Union>u \<in> set (take i ?W). set (adj g u))"
  have lv: "levels_of g s d Ls" and I0: "pb_inv g s d (concat Ls) ?cur {} (counted (nodes g) (adj g) s (handled Ls d)) (succ_bits g s (handled Ls d)) st"
    using h by (simp_all add: pb_head_def)
  note sets = levels_sets [OF lv]
  have W: "set ?W = layer ?E s d" using lv by (simp add: levels_of_def)
  have dist: "distinct (concat (take d Ls) @ ?W)" using lv by (simp only: levels_of_def sets(3) [symmetric])
  note E = rows_arcs_below [OF graph_rows_below [OF ok]]
  show ?thesis
  proof (rule foldM_rule [where I = "\<lambda>i. pb_inv g s d (concat Ls) ?cur (?V i) (counted (nodes g) (adj g) s (?X i)) (succ_bits g s (?X i))"])
    show "pb_inv g s d (concat Ls) ?cur (?V 0) (counted (nodes g) (adj g) s (?X 0)) (succ_bits g s (?X 0)) st" using I0 by simp
  next
    fix i st
    assume i: "i < length ?W" and I: "pb_inv g s d (concat Ls) ?cur (?V i) (counted (nodes g) (adj g) s (?X i)) (succ_bits g s (?X i)) st"
    let ?u = "?W ! i"
    have u: "?u \<in> layer ?E s d" using W nth_mem [OF i] by simp
    have fresh: "?u \<notin> ?X i" using dist i by (auto simp: handled_def in_set_conv_nth [of _ "take i ?W"] nth_eq_iff_index_eq)
    have reach: "?X i \<subseteq> ?E\<^sup>* `` {s}"
    proof
      fix x assume "x \<in> ?X i"
      then have "\<exists>j. x \<in> layer ?E s j" using sets(2) [of x] W in_set_takeD [of x i ?W] by blast
      then show "x \<in> ?E\<^sup>* `` {s}" using reach_layer by blast
    qed
    have "d = 0 \<or> layer ?E s (d - 1) \<subseteq> ?X i" using sets(2) by (cases d) auto
    from counted_settled [OF graph_rows_below [OF ok] s reach u this]
    have cu: "counted (nodes g) (adj g) s (?X i) ?u = sig g s ?u" .
    have fin: "finite (?X i)" by (simp add: handled_def)
    have X: "insert ?u (?X i) = ?X (Suc i)" and V: "?V i \<union> set (adj g ?u) = ?V (Suc i)"
      using i by (auto simp: take_Suc_conv_app_nth)
    show "returns (do { vs \<leftarrow> out_neigh_refs g ?u; foldM (pb_edge (\<lambda>x. x) (csr_out_index g ! 0) (int (Suc d)) ?u) vs st })
        (pb_inv g s d (concat Ls) ?cur (?V (Suc i)) (counted (nodes g) (adj g) s (?X (Suc i))) (succ_bits g s (?X (Suc i))))"
      using pb_row_step [OF ok s sets(1) fin fresh u cu I] unfolding X V .
  next
    fix st
    assume I: "pb_inv g s d (concat Ls) ?cur (?V (length ?W)) (counted (nodes g) (adj g) s (?X (length ?W))) (succ_bits g s (?X (length ?W))) st"
    have "?V (length ?W) = ?E `` layer ?E s d"
      using W layer_below [OF E s, of d] by (auto simp: arcs_def)
    moreover have "?X (length ?W) = set (concat Ls)" by (subst sets(3)) (auto simp: handled_def)
    ultimately show "pb_inv g s d (concat Ls) ?cur (?E `` layer ?E s d) (counted (nodes g) (adj g) s (set (concat Ls))) (succ_bits g s (set (concat Ls))) st"
      using I by simp
  qed
qed

lemma slide_all:
  assumes "bq_wf (qb, q)" "qb_in qb = 0"
  shows "bq_wf (qb, sq_slide_window q)" "bq_all (qb, sq_slide_window q) = bq_all (qb, q)" "bq_room (qb, sq_slide_window q) = bq_room (qb, q)"
    "bq_cursors (qb, sq_slide_window q) = (snd (bq_cursors (qb, q)), length (bq_all (qb, q)))"
  using assms
  by (auto simp: bq_wf_def sq_wf_def sq_slide_window_def bq_all_def sq_all_def bq_room_def sq_room_def bq_cursors_def sq_begin_def sq_end_def)

lemma pb_next_level:
  assumes ok: "graph_ok g" and s: "s < nodes g" and lv: "levels_of g s d Ls"
    and I: "pb_inv g s d (concat Ls) (length (concat (take d Ls)), length (concat Ls)) (arcs (nodes g) (adj g) `` layer (arcs (nodes g) (adj g)) s d)
       (counted (nodes g) (adj g) s (set (concat Ls))) (succ_bits g s (set (concat Ls))) st"
  shows "\<exists>lq q R. qb_flush (pb_queue st) = Some (lq, q) \<and>
    pb_head g s (Suc d) (Ls @ [R]) (0 # level_starts Ls d @ [sq_begin q]) (st\<lparr>pb_queue := (lq, sq_slide_window q)\<rparr>)"
proof -
  let ?E = "arcs (nodes g) (adj g)" and ?cur = "(length (concat (take d Ls)), length (concat Ls))"
  note sets = levels_sets [OF lv]
  obtain R where R: "bq_all (pb_queue st) = concat Ls @ R" "set R \<subseteq> layer ?E s (Suc d)" "distinct (concat Ls @ R)"
    "?E `` layer ?E s d \<subseteq> set (concat Ls @ R)" "depths (nodes g) ?E s (set (concat Ls @ R)) (pb_depths st)"
    "nodes g \<le> bq_room (pb_queue st) + length (concat Ls @ R)"
    using I unfolding pb_inv_def by blast
  have wf: "bq_wf (pb_queue st)" "bq_cursors (pb_queue st) = ?cur" using I by (simp_all add: pb_inv_def)
  obtain lq q where f: "qb_flush (pb_queue st) = Some (lq, q)" "bq_wf (lq, q)" "bq_all (lq, q) = concat Ls @ R"
    "bq_cursors (lq, q) = ?cur" "bq_room (lq, q) = bq_room (pb_queue st)"
    using aq.flush_law [OF wf(1)] R(1) wf(2) by auto
  have zero: "qb_in lq = 0" using qb_flush_all(3) [of "fst (pb_queue st)" "snd (pb_queue st)" "(lq, q)"] f(1) wf(1) by simp
  note sl = slide_all [OF f(2) zero, unfolded f(3,4) snd_conv]
  have layer: "set R = layer ?E s (Suc d)"
  proof
    have "layer ?E s (Suc d) \<subseteq> set (concat Ls @ R) - set (concat Ls)" using R(4) sets(1) by (auto simp: layer_Suc)
    then show "layer ?E s (Suc d) \<subseteq> set R" by auto
  qed (rule R(2))
  have lv': "levels_of g s (Suc d) (Ls @ [R])"
    using lv R(3) layer by (auto simp: levels_of_def nth_append le_Suc_eq simp del: distinct_concat_iff)
  have len: "length Ls = Suc d" using lv by (simp add: levels_of_def)
  have "handled (Ls @ [R]) (Suc d) = set (concat Ls)" using len by (simp add: handled_def)
  moreover have "0 # level_starts (Ls @ [R]) (Suc d) = 0 # level_starts Ls d @ [sq_begin q]"
  proof -
    have "sq_begin q = length (concat (take d Ls))" using f(4) by (simp add: bq_cursors_def)
    moreover have "level_starts (Ls @ [R]) d = level_starts Ls d" using len by (auto simp: level_starts_def)
    ultimately show ?thesis using len by (simp add: level_starts_def)
  qed
  moreover have "pb_inv g s (Suc d) (concat (Ls @ [R])) (length (concat (take (Suc d) (Ls @ [R]))), length (concat (Ls @ [R]))) {}
      (counted (nodes g) (adj g) s (set (concat Ls))) (succ_bits g s (set (concat Ls))) (st\<lparr>pb_queue := (lq, sq_slide_window q)\<rparr>)"
    using I R(3,5,6) sl f(5) len unfolding pb_inv_def by (auto intro!: exI [of _ "[]"] simp del: distinct_concat_iff)
  ultimately show ?thesis
    using f(1) lv' sl zero by (auto simp: pb_head_def intro!: exI [of _ lq] exI [of _ q] exI [of _ R])
qed

lemma pb_loop_returns:
  assumes ok: "graph_ok g" and s: "s < nodes g" and h: "pb_head g s d Ls depth_index st"
  shows "returns (pb_loop (\<lambda>x. x) g (csr_out_index g ! 0) (int d) depth_index st)
    (\<lambda>(depth_index, st). \<exists>d Ls. pb_head g s d Ls depth_index st \<and> layer (arcs (nodes g) (adj g)) s d = {})"
  using h
proof (induction "search_left (nodes g) (arcs (nodes g) (adj g)) s d" arbitrary: d Ls depth_index st rule: less_induct)
  case less
  let ?E = "arcs (nodes g) (adj g)"
  have lv: "levels_of g s d Ls" and dx: "depth_index = 0 # level_starts Ls d" using less.prems by (simp_all add: pb_head_def)
  have W: "set (Ls ! d) = layer ?E s d" using lv by (simp add: levels_of_def)
  note win = level_window [OF less.prems]
  show ?case
  proof (cases "Ls ! d = []")
    case True
    then have "layer ?E s d = {}" using W by simp
    then show ?thesis using True win(2) less.prems by (subst pb_loop.simps) auto
  next
    case False
    then have ne: "layer ?E s d \<noteq> {}" using W by auto
    obtain st1 where st1: "foldM (\<lambda>u st. do { vs \<leftarrow> out_neigh_refs g u; foldM (pb_edge (\<lambda>x. x) (csr_out_index g ! 0) (int (Suc d)) u) vs st }) (Ls ! d) st = Some st1"
      "pb_inv g s d (concat Ls) (length (concat (take d Ls)), length (concat Ls)) (?E `` layer ?E s d)
        (counted (nodes g) (adj g) s (set (concat Ls))) (succ_bits g s (set (concat Ls))) st1"
      using returns_ex [OF pb_level_step [OF ok s less.prems]] by blast
    obtain lq q R where f: "qb_flush (pb_queue st1) = Some (lq, q)"
      "pb_head g s (Suc d) (Ls @ [R]) (0 # level_starts Ls d @ [sq_begin q]) (st1\<lparr>pb_queue := (lq, sq_slide_window q)\<rparr>)"
      using pb_next_level [OF ok s lv st1(2)] by blast
    have d: "int d + 1 = int (Suc d)" by simp
    have less_left: "search_left (nodes g) ?E s (Suc d) < search_left (nodes g) ?E s d"
      by (rule search_left_less [OF rows_arcs_below [OF graph_rows_below [OF ok]] s lessI ne])
    have unroll: "pb_loop (\<lambda>x. x) g (csr_out_index g ! 0) (int d) depth_index st
        = pb_loop (\<lambda>x. x) g (csr_out_index g ! 0) (int (Suc d)) (0 # level_starts Ls d @ [sq_begin q]) (st1\<lparr>pb_queue := (lq, sq_slide_window q)\<rparr>)"
      by (subst pb_loop.simps) (simp only: win False st1(1) f(1) dx Let_def d Option.bind.simps if_False prod.case append.simps)
    show ?thesis unfolding unroll by (rule less.hyps [OF less_left f(2)])
  qed
qed

section \<open>The result of the search\<close>

definition pbfs_result :: "nat csr_graph \<Rightarrow> nat \<Rightarrow> 'a::linordered_field list \<Rightarrow> bitmap \<Rightarrow> nat list \<Rightarrow> nat sliding_queue \<Rightarrow> bool" where
  \<comment> \<open>the counts, the successors and the queue with the starts of its levels; the last level is empty\<close>
  "pbfs_result g s path_counts succ depth_index queue \<longleftrightarrow>
     length path_counts = nodes g \<and> (\<forall>v < nodes g. (s, v) \<in> (arcs (nodes g) (adj g))\<^sup>* \<longrightarrow> path_counts ! v = of_nat (sig g s v)) \<and>
     bm_bits succ = succ_bits g s ((arcs (nodes g) (adj g))\<^sup>* `` {s}) \<and> edge_room g succ \<and> nodes g \<le> length (sq_shared queue) \<and>
     (\<exists>d Ls. levels_of g s d Ls \<and> layer (arcs (nodes g) (adj g)) s d = {} \<and> sq_all queue = concat Ls \<and>
        depth_index = 0 # level_starts Ls (Suc d))"

lemma reach_handled:
  assumes lv: "levels_of g s d Ls" and e: "layer (arcs (nodes g) (adj g)) s d = {}"
  shows "handled Ls d = (arcs (nodes g) (adj g))\<^sup>* `` {s}"
proof -
  let ?E = "arcs (nodes g) (adj g)"
  have "x \<in> handled Ls d \<longleftrightarrow> x \<in> ball ?E s d" for x
  proof
    assume "x \<in> handled Ls d"
    then obtain i where "i < d" "x \<in> layer ?E s i" using levels_sets(2) [OF lv] by blast
    then show "x \<in> ball ?E s d" using layer_subset ball_mono [of i d ?E s] by fastforce
  next
    assume "x \<in> ball ?E s d"
    then obtain i where i: "i \<le> d" "x \<in> layer ?E s i" using layer_cases by blast
    then have "i \<noteq> d" using e by auto
    then show "x \<in> handled Ls d" using i levels_sets(2) [OF lv, of x] by auto
  qed
  then show ?thesis using empty_layer_closed [OF e] by blast
qed

lemma pbfs_head_result:
  assumes ok: "graph_ok g" and s: "s < nodes g" and h: "pb_head g s d Ls depth_index st" and e: "layer (arcs (nodes g) (adj g)) s d = {}"
  shows "pbfs_result g s (pb_counts st) (pb_succ st) (depth_index @ [sq_begin (snd (pb_queue st))]) (snd (pb_queue st))"
proof -
  let ?E = "arcs (nodes g) (adj g)"
  obtain qb q where q: "pb_queue st = (qb, q)" by (cases "pb_queue st")
  have lv: "levels_of g s d Ls" and I: "pb_inv g s d (concat Ls) (length (concat (take d Ls)), length (concat Ls)) {}
      (counted (nodes g) (adj g) s (handled Ls d)) (succ_bits g s (handled Ls d)) st"
    and dx: "depth_index = 0 # level_starts Ls d" and all: "bq_all (qb, q) = concat Ls" "qb_in qb = 0"
    using h by (simp_all add: pb_head_def q)
  have wf: "bq_wf (qb, q)" "nodes g \<le> bq_room (qb, q) + length (concat Ls)" "bq_cursors (qb, q) = (length (concat (take d Ls)), length (concat Ls))"
    using I all by (auto simp: pb_inv_def q)
  have shared: "sq_all q = concat Ls" "nodes g \<le> length (sq_shared q)"
    using all wf(1,2) by (auto simp: bq_all_def bq_wf_def bq_room_def sq_room_def sq_all_def dest: arg_cong [where f = length])
  have "sq_begin q = length (concat (take d Ls))" using wf(3) by (simp add: bq_cursors_def)
  then have dx': "depth_index @ [sq_begin q] = 0 # level_starts Ls (Suc d)" by (simp add: dx level_starts_def)
  have reach: "handled Ls d = ?E\<^sup>* `` {s}" by (rule reach_handled [OF lv e])
  have "counted (nodes g) (adj g) s (handled Ls d) v = sig g s v" if v: "(s, v) \<in> ?E\<^sup>*" for v
  proof -
    obtain k where k: "k < d" "v \<in> layer ?E s k" using v reach levels_sets(2) [OF lv, of v] by blast
    then have "k = 0 \<or> layer ?E s (k - 1) \<subseteq> handled Ls d" using levels_sets(2) [OF lv] less_imp_diff_less by blast
    then show ?thesis using reach by (intro counted_settled [OF graph_rows_below [OF ok] s _ k(2)]) simp_all
  qed
  then show ?thesis
    unfolding pbfs_result_def q snd_conv dx' using I lv e shared by (auto simp: pb_inv_def reach)
qed

lemma PBFS_returns:
  assumes ok: "graph_ok g" and s: "s < nodes g"
    and pc: "length path_counts = nodes g" "\<forall>v < nodes g. path_counts ! v = (0 :: 'a::linordered_field)"
    and bm: "bm_bits succ = {}" "edge_room g succ" and q: "nodes g \<le> length (sq_shared queue)"
  shows "returns (PBFS (\<lambda>x. x) g (int s) path_counts succ [] (sq_reset queue))
    (\<lambda>(path_counts, succ, depth_index, queue). pbfs_result g s path_counts succ depth_index queue)"
proof -
  let ?E = "arcs (nodes g) (adj g)"
  let ?q = "(sq_reset queue)\<lparr>sq_shared_in := Suc 0, sq_shared := (sq_shared queue)[0 := s]\<rparr>"
  let ?st = "\<lparr>pb_depths = (replicate (nodes g) (-1))[s := 0], pb_counts = path_counts[s := 1], pb_succ = succ,
     pb_queue = (qb_new qb_default_size, sq_slide_window ?q)\<rparr>"
  have n: "0 < length (sq_shared queue)" using s q by linarith
  have push: "sq_push_back (sq_reset queue) s = Some ?q"
    using n by (simp add: sq_push_back_def sq_reset_def)
  have nb: "neighborhood (csr_out_index g) 0 0 = Some (csr_out_index g ! 0, csr_out_index g ! Suc 0)"
    by (rule neighborhood_bounds [OF csr_wf_index(1) [OF ok [unfolded graph_ok_def]]]) (use s in simp)
  have all: "bq_all (pb_queue ?st) = [s]" "bq_wf (pb_queue ?st)" "bq_cursors (pb_queue ?st) = (0, 1)" "nodes g \<le> bq_room (pb_queue ?st) + 1"
    using n q Suc_leI [OF n] by (auto simp: bq_all_def sq_all_def bq_wf_def sq_wf_def bq_cursors_def bq_room_def sq_room_def qb_new_def qb_default_size_def
      sq_slide_window_def sq_reset_def sq_begin_def sq_end_def take_Suc hd_conv_nth)
  have dep: "depths (nodes g) ?E s {s} ((replicate (nodes g) (-1))[s := 0])"
    using s by (auto simp: depths_def nth_list_update)
  have cnt: "path_counts[s := 1] ! v = of_nat (counted (nodes g) (adj g) s {} v)" if "v < nodes g" for v
    using that pc s by (simp add: nth_list_update)
  have "pb_head g s 0 [[s]] [0] ?st"
    using all dep cnt pc bm unfolding pb_head_def pb_inv_def
    by (auto simp: levels_of_def level_starts_def handled_def succ_bits_def qb_new_def)
  from returns_ex [OF pb_loop_returns [OF ok s this]]
  obtain dx st d Ls where l: "pb_loop (\<lambda>x. x) g (csr_out_index g ! 0) (int 0) [0] ?st = Some (dx, st)"
    "pb_head g s d Ls dx st" "layer ?E s d = {}" by auto
  have beg: "sq_begin ?q = 0" by (simp add: sq_begin_def sq_reset_def)
  have "PBFS (\<lambda>x. x) g (int s) path_counts succ [] (sq_reset queue)
      = Some (pb_counts st, pb_succ st, dx @ [sq_begin (snd (pb_queue st))], snd (pb_queue st))"
    using l(1) pc s nb by (simp add: PBFS_def push beg nodes_def [symmetric])
  then show ?thesis using pbfs_head_result [OF ok s l(2,3)] by simp
qed

end
