(* ===== verification/Brandes.thy ===== *)
theory Brandes
  imports Complex_Main ParallelBFS Bench
begin

text \<open>
  The betweenness kernel of src/bc.cc: the propagation of the dependencies from the farthest level back to the
  source, the loop over the sources and the normalisation.  As in theory PageRank the roundings are arguments, \<open>fl\<close>
  for \<^verbatim>\<open>ScoreT\<close> and \<open>db\<close> for \<^verbatim>\<open>CountT\<close>.  A quotient by 0, a NaN or an infinity on the machine, is not a number of
  the field and has no result here.
\<close>

section \<open>The kernel\<close>

definition fdiv :: "'a::linordered_field \<Rightarrow> 'a \<Rightarrow> 'a option" where
  "fdiv a b = (if b = 0 then None else Some (a / b))"

definition back_edge ::
  "('a::linordered_field \<Rightarrow> 'a) \<Rightarrow> ('a \<Rightarrow> 'a) \<Rightarrow> nat \<Rightarrow> 'a list \<Rightarrow> bitmap \<Rightarrow> 'a list \<Rightarrow> nat \<Rightarrow> nat \<times> nat \<Rightarrow> 'a \<Rightarrow> 'a option" where
  \<comment> \<open>the quotient, the product and the sum are computed in \<^verbatim>\<open>double\<close>\<close>
  "back_edge fl db g_out_start path_counts succ deltas u pv delta_u = (case pv of (p, v) \<Rightarrow> do {
     b \<leftarrow> bm_get_bit succ (edge_position p g_out_start);
     if b then do {
       cu \<leftarrow> rd path_counts u;
       cv \<leftarrow> rd path_counts v;
       q \<leftarrow> fdiv cu cv;
       dv \<leftarrow> rd deltas v;
       Some (fl (db (delta_u + db (db q * fl (1 + dv))))) }
     else Some delta_u })"

definition back_vertex ::
  "('a::linordered_field \<Rightarrow> 'a) \<Rightarrow> ('a \<Rightarrow> 'a) \<Rightarrow> nat csr_graph \<Rightarrow> nat \<Rightarrow> 'a list \<Rightarrow> bitmap \<Rightarrow> nat \<Rightarrow> 'a list \<times> 'a list \<Rightarrow> ('a list \<times> 'a list) option" where
  "back_vertex fl db g g_out_start path_counts succ u s = (case s of (deltas, scores) \<Rightarrow> do {
     vs \<leftarrow> out_neigh_refs g u;
     delta_u \<leftarrow> foldM (back_edge fl db g_out_start path_counts succ deltas u) vs 0;
     deltas \<leftarrow> wr deltas u delta_u;
     score \<leftarrow> rd scores u;
     scores \<leftarrow> wr scores u (fl (score + delta_u));
     Some (deltas, scores) })"

definition back_propagate ::
  "('a::linordered_field \<Rightarrow> 'a) \<Rightarrow> ('a \<Rightarrow> 'a) \<Rightarrow> nat csr_graph \<Rightarrow> nat \<Rightarrow> 'a list \<Rightarrow> bitmap \<Rightarrow> nat list \<Rightarrow> nat sliding_queue \<Rightarrow> 'a list \<Rightarrow> 'a list option" where
  "back_propagate fl db g g_out_start path_counts succ depth_index queue scores = do {
     (deltas, scores) \<leftarrow> foldM (\<lambda>d s. do {
         b \<leftarrow> rd depth_index d;
         e \<leftarrow> rd depth_index (d + 1);
         foldM (\<lambda>it s. do { u \<leftarrow> rd (sq_shared queue) it; back_vertex fl db g g_out_start path_counts succ u s }) [b..<e] s })
       (rev [0..<length depth_index - 1]) (replicate (nat (csr_num_nodes g)) 0, scores);
     Some scores }"

definition bc_iteration ::
  "('a::linordered_field \<Rightarrow> 'a) \<Rightarrow> ('a \<Rightarrow> 'a) \<Rightarrow> nat csr_graph \<Rightarrow> (nat \<Rightarrow> nat) \<Rightarrow> nat \<Rightarrow>
   'a list \<times> 'a list \<times> bitmap \<times> nat sliding_queue \<times> source_picker \<Rightarrow>
   ('a list \<times> 'a list \<times> bitmap \<times> nat sliding_queue \<times> source_picker) option" where
  "bc_iteration fl db g draws g_out_start st = (case st of (scores, path_counts, succ, queue, sp) \<Rightarrow> do {
     (source, sp) \<leftarrow> PickNext g draws sp;
     (path_counts, succ, depth_index, queue) \<leftarrow>
       PBFS db g source (map (\<lambda>_. 0) path_counts) (bm_reset succ) [] (sq_reset queue);
     scores \<leftarrow> back_propagate fl db g g_out_start path_counts succ depth_index queue scores;
     Some (scores, path_counts, succ, queue, sp) })"

definition normalise :: "('a::linordered_field \<Rightarrow> 'a) \<Rightarrow> nat csr_graph \<Rightarrow> 'a \<Rightarrow> 'a list \<Rightarrow> 'a list option" where
  "normalise fl g biggest_score scores = foldM (\<lambda>n scores. do {
     s \<leftarrow> rd scores n; q \<leftarrow> fdiv s biggest_score; wr scores n (fl q) }) (vertices g) scores"

definition Brandes ::
  "('a::linordered_field \<Rightarrow> 'a) \<Rightarrow> ('a \<Rightarrow> 'a) \<Rightarrow> nat csr_graph \<Rightarrow> (nat \<Rightarrow> nat) \<Rightarrow> source_picker \<Rightarrow> int \<Rightarrow> ('a list \<times> source_picker) option" where
  "Brandes fl db g draws sp num_iters = do {
     m \<leftarrow> num_edges_directed g;
     (g_out_start, e) \<leftarrow> neighborhood (csr_out_index g) 0 0;
     (scores, path_counts, succ, queue, sp) \<leftarrow> foldM (\<lambda>iter. bc_iteration fl db g draws g_out_start) [0..<nat num_iters]
       (replicate (nat (csr_num_nodes g)) 0, uninit (nat (csr_num_nodes g)), bm_new (word_of_int m),
        sq_new (nat (csr_num_nodes g)), sp);
     biggest_score \<leftarrow> foldM (\<lambda>n b. do { s \<leftarrow> rd scores n; Some (max b s) }) (vertices g) 0;
     scores \<leftarrow> normalise fl g biggest_score scores;
     Some (scores, sp) }"

section \<open>The propagation back to the source\<close>

text \<open>The dependencies of the vertices of \<open>Z\<close> are known and were added to the scores.\<close>

definition bp_inv :: "nat csr_graph \<Rightarrow> nat \<Rightarrow> (nat \<Rightarrow> 'a::linordered_field) \<Rightarrow> nat set \<Rightarrow> 'a list \<times> 'a list \<Rightarrow> bool" where
  "bp_inv g s base Z ds \<longleftrightarrow> length (fst ds) = nodes g \<and> length (snd ds) = nodes g \<and>
     (\<forall>v < nodes g. fst ds ! v = (if v \<in> Z then dependency (nodes g) (adj g) s v else 0) \<and>
        snd ds ! v = base v + (if v \<in> Z then dependency (nodes g) (adj g) s v else 0))"

lemma back_edges:
  assumes ok: "graph_ok g" and s: "s < nodes g" and u: "u < nodes g" "(s, u) \<in> (arcs (nodes g) (adj g))\<^sup>*"
    and r: "pbfs_result g s path_counts succ depth_index queue"
    and d: "length deltas = nodes g" "\<And>v. v \<in> set (successors (nodes g) (adj g) s u) \<Longrightarrow> deltas ! v = (dependency (nodes g) (adj g) s v :: 'a::linordered_field)"
  shows "do { vs \<leftarrow> out_neigh_refs g u; foldM (back_edge (\<lambda>x. x) (\<lambda>x. x) (csr_out_index g ! 0) path_counts succ deltas u) vs 0 }
    = Some (dependency (nodes g) (adj g) s u)"
proof -
  let ?E = "arcs (nodes g) (adj g)" and ?\<sigma> = "\<lambda>v. of_nat (sig g s v) :: 'a" and ?D = "dependency (nodes g) (adj g) s :: nat \<Rightarrow> 'a"
  let ?P = "\<lambda>v. lev g s v = Suc (lev g s u)" and ?m = "length (adj g u)"
  let ?S = "\<lambda>j. \<Sum>v \<leftarrow> filter ?P (take j (adj g u)). ?\<sigma> u / ?\<sigma> v * (1 + ?D v)"
  note w = graph_rows_below [OF ok]
  have bits: "bm_bits succ = succ_bits g s (?E\<^sup>* `` {s})" "edge_room g succ" and cnt: "length path_counts = nodes g"
    "\<And>v. v < nodes g \<Longrightarrow> (s, v) \<in> ?E\<^sup>* \<Longrightarrow> path_counts ! v = ?\<sigma> v"
    using r by (simp_all add: pbfs_result_def)
  have below: "?E\<^sup>* `` {s} \<subseteq> {..<nodes g}" using gv.reach_less [OF _ ok s] by blast
  have "returns (foldM (\<lambda>j. back_edge (\<lambda>x. x) (\<lambda>x. x) (csr_out_index g ! 0) path_counts succ deltas u (csr_out_index g ! u + j, adj g u ! j)) [0..<?m] 0)
    (\<lambda>x. x = ?S ?m)"
  proof (rule foldM_upt_rule [where I = "\<lambda>j x. x = ?S j"])
    fix j x
    assume j: "j < ?m" and x: "x = ?S j"
    let ?v = "adj g u ! j"
    have v: "?v \<in> set (adj g u)" "?v < nodes g" using j rows_belowD [OF w u(1)] by simp_all
    have bit: "bm_get_bit succ (edge_position (csr_out_index g ! u + j) (csr_out_index g ! 0)) = Some (?P ?v)"
      using get_edge_bit [OF ok u(1) j bits(2)] succ_bits_iff [OF ok below u(1) j] u(2) bits(1) by simp
    show "returns (back_edge (\<lambda>x. x) (\<lambda>x. x) (csr_out_index g ! 0) path_counts succ deltas u (csr_out_index g ! u + j, ?v) x) (\<lambda>x. x = ?S (Suc j))"
    proof (cases "?P ?v")
      case False
      then show ?thesis using j x bit by (simp add: back_edge_def take_Suc_conv_app_nth)
    next
      case True
      have "(u, ?v) \<in> ?E" using u(1) v(1) by (simp add: arcs_def)
      then have reach: "(s, ?v) \<in> ?E\<^sup>*" by (rule rtrancl.rtrancl_into_rtrancl [OF u(2)])
      have "?\<sigma> ?v \<noteq> 0" using sigma_pos [OF w s reach] by simp
      moreover have "deltas ! ?v = ?D ?v" using True v(1) by (intro d(2)) (simp add: successors_def)
      ultimately show ?thesis
        using True j x bit cnt u v(2) reach d(1) by (simp add: back_edge_def fdiv_def take_Suc_conv_app_nth)
    qed
  qed simp_all
  moreover have "?S ?m = ?D u"
    unfolding dependency_recursion [OF w s u] successors_def by simp
  ultimately show ?thesis
    by (auto simp: out_neigh_refs_eq [OF ok u(1)] foldM_map returns_iff)
qed

lemma back_vertex_step:
  assumes ok: "graph_ok g" and s: "s < nodes g" and u: "u < nodes g" "(s, u) \<in> (arcs (nodes g) (adj g))\<^sup>*" "u \<notin> Z"
    and r: "pbfs_result g s path_counts succ depth_index queue" and Z: "set (successors (nodes g) (adj g) s u) \<subseteq> Z" and I: "bp_inv g s base Z ds"
  shows "returns (back_vertex (\<lambda>x. x) (\<lambda>x. x) g (csr_out_index g ! 0) path_counts succ u ds) (bp_inv g s base (insert u Z))"
proof -
  obtain deltas scores where ds: "ds = (deltas, scores)" by (cases ds)
  have len: "length deltas = nodes g" "length scores = nodes g"
    and val: "\<And>v. v < nodes g \<Longrightarrow> deltas ! v = (if v \<in> Z then dependency (nodes g) (adj g) s v else 0)"
      "\<And>v. v < nodes g \<Longrightarrow> scores ! v = base v + (if v \<in> Z then dependency (nodes g) (adj g) s v else 0)"
    using I by (simp_all add: bp_inv_def ds)
  have "deltas ! v = dependency (nodes g) (adj g) s v" if v: "v \<in> set (successors (nodes g) (adj g) s u)" for v
  proof -
    have "v \<in> set (adj g u)" using v by (simp add: successors_def)
    then show ?thesis using val(1) [of v] Z v gv.neigh_less [OF ok u(1)] by auto
  qed
  note b = back_edges [OF ok s u(1,2) r len(1) this]
  have "back_vertex (\<lambda>x. x) (\<lambda>x. x) g (csr_out_index g ! 0) path_counts succ u ds
      = Some (deltas[u := dependency (nodes g) (adj g) s u], scores[u := scores ! u + dependency (nodes g) (adj g) s u])"
    using b len u(1) by (auto simp: back_vertex_def ds bind_eq_Some_conv)
  moreover have "bp_inv g s base (insert u Z) (deltas[u := dependency (nodes g) (adj g) s u], scores[u := scores ! u + dependency (nodes g) (adj g) s u])"
    using len val u by (auto simp: bp_inv_def nth_list_update)
  ultimately show ?thesis by simp
qed

lemma level_cells:
  assumes len: "length Ls = Suc d" and i: "i \<le> d" and all: "take k b = concat Ls"
  defines "a \<equiv> length (concat (take i Ls))" and "e \<equiv> length (concat (take (Suc i) Ls))"
  shows "segment b a e = Ls ! i" "e \<le> length b"
proof -
  have e: "e = a + length (Ls ! i)" using len i by (simp add: a_def e_def take_Suc_conv_app_nth del: length_concat)
  have "Ls = take i Ls @ Ls ! i # drop (Suc i) Ls" using len i by (simp add: id_take_nth_drop)
  then have c: "concat Ls = concat (take i Ls) @ Ls ! i @ concat (drop (Suc i) Ls)" by (metis concat.simps(2) concat_append)
  have "b = concat (take i Ls) @ Ls ! i @ (concat (drop (Suc i) Ls) @ drop k b)"
    using append_take_drop_id [of k b] unfolding all c by simp
  then have "segment b a e = take (e - a) (Ls ! i)"
    by (metis a_def e diff_add_inverse le_add1 order_refl segment_middle)
  then show "segment b a e = Ls ! i" by (simp add: e)
  have "length (concat Ls) \<le> length b" unfolding all [symmetric] by simp
  moreover have "e \<le> length (concat Ls)" unfolding c e a_def by simp
  ultimately show "e \<le> length b" by simp
qed

text \<open>A pass over one level, for any step that deals with a vertex once its successors are dealt with.\<close>

lemma level_pass:
  assumes ok: "graph_ok g" and s: "s < nodes g"
    and step: "\<And>u Z ds. u < nodes g \<Longrightarrow> (s, u) \<in> (arcs (nodes g) (adj g))\<^sup>* \<Longrightarrow> u \<notin> Z \<Longrightarrow>
      set (successors (nodes g) (adj g) s u) \<subseteq> Z \<Longrightarrow> bp_inv g s base Z ds \<Longrightarrow> returns (f u ds) (bp_inv g s base (insert u Z))"
    and us: "distinct us" "set us = layer (arcs (nodes g) (adj g)) s k"
    and Z: "Z = {v. (s, v) \<in> (arcs (nodes g) (adj g))\<^sup>* \<and> k < lev g s v}" and I: "bp_inv g s base Z ds"
  shows "returns (foldM f us ds)
    (bp_inv g s base {v. (s, v) \<in> (arcs (nodes g) (adj g))\<^sup>* \<and> k \<le> lev g s v})"
proof (rule foldM_rule [where I = "\<lambda>i. bp_inv g s base (Z \<union> set (take i us))"])
  let ?E = "arcs (nodes g) (adj g)"
  show "bp_inv g s base (Z \<union> set (take 0 us)) ds" using I by simp
  show "returns (f (us ! i) ds) (bp_inv g s base (Z \<union> set (take (Suc i) us)))"
    if i: "i < length us" and I: "bp_inv g s base (Z \<union> set (take i us)) ds" for i ds
  proof -
    let ?u = "us ! i"
    have u: "?u \<in> layer ?E s k" using us(2) nth_mem [OF i] by simp
    have un: "?u < nodes g" using u layer_below [OF rows_arcs_below [OF graph_rows_below [OF ok]] s] by blast
    have reach: "(s, ?u) \<in> ?E\<^sup>*" using u reach_layer by blast
    have lu: "lev g s ?u = k" by (rule level_of_layer [OF u])
    have fresh: "?u \<notin> Z \<union> set (take i us)"
      using us(1) i lu by (auto simp: Z in_set_conv_nth [of _ "take i us"] nth_eq_iff_index_eq)
    have "set (successors (nodes g) (adj g) s ?u) \<subseteq> Z \<union> set (take i us)"
    proof
      fix v assume v: "v \<in> set (successors (nodes g) (adj g) s ?u)"
      then have "(?u, v) \<in> ?E" "lev g s v = Suc k" using un lu by (simp_all add: successors_def arcs_def)
      then show "v \<in> Z \<union> set (take i us)" using rtrancl.rtrancl_into_rtrancl [OF reach, of v] by (simp add: Z)
    qed
    from step [OF un reach fresh this I] show ?thesis
      using i by (simp add: take_Suc_conv_app_nth)
  qed
  show "bp_inv g s base {v. (s, v) \<in> ?E\<^sup>* \<and> k \<le> lev g s v} ds" if "bp_inv g s base (Z \<union> set (take (length us) us)) ds" for ds
  proof -
    have m: "v \<in> layer ?E s k \<longleftrightarrow> (s, v) \<in> ?E\<^sup>* \<and> lev g s v = k" for v
      using reach_layer [of s v ?E] level_of_layer [of v ?E s] level_of_reach [of s v ?E] by metis
    have "x \<in> Z \<union> set us \<longleftrightarrow> (s, x) \<in> ?E\<^sup>* \<and> k \<le> lev g s x" for x
      unfolding Z us(2) Un_iff mem_Collect_eq m [of x] le_less by blast
    then have "Z \<union> set (take (length us) us) = {v. (s, v) \<in> ?E\<^sup>* \<and> k \<le> lev g s v}" by (intro set_eqI) simp
    then show ?thesis using that by simp
  qed
qed

lemma unreached_dependency:
  assumes w: "rows_below n nb" and s: "s < n" and u: "(s, u) \<notin> (arcs n nb)\<^sup>*"
  shows "dependency n nb s u = (0 :: 'a::linordered_field)"
proof -
  have "sigma n nb s u = 0"
  proof (rule ccontr)
    assume "sigma n nb s u \<noteq> 0"
    then have "u \<in> ball (arcs n nb) s (level_of (arcs n nb) s u)" unfolding sigma_def by (intro wcount_ball [OF w s]) simp
    then show False using u ball_reach by blast
  qed
  then show ?thesis unfolding dependency_def by (intro sum.neutral) (auto simp: through_eq [OF w s])
qed

lemma back_propagate_returns:
  assumes ok: "graph_ok g" and s: "s < nodes g" and r: "pbfs_result g s path_counts succ depth_index queue"
    and sc: "length scores = nodes g"
  shows "\<exists>scores'. back_propagate (\<lambda>x. x) (\<lambda>x. x) g (csr_out_index g ! 0) path_counts succ depth_index queue scores = Some scores' \<and>
    length scores' = nodes g \<and> (\<forall>v < nodes g. scores' ! v = scores ! v + (dependency (nodes g) (adj g) s v :: 'a::linordered_field))"
proof -
  let ?E = "arcs (nodes g) (adj g)"
  obtain d Ls where lv: "levels_of g s d Ls" and e: "layer ?E s d = {}" and all: "sq_all queue = concat Ls"
    and dx: "depth_index = 0 # level_starts Ls (Suc d)"
    using r by (auto simp: pbfs_result_def)
  have len: "length Ls = Suc d" using lv by (simp add: levels_of_def)
  have cut: "take (sq_shared_in queue) (sq_shared queue) = concat Ls" using all by (simp add: sq_all_def)
  let ?Z = "\<lambda>k. {v. (s, v) \<in> ?E\<^sup>* \<and> d - k \<le> lev g s v}"
  let ?body = "\<lambda>i ds. do { b \<leftarrow> rd depth_index i; e \<leftarrow> rd depth_index (i + 1);
     foldM (\<lambda>it s. do { u \<leftarrow> rd (sq_shared queue) it; back_vertex (\<lambda>x. x) (\<lambda>x. x) g (csr_out_index g ! 0) path_counts succ u s }) [b..<e] ds }"
  have "returns (foldM ?body (rev [0..<Suc d]) (replicate (nodes g) 0, scores)) (bp_inv g s ((!) scores) {v. (s, v) \<in> ?E\<^sup>*})"
  proof (rule foldM_rule [where I = "\<lambda>k. bp_inv g s ((!) scores) (?Z k)"])
    have z: "?Z 0 = {}"
    proof -
      have "lev g s v \<noteq> d \<and> lev g s v \<le> d" if v: "(s, v) \<in> ?E\<^sup>*" for v
        using level_of_ball [of v ?E s d] level_of_reach [OF v] empty_layer_closed [OF e] v e by auto
      then show ?thesis by fastforce
    qed
    show "bp_inv g s ((!) scores) (?Z 0) (replicate (nodes g) 0, scores)" unfolding z using sc by (simp add: bp_inv_def)
  next
    fix k ds
    assume k: "k < length (rev [0..<Suc d])" and I: "bp_inv g s ((!) scores) (?Z k) ds"
    then have i: "rev [0..<Suc d] ! k = d - k" by (simp add: rev_nth del: upt_Suc)
    show "returns (?body (rev [0..<Suc d] ! k) ds) (bp_inv g s ((!) scores) (?Z (Suc k)))"
    proof (cases "d - k")
      case 0
      then have "?body (d - k) ds = Some ds" by (simp add: dx level_starts_def upt_rec [of 0])
      moreover have "?Z (Suc k) = ?Z k" using 0 by simp
      ultimately show ?thesis using I unfolding i by simp
    next
      case (Suc j)
      then have j: "j \<le> d" "j < d" by simp_all
      let ?a = "length (concat (take j Ls))" and ?e = "length (concat (take (Suc j) Ls))"
      have "depth_index ! Suc j = ?a" "depth_index ! Suc (Suc j) = ?e" "length depth_index = Suc (Suc d)"
        using j by (simp_all add: dx level_starts_def del: upt_Suc length_concat)
      then have "?body (d - k) ds = foldM (back_vertex (\<lambda>x. x) (\<lambda>x. x) g (csr_out_index g ! 0) path_counts succ) (Ls ! j) ds"
        using Suc j by (simp add: foldM_reads [OF level_cells(2) [OF len j(1) cut]] level_cells(1) [OF len j(1) cut] del: length_concat)
      moreover have "distinct (Ls ! j)" using lv len j(1) by (auto simp: levels_of_def distinct_concat_iff)
      moreover have "set (Ls ! j) = layer ?E s j" using lv j(1) by (simp add: levels_of_def)
      moreover have "?Z k = {v. (s, v) \<in> ?E\<^sup>* \<and> j < lev g s v}" using Suc by (simp add: Suc_le_eq)
      moreover have "d - Suc k = j" using Suc by simp
      ultimately show ?thesis using level_pass [OF ok s back_vertex_step [OF ok s _ _ _ r] _ _ _ I, where us = "Ls ! j" and k = j] unfolding i by simp
    qed
  next
    fix ds
    assume "bp_inv g s ((!) scores) (?Z (length (rev [0..<Suc d]))) ds"
    then show "bp_inv g s ((!) scores) {v. (s, v) \<in> ?E\<^sup>*} ds" by simp
  qed
  then obtain ds where ds: "foldM ?body (rev [0..<Suc d]) (replicate (nodes g) 0, scores) = Some ds" "bp_inv g s ((!) scores) {v. (s, v) \<in> ?E\<^sup>*} ds"
    using returns_ex by blast
  have "length depth_index - 1 = Suc d" by (simp add: dx level_starts_def del: upt_Suc)
  then have "back_propagate (\<lambda>x. x) (\<lambda>x. x) g (csr_out_index g ! 0) path_counts succ depth_index queue scores = Some (snd ds)"
    using ds(1) by (simp add: back_propagate_def nodes_def [symmetric] split_beta del: upt_Suc)
  moreover have "snd ds ! v = scores ! v + dependency (nodes g) (adj g) s v" if "v < nodes g" for v
    using ds(2) that by (auto simp: bp_inv_def unreached_dependency [OF graph_rows_below [OF ok] s])
  ultimately show ?thesis using ds(2) by (auto simp: bp_inv_def)
qed

section \<open>The scores\<close>

primrec picks :: "'d csr_graph \<Rightarrow> (nat \<Rightarrow> nat) \<Rightarrow> nat \<Rightarrow> source_picker \<Rightarrow> (nat list \<times> source_picker) option" where
  \<comment> \<open>the next k sources of a picker\<close>
  "picks g draws 0 sp = Some ([], sp)"
| "picks g draws (Suc k) sp = do {
     (srcs, sp) \<leftarrow> picks g draws k sp;
     (s, sp) \<leftarrow> PickNext g draws sp;
     if s < 0 then None else Some (srcs @ [nat s], sp) }"

definition betweenness :: "nat \<Rightarrow> (nat \<Rightarrow> nat list) \<Rightarrow> nat list \<Rightarrow> nat \<Rightarrow> 'a::linordered_field" where
  "betweenness n nb srcs u = (\<Sum>s \<leftarrow> srcs. dependency n nb s u)"

definition relative_betweenness :: "nat \<Rightarrow> (nat \<Rightarrow> nat list) \<Rightarrow> nat list \<Rightarrow> nat \<Rightarrow> 'a::linordered_field" where
  "relative_betweenness n nb srcs u = betweenness n nb srcs u / Max (betweenness n nb srcs ` {..<n})"

definition edges_counted :: "nat csr_graph \<Rightarrow> bool" where
  \<comment> \<open>the graph knows its number of edges, and a bitmap of that size can be addressed\<close>
  "edges_counted g \<longleftrightarrow> (\<exists>m. num_edges_directed g = Some m \<and>
     int (csr_out_index g ! nodes g) - int (csr_out_index g ! 0) \<le> m \<and> 0 \<le> m \<and> m + 63 < 2 ^ 64)"

lemma edge_room_new:
  assumes ok: "graph_ok g" and m: "int (csr_out_index g ! nodes g) - int (csr_out_index g ! 0) \<le> m" "0 \<le> m" "m + 63 < 2 ^ 64"
  shows "edge_room g (bm_new (word_of_int m))"
proof -
  have eq: "word_of_int m = (of_nat (nat m) :: 64 word)" 
    using of_int_of_nat_eq [of "nat m", where ?'a = "64 word"] m(2) by simp
  have cap: "nat m \<le> bm_cap (bm_new (word_of_int m))" unfolding eq by (rule bm_cap_new) (use m(2,3) in simp)
  have "pos g u j < nat m" if u: "u < nodes g" "j < length (adj g u)" for u j
  proof -
    have "csr_out_index g ! u + j < csr_out_index g ! nodes g"
      using out_index_step [OF ok u(1)] index_mono [OF ok, of "Suc u" "nodes g"] u by simp
    moreover have "csr_out_index g ! 0 \<le> csr_out_index g ! u" using index_mono [OF ok] u(1) by simp
    ultimately show ?thesis using m(1) by (simp add: pos_def)
  qed
  then show ?thesis using cap unfolding edge_room_def by (meson less_le_trans)
qed

lemma edge_room_reset: "edge_room g bm \<Longrightarrow> edge_room g (bm_reset bm)"
  by (simp add: edge_room_def bm.clear_cap)

definition bc_state_ok :: "nat csr_graph \<Rightarrow> nat list \<Rightarrow> source_picker \<Rightarrow>
    'a::linordered_field list \<times> 'a list \<times> bitmap \<times> nat sliding_queue \<times> source_picker \<Rightarrow> bool" where
  "bc_state_ok g srcs sp st \<longleftrightarrow> (case st of (scores, path_counts, succ, queue, sp') \<Rightarrow> sp' = sp \<and> length scores = nodes g \<and>
     (\<forall>v < nodes g. scores ! v = betweenness (nodes g) (adj g) srcs v) \<and> length path_counts = nodes g \<and>
     edge_room g succ \<and> nodes g \<le> length (sq_shared queue))"

lemma bc_iteration_step:
  assumes ok: "graph_ok g" and st: "bc_state_ok g srcs sp st" and p: "PickNext g draws sp = Some (int s, sp')" and s: "s < nodes g"
  shows "returns (bc_iteration (\<lambda>x. x) (\<lambda>x. x) g draws (csr_out_index g ! 0) st) (bc_state_ok g (srcs @ [s]) sp')"
proof -
  obtain scores pc bm q where e: "st = (scores, pc, bm, q, sp)" using st by (cases st) (auto simp: bc_state_ok_def)
  have i: "length scores = nodes g" "\<forall>v < nodes g. scores ! v = betweenness (nodes g) (adj g) srcs v" "length pc = nodes g"
    "edge_room g bm" "nodes g \<le> length (sq_shared q)" using st by (simp_all add: bc_state_ok_def e)
  have z: "length (map (\<lambda>_. 0 :: 'a) pc) = nodes g" "\<forall>v < nodes g. map (\<lambda>_. 0 :: 'a) pc ! v = 0" using i(3) by simp_all
  obtain pc' bm' dx q' where r: "PBFS (\<lambda>x. x) g (int s) (map (\<lambda>_. 0 :: 'a) pc) (bm_reset bm) [] (sq_reset q) = Some (pc', bm', dx, q')"
    "pbfs_result g s pc' bm' dx q'"
    using returns_ex [OF PBFS_returns [OF ok s z bm_bits_reset edge_room_reset [OF i(4)] i(5)]] by auto
  obtain scores' where sc: "back_propagate (\<lambda>x. x) (\<lambda>x. x) g (csr_out_index g ! 0) pc' bm' dx q' scores = Some scores'"
    "length scores' = nodes g" "\<forall>v < nodes g. scores' ! v = scores ! v + dependency (nodes g) (adj g) s v"
    using back_propagate_returns [OF ok s r(2) i(1)] by blast
  show ?thesis
    using r sc i p by (auto simp: bc_iteration_def e bc_state_ok_def betweenness_def pbfs_result_def)
qed

text \<open>A loop over the sources of a picker.\<close>

lemma picks_loop:
  assumes step: "\<And>srcs sp st s sp'. Q srcs sp st \<Longrightarrow> PickNext g draws sp = Some (int s, sp') \<Longrightarrow> s < nodes g \<Longrightarrow> returns (f st) (Q (srcs @ [s]) sp')"
    and st: "Q [] sp st"
  shows "picks g draws k sp = Some (srcs, sp') \<Longrightarrow> set srcs \<subseteq> {..<nodes g} \<Longrightarrow> returns (foldM (\<lambda>iter. f) [0..<k] st) (Q srcs sp')"
proof (induction k arbitrary: srcs sp')
  case 0
  then show ?case using st by simp
next
  case (Suc k)
  then obtain ss sq s where p: "picks g draws k sp = Some (ss, sq)" "PickNext g draws sq = Some (s, sp')" "0 \<le> s" "srcs = ss @ [nat s]"
    by (auto simp: bind_eq_Some_conv split: if_splits)
  have pn: "PickNext g draws sq = Some (int (nat s), sp')" "nat s < nodes g" using p Suc.prems(2) by simp_all
  obtain t where t: "foldM (\<lambda>iter. f) [0..<k] st = Some t" "Q ss sq t"
    using returns_ex [OF Suc.IH [OF p(1)]] Suc.prems(2) p(4) by auto
  show ?case using step [OF t(2) pn] t(1) by (simp add: foldM_append p(4) returns_iff)
qed

lemma betweenness_nonneg: "0 \<le> (betweenness n nb srcs u :: 'a::linordered_field)"
  unfolding betweenness_def by (rule sum_list_nonneg) (auto simp: dependency_nonneg)

lemma largest_betweenness:
  assumes w: "rows_below n nb" and s: "s \<in> set srcs" "s < n" and v: "v \<in> set (nb s)" "v \<noteq> s"
  shows "0 < Max (betweenness n nb srcs ` {..<n} :: 'a::linordered_field set)"
proof -
  have "dependency n nb s s \<le> (betweenness n nb srcs s :: 'a)"
    unfolding betweenness_def by (rule member_le_sum_list) (use s dependency_nonneg in auto)
  moreover have "(betweenness n nb srcs s :: 'a) \<le> Max (betweenness n nb srcs ` {..<n})" using s(2) by (intro Max_ge) simp_all
  ultimately show ?thesis using dependency_source [OF w s(2) v, where ?'a = 'a] by linarith
qed

lemma biggest_returns:
  assumes n: "length scores = nodes g" "0 < nodes g" "\<forall>v < nodes g. (scores ! v :: 'a::linordered_field) = f v" "\<And>v. 0 \<le> f v"
  shows "foldM (\<lambda>n b. do { s \<leftarrow> rd scores n; Some (max b s) }) (vertices g) 0 = Some (Max (f ` {..<nodes g}))"
proof -
  have "returns (foldM (\<lambda>n b. do { s \<leftarrow> rd scores n; Some (max b s) }) [0..<nodes g] 0) (\<lambda>b. b = Max (insert 0 (f ` {..<nodes g})))"
  proof (rule foldM_upt_rule [where I = "\<lambda>i b. b = Max (insert 0 (f ` {..<i}))"])
    fix i b
    assume i: "i < nodes g" "b = Max (insert 0 (f ` {..<i}))"
    have "insert 0 (f ` {..<Suc i}) = insert (f i) (insert 0 (f ` {..<i}))" by (auto simp: lessThan_Suc)
    then have "Max (insert 0 (f ` {..<Suc i})) = max (f i) b" unfolding i(2) by (simp only: Max_insert finite_insert finite_imageI finite_lessThan insert_not_empty not_False_eq_True)
    then show "returns (do { s \<leftarrow> rd scores i; Some (max b s) }) (\<lambda>b. b = Max (insert 0 (f ` {..<Suc i})))"
      using n i(1) by (simp add: max.commute)
  qed simp_all
  moreover have "Max (insert 0 (f ` {..<nodes g})) = Max (f ` {..<nodes g})"
  proof -
    have "f 0 \<le> Max (f ` {..<nodes g})" using n(2) by (intro Max_ge) auto
    then have "0 \<le> Max (f ` {..<nodes g})" using n(4) [of 0] by (rule order.trans [rotated])
    then show ?thesis using n(2) by (subst Max_insert) auto
  qed
  ultimately show ?thesis by (auto simp: returns_iff vertices_nodes)
qed

lemma normalise_returns:
  assumes n: "length scores = nodes g" and b: "b \<noteq> 0"
  shows "normalise (\<lambda>x. x) g b scores = Some (map (\<lambda>s. s / b) scores)"
proof -
  have "returns (normalise (\<lambda>x. x) g b scores) (\<lambda>xs. xs = map (\<lambda>s. s / b) scores)"
    unfolding normalise_def vertices_nodes
  proof (rule foldM_upt_rule [where I = "\<lambda>i xs. length xs = nodes g \<and> (\<forall>j < nodes g. xs ! j = (if j < i then scores ! j / b else scores ! j))"])
    show "xs = map (\<lambda>s. s / b) scores" if "length xs = nodes g \<and> (\<forall>j < nodes g. xs ! j = (if j < nodes g then scores ! j / b else scores ! j))" for xs
      by (rule nth_equalityI) (use that n in simp_all)
  qed (use n b in \<open>auto simp: fdiv_def nth_list_update less_Suc_eq\<close>)
  then show ?thesis by (auto simp: returns_iff)
qed

text \<open>In exact arithmetic the kernel returns the betweenness of every vertex relative to the largest.\<close>

lemma Brandes_eq:
  assumes ok: "graph_ok g" and m: "edges_counted g" and p: "picks g draws (nat num_iters) sp = Some (srcs, sp')" "set srcs \<subseteq> {..<nodes g}"
    and s: "s \<in> set srcs" "v \<in> set (adj g s)" "v \<noteq> s"
  shows "Brandes (\<lambda>x. x) (\<lambda>x. x) g draws sp num_iters
    = Some (map (relative_betweenness (nodes g) (adj g) srcs :: nat \<Rightarrow> 'a::linordered_field) [0..<nodes g], sp')"
proof -
  have sn: "s < nodes g" using s(1) p(2) by auto
  obtain k where k: "num_edges_directed g = Some k" "int (csr_out_index g ! nodes g) - int (csr_out_index g ! 0) \<le> k" "0 \<le> k" "k + 63 < 2 ^ 64"
    using m by (auto simp: edges_counted_def)
  have nb: "neighborhood (csr_out_index g) 0 0 = Some (csr_out_index g ! 0, csr_out_index g ! Suc 0)"
    by (rule neighborhood_bounds [OF csr_wf_index(1) [OF ok [unfolded graph_ok_def]]]) (use sn in simp)
  have start: "bc_state_ok g [] sp (replicate (nodes g) (0 :: 'a), uninit (nodes g), bm_new (word_of_int k), sq_new (nodes g), sp)"
    using edge_room_new [OF ok k(2-4)] by (simp add: bc_state_ok_def betweenness_def sq_new_def sq_reset_def)
  have loop: "returns (foldM (\<lambda>iter. bc_iteration (\<lambda>x. x) (\<lambda>x. x) g draws (csr_out_index g ! 0)) [0..<nat num_iters]
      (replicate (nodes g) (0 :: 'a), uninit (nodes g), bm_new (word_of_int k), sq_new (nodes g), sp)) (bc_state_ok g srcs sp')"
    by (rule picks_loop [where Q = "bc_state_ok g", OF _ start p]) (rule bc_iteration_step [OF ok])
  obtain sc pc bm q where it: "foldM (\<lambda>iter. bc_iteration (\<lambda>x. x) (\<lambda>x. x) g draws (csr_out_index g ! 0)) [0..<nat num_iters]
      (replicate (nodes g) (0 :: 'a), uninit (nodes g), bm_new (word_of_int k), sq_new (nodes g), sp) = Some (sc, pc, bm, q, sp')"
    "length sc = nodes g" "\<forall>v < nodes g. sc ! v = betweenness (nodes g) (adj g) srcs v"
    using returns_ex [OF loop] by (auto simp: bc_state_ok_def)
  let ?b = "Max (betweenness (nodes g) (adj g) srcs ` {..<nodes g}) :: 'a"
  have b: "foldM (\<lambda>n b. do { s \<leftarrow> rd sc n; Some (max b s) }) (vertices g) 0 = Some ?b"
    by (rule biggest_returns [OF it(2) _ it(3) betweenness_nonneg]) (use sn in simp)
  have "?b \<noteq> 0" using largest_betweenness [OF graph_rows_below [OF ok] s(1) sn s(2,3), where ?'a = 'a] by simp
  note norm = normalise_returns [OF it(2) this]
  have "map (\<lambda>s. s / ?b) sc = map (relative_betweenness (nodes g) (adj g) srcs) [0..<nodes g]"
    by (rule nth_equalityI) (use it(2,3) in \<open>simp_all add: relative_betweenness_def\<close>)
  then show ?thesis using k(1) nb it(1) b norm by (simp add: Brandes_def nodes_def [symmetric])
qed

section \<open>Properties\<close>

text \<open>C6: The betweenness kernel, in exact arithmetic: for the sources its picker draws, it returns for every vertex the sum over the
  sources of the shares of shortest paths that run through the vertex, divided by the largest such sum.  The
  one condition is that some source has a neighbour other than itself; otherwise all sums are 0 and so is
  the divisor.\<close>

theorem Brandes_scores:
  assumes "graph_ok g" "edges_counted g" "picks g draws (nat num_iters) sp = Some (srcs, sp')" "set srcs \<subseteq> {..<nodes g}"
    and "s \<in> set srcs" "v \<in> set (adj g s)" "v \<noteq> s"
  shows "Brandes (\<lambda>x. x) (\<lambda>x. x) g draws sp num_iters
    = Some (map (relative_betweenness (nodes g) (adj g) srcs :: nat \<Rightarrow> 'a::linordered_field) [0..<nodes g], sp')"
  by (rule Brandes_eq [OF assms])

lemma path_of_three_counted: "edges_counted path_of_three"
proof -
  have "csr_out_index path_of_three ! 4 = 4" "csr_out_index path_of_three ! 0 = 0"
    by (simp_all add: path_of_three_def csr_of_rows_def csr_undirected_def path_rows_def nth_prefix_sums)
  moreover have "num_edges_directed path_of_three = Some 4"
    by (simp add: path_of_three_def num_edges_directed_def csr_of_rows_def csr_undirected_def)
  ultimately show ?thesis unfolding edges_counted_def path_of_three_simps(1) by simp
qed

lemma path_of_three_graph_ok: "graph_ok path_of_three"
  using path_of_three_ok by (simp add: both_rows_def)

lemma path_of_three_picks: "picks path_of_three draws 2 (SourcePicker 0) = Some ([0, 0], SourcePicker 0)"
  by (simp add: numeral_2_eq_2 PickNext_def SourcePicker_def)

lemma Brandes_scores_witness:
  "Brandes (\<lambda>x. x) (\<lambda>x. x) path_of_three (\<lambda>_. 0) (SourcePicker 0) 2
    = Some (map (relative_betweenness 4 (adj path_of_three) [0, 0] :: nat \<Rightarrow> rat) [0..<4], SourcePicker 0)"
proof -
  have n: "nat 2 = 2" by simp
  have a: "1 \<in> set (adj path_of_three 0)" by (simp add: path_of_three_simps path_rows_def)
  show ?thesis
    using Brandes_scores [OF path_of_three_graph_ok path_of_three_counted path_of_three_picks [folded n] _ _ a, where ?'a = rat]
    by (simp add: path_of_three_simps)
qed


end
