(* ===== verification/BCCheck.thy ===== *)
theory BCCheck
  imports Brandes
begin

text \<open>
  The verifier of src/bc.cc: the same algorithm with a serial search over a vector, the levels rebuilt from the depths
  and the successors rebuilt from the depths.  It compares with the machine epsilon of \<^verbatim>\<open>float\<close>.
\<close>

section \<open>The verifier\<close>

definition bcv_edge :: "('a::linordered_field \<Rightarrow> 'a) \<Rightarrow> nat \<Rightarrow> nat \<Rightarrow> nat \<Rightarrow> 'a list \<times> int list \<times> nat list \<Rightarrow> ('a list \<times> int list \<times> nat list) option" where
  \<comment> \<open>the first test is that of the verifier of src/bfs.cc\<close>
  "bcv_edge db reserved u v s = (case s of (path_counts, depth, to_visit) \<Rightarrow> do {
     (depth, to_visit) \<leftarrow> bv_edge reserved u v (depth, to_visit);
     dv \<leftarrow> rd depth v;
     du \<leftarrow> rd depth u;
     if dv = du + 1 then do {
       cv \<leftarrow> rd path_counts v;
       cu \<leftarrow> rd path_counts u;
       path_counts \<leftarrow> wr path_counts v (db (cv + cu));
       Some (path_counts, depth, to_visit) }
     else Some (path_counts, depth, to_visit) })"

definition bcv_search :: "('a::linordered_field \<Rightarrow> 'a) \<Rightarrow> nat csr_graph \<Rightarrow> int \<Rightarrow> ('a list \<times> int list) option" where
  "bcv_search db g source = (if source < 0 then None else do {
     let reserved = nat (csr_num_nodes g);
     depth \<leftarrow> wr (replicate (nat (csr_num_nodes g)) (-1)) (nat source) 0;
     path_counts \<leftarrow> wr (replicate (nat (csr_num_nodes g)) 0) (nat source) 1;
     to_visit \<leftarrow> vec_push reserved [] (nat source);
     (path_counts, depth, to_visit) \<leftarrow> worklist (\<lambda>s. False) (\<lambda>s. snd (snd s))
        (\<lambda>u s. do { vs \<leftarrow> out_neigh g u 0; foldM (bcv_edge db reserved u) vs s }) 0 (path_counts, depth, to_visit);
     Some (path_counts, depth) })"

definition bcv_level :: "int list \<Rightarrow> nat \<Rightarrow> nat list list \<Rightarrow> nat list list option" where
  "bcv_level depth n verts_at_depth = do {
     dn \<leftarrow> rd depth n;
     if dn \<noteq> -1 then
       if dn < 0 then None
       else do {
         let verts = (if dn \<ge> int (length verts_at_depth)
           then verts_at_depth @ replicate (nat (dn + 1) - length verts_at_depth) [] else verts_at_depth);
         at_depth \<leftarrow> rd verts (nat dn);
         wr verts (nat dn) (at_depth @ [n]) }
     else Some verts_at_depth }"

definition bcv_dep ::
  "('a::linordered_field \<Rightarrow> 'a) \<Rightarrow> ('a \<Rightarrow> 'a) \<Rightarrow> 'a list \<Rightarrow> int list \<Rightarrow> nat \<Rightarrow> nat \<Rightarrow> 'a list \<Rightarrow> 'a list option" where
  "bcv_dep fl db path_counts depth u v deltas = do {
     dv \<leftarrow> rd depth v;
     du \<leftarrow> rd depth u;
     if dv = du + 1 then do {
       cu \<leftarrow> rd path_counts u;
       cv \<leftarrow> rd path_counts v;
       q \<leftarrow> fdiv cu cv;
       x \<leftarrow> rd deltas v;
       y \<leftarrow> rd deltas u;
       wr deltas u (fl (db (y + db (db q * fl (1 + x))))) }
     else Some deltas }"

definition bcv_vertex ::
  "('a::linordered_field \<Rightarrow> 'a) \<Rightarrow> ('a \<Rightarrow> 'a) \<Rightarrow> nat csr_graph \<Rightarrow> 'a list \<Rightarrow> int list \<Rightarrow> nat \<Rightarrow> 'a list \<times> 'a list \<Rightarrow> ('a list \<times> 'a list) option" where
  "bcv_vertex fl db g path_counts depth u s = (case s of (deltas, scores) \<Rightarrow> do {
     vs \<leftarrow> out_neigh g u 0;
     deltas \<leftarrow> foldM (bcv_dep fl db path_counts depth u) vs deltas;
     score \<leftarrow> rd scores u;
     du \<leftarrow> rd deltas u;
     scores \<leftarrow> wr scores u (fl (score + du));
     Some (deltas, scores) })"

definition bcv_iteration ::
  "('a::linordered_field \<Rightarrow> 'a) \<Rightarrow> ('a \<Rightarrow> 'a) \<Rightarrow> nat csr_graph \<Rightarrow> (nat \<Rightarrow> nat) \<Rightarrow> 'a list \<times> source_picker \<Rightarrow> ('a list \<times> source_picker) option" where
  "bcv_iteration fl db g draws st = (case st of (scores, sp) \<Rightarrow> do {
     (source, sp) \<leftarrow> PickNext g draws sp;
     (path_counts, depth) \<leftarrow> bcv_search db g source;
     verts_at_depth \<leftarrow> foldM (bcv_level depth) (vertices g) [];
     (deltas, scores) \<leftarrow> foldM (\<lambda>d s. do {
         us \<leftarrow> rd verts_at_depth d;
         foldM (bcv_vertex fl db g path_counts depth) us s }) (rev [0..<length verts_at_depth])
       (replicate (nat (csr_num_nodes g)) 0, scores);
     Some (scores, sp) })"

definition float_epsilon :: "'a::linordered_field" where
  \<comment> \<open>\<^verbatim>\<open>std::numeric_limits<float>::epsilon()\<close>\<close>
  "float_epsilon = 1 / 2 ^ 23"

definition BCVerifier ::
  "('a::linordered_field \<Rightarrow> 'a) \<Rightarrow> ('a \<Rightarrow> 'a) \<Rightarrow> nat csr_graph \<Rightarrow> (nat \<Rightarrow> nat) \<Rightarrow> source_picker \<Rightarrow> int \<Rightarrow> 'a list \<Rightarrow> (bool \<times> source_picker) option" where
  "BCVerifier fl db g draws sp num_iters scores_to_test = do {
     (scores, sp) \<leftarrow> foldM (\<lambda>iter. bcv_iteration fl db g draws) [0..<nat num_iters] (replicate (nat (csr_num_nodes g)) 0, sp);
     biggest_score \<leftarrow> (case scores of [] \<Rightarrow> None | x # xs \<Rightarrow> Some (max_element (\<lambda>x. x) x xs));
     scores \<leftarrow> normalise fl g biggest_score scores;
     all_ok \<leftarrow> foldM (\<lambda>n all_ok. do {
         t \<leftarrow> rd scores_to_test n;
         s \<leftarrow> rd scores n;
         let delta = \<bar>fl (t - s)\<bar>;
         Some (if delta > float_epsilon then False else all_ok) }) (vertices g) True;
     Some (all_ok, sp) }"

section \<open>The search\<close>

text \<open>The search is that of src/bfs.cc with counts.\<close>

lemma bcv_edges_bv:
  "foldM (bcv_edge db k u) vs (c, depth, tv) = Some (c', depth', tv') \<Longrightarrow> foldM (bv_edge k u) vs (depth, tv) = Some (depth', tv')"
proof (induction vs arbitrary: c depth tv)
  case (Cons v vs)
  then obtain c1 d1 t1 where 1: "bcv_edge db k u v (c, depth, tv) = Some (c1, d1, t1)" "foldM (bcv_edge db k u) vs (c1, d1, t1) = Some (c', depth', tv')"
    by (auto simp: bind_eq_Some_conv)
  have "bv_edge k u v (depth, tv) = Some (d1, t1)"
    using 1(1) by (auto simp: bcv_edge_def bind_eq_Some_conv split: if_splits)
  then show ?case using Cons.IH [OF 1(2)] by simp
qed simp

definition counts_ok :: "nat csr_graph \<Rightarrow> nat \<Rightarrow> (nat \<Rightarrow> nat) \<Rightarrow> 'a::linordered_field list \<Rightarrow> bool" where
  "counts_ok g s c path_counts \<longleftrightarrow> length path_counts = nodes g \<and> (\<forall>v < nodes g. path_counts ! v = of_nat (c v))"

lemma bcv_row:
  assumes ok: "graph_ok g" and s: "s < nodes g" and st: "bv_vector (nodes g) (arcs (nodes g) (adj g)) s (depth, tv)"
    and u: "u < nodes g" "u \<in> set tv" "ball (arcs (nodes g) (adj g)) s (lev g s u) \<subseteq> set tv"
    and le: "\<forall>x \<in> set tv. lev g s x \<le> Suc (lev g s u)"
    and X: "finite X" "u \<notin> X" "counted (nodes g) (adj g) s X u = sig g s u"
    and c: "counts_ok g s (counted (nodes g) (adj g) s X) path_counts"
  shows "returns (foldM (bcv_edge (\<lambda>x. x) (nodes g) u) (adj g u) (path_counts, depth, tv))
    (\<lambda>(path_counts, depth, tv'). counts_ok g s (counted (nodes g) (adj g) s (insert u X)) (path_counts :: 'a::linordered_field list) \<and> (\<exists>R. tv' = tv @ R))"
proof -
  let ?E = "arcs (nodes g) (adj g)" and ?l = "lev g s"
  let ?C = "\<lambda>j w. counted (nodes g) (adj g) s X w + (if ?l w = Suc (?l u) then sig g s u * count_list (take j (adj g u)) w else 0)"
  note E = rows_arcs_below [OF graph_rows_below [OF ok]]
  let ?I = "\<lambda>j (cs, depth', tv'). counts_ok g s (?C j) cs \<and> bv_vector (nodes g) ?E s (depth', tv') \<and> (\<exists>R. tv' = tv @ R) \<and>
    (\<forall>x \<in> set tv'. ?l x \<le> Suc (?l u))"
  show ?thesis
  proof (rule foldM_rule [where I = ?I])
    have "?C 0 = counted (nodes g) (adj g) s X" by (rule ext) simp
    then show "?I 0 (path_counts, depth, tv)" using c st le by simp
  next
    fix j and t :: "'a list \<times> int list \<times> nat list"
    assume j: "j < length (adj g u)" and I: "?I j t"
    let ?v = "adj g u ! j"
    obtain cs d1 t1 where t: "t = (cs, d1, t1)" by (cases t)
    have cs: "counts_ok g s (?C j) cs" and b: "bv_vector (nodes g) ?E s (d1, t1)" and ext: "\<exists>R. t1 = tv @ R"
      and le1: "\<forall>x \<in> set t1. ?l x \<le> Suc (?l u)" using I by (simp_all add: t)
    have sub: "set tv \<subseteq> set t1" using ext by auto
    have uv: "(u, ?v) \<in> ?E" using j u(1) by (simp add: arcs_def)
    obtain d2 R where r: "bv_edge (nodes g) u ?v (d1, t1) = Some (d2, t1 @ R)" "bv_vector (nodes g) ?E s (d2, t1 @ R)"
      "?v \<in> set (t1 @ R)" "\<forall>x \<in> set (t1 @ R). ?l x \<le> Suc (?l u)"
      using bv_edge_step [OF E b _ _ uv le1] u(2,3) sub by blast
    have vn: "?v < nodes g" using edges_belowD [OF E uv] by simp
    have "u \<in> set (t1 @ R)" using u(2) sub by auto
    then have d: "length d2 = nodes g" "d2 ! ?v = int (?l ?v)" "d2 ! u = int (?l u)"
      using r(2,3) vn u(1) by (auto simp: bv_vector_def depths_def)
    have lens: "length cs = nodes g" "cs ! ?v = of_nat (?C j ?v)" "cs ! u = of_nat (sig g s u)"
      using cs vn u(1) X(3) by (simp_all add: counts_ok_def)
    let ?cs = "if ?l ?v = Suc (?l u) then cs[?v := of_nat (?C j ?v) + of_nat (sig g s u)] else cs"
    have "bcv_edge (\<lambda>x. x) (nodes g) u ?v t = Some (?cs, d2, t1 @ R)"
      using r(1) d lens vn u(1) by (auto simp: bcv_edge_def t)
    moreover have "counts_ok g s (?C (Suc j)) ?cs"
      using cs lens(2) vn j by (auto simp: counts_ok_def take_Suc_conv_app_nth nth_list_update algebra_simps)
    ultimately show "returns (bcv_edge (\<lambda>x. x) (nodes g) u ?v t) (?I (Suc j))" using r(2,4) ext by auto
  next
    fix t :: "'a list \<times> int list \<times> nat list"
    assume I: "?I (length (adj g u)) t"
    have "?C (length (adj g u)) = counted (nodes g) (adj g) s (insert u X)"
      using X(1,2) by (auto simp: counted_def)
    then show "case t of (path_counts, depth, tv') \<Rightarrow> counts_ok g s (counted (nodes g) (adj g) s (insert u X)) path_counts \<and> (\<exists>R. tv' = tv @ R)"
      using I by (auto split: prod.splits)
  qed
qed

definition bcv_inv :: "nat csr_graph \<Rightarrow> nat \<Rightarrow> nat \<Rightarrow> 'a::linordered_field list \<times> int list \<times> nat list \<Rightarrow> bool" where
  "bcv_inv g s it st \<longleftrightarrow> bv_inv (nodes g) (arcs (nodes g) (adj g)) s it (snd st) \<and>
     counts_ok g s (counted (nodes g) (adj g) s (set (take it (snd (snd st))))) (fst st)"

lemma bcv_body:
  assumes ok: "graph_ok g" and s: "s < nodes g" and I: "bcv_inv g s it st" and it: "it < length (snd (snd st))"
  shows "returns (do { vs \<leftarrow> out_neigh g (snd (snd st) ! it) 0; foldM (bcv_edge (\<lambda>x. x) (nodes g) (snd (snd st) ! it)) vs st }) (bcv_inv g s (Suc it))"
proof -
  let ?E = "arcs (nodes g) (adj g)" and ?l = "lev g s"
  obtain cs depth tv where st: "st = (cs, depth, tv)" by (cases st)
  let ?u = "tv ! it" and ?X = "set (take it tv)"
  note E = rows_arcs_below [OF graph_rows_below [OF ok]]
  have l: "it < length tv" using it by (simp add: st)
  have B: "bv_inv (nodes g) ?E s it (depth, tv)" and c: "counts_ok g s (counted (nodes g) (adj g) s ?X) cs" using I by (simp_all add: bcv_inv_def st)
  then have v: "bv_vector (nodes g) ?E s (depth, tv)" and le: "\<forall>x \<in> set tv. ?l x \<le> Suc (?l ?u)" and ba: "ball ?E s (?l ?u) \<subseteq> set tv"
    using l by (simp_all add: bv_inv_def)
  have tv: "distinct tv" "set tv \<subseteq> ?E\<^sup>* `` {s}" "set tv \<subseteq> {..<nodes g}" "sorted (map ?l tv)" using v by (simp_all add: bv_vector_def)
  have u: "?u \<in> set tv" "?u < nodes g" using nth_mem [OF l] subsetD [OF tv(3) nth_mem [OF l]] by simp_all
  have reach: "(s, ?u) \<in> ?E\<^sup>*" using u(1) tv(2) by blast
  have fresh: "?u \<notin> ?X" using tv(1) l by (auto simp: in_set_conv_nth nth_eq_iff_index_eq)
  have before: "?l ?u = 0 \<or> layer ?E s (?l ?u - 1) \<subseteq> ?X"
  proof (cases "?l ?u")
    case (Suc k)
    have "w \<in> ?X" if w: "w \<in> layer ?E s k" for w
    proof -
      have "w \<in> set tv" using w ba layer_subset ball_mono [of k "?l ?u" ?E s] Suc by fastforce
      then obtain i where i: "i < length tv" "tv ! i = w" by (auto simp: in_set_conv_nth)
      have "?l w = k" by (rule level_of_layer [OF w])
      then have "\<not> it \<le> i" using sorted_nth_mono [OF tv(4), of it i] i l Suc by auto
      then show ?thesis using i by (auto simp: in_set_conv_nth)
    qed
    then show ?thesis using Suc by auto
  qed simp
  have "?X \<subseteq> ?E\<^sup>* `` {s}" using tv(2) set_take_subset [of it tv] by (rule order_trans [rotated])
  from counted_settled [OF graph_rows_below [OF ok] s this level_of_reach [OF reach] before]
  have cu: "counted (nodes g) (adj g) s ?X ?u = sig g s ?u" .
  obtain cs' depth' tv' R where r: "foldM (bcv_edge (\<lambda>x. x) (nodes g) ?u) (adj g ?u) (cs, depth, tv) = Some (cs', depth', tv')"
    "counts_ok g s (counted (nodes g) (adj g) s (insert ?u ?X)) cs'" "tv' = tv @ R"
    using returns_ex [OF bcv_row [OF ok s v u(2,1) ba le _ fresh cu c]] by auto
  have row: "set (adj g ?u) = ?E `` {?u}" using u(2) by (auto simp: arcs_def)
  have "bv_inv (nodes g) ?E s (Suc it) (depth', tv')"
    using bv_body_step [OF E B, of "adj g ?u"] l row bcv_edges_bv [OF r(1)] by simp
  moreover have "set (take (Suc it) tv') = insert ?u ?X" using l r(3) by (simp add: take_Suc_conv_app_nth)
  ultimately have "bcv_inv g s (Suc it) (cs', depth', tv')" using r(2) by (simp add: bcv_inv_def)
  then show ?thesis using r(1) graph_ok_neigh(1) [OF ok u(2), of 0] by (simp add: st)
qed

lemma bcv_search_returns:
  assumes ok: "graph_ok g" and s: "s < nodes g"
  shows "\<exists>pc depth. bcv_search (\<lambda>x. x) g (int s) = Some (pc, depth) \<and>
    depths (nodes g) (arcs (nodes g) (adj g)) s ((arcs (nodes g) (adj g))\<^sup>* `` {s}) depth \<and> length pc = nodes g \<and>
    (\<forall>v. (s, v) \<in> (arcs (nodes g) (adj g))\<^sup>* \<longrightarrow> pc ! v = (of_nat (sig g s v) :: 'a::linordered_field))"
proof -
  let ?E = "arcs (nodes g) (adj g)" and ?n = "nodes g"
  let ?c0 = "(replicate ?n (0 :: 'a))[s := 1]" and ?d0 = "(replicate ?n (-1 :: int))[s := 0]"
  let ?post = "\<lambda>(pc :: 'a list, depth, tv :: nat list). depths ?n ?E s (?E\<^sup>* `` {s}) depth \<and> length pc = ?n \<and> (\<forall>v. (s, v) \<in> ?E\<^sup>* \<longrightarrow> pc ! v = of_nat (sig g s v))"
  have "returns (worklist (\<lambda>s. False) (\<lambda>s. snd (snd s)) (\<lambda>u s. do { vs \<leftarrow> out_neigh g u 0; foldM (bcv_edge (\<lambda>x. x) ?n u) vs s }) 0 (?c0, ?d0, [s])) ?post"
  proof (rule worklist_rule [where I = "bcv_inv g s" and b = ?n])
    show "bcv_inv g s 0 (?c0, ?d0, [s])" using bv_start [OF s] s by (simp add: bcv_inv_def counts_ok_def nth_list_update)
    show "length (snd (snd st)) \<le> ?n" if "bcv_inv g s it st" for it st
      using bv_bounded [of ?n ?E s it "fst (snd st)" "snd (snd st)"] that by (simp add: bcv_inv_def)
    show "returns (do { vs \<leftarrow> out_neigh g (snd (snd st) ! it) 0; foldM (bcv_edge (\<lambda>x. x) ?n (snd (snd st) ! it)) vs st }) (bcv_inv g s (Suc it))"
      if "bcv_inv g s it st" "it < length (snd (snd st))" for it and st :: "'a list \<times> int list \<times> nat list"
      by (rule bcv_body [OF ok s that])
    fix it and st :: "'a list \<times> int list \<times> nat list"
    assume I: "bcv_inv g s it st" and e: "False \<or> length (snd (snd st)) \<le> it"
    obtain pc depth tv where st: "st = (pc, depth, tv)" by (cases st)
    have B: "bv_inv ?n ?E s it (depth, tv)" using I by (simp add: bcv_inv_def st)
    have all: "set tv = ?E\<^sup>* `` {s}" by (rule bv_end [OF B]) (use e st in simp)
    have c: "counts_ok g s (counted ?n (adj g) s (?E\<^sup>* `` {s})) pc" using I e all by (simp add: bcv_inv_def st)
    have "counted ?n (adj g) s (?E\<^sup>* `` {s}) v = sig g s v" if v: "(s, v) \<in> ?E\<^sup>*" for v
    proof -
      have "layer ?E s k \<subseteq> ?E\<^sup>* `` {s}" for k using reach_layer by blast
      then show ?thesis by (intro counted_settled [OF graph_rows_below [OF ok] s _ level_of_reach [OF v]]) auto
    qed
    moreover have "v < ?n" if "(s, v) \<in> ?E\<^sup>*" for v using gv.reach_less [OF that ok s] .
    ultimately show "?post st" using B c all by (auto simp: st bv_inv_def bv_vector_def counts_ok_def)
  qed
  then obtain pc depth tv where w: "worklist (\<lambda>s. False) (\<lambda>s. snd (snd s)) (\<lambda>u s. do { vs \<leftarrow> out_neigh g u 0; foldM (bcv_edge (\<lambda>x. x) ?n u) vs s }) 0 (?c0, ?d0, [s]) = Some (pc, depth, tv)"
    "?post (pc, depth, tv)" using returns_triple [of _ "\<lambda>a b c. ?post (a, b, c)"] by fastforce
  have "bcv_search (\<lambda>x. x) g (int s) = Some (pc, depth)" using w(1) s by (simp add: bcv_search_def Let_def nodes_def [symmetric])
  then show ?thesis using w(2) by auto
qed


section \<open>The levels\<close>

lemma bcv_levels:
  assumes d: "length depth = n" "\<And>v. v < n \<Longrightarrow> -1 \<le> depth ! v"
  shows "\<exists>vad. foldM (bcv_level depth) [0..<n] [] = Some vad \<and> (\<forall>k < length vad. vad ! k = filter (\<lambda>v. depth ! v = int k) [0..<n]) \<and>
    (\<forall>v < n. depth ! v < int (length vad))"
proof -
  let ?I = "\<lambda>i vad. (\<forall>k < length vad. vad ! k = filter (\<lambda>v. depth ! v = int k) [0..<i]) \<and> (\<forall>v < i. depth ! v < int (length vad))"
  have "returns (foldM (bcv_level depth) [0..<n] []) (?I n)"
  proof (rule foldM_upt_rule [where I = ?I])
    fix i vad
    assume i: "i < n" and I: "?I i vad"
    consider (none) "depth ! i = -1" | (level) k where "depth ! i = int k" using d(2) [OF i] by (cases "depth ! i") auto
    then show "returns (bcv_level depth i vad) (?I (Suc i))"
    proof cases
      case none
      then show ?thesis using I d i by (auto simp: bcv_level_def less_Suc_eq)
    next
      case level
      let ?vs = "if k \<ge> length vad then vad @ replicate (Suc k - length vad) [] else vad"
      have k: "k < length ?vs" by auto
      have new: "filter (\<lambda>v. depth ! v = int m) [0..<i] = []" if "length vad \<le> m" for m
        using I that by (fastforce simp: filter_empty_conv)
      have vs: "?vs ! m = filter (\<lambda>v. depth ! v = int m) [0..<i]" if "m < length ?vs" for m
        using that I new [of m] by (auto simp: nth_append split: if_splits)
      have "bcv_level depth i vad = Some (?vs[k := ?vs ! k @ [i]])"
        using level i d(1) k by (simp add: bcv_level_def Let_def nat_add_distrib)
      moreover have "?vs[k := ?vs ! k @ [i]] ! m = filter (\<lambda>v. depth ! v = int m) [0..<Suc i]" if "m < length ?vs" for m
        using that vs [OF that] k level by (auto simp: nth_list_update)
      moreover have "length vad \<le> length ?vs" by auto
      then have "depth ! v < int (length ?vs)" if "v < Suc i" for v
        using that I level k by (fastforce simp: less_Suc_eq)
      ultimately show ?thesis by (simp del: upt_Suc)
    qed
  qed simp_all
  then show ?thesis by (simp add: returns_iff)
qed

section \<open>The dependencies\<close>

lemma bcv_deps:
  assumes ok: "graph_ok g" and s: "s < nodes g" and u: "u < nodes g" "(s, u) \<in> (arcs (nodes g) (adj g))\<^sup>*"
    and dep: "depths (nodes g) (arcs (nodes g) (adj g)) s ((arcs (nodes g) (adj g))\<^sup>* `` {s}) depth"
    and pc: "length pc = nodes g" "\<forall>v. (s, v) \<in> (arcs (nodes g) (adj g))\<^sup>* \<longrightarrow> pc ! v = (of_nat (sig g s v) :: 'a::linordered_field)"
    and d: "length deltas = nodes g" "deltas ! u = 0"
      "\<And>v. v \<in> set (successors (nodes g) (adj g) s u) \<Longrightarrow> deltas ! v = dependency (nodes g) (adj g) s v"
  shows "foldM (bcv_dep (\<lambda>x. x) (\<lambda>x. x) pc depth u) (adj g u) deltas = Some (deltas[u := dependency (nodes g) (adj g) s u])"
proof -
  let ?E = "arcs (nodes g) (adj g)" and ?\<sigma> = "\<lambda>v. of_nat (sig g s v) :: 'a" and ?D = "dependency (nodes g) (adj g) s :: nat \<Rightarrow> 'a"
  let ?P = "\<lambda>v. lev g s v = Suc (lev g s u)" and ?m = "length (adj g u)"
  let ?S = "\<lambda>j. \<Sum>v \<leftarrow> filter ?P (take j (adj g u)). ?\<sigma> u / ?\<sigma> v * (1 + ?D v)"
  note w = graph_rows_below [OF ok]
  have "returns (foldM (bcv_dep (\<lambda>x. x) (\<lambda>x. x) pc depth u) (adj g u) deltas) (\<lambda>ds. ds = deltas[u := ?S ?m])"
  proof (rule foldM_rule [where I = "\<lambda>j ds. ds = deltas[u := ?S j]"])
    show "deltas = deltas[u := ?S 0]" using d(2) by (simp flip: d(2))
  next
    fix j ds
    assume j: "j < ?m" and ds: "ds = deltas[u := ?S j]"
    let ?v = "adj g u ! j"
    have v: "?v \<in> set (adj g u)" "?v < nodes g" using j rows_belowD [OF w u(1)] by simp_all
    have reach: "(s, ?v) \<in> ?E\<^sup>*" using rtrancl.rtrancl_into_rtrancl [OF u(2), of ?v] u(1) v(1) by (simp add: arcs_def)
    have dv: "length depth = nodes g" "depth ! ?v = int (lev g s ?v)" "depth ! u = int (lev g s u)"
      using dep v(2) reach u by (auto simp: depths_def)
    show "returns (bcv_dep (\<lambda>x. x) (\<lambda>x. x) pc depth u ?v ds) (\<lambda>ds. ds = deltas[u := ?S (Suc j)])"
    proof (cases "?P ?v")
      case False
      then have "bcv_dep (\<lambda>x. x) (\<lambda>x. x) pc depth u ?v ds = Some ds" using dv v(2) u(1) by (simp add: bcv_dep_def)
      then show ?thesis using False j ds by (simp add: take_Suc_conv_app_nth)
    next
      case True
      have "?\<sigma> ?v \<noteq> 0" using sigma_pos [OF w s reach] by simp
      moreover have "?v \<noteq> u" using True by auto
      moreover have "deltas ! ?v = ?D ?v" using True v(1) by (intro d(3)) (simp add: successors_def)
      ultimately show ?thesis
        using True j ds dv u v(2) pc reach d(1) by (simp add: bcv_dep_def fdiv_def take_Suc_conv_app_nth)
    qed
  qed simp
  moreover have "?S ?m = ?D u" unfolding dependency_recursion [OF w s u] successors_def by simp
  ultimately show ?thesis by (auto simp: returns_iff)
qed

lemma bcv_vertex_step:
  assumes ok: "graph_ok g" and s: "s < nodes g"
    and dep: "depths (nodes g) (arcs (nodes g) (adj g)) s ((arcs (nodes g) (adj g))\<^sup>* `` {s}) depth"
    and pc: "length pc = nodes g" "\<forall>v. (s, v) \<in> (arcs (nodes g) (adj g))\<^sup>* \<longrightarrow> pc ! v = (of_nat (sig g s v) :: 'a::linordered_field)"
    and u: "u < nodes g" "(s, u) \<in> (arcs (nodes g) (adj g))\<^sup>*" "u \<notin> Z"
    and Z: "set (successors (nodes g) (adj g) s u) \<subseteq> Z" and I: "bp_inv g s base Z ds"
  shows "returns (bcv_vertex (\<lambda>x. x) (\<lambda>x. x) g pc depth u ds) (bp_inv g s base (insert u Z))"
proof -
  obtain deltas scores where ds: "ds = (deltas, scores)" by (cases ds)
  let ?D = "dependency (nodes g) (adj g) s"
  have len: "length deltas = nodes g" "length scores = nodes g"
    and val: "\<And>v. v < nodes g \<Longrightarrow> deltas ! v = (if v \<in> Z then ?D v else 0)"
      "\<And>v. v < nodes g \<Longrightarrow> scores ! v = base v + (if v \<in> Z then ?D v else 0)"
    using I by (simp_all add: bp_inv_def ds)
  have du: "deltas ! u = 0" using val(1) [OF u(1)] u(3) by simp
  have "deltas ! v = ?D v" if v: "v \<in> set (successors (nodes g) (adj g) s u)" for v
  proof -
    have "v \<in> set (adj g u)" using v by (simp add: successors_def)
    then show ?thesis using val(1) [of v] Z v gv.neigh_less [OF ok u(1)] by auto
  qed
  note b = bcv_deps [OF ok s u(1,2) dep pc len(1) du this]
  have "bcv_vertex (\<lambda>x. x) (\<lambda>x. x) g pc depth u ds = Some (deltas[u := ?D u], scores[u := scores ! u + ?D u])"
    using b len u(1) graph_ok_neigh(1) [OF ok u(1), of 0] by (simp add: bcv_vertex_def ds)
  moreover have "bp_inv g s base (insert u Z) (deltas[u := ?D u], scores[u := scores ! u + ?D u])"
    using len val u by (auto simp: bp_inv_def nth_list_update)
  ultimately show ?thesis by simp
qed


section \<open>The scores\<close>

definition bcv_state_ok :: "nat csr_graph \<Rightarrow> nat list \<Rightarrow> source_picker \<Rightarrow> 'a::linordered_field list \<times> source_picker \<Rightarrow> bool" where
  "bcv_state_ok g srcs sp st \<longleftrightarrow> snd st = sp \<and> length (fst st) = nodes g \<and>
     (\<forall>v < nodes g. fst st ! v = betweenness (nodes g) (adj g) srcs v)"

lemma bcv_iteration_step:
  assumes ok: "graph_ok g" and st: "bcv_state_ok g srcs sp st" and p: "PickNext g draws sp = Some (int s, sp')" and s: "s < nodes g"
  shows "returns (bcv_iteration (\<lambda>x. x) (\<lambda>x. x) g draws st) (bcv_state_ok g (srcs @ [s]) sp')"
proof -
  let ?E = "arcs (nodes g) (adj g)"
  obtain scores :: "'a list" where e: "st = (scores, sp)" "length scores = nodes g"
    and old: "\<forall>v < nodes g. scores ! v = betweenness (nodes g) (adj g) srcs v"
    using st by (cases st) (auto simp: bcv_state_ok_def)
  obtain pc :: "'a list" and depth where b: "bcv_search (\<lambda>x. x) g (int s) = Some (pc, depth)"
    and dep: "depths (nodes g) ?E s (?E\<^sup>* `` {s}) depth"
    and pc: "length pc = nodes g" "\<forall>v. (s, v) \<in> ?E\<^sup>* \<longrightarrow> pc ! v = of_nat (sig g s v)"
    using bcv_search_returns [OF ok s, where ?'a = 'a] by blast
  have d: "length depth = nodes g" "\<And>v. v < nodes g \<Longrightarrow> depth ! v = (if (s, v) \<in> ?E\<^sup>* then int (lev g s v) else -1)"
    using dep by (simp_all add: depths_def)
  have low: "-1 \<le> depth ! v" if "v < nodes g" for v using d(2) [OF that] by simp
  obtain vad where vad: "foldM (bcv_level depth) (vertices g) [] = Some vad"
    "\<forall>k < length vad. vad ! k = filter (\<lambda>v. depth ! v = int k) [0..<nodes g]" "\<forall>v < nodes g. depth ! v < int (length vad)"
    using bcv_levels [OF d(1) low] by (auto simp: vertices_nodes)
  let ?m = "length vad"
  let ?Z = "\<lambda>k. {v. (s, v) \<in> ?E\<^sup>* \<and> ?m - k \<le> lev g s v}"
  let ?body = "\<lambda>i ds. do { us \<leftarrow> rd vad i; foldM (bcv_vertex (\<lambda>x. x) (\<lambda>x. x) g pc depth) us ds }"
  have "returns (foldM ?body (rev [0..<?m]) (replicate (nodes g) 0, scores)) (bp_inv g s ((!) scores) {v. (s, v) \<in> ?E\<^sup>*})"
  proof (rule foldM_rule [where I = "\<lambda>k. bp_inv g s ((!) scores) (?Z k)"])
    have "lev g s v < ?m" if v: "(s, v) \<in> ?E\<^sup>*" for v
      using vad(3) d(2) [of v] gv.reach_less [OF v ok s] v by auto
    then have z: "?Z 0 = {}" by fastforce
    show "bp_inv g s ((!) scores) (?Z 0) (replicate (nodes g) 0, scores)" unfolding z using e(2) by (simp add: bp_inv_def)
  next
    fix k ds
    assume k: "k < length (rev [0..<?m])" and I: "bp_inv g s ((!) scores) (?Z k) ds"
    then have i: "rev [0..<?m] ! k = ?m - Suc k" and lt: "?m - Suc k < ?m" by (simp_all add: rev_nth)
    let ?us = "vad ! (?m - Suc k)"
    have us: "?us = filter (\<lambda>v. depth ! v = int (?m - Suc k)) [0..<nodes g]" using vad(2) lt by blast
    have set: "set ?us = layer ?E s (?m - Suc k)"
    proof (rule set_eqI)
      fix v
      have "v \<in> layer ?E s (?m - Suc k) \<longleftrightarrow> v < nodes g \<and> (s, v) \<in> ?E\<^sup>* \<and> lev g s v = ?m - Suc k"
        using reach_layer [of s v ?E] level_of_layer [of v ?E s] level_of_reach [of s v ?E] gv.reach_less [OF _ ok s, of v] by metis
      then show "v \<in> set ?us \<longleftrightarrow> v \<in> layer ?E s (?m - Suc k)" unfolding us using d(2) [of v]
        by (cases "v < nodes g"; cases "(s, v) \<in> ?E\<^sup>*") auto
    qed
    have dist: "distinct ?us" unfolding us by simp
    have Z: "?Z k = {v. (s, v) \<in> ?E\<^sup>* \<and> ?m - Suc k < lev g s v}" using k by auto
    have "returns (foldM (bcv_vertex (\<lambda>x. x) (\<lambda>x. x) g pc depth) ?us ds) (bp_inv g s ((!) scores) (?Z (Suc k)))"
      by (rule level_pass [OF ok s _ dist set Z I]) (rule bcv_vertex_step [OF ok s dep pc])
    then show "returns (?body (rev [0..<?m] ! k) ds) (bp_inv g s ((!) scores) (?Z (Suc k)))" unfolding i using lt by simp
  next
    fix ds
    assume "bp_inv g s ((!) scores) (?Z (length (rev [0..<?m]))) ds"
    then show "bp_inv g s ((!) scores) {v. (s, v) \<in> ?E\<^sup>*} ds" by simp
  qed
  then obtain deltas scores' where r: "foldM ?body (rev [0..<?m]) (replicate (nodes g) 0, scores) = Some (deltas, scores')"
    "bp_inv g s ((!) scores) {v. (s, v) \<in> ?E\<^sup>*} (deltas, scores')"
    using returns_ex by (metis (no_types, lifting) surj_pair)
  have "scores' ! v = betweenness (nodes g) (adj g) (srcs @ [s]) v" if "v < nodes g" for v
    using r(2) that old by (auto simp: bp_inv_def betweenness_def unreached_dependency [OF graph_rows_below [OF ok] s])
  then show ?thesis
    using p b vad(1) r by (simp add: bcv_iteration_def e nodes_def [symmetric] bcv_state_ok_def bp_inv_def)
qed

lemma max_element_Max: "max_element (\<lambda>x. x) b xs = Max (insert b (set xs))" for b :: "'a::linorder"
proof (induction xs arbitrary: b)
  case (Cons x xs)
  have "max_element (\<lambda>x. x) b (x # xs) = Max (insert (max b x) (set xs))"
    using Cons by (auto simp: max_def)
  also have "\<dots> = Max (insert b (insert x (set xs)))"
    by (cases "set xs = {}") (auto simp: Max_insert max.assoc)
  finally show ?case by simp
qed simp

text \<open>In exact arithmetic the verifier compares with the scores of its sources.\<close>

lemma BCVerifier_eq:
  assumes ok: "graph_ok g" and p: "picks g draws (nat num_iters) sp = Some (srcs, sp')" "set srcs \<subseteq> {..<nodes g}"
    and s: "s \<in> set srcs" "v \<in> set (adj g s)" "v \<noteq> s" and t: "length t = nodes g"
  shows "BCVerifier (\<lambda>x. x) (\<lambda>x. x) g draws sp num_iters t = Some
    (\<forall>u < nodes g. \<bar>t ! u - relative_betweenness (nodes g) (adj g) srcs u\<bar> \<le> (float_epsilon :: 'a::linordered_field), sp')"
proof -
  have sn: "s < nodes g" using s(1) p(2) by auto
  have start: "bcv_state_ok g [] sp (replicate (nodes g) (0 :: 'a), sp)" by (simp add: bcv_state_ok_def betweenness_def)
  have loop: "returns (foldM (\<lambda>iter. bcv_iteration (\<lambda>x. x) (\<lambda>x. x) g draws) [0..<nat num_iters] (replicate (nodes g) (0 :: 'a), sp))
      (bcv_state_ok g srcs sp')"
    by (rule picks_loop [where Q = "bcv_state_ok g", OF _ start p]) (rule bcv_iteration_step [OF ok])
  obtain sc where it: "foldM (\<lambda>iter. bcv_iteration (\<lambda>x. x) (\<lambda>x. x) g draws) [0..<nat num_iters] (replicate (nodes g) (0 :: 'a), sp) = Some (sc, sp')"
    "length sc = nodes g" "\<forall>v < nodes g. sc ! v = betweenness (nodes g) (adj g) srcs v"
    using returns_ex [OF loop] by (auto simp: bcv_state_ok_def)
  let ?b = "Max (betweenness (nodes g) (adj g) srcs ` {..<nodes g}) :: 'a"
  have "set sc = betweenness (nodes g) (adj g) srcs ` {..<nodes g}" using it(2,3) by (force simp: set_conv_nth)
  moreover obtain x xs where x: "sc = x # xs" using it(2) sn by (cases sc) auto
  ultimately have b: "max_element (\<lambda>x. x) x xs = ?b" by (simp add: max_element_Max)
  have "?b \<noteq> 0" using largest_betweenness [OF graph_rows_below [OF ok] s(1) sn s(2,3), where ?'a = 'a] by simp
  note norm = normalise_returns [OF it(2) this]
  let ?s = "map (\<lambda>s. s / ?b) sc"
  let ?far = "\<lambda>n. \<bar>t ! n - ?s ! n\<bar> > float_epsilon"
  have "returns (foldM (\<lambda>n all_ok. do { a \<leftarrow> rd t n; s \<leftarrow> rd ?s n; let delta = \<bar>a - s\<bar>; Some (if delta > float_epsilon then False else all_ok) }) [0..<nodes g] True)
    (\<lambda>all_ok. all_ok = (\<forall>n < nodes g. \<not> ?far n))"
    by (rule foldM_upt_rule [where I = "\<lambda>i all_ok. all_ok = (\<forall>n < i. \<not> ?far n)"]) (use t it(2) in \<open>auto simp: less_Suc_eq Let_def\<close>)
  then have cmp: "foldM (\<lambda>n all_ok. do { a \<leftarrow> rd t n; s \<leftarrow> rd ?s n; let delta = \<bar>a - s\<bar>; Some (if delta > float_epsilon then False else all_ok) }) (vertices g) True
    = Some (\<forall>n < nodes g. \<not> ?far n)" by (auto simp: returns_iff vertices_nodes)
  have rel: "?s ! u = relative_betweenness (nodes g) (adj g) srcs u" if "u < nodes g" for u
    using that it(2,3) by (simp add: relative_betweenness_def)
  have "BCVerifier (\<lambda>x. x) (\<lambda>x. x) g draws sp num_iters t = Some (\<forall>n < nodes g. \<not> ?far n, sp')"
    using it(1) norm cmp b by (simp add: BCVerifier_def nodes_def [symmetric] x)
  then show ?thesis by (simp add: rel not_less)
qed

section \<open>Properties\<close>

text \<open>C7: The verifier of betweenness decides what it says it does: in exact arithmetic it returns for every array of scores and
  accepts exactly those that are within the machine epsilon of the betweenness of every vertex, relative to the
  largest, for the sources of its picker.\<close>

theorem BCVerifier_decides:
  assumes "graph_ok g" "picks g draws (nat num_iters) sp = Some (srcs, sp')" "set srcs \<subseteq> {..<nodes g}"
    and "s \<in> set srcs" "v \<in> set (adj g s)" "v \<noteq> s" and "length t = nodes g"
  shows "BCVerifier (\<lambda>x. x) (\<lambda>x. x) g draws sp num_iters t = Some
    (\<forall>u < nodes g. \<bar>t ! u - relative_betweenness (nodes g) (adj g) srcs u\<bar> \<le> (float_epsilon :: 'a::linordered_field), sp')"
  by (rule BCVerifier_eq [OF assms])

lemma BCVerifier_decides_witness:
  "BCVerifier (\<lambda>x. x) (\<lambda>x. x) path_of_three (\<lambda>_. 0) (SourcePicker 0) 2
      (map (relative_betweenness 4 (adj path_of_three) [0, 0]) [0..<4] :: rat list) = Some (True, SourcePicker 0)"
proof -
  have n: "nat 2 = 2" by simp
  have a: "1 \<in> set (adj path_of_three 0)" by (simp add: path_of_three_simps path_rows_def)
  show ?thesis
    using BCVerifier_decides [OF path_of_three_graph_ok path_of_three_picks [folded n] _ _ a,
        of "map (relative_betweenness 4 (adj path_of_three) [0, 0]) [0..<4] :: rat list"]
    by (simp add: path_of_three_simps float_epsilon_def)
qed


end
