(* ===== verification/BCMain.thy ===== *)
theory BCMain
  imports BCCheck Programs
begin

text \<open>
  \<^verbatim>\<open>main\<close> of src/bc.cc, and its run from the command line to the log in exact arithmetic.
\<close>

definition PrintTopBetweenness :: "nat csr_graph \<Rightarrow> 'a::linordered_field list \<Rightarrow> ('a \<times> nat) list option" where
  \<comment> \<open>\<^verbatim>\<open>PrintTopScores\<close> of src/bc.cc: the pairs that are printed\<close>
  "PrintTopBetweenness g scores = do {
     score_pairs \<leftarrow> foldM (\<lambda>n ps. do { s \<leftarrow> rd scores n; wr ps n (n, s) }) (vertices g) (uninit (nat (csr_num_nodes g)));
     TopK score_pairs 5 }"

definition bc_main where
  \<comment> \<open>the kernel and the verifier draw their sources from two pickers with the same seed\<close>
  "bc_main fl db draws opts fs generate region mem =
     rbind (ParseArgs CLIterApp_HandleArg opts (CLIterApp ''betweenness-centrality'' 1)) (\<lambda>(cli, ok).
     if \<not> ok then Inl (Exit (-1))
     else rbind (BuilderBase False cli) (\<lambda>b.
       rbind (assert_that (cl_host_id cli \<ge> 0)) (\<lambda>_.
       rbind (assert_that (cl_size_in_gib cli > 0)) (\<lambda>_.
       rbind (MakeGraph fs generate True cli b (cl_host_id cli) region mem) (\<lambda>(g, t).
       of_opt (BenchmarkKernel (cl_app.truncate cli)
         (\<lambda>(sp, vsp). do { (scores, sp) \<leftarrow> Brandes fl db g draws sp (cl_num_iters cli); Some (scores, sp, vsp) })
         (\<lambda>scores (sp, vsp). do { (ok, vsp) \<leftarrow> BCVerifier fl db g draws vsp (cl_num_iters cli) scores; Some (ok, sp, vsp) })
         (SourcePicker (cl_start_vertex cli), SourcePicker (cl_start_vertex cli))))))))"

section \<open>What is printed\<close>

lemma PrintTopBetweenness_returns:
  assumes g: "csr_num_nodes g \<ge> 0" and l: "length scores = nodes g"
  shows "\<exists>best. PrintTopBetweenness g scores = Some best \<and> map fst best = largest 5 scores \<and> (\<forall>(s, v) \<in> set best. v < nodes g \<and> s = scores ! v)"
proof -
  let ?ps = "map (\<lambda>n. (n, scores ! n)) [0..<nodes g]"
  have "returns (foldM (\<lambda>n ps. do { s \<leftarrow> rd scores n; wr ps n (n, s) }) [0..<nodes g] (uninit (nodes g))) (\<lambda>ps. ps = ?ps)"
  proof (rule foldM_upt_rule [where I = "\<lambda>i ps. length ps = nodes g \<and> (\<forall>j < i. ps ! j = (j, scores ! j))"])
    show "ps = ?ps" if "length ps = nodes g \<and> (\<forall>j < nodes g. ps ! j = (j, scores ! j))" for ps
      by (rule nth_equalityI) (use that in simp_all)
  qed (use l in \<open>auto simp: nth_list_update less_Suc_eq\<close>)
  then have ps: "foldM (\<lambda>n ps. do { s \<leftarrow> rd scores n; wr ps n (n, s) }) (vertices g) (uninit (nat (csr_num_nodes g))) = Some ?ps"
    by (auto simp: returns_iff vertices_nodes nodes_def)
  have sc: "map snd ?ps = scores" using l by (intro nth_equalityI) simp_all
  obtain best where b: "TopK ?ps 5 = Some best" "map fst best = largest 5 scores" "mset best \<subseteq># mset (map prod.swap ?ps)"
    using returns_ex [OF TopK_returns [of 5 ?ps]] sc by auto
  have "v < nodes g \<and> s = scores ! v" if "(s, v) \<in> set best" for s v
    using set_mset_mono [OF b(3)] that by auto
  then show ?thesis using ps b by (auto simp: PrintTopBetweenness_def)
qed

section \<open>Sources\<close>

lemma PickNext_neighbor:
  assumes ok: "graph_ok g" and fair: "fair_draws g draws"
    and start: "sp_given_source sp = -1 \<or> (\<exists>v < nodes g. sp_given_source sp = int v \<and> adj g v \<noteq> [])"
  shows "\<exists>v sp'. PickNext g draws sp = Some (int v, sp') \<and> v < nodes g \<and> adj g v \<noteq> [] \<and> sp_given_source sp' = sp_given_source sp"
proof (cases "sp_given_source sp = -1")
  case True
  obtain j where j: "j \<ge> sp_pos sp" "adj g (draws j) \<noteq> []" using fair by (auto simp: fair_draws_def)
  have r: "draws k < nodes g" for k using fair by (simp add: fair_draws_def)
  obtain v k where "pick_from g draws (sp_pos sp) = Some (v, k)" "v < nodes g" "adj g v \<noteq> []"
    using pick_from_returns [OF ok [unfolded graph_ok_def], of draws "sp_pos sp" j] r j by blast
  then show ?thesis using True by (simp add: PickNext_def)
next
  case False
  then obtain v where "v < nodes g" "sp_given_source sp = int v" "adj g v \<noteq> []" using start by blast
  then show ?thesis by (simp add: PickNext_def)
qed

lemma picks_returns:
  assumes ok: "graph_ok g" and fair: "fair_draws g draws"
    and start: "sp_given_source sp = -1 \<or> (\<exists>v < nodes g. sp_given_source sp = int v \<and> adj g v \<noteq> [])"
  shows "\<exists>srcs sp'. picks g draws k sp = Some (srcs, sp') \<and> length srcs = k \<and> sp_given_source sp' = sp_given_source sp \<and>
    (\<forall>s \<in> set srcs. s < nodes g \<and> adj g s \<noteq> [])"
proof (induction k)
  case (Suc k)
  then obtain srcs sq where p: "picks g draws k sp = Some (srcs, sq)" "length srcs = k" "sp_given_source sq = sp_given_source sp"
    "\<forall>s \<in> set srcs. s < nodes g \<and> adj g s \<noteq> []" by blast
  have "sp_given_source sq = -1 \<or> (\<exists>v < nodes g. sp_given_source sq = int v \<and> adj g v \<noteq> [])" using start p(3) by simp
  from PickNext_neighbor [OF ok fair this]
  obtain v sp' where "PickNext g draws sq = Some (int v, sp')" "v < nodes g" "adj g v \<noteq> []" "sp_given_source sp' = sp_given_source sq" by blast
  then show ?case using p by auto
qed simp

section \<open>The graph of an edge list\<close>

text \<open>The rows hold every edge twice, so halving their number loses nothing and the bitmap of successors is large enough.\<close>

lemma even_symmetric:
  assumes fin: "finite R" and sym: "\<And>u v. (u, v) \<in> R \<Longrightarrow> (v, u) \<in> R \<and> u \<noteq> (v :: nat)"
  shows "even (card R)"
proof -
  let ?A = "{(u, v) \<in> R. u < v}" and ?B = "{(u, v) \<in> R. v < u}"
  have swap: "?B = prod.swap ` ?A" using sym by (force simp: image_iff)
  have split: "R = ?A \<union> ?B" using sym by force
  have "finite ?A" "finite ?B" by (rule finite_subset [OF _ fin]; auto)+
  then have "card (?A \<union> ?B) = card ?A + card ?B" by (rule card_Un_disjoint) auto
  then have "card R = card ?A + card ?B" by (simp only: split [symmetric])
  also have "card ?B = card ?A" unfolding swap by (rule card_image) (rule inj_swap)
  finally show ?thesis by simp
qed

lemma cells_even: "even (cells (simple_rows el))"
proof -
  define n where "n = Suc (FindMaxNodeID (\<lambda>v. v) el)"
  let ?R = "SIGMA u : {..<n}. simple_neighbors el u"
  have range: "v < n" if "v \<in> simple_neighbors el u" for u v using simple_neighbors_range [OF that] by (simp only: n_def)
  note fin = finite_simple_neighbors
  have rows: "simple_rows el = map (\<lambda>u. sorted_list_of_set (simple_neighbors el u)) [0..<n]" by (simp only: simple_rows_def n_def)
  have "cells (simple_rows el) = (\<Sum>u \<leftarrow> [0..<n]. card (simple_neighbors el u))"
    unfolding rows by (simp add: cells_def length_concat comp_def)
  also have "\<dots> = (\<Sum>u < n. card (simple_neighbors el u))" by (simp add: sum_list_distinct_conv_sum_set atLeast0LessThan)
  also have "\<dots> = card ?R" using fin by (simp add: card_SigmaI)
  finally have c: "cells (simple_rows el) = card ?R" .
  have "even (card ?R)"
  proof (rule even_symmetric)
    show "finite ?R" by (intro finite_SigmaI finite_lessThan fin)
    fix u v assume "(u, v) \<in> ?R"
    then have v: "v \<in> simple_neighbors el u" by blast
    then have "u \<noteq> v" unfolding simple_neighbors_def by blast
    then show "(v, u) \<in> ?R \<and> u \<noteq> v" using simple_neighbors_sym [OF v] range [OF v] by blast
  qed
  then show ?thesis unfolding c .
qed

lemma region_graph_index:
  "int (csr_out_index (region_graph rows ws) ! nodes (region_graph rows ws)) - int (csr_out_index (region_graph rows ws) ! 0) = int (cells rows)"
  by (simp add: region_graph_def nodes_def row_starts_def)

lemma region_graph_counted:
  assumes "edges_fit el"
  shows "edges_counted (region_graph (simple_rows el) ws)"
proof -
  let ?g = "region_graph (simple_rows el) ws" and ?c = "cells (simple_rows el)"
  have "num_edges_directed ?g = Some (int ?c)"
    using cells_even [of el] by (auto simp: num_edges_directed_def region_graph_def elim!: evenE)
  moreover note region_graph_index [of "simple_rows el" ws]
  moreover have "?c < 2 ^ 62" using simple_rows_size [of el] edges_fit_length [OF assms] by simp
  ultimately show ?thesis unfolding edges_counted_def by simp
qed

text \<open>The scores in terms of the edge list alone.\<close>

definition edge_rows :: "(nat, nat) edge_pair list \<Rightarrow> nat \<Rightarrow> nat list" where
  "edge_rows el u = sorted_list_of_set (simple_neighbors el u)"

lemma paths_cong:
  assumes w: "rows_below n nb" and eq: "\<And>u. u < n \<Longrightarrow> nb u = nb' u"
  shows "s < n \<Longrightarrow> paths nb s k = paths nb' s k"
proof (induction k arbitrary: s)
  case (Suc k)
  have "map (\<lambda>v. map ((#) s) (paths nb v k)) (nb s) = map (\<lambda>v. map ((#) s) (paths nb' v k)) (nb s)"
    by (rule map_cong [OF refl]) (simp add: Suc.IH [OF rows_belowD [OF w Suc.prems]])
  then show ?case unfolding paths.simps eq [OF Suc.prems, symmetric] by (rule arg_cong)
qed simp

lemma relative_betweenness_cong:
  assumes w: "rows_below n nb" and eq: "\<And>u. u < n \<Longrightarrow> nb u = nb' u" and s: "set srcs \<subseteq> {..<n}"
  shows "(relative_betweenness n nb srcs u :: 'a::linordered_field) = relative_betweenness n nb' srcs u"
proof -
  have "arcs n nb = arcs n nb'" using eq by (auto simp: arcs_def)
  then have "(dependency n nb s v :: 'a) = dependency n nb' s v" if "s < n" for s v
    unfolding dependency_def through_def wcount_def by (simp add: paths_cong [OF w eq that])
  then have "(\<Sum>s \<leftarrow> srcs. dependency n nb s v :: 'a) = (\<Sum>s \<leftarrow> srcs. dependency n nb' s v)" for v
    using s by (intro arg_cong [where f = sum_list] map_cong) auto
  then show ?thesis by (simp add: relative_betweenness_def betweenness_def)
qed

section \<open>Properties\<close>

definition bc_scores_ok :: "(nat, nat) edge_pair list \<Rightarrow> int \<Rightarrow> nat \<Rightarrow> 'a::linordered_field list \<Rightarrow> bool" where
  \<comment> \<open>the relative betweenness for k sources that have a neighbour, all the given vertex if one is given\<close>
  "bc_scores_ok el start k scores \<longleftrightarrow> (let n = Suc (FindMaxNodeID (\<lambda>v. v) el) in
     \<exists>srcs. length srcs = k \<and> (\<forall>s \<in> set srcs. simple_neighbors el s \<noteq> {}) \<and> (start \<noteq> -1 \<longrightarrow> set srcs \<subseteq> {nat start}) \<and>
       scores = map (relative_betweenness n (edge_rows el) srcs) [0..<n])"

lemma picks_given: "picks g draws k sp = Some (srcs, sp') \<Longrightarrow> sp_given_source sp \<noteq> -1 \<Longrightarrow> set srcs \<subseteq> {nat (sp_given_source sp)} \<and> sp' = sp"
proof (induction k arbitrary: srcs sp')
  case (Suc k)
  then obtain ss sq s where p: "picks g draws k sp = Some (ss, sq)" "PickNext g draws sq = Some (s, sp')" "srcs = ss @ [nat s]"
    by (auto simp: bind_eq_Some_conv split: if_splits)
  have i: "set ss \<subseteq> {nat (sp_given_source sp)}" "sq = sp" using Suc.IH [OF p(1) Suc.prems(2)] by simp_all
  then show ?case using p(2,3) Suc.prems(2) by (auto simp: PickNext_def)
qed simp

text \<open>One run of the kernel and of the verifier from the same picker.\<close>

lemma bc_run:
  assumes g: "simple_graph g" and n: "nodes g = Suc (FindMaxNodeID (\<lambda>v. v) el)"
    and rows: "\<And>u. u < nodes g \<Longrightarrow> adj g u = edge_rows el u" and m: "edges_counted g" and fair: "fair_draws g draws"
    and start: "start = -1 \<or> 0 \<le> start \<and> simple_neighbors el (nat start) \<noteq> {}" and sp: "sp_given_source sp = start" and k: "0 < num_iters"
  shows "\<exists>scores sp'. Brandes (\<lambda>x. x) (\<lambda>x. x) g draws sp num_iters = Some (scores :: 'a::linordered_field list, sp') \<and>
    bc_scores_ok el start (nat num_iters) scores \<and> sp_given_source sp' = start \<and>
    BCVerifier (\<lambda>x. x) (\<lambda>x. x) g draws sp num_iters scores = Some (True, sp')"
proof -
  let ?n = "nodes g"
  have ok: "graph_ok g" using g by (auto simp: simple_graph_def)
  have nb: "set (adj g u) = simple_neighbors el u" if "u < ?n" for u
    using rows [OF that] finite_simple_neighbors [of el u] by (simp add: edge_rows_def)
  have "sp_given_source sp = -1 \<or> (\<exists>v < ?n. sp_given_source sp = int v \<and> adj g v \<noteq> [])"
  proof (cases "start = -1")
    case False
    then obtain w where w: "w \<in> simple_neighbors el (nat start)" "0 \<le> start" using start by auto
    have "nat start < ?n" unfolding n by (rule simple_neighbors_range [OF simple_neighbors_sym [OF w(1)]])
    moreover have "adj g (nat start) \<noteq> []" using nb [OF calculation] w(1) by auto
    ultimately show ?thesis using sp w(2) by (intro disjI2 exI [of _ "nat start"]) simp
  qed (simp add: sp)
  from picks_returns [OF ok fair this, of "nat num_iters"]
  obtain srcs sp' where p: "picks g draws (nat num_iters) sp = Some (srcs, sp')" "length srcs = nat num_iters"
    "sp_given_source sp' = start" "\<forall>s \<in> set srcs. s < ?n \<and> adj g s \<noteq> []" using sp by auto
  have sub: "set srcs \<subseteq> {..<?n}" using p(4) by auto
  obtain s ss where s: "srcs = s # ss" using p(2) k by (cases srcs) auto
  have s': "s \<in> set srcs" "s < ?n" "adj g s \<noteq> []" using p(4) s by simp_all
  then obtain v where v: "v \<in> set (adj g s)" by (meson last_in_set)
  then have vs: "v \<noteq> s" using nb [OF s'(2)] by (auto simp: simple_neighbors_def)
  let ?sc = "map (relative_betweenness ?n (adj g) srcs) [0..<?n] :: 'a list"
  have br: "Brandes (\<lambda>x. x) (\<lambda>x. x) g draws sp num_iters = Some (?sc, sp')" by (rule Brandes_eq [OF ok m p(1) sub s'(1) v vs])
  have len: "length ?sc = ?n" by simp
  have acc: "\<forall>u < ?n. \<bar>?sc ! u - relative_betweenness ?n (adj g) srcs u\<bar> \<le> float_epsilon" by (simp add: float_epsilon_def)
  have ve: "BCVerifier (\<lambda>x. x) (\<lambda>x. x) g draws sp num_iters ?sc = Some (True, sp')"
    using BCVerifier_eq [OF ok p(1) sub s'(1) v vs len] acc by simp
  have sc: "?sc = map (relative_betweenness ?n (edge_rows el) srcs) [0..<?n]"
    by (rule map_cong [OF refl]) (rule relative_betweenness_cong [OF graph_rows_below [OF ok] rows sub])
  have "\<forall>s \<in> set srcs. simple_neighbors el s \<noteq> {}" using p(4) nb by (metis set_empty)
  moreover have "start \<noteq> -1 \<longrightarrow> set srcs \<subseteq> {nat start}" using picks_given [OF p(1)] sp by auto
  ultimately have "bc_scores_ok el start (nat num_iters) ?sc"
    unfolding bc_scores_ok_def Let_def n [symmetric] sc using p(2) by blast
  then show ?thesis using br ve p(3) by blast
qed

text \<open>C5: The betweenness program, from the command line to the log, in exact arithmetic.  On host 0, for every generated edge
  list that fits the region and the 32-bit degree counters, each run of \<^verbatim>\<open>main\<close> returns for every vertex the sum over the sources of the shares of
  shortest paths through the vertex, relative to the largest sum, and with \<^verbatim>\<open>-v\<close> each verification passes,
  because the second picker repeats the sources of the first.\<close>

theorem bc_main_scores:
  assumes parse: "ParseArgs CLIterApp_HandleArg opts (CLIterApp ''betweenness-centrality'' 1) = Inr (cli, True)"
    and o: "cl_filename cli = ''''" "cl_scale cli \<noteq> -1" "cl_host_id cli = 0" "cl_size_in_gib cli > 0" "\<not> cl_in_place cli"
    and gen: "generate (cl_scale cli) (cl_degree cli) 0 (cl_uniform cli) = Inr el"
    and fit: "edges_fit el"
    and f: "fits (simple_rows el) (length (shm_words s))" and fair: "fair_for el draws"
    and start: "cl_start_vertex cli = -1 \<or> 0 \<le> cl_start_vertex cli \<and> simple_neighbors el (nat (cl_start_vertex cli)) \<noteq> {}"
    and iters: "0 < cl_num_iters cli"
  shows "\<exists>st log. bc_main (\<lambda>x. x) (\<lambda>x. x) draws opts fs generate (Inr s) mem = Inr (st, log) \<and>
    log_ok (cl_app.truncate cli) (bc_scores_ok el (cl_start_vertex cli) (nat (cl_num_iters cli)) :: 'a::linordered_field list \<Rightarrow> bool)
      (nat (cl_num_trials cli)) log"
proof -
  note small = edges_fit_ids [OF fit]
  obtain t where t: "MakeGraph fs generate True cli (plain_builder (-1) SIZE_MAX) 0 (Inr s) mem = Inr (region_graph (simple_rows el) (shm_words t), t)"
    "layout (simple_rows el) (shm_words t)" "fits (simple_rows el) (length (shm_words t))"
    using MakeGraph_region [where generate = generate, OF o(1,2) gen o(3) fit f] by blast
  define g where "g = region_graph (simple_rows el) (shm_words t)"
  note k = region_graph_kernels [OF t(2,3) small, folded g_def]
  note rr = region_graph_rows [OF t(2,3) small_ids_simple_rows [OF small] simple_rows_range, folded g_def]
  have rows: "adj g u = edge_rows el u" if "u < nodes g" for u
    using rr(3) that k(7) by (simp add: nth_simple_rows edge_rows_def)
  have cnt: "edges_counted g" unfolding g_def by (rule region_graph_counted [OF fit])
  let ?R = "bc_scores_ok el (cl_start_vertex cli) (nat (cl_num_iters cli)) :: 'a list \<Rightarrow> bool"
  let ?I = "\<lambda>(sp, vsp). (cl_do_verify cli \<longrightarrow> vsp = sp) \<and> sp_given_source sp = cl_start_vertex cli"
  let ?kern = "\<lambda>(sp, vsp). do { (scores :: 'a list, sp) \<leftarrow> Brandes (\<lambda>x. x) (\<lambda>x. x) g draws sp (cl_num_iters cli); Some (scores, sp, vsp) }"
  let ?verify = "\<lambda>scores (sp, vsp). do { (ok, vsp) \<leftarrow> BCVerifier (\<lambda>x. x) (\<lambda>x. x) g draws vsp (cl_num_iters cli) scores; Some (ok, sp, vsp) }"
  have good: "good_trial (cl_app.truncate cli) ?I ?R ?kern ?verify st" if st: "?I st" for st :: "source_picker \<times> source_picker"
  proof -
    obtain sp vsp where sp: "st = (sp, vsp)" "cl_do_verify cli \<longrightarrow> vsp = sp" "sp_given_source sp = cl_start_vertex cli"
      using st by (cases st) auto
    from bc_run [OF k(1,7) rows cnt fair_for_graph [OF k(7,8) fair] start sp(3) iters, where ?'a = 'a]
    obtain sc :: "'a list" and sp' where r: "Brandes (\<lambda>x. x) (\<lambda>x. x) g draws sp (cl_num_iters cli) = Some (sc, sp')" "?R sc"
      "sp_given_source sp' = cl_start_vertex cli" "BCVerifier (\<lambda>x. x) (\<lambda>x. x) g draws sp (cl_num_iters cli) sc = Some (True, sp')" by blast
    then show ?thesis unfolding good_trial_def sp(1) using sp(2) by (simp add: cl_app.truncate_def)
  qed
  let ?init = "(SourcePicker (cl_start_vertex cli), SourcePicker (cl_start_vertex cli))"
  have init: "?I ?init" by (simp add: SourcePicker_def)
  obtain st log where log: "BenchmarkKernel (cl_app.truncate cli) ?kern ?verify ?init = Some (st, log)"
    "log_ok (cl_app.truncate cli) ?R (nat (cl_num_trials cli)) log"
    using returns_pair [OF BenchmarkKernel_verifies [where I = ?I, OF good init]] by (auto simp: cl_app.truncate_def)
  have "cl_symmetrize cli" using parse o by (auto simp: ParseArgs_def rbind_eq_Inr split: if_splits)
  then have "BuilderBase False cli = Inr (plain_builder (-1) SIZE_MAX)"
    using o by (simp add: BuilderBase_def plain_builder_def)
  then have "bc_main (\<lambda>x. x) (\<lambda>x. x) draws opts fs generate (Inr s) mem = Inr (st, log)"
    using parse o t(1) log(1) by (simp add: bc_main_def g_def)
  then show ?thesis using log(2) by blast
qed

definition bc_cli :: cl_iter_app where
  "bc_cli = (CLIterApp ''betweenness-centrality'' 1)
     \<lparr>cl_scale := 2, cl_host_id := 0, cl_size_in_gib := 1, cl_do_verify := True, cl_symmetrize := True, cl_num_iters := 2\<rparr>"

lemma bc_fields:
  "cl_filename bc_cli = ''''" "cl_scale bc_cli = 2" "cl_host_id bc_cli = 0" "cl_size_in_gib bc_cli = 1" "\<not> cl_in_place bc_cli"
  "cl_num_iters bc_cli = 2" "cl_num_trials bc_cli = 16" "cl_start_vertex bc_cli = -1"
  by (simp_all add: bc_cli_def CLIterApp_def Let_def AddHelpLine_def cl_app.extend_def cl_iter_app.fields_def CLApp_defaults)

lemma bc_main_scores_witness:
  "\<exists>st log. bc_main (\<lambda>x. x) (\<lambda>x. x) (\<lambda>_. 0) (example_opts @ [(CHR ''i'', ''2'')]) Map.empty example_generate (Inr example_shm) (\<lambda>_. []) = Inr (st, log) \<and>
    Verified False \<notin> set log \<and> (\<forall>scores :: rat list. Ran scores \<in> set log \<longrightarrow> length scores = 3)"
proof -
  have "atoi ''2'' = Inr 2" "atoi ''0'' = Inr 0" "atoi ''1'' = Inr 1"
    by (simp_all add: atoi_def read_int_def is_space_def digit_of_def)
  then have p: "ParseArgs CLIterApp_HandleArg (example_opts @ [(CHR ''i'', ''2'')]) (CLIterApp ''betweenness-centrality'' 1) = Inr (bc_cli, True)"
    by (simp add: ParseArgs_def CLBase_HandleArg_def CLApp_HandleArg_def CLIterApp_HandleArg_def example_opts_def bc_cli_def)
  have r: "edges_fit example_el" "fits (simple_rows example_el) (length (shm_words example_shm))"
    using example_run [of "''betweenness-centrality''"] by (simp_all add: good_run_def)
  obtain st log where log: "bc_main (\<lambda>x. x) (\<lambda>x. x) (\<lambda>_. 0) (example_opts @ [(CHR ''i'', ''2'')]) Map.empty example_generate (Inr example_shm) (\<lambda>_. []) = Inr (st, log)"
    "log_ok (cl_app.truncate bc_cli) (bc_scores_ok example_el (cl_start_vertex bc_cli) (nat (cl_num_iters bc_cli)) :: rat list \<Rightarrow> bool) (nat (cl_num_trials bc_cli)) log"
    using bc_main_scores [OF p _ _ _ _ _ _ r example_fair, of example_generate Map.empty "\<lambda>_. []", where ?'a = rat] bc_fields
    by (auto simp: example_generate_def)
  have "length scores = 3" if "bc_scores_ok example_el x y scores" for x y and scores :: "rat list"
    using that by (auto simp: bc_scores_ok_def Let_def example_neighbors(4))
  then show ?thesis using log unfolding log_ok_def by blast
qed


end
