(* ===== verification/Threads.thy ===== *)
theory Threads
  imports Prelude
begin

text \<open>
  A team of threads over shared data, for the parallel sections of the kernels.  \<open>act\<close> is what one thread does in one step,
  which is one access to the shared data; any thread that is not finished may move next, so the runs are all
  interleavings.  The locale \<open>team\<close> is the rule for an invariant of the team that counts down its work.
\<close>

section \<open>Runs\<close>

inductive team_step :: "('t \<Rightarrow> 's \<Rightarrow> ('t \<times> 's) option) \<Rightarrow> 't list \<times> 's \<Rightarrow> 't list \<times> 's \<Rightarrow> bool" for act where
  team_move: "i < length ts \<Longrightarrow> act (ts ! i) sh = Some (t, sh') \<Longrightarrow> team_step act (ts, sh) (ts[i := t], sh')"

inductive_cases team_stepE: "team_step act (ts, sh) c"

definition team_ends :: "('t \<Rightarrow> 's \<Rightarrow> ('t \<times> 's) option) \<Rightarrow> ('t \<Rightarrow> bool) \<Rightarrow> nat \<Rightarrow> 't list \<times> 's \<Rightarrow> ('t list \<Rightarrow> 's \<Rightarrow> bool) \<Rightarrow> bool" where
  \<comment> \<open>under every schedule the team stops within k steps, no thread is stuck, and Q holds when all are finished\<close>
  "team_ends act finished k c Q \<longleftrightarrow> (\<forall>j ts sh. (team_step act ^^ j) c (ts, sh) \<longrightarrow>
     j \<le> k \<and> (\<forall>t \<in> set ts. finished t \<or> act t sh \<noteq> None) \<and> ((\<forall>t \<in> set ts. finished t) \<longrightarrow> Q ts sh))"

definition team_result :: "('t \<Rightarrow> 's \<Rightarrow> ('t \<times> 's) option) \<Rightarrow> ('t \<Rightarrow> bool) \<Rightarrow> 't list \<times> 's \<Rightarrow> 't list \<Rightarrow> 's \<Rightarrow> bool" where
  \<comment> \<open>a run until all threads are finished\<close>
  "team_result act finished c ts sh \<longleftrightarrow> (team_step act)\<^sup>*\<^sup>* c (ts, sh) \<and> (\<forall>t \<in> set ts. finished t)"

lemma team_endsD: "team_ends act finished k c Q \<Longrightarrow> team_result act finished c ts sh \<Longrightarrow> Q ts sh"
  by (auto simp: team_ends_def team_result_def rtranclp_power)

lemma team_ends_mono: "team_ends act finished k c Q \<Longrightarrow> (\<And>ts sh. Q ts sh \<Longrightarrow> R ts sh) \<Longrightarrow> team_ends act finished k c R"
  unfolding team_ends_def by blast

lemma team_ends_result:
  assumes e: "team_ends act finished k c Q"
  shows "\<exists>ts sh. team_result act finished c ts sh"
proof -
  let ?runs = "\<lambda>j. \<exists>ts sh. (team_step act ^^ j) c (ts, sh)"
  obtain ts0 sh0 where "c = (ts0, sh0)" by (cases c)
  then have "?runs 0" by simp
  moreover have "j \<le> k" if "?runs j" for j using that e by (auto simp: team_ends_def)
  ultimately obtain j where j: "?runs j" "\<And>i. ?runs i \<Longrightarrow> i \<le> j" using Nat.ex_has_greatest_nat [of ?runs 0 k] by blast
  then obtain ts sh where run: "(team_step act ^^ j) c (ts, sh)" by blast
  have "finished t" if t: "t \<in> set ts" for t
  proof (rule ccontr)
    assume "\<not> finished t"
    moreover have "finished t \<or> act t sh \<noteq> None" using e run t unfolding team_ends_def by blast
    ultimately obtain t' sh' where "act t sh = Some (t', sh')" by auto
    moreover obtain i where "i < length ts" "t = ts ! i" using t by (auto simp: in_set_conv_nth)
    ultimately have "team_step act (ts, sh) (ts[i := t'], sh')" by (auto intro: team_move)
    then have "?runs (Suc j)" using run by auto
    then show False using j(2) by fastforce
  qed
  then show ?thesis using run by (auto simp: team_result_def rtranclp_power)
qed

section \<open>The rule\<close>

lemma mset_split_at:
  assumes "i < length xs"
  shows "\<exists>R. mset xs = add_mset (xs ! i) R \<and> (\<forall>x. mset (xs[i := x]) = add_mset x R)"
  using assms by (intro exI [of _ "mset xs - {#xs ! i#}"]) (simp add: mset_update)

locale team =
  fixes act :: "'t \<Rightarrow> 's \<Rightarrow> ('t \<times> 's) option"
    and finished :: "'t \<Rightarrow> bool"
    and inv :: "'p \<Rightarrow> 't multiset \<Rightarrow> 's \<Rightarrow> bool"
    and work :: "'p \<Rightarrow> 't multiset \<Rightarrow> 's \<Rightarrow> nat"
  assumes progress: "inv p (add_mset t R) sh \<Longrightarrow> \<not> finished t \<Longrightarrow>
      \<exists>t' sh'. act t sh = Some (t', sh') \<and> inv p (add_mset t' R) sh' \<and> work p (add_mset t' R) sh' < work p (add_mset t R) sh"
    and finished_act: "finished t \<Longrightarrow> act t sh = None"
begin

lemma step_inv:
  assumes I: "inv p (mset ts) sh" and step: "team_step act (ts, sh) (ts', sh')"
  shows "inv p (mset ts') sh' \<and> work p (mset ts') sh' < work p (mset ts) sh"
  using step
proof cases
  case (team_move i t)
  obtain R where R: "mset ts = add_mset (ts ! i) R" "\<And>x. mset (ts[i := x]) = add_mset x R"
    using mset_split_at [OF team_move(2)] by metis
  have "\<not> finished (ts ! i)" using finished_act team_move(3) by fastforce
  from progress [OF I [unfolded R] this] show ?thesis using team_move R by auto
qed

lemma run_inv:
  assumes "inv p (mset ts) sh"
  shows "(team_step act ^^ j) (ts, sh) (ts', sh') \<Longrightarrow> inv p (mset ts') sh' \<and> work p (mset ts') sh' + j \<le> work p (mset ts) sh"
proof (induction j arbitrary: ts' sh')
  case (Suc j)
  then obtain ts1 sh1 where "(team_step act ^^ j) (ts, sh) (ts1, sh1)" "team_step act (ts1, sh1) (ts', sh')" by auto
  then show ?case using Suc.IH [of ts1 sh1] step_inv [of p ts1 sh1 ts' sh'] by fastforce
qed (use assms in simp)

lemma ends:
  assumes I: "inv p (mset ts) sh" and k: "work p (mset ts) sh \<le> k"
    and Q: "\<And>ts' sh'. inv p (mset ts') sh' \<Longrightarrow> \<forall>t \<in> set ts'. finished t \<Longrightarrow> length ts' = length ts \<Longrightarrow> Q ts' sh'"
  shows "team_ends act finished k (ts, sh) Q"
  unfolding team_ends_def
proof (intro allI impI)
  fix j ts' sh'
  assume run: "(team_step act ^^ j) (ts, sh) (ts', sh')"
  note inv = run_inv [OF I run]
  have "length ts' = length ts"
    using run by (induction j arbitrary: ts' sh') (auto elim!: team_stepE)
  moreover have "finished t \<or> act t sh' \<noteq> None" if "t \<in> set ts'" for t
  proof -
    obtain R where "mset ts' = add_mset t R" using \<open>t \<in> set ts'\<close> by (metis insert_DiffM set_mset_mset)
    then show ?thesis using progress [of p t R sh'] inv by fastforce
  qed
  ultimately show "j \<le> k \<and> (\<forall>t \<in> set ts'. finished t \<or> act t sh' \<noteq> None) \<and> ((\<forall>t \<in> set ts'. finished t) \<longrightarrow> Q ts' sh')"
    using inv k Q by auto
qed

end

lemma sum_mset_list: "(\<Sum>x \<in># mset xs. f x) = (\<Sum>x \<leftarrow> xs. f x)"
  by (metis mset_map sum_mset_sum_list)

end
