(* ===== verification/BFSParallel.thy ===== *)
theory BFSParallel
  imports BFS Threads
begin

text \<open>
  The parallel section of \<^verbatim>\<open>TDStep\<close> (src/bfs.cc), run by several threads.  Each thread has the edges of the frontier
  vertices the scheduler gave it, in the order in which it visits them, and a buffer of its own.  The steps of a thread are
  the reading of a parent, the compare-and-swap on it, with the append to the thread's own buffer after a success, and the flush
  at the end.  A flush reserves its cells of the queue by one \<^verbatim>\<open>fetch_and_add\<close>; no other thread touches these cells before the
  end of the section, so the copy into them is part of the same step.  The barrier between the loop and the flushes is left out,
  which only adds runs.  Any thread may move, so every interleaving is a run.
\<close>

section \<open>The steps of the threads\<close>

datatype td_pc = TdLoad | TdSwap int | TdDone

record td_thread =
  td_edges :: "(nat \<times> nat) list"
  td_pc :: td_pc
  td_buffer :: "nat queue_buffer"
  td_scout :: int

definition td_thread_step :: "td_thread \<Rightarrow> int list \<times> nat sliding_queue \<Rightarrow> (td_thread \<times> int list \<times> nat sliding_queue) option" where
  "td_thread_step t sh = (case sh of (parent, queue) \<Rightarrow>
     (case (td_pc t, td_edges t) of
        (TdLoad, []) \<Rightarrow> do {
          (qb, queue) \<leftarrow> qb_flush (td_buffer t, queue);
          Some (t\<lparr>td_buffer := qb, td_pc := TdDone\<rparr>, parent, queue) }
      | (TdLoad, (u, v) # es) \<Rightarrow> do {
          curr_val \<leftarrow> rd parent v;
          Some (if curr_val < 0 then t\<lparr>td_pc := TdSwap curr_val\<rparr> else t\<lparr>td_edges := es\<rparr>, parent, queue) }
      | (TdSwap curr_val, (u, v) # es) \<Rightarrow> do {
          cell \<leftarrow> rd parent v;
          let (new, swapped) = compare_and_swap cell curr_val (int u);
          parent \<leftarrow> wr parent v new;
          let t = t\<lparr>td_edges := es, td_pc := TdLoad\<rparr>;
          if swapped then do {
            (qb, queue) \<leftarrow> qb_push_back (td_buffer t, queue) v;
            Some (t\<lparr>td_buffer := qb, td_scout := td_scout t + - curr_val\<rparr>, parent, queue) }
          else Some (t, parent, queue) }
      | _ \<Rightarrow> None))"

definition td_finished :: "td_thread \<Rightarrow> bool" where
  "td_finished t \<longleftrightarrow> td_pc t = TdDone"

definition frontier_edges :: "nat csr_graph \<Rightarrow> nat list \<Rightarrow> (nat \<times> nat) list option" where
  \<comment> \<open>the pairs of u and v that a thread meets in its part of the frontier\<close>
  "frontier_edges g us = do {
     rows \<leftarrow> those (map (\<lambda>u. do { vs \<leftarrow> out_neigh g u 0; Some (map (Pair u) vs) }) us);
     Some (concat rows) }"

definition td_start :: "nat csr_graph \<Rightarrow> nat list list \<Rightarrow> td_thread list option" where
  \<comment> \<open>each thread with its part of the frontier and a new buffer\<close>
  "td_start g shares = those (map (\<lambda>us. do {
     edges \<leftarrow> frontier_edges g us;
     Some \<lparr>td_edges = edges, td_pc = TdLoad, td_buffer = qb_new qb_default_size, td_scout = 0\<rparr> }) shares)"

definition adj_edges :: "nat csr_graph \<Rightarrow> nat list \<Rightarrow> (nat \<times> nat) list" where
  "adj_edges g us = concat (map (\<lambda>u. map (Pair u) (adj g u)) us)"

definition td_threads :: "nat csr_graph \<Rightarrow> nat list list \<Rightarrow> td_thread list" where
  "td_threads g shares = map (\<lambda>us. \<lparr>td_edges = adj_edges g us, td_pc = TdLoad, td_buffer = qb_new qb_default_size, td_scout = 0\<rparr>) shares"

lemma td_start_eq:
  assumes ok: "graph_ok g" and s: "s < nodes g" and q: "queue_at g s d queue" and shares: "mset (concat shares) = mset (sq_window queue)"
  shows "td_start g shares = Some (td_threads g shares)"
proof -
  have "u < nodes g" if "us \<in> set shares" "u \<in> set us" for us u
  proof -
    have "set (concat shares) = layer (edges_of g) s d" using mset_eq_setD [OF shares] q by (simp add: queue_at_def)
    then have "u \<in> layer (edges_of g) s d" using that by auto
    then show ?thesis using layer_below [OF arcs_below [OF ok] s] by blast
  qed
  then have "frontier_edges g us = Some (adj_edges g us)" if "us \<in> set shares" for us
  proof -
    have "map (\<lambda>u. do { vs \<leftarrow> out_neigh g u 0; Some (map (Pair u) vs) }) us = map Some (map (\<lambda>u. map (Pair u) (adj g u)) us)"
      using that \<open>\<And>us u. us \<in> set shares \<Longrightarrow> u \<in> set us \<Longrightarrow> u < nodes g\<close> graph_ok_neigh(1) [OF ok] by simp
    then show ?thesis by (simp add: frontier_edges_def adj_edges_def del: map_map)
  qed
  then have "map (\<lambda>us. do { edges \<leftarrow> frontier_edges g us;
      Some \<lparr>td_edges = edges, td_pc = TdLoad, td_buffer = qb_new qb_default_size, td_scout = 0\<rparr> }) shares = map Some (td_threads g shares)"
    by (simp add: td_threads_def)
  then show ?thesis by (simp add: td_start_def del: map_map)
qed

section \<open>What a thread relies on\<close>

text \<open>A thread that is about to swap has read the parent of an unvisited vertex; nobody changes it without visiting the vertex.\<close>

fun td_pc_ok :: "int list \<Rightarrow> td_thread \<Rightarrow> bool" where
  "td_pc_ok p0 t \<longleftrightarrow> (case td_pc t of TdLoad \<Rightarrow> True
     | TdSwap c \<Rightarrow> td_edges t \<noteq> [] \<and> c = p0 ! snd (hd (td_edges t)) \<and> c < 0
     | TdDone \<Rightarrow> td_edges t = [] \<and> qb_in (td_buffer t) = 0)"

definition td_held :: "td_thread \<Rightarrow> nat multiset" where
  "td_held t = mset (take (qb_in (td_buffer t)) (qb_local_queue (td_buffer t)))"

definition td_left :: "td_thread \<Rightarrow> nat" where
  "td_left t = (case td_pc t of TdLoad \<Rightarrow> 2 * length (td_edges t) + 1 | TdSwap c \<Rightarrow> 2 * length (td_edges t) | TdDone \<Rightarrow> 0)"

definition qb_wf :: "'a queue_buffer \<Rightarrow> bool" where
  "qb_wf qb \<longleftrightarrow> 0 < qb_local_size qb \<and> length (qb_local_queue qb) = qb_local_size qb \<and> qb_in qb \<le> qb_local_size qb"

definition td_thread_ok :: "nat csr_graph \<Rightarrow> nat \<Rightarrow> nat \<Rightarrow> int list \<Rightarrow> td_thread \<Rightarrow> bool" where
  "td_thread_ok g s d p0 t \<longleftrightarrow> td_pc_ok p0 t \<and> qb_wf (td_buffer t) \<and>
     (\<forall>(u, v) \<in> set (td_edges t). u \<in> layer (edges_of g) s d \<and> (u, v) \<in> edges_of g)"

text \<open>
  What the threads share, with all vertices that are still targets of some thread (\<open>Y\<close>), all that the buffers hold (\<open>H\<close>)
  and the sum of the scout counts: \<open>X\<close> is the set of the vertices visited so far in this step.
\<close>

definition td_shared :: "nat csr_graph \<Rightarrow> nat \<Rightarrow> nat \<Rightarrow> int list \<Rightarrow> nat set \<Rightarrow> nat set \<Rightarrow> nat multiset \<Rightarrow> int \<Rightarrow>
    int list \<times> nat sliding_queue \<Rightarrow> bool" where
  "td_shared g s d p0 X Y H scout sh \<longleftrightarrow> (case sh of (parent, queue) \<Rightarrow>
     tree_upto g s (ball (edges_of g) s d \<union> X) parent \<and>
     (\<forall>v < nodes g. v \<notin> ball (edges_of g) s d \<union> X \<longrightarrow> parent ! v = p0 ! v) \<and>
     X \<subseteq> layer (edges_of g) s (Suc d) \<and> layer (edges_of g) s (Suc d) \<subseteq> X \<union> Y \<and>
     mset (sq_pending queue) + H = mset_set X \<and> scout = (\<Sum>v \<in> X. - (p0 ! v)) \<and>
     sq_wf queue \<and> nodes g - card (ball (edges_of g) s d) \<le> length (sq_pending queue) + sq_room queue)"

lemma layer_room:
  assumes ok: "graph_ok g" and s: "s < nodes g" and X: "X \<subseteq> layer (edges_of g) s (Suc d)"
  shows "card X \<le> nodes g - card (ball (edges_of g) s d)"
proof -
  have below: "ball (edges_of g) s d \<union> X \<subseteq> {..<nodes g}"
    using ball_below [OF arcs_below [OF ok] s] layer_below [OF arcs_below [OF ok] s] X by blast
  then have fin: "finite (ball (edges_of g) s d)" "finite X" using finite_subset [OF _ finite_lessThan] by blast+
  have "ball (edges_of g) s d \<inter> X = {}" using X by (auto simp: layer_def)
  then have "card (ball (edges_of g) s d) + card X = card (ball (edges_of g) s d \<union> X)"
    using card_Un_disjoint [OF fin] by simp
  also have "\<dots> \<le> nodes g" using card_mono [OF finite_lessThan below] by simp
  finally show ?thesis by linarith
qed

text \<open>The buffer of one thread over the shared queue.\<close>

lemma td_buffer_wf:
  assumes ok: "graph_ok g" and s: "s < nodes g" and t: "qb_wf (td_buffer t)"
    and sh: "td_shared g s d p0 X Y (td_held t + H) scout (parent, queue)"
  shows "bq_wf (td_buffer t, queue)"
    and "X \<subset> layer (edges_of g) s (Suc d) \<Longrightarrow> 0 < bq_room (td_buffer t, queue)"
proof -
  have X: "X \<subseteq> layer (edges_of g) s (Suc d)" and room: "nodes g - card (ball (edges_of g) s d) \<le> length (sq_pending queue) + sq_room queue"
    and wf: "sq_wf queue" and m: "mset (sq_pending queue) + (td_held t + H) = mset_set X"
    using sh by (simp_all add: td_shared_def)
  have fin: "finite (layer (edges_of g) s (Suc d))" by (rule finite_layer [OF arcs_below [OF ok] s])
  have "size (mset (sq_pending queue) + (td_held t + H)) = card X" using m by simp
  moreover have "size (td_held t) = qb_in (td_buffer t)" using t by (simp add: td_held_def qb_wf_def)
  ultimately have used: "length (sq_pending queue) + qb_in (td_buffer t) \<le> card X" by simp
  have "card X \<le> nodes g - card (ball (edges_of g) s d)" by (rule layer_room [OF ok s X])
  then have fits: "qb_in (td_buffer t) \<le> sq_room queue" using used room by linarith
  then show "bq_wf (td_buffer t, queue)" using t wf by (auto simp: bq_wf_def qb_wf_def sq_room_def sq_wf_def)
  assume "X \<subset> layer (edges_of g) s (Suc d)"
  then have "card X < card (layer (edges_of g) s (Suc d))" by (rule psubset_card_mono [OF fin])
  then have "card X < nodes g - card (ball (edges_of g) s d)" using layer_room [OF ok s subset_refl, of d] by linarith
  then have "qb_in (td_buffer t) < sq_room queue" using used room by linarith
  then show "0 < bq_room (td_buffer t, queue)" by (simp add: bq_room_def)
qed


abbreviation td_targets :: "td_thread \<Rightarrow> nat set" where
  "td_targets t \<equiv> snd ` set (td_edges t)"

abbreviation td_contrib where
  \<comment> \<open>the shared invariant, with the part of one thread split off\<close>
  "td_contrib g s d p0 X Y H scout t sh \<equiv> td_shared g s d p0 X (td_targets t \<union> Y) (td_held t + H) (td_scout t + scout) sh"

lemma qb_wf_split: "bq_wf (qb, q) \<Longrightarrow> 0 < qb_local_size qb \<Longrightarrow> qb_wf qb \<and> sq_wf q"
  by (auto simp: bq_wf_def qb_wf_def)

text \<open>What a flush and an append do, in terms of what is pending and what is held.\<close>

lemma bq_split:
  assumes "bq_wf (qb, q)"
  shows "mset (bq_pending (qb, q)) = mset (sq_pending q) + mset (take (qb_in qb) (qb_local_queue qb))"
    and "length (sq_pending q) + sq_room q = length (bq_pending (qb, q)) + bq_room (qb, q)"
  using assms by (auto simp: bq_pending_def bq_room_def bq_wf_def sq_room_def)

lemma td_flush_step:
  assumes ok: "graph_ok g" and s: "s < nodes g" and t: "td_thread_ok g s d p0 t" "td_pc t = TdLoad" "td_edges t = []"
    and sh: "td_contrib g s d p0 X Y H scout t (parent, queue)"
  shows "\<exists>t' sh'. td_thread_step t (parent, queue) = Some (t', sh') \<and> td_thread_ok g s d p0 t' \<and> td_left t' < td_left t \<and>
    td_contrib g s d p0 X Y H scout t' sh'"
proof -
  let ?qb = "td_buffer t"
  have qb: "qb_wf ?qb" using t by (simp add: td_thread_ok_def)
  have b: "bq_wf (?qb, queue)" by (rule td_buffer_wf [OF ok s qb sh])
  obtain q' where q': "qb_flush (?qb, queue) = Some (?qb\<lparr>qb_in := 0\<rparr>, q')" "bq_wf (?qb\<lparr>qb_in := 0\<rparr>, q')"
    "sq_pending q' = bq_pending (?qb, queue)" "sq_room q' = bq_room (?qb, queue)"
    using qb_flush_spec [OF b] by blast
  have wf: "sq_wf q'" using q'(2) by (simp add: bq_wf_def)
  let ?t = "t\<lparr>td_buffer := ?qb\<lparr>qb_in := 0\<rparr>, td_pc := TdDone\<rparr>"
  have "td_contrib g s d p0 X Y H scout ?t (parent, q')"
    using sh wf q'(3,4) bq_split [OF b] t(3) by (simp add: td_shared_def td_held_def add.assoc)
  moreover have "td_thread_ok g s d p0 ?t" using t qb by (simp add: td_thread_ok_def qb_wf_def)
  moreover have "td_left ?t < td_left t" using t by (simp add: td_left_def)
  moreover have "td_thread_step t (parent, queue) = Some (?t, parent, q')"
    using t q'(1) by (simp add: td_thread_step_def)
  ultimately show ?thesis by blast
qed

lemma td_parent_at:
  assumes sh: "td_shared g s d p0 X Y H scout (parent, queue)" and v: "v < nodes g"
  shows "v < length parent" and "parent ! v < 0 \<longleftrightarrow> v \<notin> ball (edges_of g) s d \<union> X"
    and "parent ! v < 0 \<Longrightarrow> parent ! v = p0 ! v"
proof -
  have t: "tree_upto g s (ball (edges_of g) s d \<union> X) parent" using sh by (simp add: td_shared_def)
  show "v < length parent" using tree_upto_length [OF t] v by simp
  show neg: "parent ! v < 0 \<longleftrightarrow> v \<notin> ball (edges_of g) s d \<union> X" by (rule tree_upto_visited [OF t v])
  show "parent ! v = p0 ! v" if "parent ! v < 0"
  proof -
    have "v \<notin> ball (edges_of g) s d \<union> X" using that neg by blast
    then show ?thesis using sh v by (simp add: td_shared_def)
  qed
qed

lemma td_drop_target:
  assumes "td_shared g s d p0 X (insert v Y) H scout sh" "v \<in> ball (edges_of g) s d \<union> X"
  shows "td_shared g s d p0 X Y H scout sh"
proof -
  have "v \<in> X \<or> v \<notin> layer (edges_of g) s (Suc d)" using assms(2) by (auto simp: layer_def)
  then show ?thesis using assms(1) by (auto simp: td_shared_def)
qed

lemma td_load_step:
  assumes ok: "graph_ok g" and t: "td_thread_ok g s d p0 t" "td_pc t = TdLoad" "td_edges t = (u, v) # es"
    and sh: "td_contrib g s d p0 X Y H scout t (parent, queue)"
  shows "\<exists>t' sh'. td_thread_step t (parent, queue) = Some (t', sh') \<and> td_thread_ok g s d p0 t' \<and> td_left t' < td_left t \<and>
    td_contrib g s d p0 X Y H scout t' sh'"
proof -
  have v: "v < nodes g" using t gv.arcs_less [OF ok] by (auto simp: td_thread_ok_def)
  note p = td_parent_at [OF sh v]
  show ?thesis
  proof (cases "parent ! v < 0")
    case True
    let ?t = "t\<lparr>td_pc := TdSwap (parent ! v)\<rparr>"
    have "td_thread_step t (parent, queue) = Some (?t, parent, queue)"
      using t True p(1) by (simp add: td_thread_step_def)
    moreover have "td_thread_ok g s d p0 ?t" using t True p(3) [OF True] by (simp add: td_thread_ok_def)
    moreover have "td_left ?t < td_left t" using t by (simp add: td_left_def)
    moreover have "td_contrib g s d p0 X Y H scout ?t (parent, queue)" using sh by (simp add: td_held_def)
    ultimately show ?thesis by blast
  next
    case False
    let ?t = "t\<lparr>td_edges := es\<rparr>"
    have "td_thread_step t (parent, queue) = Some (?t, parent, queue)"
      using t False p(1) by (simp add: td_thread_step_def)
    moreover have "td_thread_ok g s d p0 ?t" using t by (simp add: td_thread_ok_def)
    moreover have "td_left ?t < td_left t" using t by (simp add: td_left_def)
    moreover have "td_contrib g s d p0 X Y H scout ?t (parent, queue)"
      using td_drop_target [of g s d p0 X v "td_targets ?t \<union> Y" "td_held t + H" "td_scout t + scout" "(parent, queue)"]
        sh False p(2) t by (simp add: td_held_def)
    ultimately show ?thesis by blast
  qed
qed


text \<open>A swap that succeeds visits the vertex; one that fails met a vertex another thread has visited.\<close>

lemma qb_push_back_size: "qb_push_back (qb, q) x = Some (qb', q') \<Longrightarrow> qb_local_size qb' = qb_local_size qb"
  by (auto simp: qb_push_back_def qb_flush_def fetch_and_add_def bind_eq_Some_conv split: if_splits)

lemma td_visit:
  assumes ok: "graph_ok g" and s: "s < nodes g" and t: "td_thread_ok g s d p0 t" "td_edges t = (u, v) # es"
    and sh: "td_contrib g s d p0 X Y H scout t (parent, queue)" and neg: "parent ! v < 0"
    and t': "td_edges t' = es" "td_scout t' = td_scout t + - (p0 ! v)"
    and q: "qb_push_back (td_buffer t, queue) v = Some (td_buffer t', queue')"
  shows "qb_wf (td_buffer t') \<and> td_contrib g s d p0 (insert v X) Y H scout t' (parent[v := int u], queue')"
proof -
  let ?E = "edges_of g" and ?qb = "td_buffer t"
  let ?B = "ball ?E s d"
  have uv: "u \<in> layer ?E s d" "(u, v) \<in> ?E" and v: "v < nodes g"
    using t gv.arcs_less [OF ok] by (auto simp: td_thread_ok_def)
  have new: "v \<notin> ?B \<union> X" using td_parent_at(2) [OF sh v] neg by simp
  then have lv: "v \<in> layer ?E s (Suc d)" using uv by (auto simp: layer_Suc)
  have sh': "tree_upto g s (?B \<union> X) parent" "\<forall>x < nodes g. x \<notin> ?B \<union> X \<longrightarrow> parent ! x = p0 ! x"
    "X \<subseteq> layer ?E s (Suc d)" "layer ?E s (Suc d) \<subseteq> X \<union> (td_targets t \<union> Y)"
    "mset (sq_pending queue) + (td_held t + H) = mset_set X" "td_scout t + scout = (\<Sum>x \<in> X. - (p0 ! x))"
    "nodes g - card ?B \<le> length (sq_pending queue) + sq_room queue" using sh by (simp_all add: td_shared_def)
  have fin: "finite X" using sh'(3) finite_layer [OF arcs_below [OF ok] s] by (rule finite_subset)
  have qb: "qb_wf ?qb" using t by (simp add: td_thread_ok_def)
  have b: "bq_wf (?qb, queue)" "0 < bq_room (?qb, queue)"
    using td_buffer_wf [OF ok s qb sh] new lv sh'(3) by auto
  have b': "bq_wf (td_buffer t', queue')" "bq_pending (td_buffer t', queue') = bq_pending (?qb, queue) @ [v]"
    "bq_room (td_buffer t', queue') = bq_room (?qb, queue) - 1"
    using qb_push_back_spec [OF b, of v] q by auto
  have size: "qb_local_size (td_buffer t') = qb_local_size ?qb" 
    by (rule qb_push_back_size [OF q])
  have wf: "qb_wf (td_buffer t')" "sq_wf queue'"
    using qb_wf_split [OF b'(1)] qb size by (simp_all add: qb_wf_def)
  have "mset (sq_pending queue') + td_held t' = add_mset v (mset (sq_pending queue) + td_held t)"
    using bq_split(1) [OF b'(1)] bq_split(1) [OF b(1)] b'(2) by (simp add: td_held_def)
  then have "mset (sq_pending queue') + (td_held t' + H) = mset_set (insert v X)"
    using sh'(5) fin new by (simp add: add.assoc [symmetric])
  moreover have "nodes g - card ?B \<le> length (sq_pending queue') + sq_room queue'"
    using bq_split(2) [OF b'(1)] bq_split(2) [OF b(1)] b'(2,3) b(2) sh'(7) by simp
  moreover have "tree_upto g s (?B \<union> insert v X) (parent[v := int u])"
    using tree_upto_insert [OF sh'(1) _ new v lv uv] by (simp del: ball.simps)
  moreover have "td_scout t' + scout = (\<Sum>x \<in> insert v X. - (p0 ! x))"
    using sh'(6) fin new t'(2) by simp
  moreover have "layer ?E s (Suc d) \<subseteq> insert v X \<union> (td_targets t' \<union> Y)" using sh'(4) t(2) t'(1) by auto
  ultimately show ?thesis using sh' wf lv by (simp add: td_shared_def nth_list_update)
qed

lemma td_swap_step:
  assumes ok: "graph_ok g" and s: "s < nodes g" and t: "td_thread_ok g s d p0 t" "td_pc t = TdSwap c" "td_edges t = (u, v) # es"
    and sh: "td_contrib g s d p0 X Y H scout t (parent, queue)"
  shows "\<exists>t' sh' X'. td_thread_step t (parent, queue) = Some (t', sh') \<and> td_thread_ok g s d p0 t' \<and> td_left t' < td_left t \<and>
    td_contrib g s d p0 X' Y H scout t' sh'"
proof -
  have v: "v < nodes g" using t gv.arcs_less [OF ok] by (auto simp: td_thread_ok_def)
  have c: "c = p0 ! v" "c < 0" using t by (simp_all add: td_thread_ok_def)
  note p = td_parent_at [OF sh v]
  show ?thesis
  proof (cases "parent ! v = c")
    case True
    have new: "v \<notin> ball (edges_of g) s d \<union> X" using True c p(2) by simp
    have qb: "qb_wf (td_buffer t)" using t by (simp add: td_thread_ok_def)
    have "v \<in> layer (edges_of g) s (Suc d)" using new t by (auto simp: layer_Suc td_thread_ok_def)
    then have "X \<subset> layer (edges_of g) s (Suc d)" using new sh by (auto simp: td_shared_def)
    then obtain qb q where q: "qb_push_back (td_buffer t, queue) v = Some (qb, q)"
      using qb_push_back_spec [OF td_buffer_wf [OF ok s qb sh]] by fastforce
    let ?t = "t\<lparr>td_edges := es, td_pc := TdLoad, td_buffer := qb, td_scout := td_scout t + - c\<rparr>"
    have visit: "qb_wf (td_buffer ?t) \<and> td_contrib g s d p0 (insert v X) Y H scout ?t (parent[v := int u], q)"
      by (rule td_visit [OF ok s t(1,3) sh]) (use True c q in simp_all)
    have "td_thread_step t (parent, queue) = Some (?t, parent[v := int u], q)"
      using t True p(1) q by (simp add: td_thread_step_def compare_and_swap_def)
    moreover have "td_thread_ok g s d p0 ?t" using t visit by (simp add: td_thread_ok_def)
    moreover have "td_left ?t < td_left t" using t by (simp add: td_left_def)
    ultimately show ?thesis using visit by blast
  next
    case False
    let ?t = "t\<lparr>td_edges := es, td_pc := TdLoad\<rparr>"
    have seen: "v \<in> ball (edges_of g) s d \<union> X" using False c p by auto
    have "td_thread_step t (parent, queue) = Some (?t, parent, queue)"
      using t False p(1) by (simp add: td_thread_step_def compare_and_swap_def)
    moreover have "td_thread_ok g s d p0 ?t" using t by (simp add: td_thread_ok_def)
    moreover have "td_left ?t < td_left t" using t by (simp add: td_left_def)
    moreover have "td_contrib g s d p0 X Y H scout ?t (parent, queue)"
      using td_drop_target [of g s d p0 X v "td_targets ?t \<union> Y" "td_held t + H" "td_scout t + scout" "(parent, queue)"]
        sh seen t by (simp add: td_held_def)
    ultimately show ?thesis by blast
  qed
qed

lemma td_thread_step_ok:
  assumes ok: "graph_ok g" and s: "s < nodes g" and t: "td_thread_ok g s d p0 t" "td_pc t \<noteq> TdDone"
    and sh: "td_contrib g s d p0 X Y H scout t sh"
  shows "\<exists>t' sh' X'. td_thread_step t sh = Some (t', sh') \<and> td_thread_ok g s d p0 t' \<and> td_left t' < td_left t \<and>
    td_contrib g s d p0 X' Y H scout t' sh'"
proof -
  obtain parent queue where sh': "sh = (parent, queue)" by (cases sh)
  note sh = sh [unfolded sh']
  show ?thesis
  proof (cases "td_pc t")
    case TdLoad
    show ?thesis
    proof (cases "td_edges t")
      case Nil
      then show ?thesis using td_flush_step [OF ok s t(1) TdLoad Nil sh] unfolding sh' by blast
    next
      case (Cons e es)
      then show ?thesis using td_load_step [OF ok t(1) TdLoad _ sh] unfolding sh' by (cases e) blast
    qed
  next
    case (TdSwap c)
    then obtain u v es where "td_edges t = (u, v) # es" using t(1) by (cases "td_edges t") (auto simp: td_thread_ok_def)
    then show ?thesis using td_swap_step [OF ok s t(1) TdSwap _ sh] unfolding sh' by blast
  qed (use t in simp)
qed


section \<open>Runs of the team\<close>

type_synonym td_level = "nat csr_graph \<times> nat \<times> nat \<times> int list"

fun td_team :: "td_level \<Rightarrow> td_thread multiset \<Rightarrow> int list \<times> nat sliding_queue \<Rightarrow> bool" where
  "td_team (g, s, d, p0) T sh \<longleftrightarrow> graph_ok g \<and> s < nodes g \<and> (\<forall>t \<in># T. td_thread_ok g s d p0 t) \<and>
     (\<exists>X. td_shared g s d p0 X (\<Union>t \<in> set_mset T. td_targets t) (\<Sum>t \<in># T. td_held t) (\<Sum>t \<in># T. td_scout t) sh)"

definition td_work :: "td_level \<Rightarrow> td_thread multiset \<Rightarrow> int list \<times> nat sliding_queue \<Rightarrow> nat" where
  "td_work p T sh = (\<Sum>t \<in># T. td_left t)"

interpretation td: team td_thread_step td_finished td_team td_work
proof unfold_locales
  fix p :: td_level and t R sh
  assume I: "td_team p (add_mset t R) sh" and "\<not> td_finished t"
  then have pc: "td_pc t \<noteq> TdDone" by (simp add: td_finished_def)
  obtain g s d p0 where p: "p = (g, s, d, p0)" by (cases p)
  let ?Y = "\<Union>r \<in> set_mset R. td_targets r" and ?H = "\<Sum>r \<in># R. td_held r" and ?S = "\<Sum>r \<in># R. td_scout r"
  obtain X where X: "graph_ok g" "s < nodes g" "td_thread_ok g s d p0 t" "\<forall>r \<in># R. td_thread_ok g s d p0 r"
    "td_contrib g s d p0 X ?Y ?H ?S t sh" using I by (auto simp: p)
  obtain t' sh' X' where step: "td_thread_step t sh = Some (t', sh')" "td_thread_ok g s d p0 t'" "td_left t' < td_left t"
    "td_contrib g s d p0 X' ?Y ?H ?S t' sh'"
    using td_thread_step_ok [OF X(1,2,3) pc X(5)] by blast
  have "td_team p (add_mset t' R) sh'" using step(2,4) X(1,2,4) by (auto simp: p)
  moreover have "td_work p (add_mset t' R) sh' < td_work p (add_mset t R) sh" using step(3) by (simp add: td_work_def)
  ultimately show "\<exists>t' sh'. td_thread_step t sh = Some (t', sh') \<and> td_team p (add_mset t' R) sh' \<and>
      td_work p (add_mset t' R) sh' < td_work p (add_mset t R) sh" using step(1) by blast
next
  fix t sh
  show "td_finished t \<Longrightarrow> td_thread_step t sh = None" by (cases sh) (simp add: td_finished_def td_thread_step_def)
qed

lemma adj_edges_set: "set (adj_edges g us) = {(u, v). u \<in> set us \<and> v \<in> set (adj g u)}"
  by (auto simp: adj_edges_def)

lemma adj_edges_length: "length (adj_edges g us) = (\<Sum>u \<leftarrow> us. length (adj g u))"
  by (simp add: adj_edges_def length_concat comp_def)

lemma td_threads_team:
  assumes ok: "graph_ok g" and s: "s < nodes g"
    and t: "tree_upto g s (ball (edges_of g) s d) parent" and q: "queue_at g s d queue"
    and shares: "mset (concat shares) = mset (sq_window queue)"
  shows "td_team (g, s, d, parent) (mset (td_threads g shares)) (parent, queue)"
proof -
  let ?E = "edges_of g"
  have q': "sq_wf queue" "set (sq_window queue) = layer ?E s d" "sq_pending queue = []"
    "nodes g - card (ball ?E s d) \<le> sq_room queue" using q by (simp_all add: queue_at_def)
  have all: "(\<Union>us \<in> set shares. set us) = layer ?E s d"
    using mset_eq_setD [OF shares] q'(2) by simp
  have below: "u < nodes g" if "u \<in> layer ?E s d" for u using that layer_below [OF arcs_below [OF ok] s] by blast
  let ?t = "\<lambda>us. \<lparr>td_edges = adj_edges g us, td_pc = TdLoad, td_buffer = qb_new qb_default_size, td_scout = 0\<rparr>"
  have thread: "td_thread_ok g s d parent (?t us)" if "us \<in> set shares" for us
  proof -
    have "u \<in> layer ?E s d" if "u \<in> set us" for u using that \<open>us \<in> set shares\<close> all by blast
    then show ?thesis using below
      by (auto simp: td_thread_ok_def adj_edges_set arcs_def qb_wf_def qb_new_def qb_default_size_def)
  qed
  have targets: "layer ?E s (Suc d) \<subseteq> (\<Union>us \<in> set shares. td_targets (?t us))"
  proof
    fix v assume "v \<in> layer ?E s (Suc d)"
    then obtain u where "u \<in> layer ?E s d" "(u, v) \<in> ?E" by (auto simp: layer_Suc)
    then obtain us where "us \<in> set shares" "u \<in> set us" "v \<in> set (adj g u)" using all by (auto simp: arcs_def)
    then show "v \<in> (\<Union>us \<in> set shares. td_targets (?t us))" by (force simp: adj_edges_set)
  qed
  have "td_shared g s d parent {} (\<Union>us \<in> set shares. td_targets (?t us)) {#} 0 (parent, queue)"
    using t q' targets by (simp add: td_shared_def del: ball.simps)
  moreover have "td_held (?t us) = {#}" for us by (simp add: td_held_def qb_new_def)
  ultimately have "\<exists>X. td_shared g s d parent X (\<Union>us \<in> set shares. td_targets (?t us))
      (\<Sum>us \<in># mset shares. td_held (?t us)) (\<Sum>us \<in># mset shares. td_scout (?t us)) (parent, queue)"
    by auto
  then show ?thesis
    using ok s thread by (simp add: td_threads_def image_mset.compositionality comp_def)
qed

lemma td_threads_work:
  assumes "mset (concat shares) = mset (sq_window queue)"
  shows "td_work p (mset (td_threads g shares)) sh = 2 * (\<Sum>u \<leftarrow> sq_window queue. length (adj g u)) + length shares"
proof -
  have "(\<Sum>us \<leftarrow> shares. 2 * (\<Sum>u \<leftarrow> us. length (adj g u)) + 1) = 2 * (\<Sum>u \<leftarrow> concat shares. length (adj g u)) + length shares"
    by (induction shares) simp_all
  moreover have "(\<Sum>u \<leftarrow> concat shares. length (adj g u)) = (\<Sum>u \<leftarrow> sq_window queue. length (adj g u))"
    unfolding sum_mset_list [symmetric] assms ..
  ultimately show ?thesis
    by (simp add: td_work_def td_threads_def td_left_def adj_edges_length comp_def sum_mset_list del: mset_map)
qed

lemma mset_of_set:
  assumes m: "mset xs = mset_set X" and fin: "finite X"
  shows "distinct xs \<and> set xs = X \<and> length xs = card X"
proof -
  obtain ys where ys: "set ys = X" "distinct ys" using finite_distinct_list [OF fin] by blast
  then have "mset xs = mset ys" using m mset_set_set by metis
  then show ?thesis
    using ys mset_eq_setD [of xs ys] mset_eq_imp_distinct_iff [of xs ys] distinct_card [of xs] by simp
qed

lemma td_team_done:
  assumes I: "td_team (g, s, d, p0) (mset ts) (parent, queue)" and fin: "\<forall>t \<in> set ts. td_finished t"
  shows "tree_upto g s (ball (edges_of g) s (Suc d)) parent" "queue_at g s (Suc d) (sq_slide_window queue)"
    "(\<Sum>t \<leftarrow> ts. td_scout t) = (\<Sum>v \<in> layer (edges_of g) s (Suc d). - (p0 ! v))"
proof -
  let ?E = "edges_of g"
  obtain X where X: "td_shared g s d p0 X (\<Union>t \<in> set ts. td_targets t) (\<Sum>t \<in># mset ts. td_held t)
      (\<Sum>t \<in># mset ts. td_scout t) (parent, queue)" and ok: "graph_ok g" "s < nodes g" using I by auto
  have "td_edges t = [] \<and> qb_in (td_buffer t) = 0" if "t \<in> set ts" for t
    using I fin that by (auto simp: td_thread_ok_def td_finished_def)
  then have none: "(\<Union>t \<in> set ts. td_targets t) = {}" "(\<Sum>t \<in># mset ts. td_held t) = {#}"
    by (simp_all add: td_held_def)
  have eq: "X = layer ?E s (Suc d)" using X unfolding none by (auto simp: td_shared_def)
  have fin': "finite X" unfolding eq by (rule finite_layer [OF arcs_below [OF ok(1)] ok(2)])
  have B: "ball ?E s (Suc d) = ball ?E s d \<union> layer ?E s (Suc d)"
    using ball_mono [of d "Suc d" ?E s] by (auto simp: layer_def)
  have sh: "tree_upto g s (ball ?E s d \<union> X) parent" "mset (sq_pending queue) = mset_set X" "sq_wf queue"
    "(\<Sum>t \<in># mset ts. td_scout t) = (\<Sum>v \<in> X. - (p0 ! v))"
    "nodes g - card (ball ?E s d) \<le> length (sq_pending queue) + sq_room queue"
    using X unfolding none by (simp_all add: td_shared_def)
  show "tree_upto g s (ball ?E s (Suc d)) parent" using sh(1) unfolding B eq .
  show "(\<Sum>t \<leftarrow> ts. td_scout t) = (\<Sum>v \<in> layer ?E s (Suc d). - (p0 ! v))"
    using sh(4) unfolding eq sum_mset_list .
  have pend: "distinct (sq_pending queue)" "set (sq_pending queue) = X" "length (sq_pending queue) = card X"
    using mset_of_set [OF sh(2) fin'] by simp_all
  have "card (ball ?E s d) + card X = card (ball ?E s (Suc d))"
    unfolding B eq using ball_below [OF arcs_below [OF ok(1)] ok(2), of d] fin' eq
    by (intro card_Un_disjoint [symmetric]) (auto simp: layer_def intro: finite_subset [OF _ finite_lessThan])
  then have "nodes g - card (ball ?E s (Suc d)) \<le> sq_room queue" using sh(5) pend(3) by linarith
  then show "queue_at g s (Suc d) (sq_slide_window queue)"
    using sq_slide_window_spec [OF sh(3)] pend eq by (simp add: queue_at_def del: ball.simps)
qed

section \<open>Properties\<close>

text \<open>C36: The top-down step under every schedule.  However the frontier is divided among the threads and however their steps
  interleave, the team is finished after at most two steps for each edge of the frontier and one for each thread, no
  thread is ever stuck (so no access leaves its array), and when all are finished the parents form a tree
  of the next level, the queue holds every vertex of the next layer once, and the scout counts of the threads add up to a
  number that does not depend on the schedule.\<close>

lemma TDStep_interleaved:
  assumes "graph_ok g" "s < nodes g" "tree_upto g s (ball (edges_of g) s d) parent" "queue_at g s d queue"
    and "mset (concat shares) = mset (sq_window queue)"
  shows "\<exists>ts. td_start g shares = Some ts \<and>
    team_ends td_thread_step td_finished (2 * (\<Sum>u \<leftarrow> sq_window queue. length (adj g u)) + length shares) (ts, parent, queue)
    (\<lambda>ts (parent', queue'). tree_upto g s (ball (edges_of g) s (Suc d)) parent' \<and>
       queue_at g s (Suc d) (sq_slide_window queue') \<and>
       (\<Sum>t \<leftarrow> ts. td_scout t) = (\<Sum>v \<in> layer (edges_of g) s (Suc d). - (parent ! v)))"
proof (intro exI conjI)
  show "td_start g shares = Some (td_threads g shares)" by (rule td_start_eq) (use assms in auto)
  show "team_ends td_thread_step td_finished (2 * (\<Sum>u \<leftarrow> sq_window queue. length (adj g u)) + length shares)
    (td_threads g shares, parent, queue)
    (\<lambda>ts (parent', queue'). tree_upto g s (ball (edges_of g) s (Suc d)) parent' \<and>
       queue_at g s (Suc d) (sq_slide_window queue') \<and>
       (\<Sum>t \<leftarrow> ts. td_scout t) = (\<Sum>v \<in> layer (edges_of g) s (Suc d). - (parent ! v)))"
  proof (rule td.ends [OF td_threads_team [OF assms]])
    show "td_work (g, s, d, parent) (mset (td_threads g shares)) (parent, queue)
      \<le> 2 * (\<Sum>u \<leftarrow> sq_window queue. length (adj g u)) + length shares"
      using td_threads_work [OF assms(5)] by simp
  qed (use td_team_done in \<open>auto simp del: ball.simps td_team.simps\<close>)
qed

text \<open>Two threads that race for vertex 3: both 1 and 2, one step from vertex 0, have it as a neighbour.\<close>

definition diamond :: "nat csr_graph" where
  "diamond = csr_of_rows [[1, 2], [0, 3], [0, 3], [1, 2]]"

lemma diamond_simps:
  "nodes diamond = 4" "graph_ok diamond"
  "edges_of diamond = {(0, 1), (0, 2), (1, 0), (1, 3), (2, 0), (2, 3), (3, 1), (3, 2)}"
  "length (adj diamond 1) = 2" "length (adj diamond 2) = 2"
proof -
  show n: "nodes diamond = 4" by (simp add: diamond_def)
  show "graph_ok diamond" unfolding diamond_def graph_ok_def by (rule csr_of_rows_wf) auto
  show "edges_of diamond = {(0, 1), (0, 2), (1, 0), (1, 3), (2, 0), (2, 3), (3, 1), (3, 2)}"
    unfolding n by (auto simp: arcs_def diamond_def less_Suc_eq numeral_eq_Suc)
  show "length (adj diamond 1) = 2" "length (adj diamond 2) = 2" by (simp_all add: diamond_def)
qed

lemma TDStep_interleaved_witness:
  "\<exists>ts0 ts parent queue. td_start diamond [[1], [2]] = Some ts0 \<and> team_result td_thread_step td_finished
      (ts0, [0, 0, 0, -2], \<lparr>sq_shared = [0, 1, 2, 7], sq_shared_in = 3, sq_out_start = 1, sq_out_end = 3\<rparr>)
      ts (parent, queue) \<and> sq_window (sq_slide_window queue) = [3] \<and> (\<Sum>t \<leftarrow> ts. td_scout t) = 2"
proof -
  let ?p = "[0, 0, 0, -2] :: int list" and ?E = "edges_of diamond"
  let ?q = "\<lparr>sq_shared = [0, 1, 2, 7], sq_shared_in = 3, sq_out_start = 1, sq_out_end = 3\<rparr> :: nat sliding_queue"
  have i: "?E `` {0} = {1, 2}" "?E `` {0, 1, 2} = {0, 1, 2, 3}" unfolding diamond_simps(3) by auto
  have b1: "ball ?E 0 1 = {0, 1, 2}" unfolding One_nat_def ball.simps i by auto
  have "ball ?E 0 2 = ball ?E 0 1 \<union> ?E `` ball ?E 0 1" by (simp only: numeral_2_eq_2 One_nat_def ball.simps(2))
  then have b2: "ball ?E 0 2 = {0, 1, 2, 3}" unfolding b1 i(2) by (simp add: insert_commute insert_absorb)
  have l: "layer ?E 0 1 = {1, 2}" "layer ?E 0 2 = {3}" unfolding layer_def using b1 b2 ball.simps(1) [of ?E 0] by (simp_all del: ball.simps(2))
  have "hangs ?E 0 ?p v" if "v \<in> {0, 1, 2}" for v
  proof (cases "v = 0")
    case False
    then have v: "v \<in> {1, 2}" using that by simp
    then have "v \<in> layer ?E 0 (Suc 0)" using l(1) by (simp only: One_nat_def)
    moreover have "(0, v) \<in> ?E" using v unfolding diamond_simps(3) by auto
    moreover have "?p ! v = int 0" using v by auto
    moreover have "0 \<in> layer ?E 0 0" by (simp add: layer_0)
    ultimately have "\<exists>d u. v \<in> layer ?E 0 (Suc d) \<and> u \<in> layer ?E 0 d \<and> (u, v) \<in> ?E \<and> ?p ! v = int u" by blast
    then show ?thesis using False by (simp add: hangs_def)
  qed (simp add: hangs_def)
  note h = this
  have "if v \<in> {0, 1, 2} then hangs ?E 0 ?p v else ?p ! v < 0" if "v < nodes diamond" for v
  proof (cases "v \<in> {0, 1, 2}")
    case False
    then have "v = 3" using that diamond_simps(1) by auto
    then show ?thesis by simp
  qed (simp only: if_True h)
  then have t: "tree_upto diamond 0 (ball ?E 0 1) ?p"
    unfolding tree_upto_def b1 using diamond_simps(1) by (intro conjI allI impI) (simp only: list.size, blast)
  have w: "sq_window ?q = [1, 2]" "sq_wf ?q" "sq_pending ?q = []" "sq_room ?q = 1" by (simp_all add: sq_defs segment_def)
  have q: "queue_at diamond 0 1 ?q" using w l b1 by (simp add: queue_at_def diamond_simps(1) del: ball.simps)
  obtain ts0 where e: "td_start diamond [[1], [2]] = Some ts0"
    "team_ends td_thread_step td_finished (2 * (\<Sum>u \<leftarrow> [1, 2]. length (adj diamond u)) + 2) (ts0, ?p, ?q)
    (\<lambda>ts (parent', queue'). tree_upto diamond 0 (ball ?E 0 (Suc 1)) parent' \<and> queue_at diamond 0 (Suc 1) (sq_slide_window queue') \<and>
       (\<Sum>t \<leftarrow> ts. td_scout t) = (\<Sum>v \<in> layer ?E 0 (Suc 1). - (?p ! v)))"
    using TDStep_interleaved [OF diamond_simps(2) _ t q, of "[[1], [2]]"] w diamond_simps(1) by (auto simp del: ball.simps)
  obtain ts parent queue where r: "team_result td_thread_step td_finished (ts0, ?p, ?q) ts (parent, queue)"
    using team_ends_result [OF e(2)] by auto
  have "queue_at diamond 0 2 (sq_slide_window queue)" "(\<Sum>t \<leftarrow> ts. td_scout t) = (\<Sum>v \<in> layer ?E 0 2. - (?p ! v))"
    using team_endsD [OF e(2) r] by (simp_all add: numeral_2_eq_2 del: ball.simps)
  then have "distinct (sq_window (sq_slide_window queue))" "set (sq_window (sq_slide_window queue)) = {3}" "(\<Sum>t \<leftarrow> ts. td_scout t) = 2"
    using l(2) by (simp_all add: queue_at_def del: ball.simps)
  moreover have "xs = [3]" if "distinct xs" "set xs = {3 :: nat}" for xs
    using that by (cases xs) (auto simp: subset_singleton_iff)
  ultimately show ?thesis using e(1) r by blast
qed

end
