(* ===== verification/Spec2Isabelle.thy ===== *)
theory Spec2Isabelle
  imports Programs SSSPMain Dmalloc PageRankMain BCMain BFSParallel
begin

text \<open>
  The GAP benchmark kernels on a graph in shared memory (darchr/shared-gapbs), modelled and verified.

  \<^bold>\<open>The program.\<close>  One host, the allocator (\<^verbatim>\<open>-x 0\<close>), reads or generates an edge list, builds a graph in compressed sparse
  row form and writes it into a mapped region; the other hosts poll a synchronisation word of the region and
  then use the graph in place.  Every host runs one kernel on the graph, several trials of it, and
  may verify each.  The code is C++ headers (src/*.h) with one \<^verbatim>\<open>main\<close> for each program (src/*.cc).

  \<^bold>\<open>Reading the code as HOL terms\<close> (theory Prelude).  A vertex id is a \<open>nat\<close>, a signed array an \<open>int list\<close>, a pointer an offset into
  a block, a null pointer the empty list.  Where widths matter they are kept: bitmaps and the mapped region are lists of words, sizes that wrap
  are taken modulo \<open>2 ^ 64\<close>, sums of 32-bit ints go through \<open>int32\<close>, and a count or a 64-bit value that the code stores in a \<^verbatim>\<open>NodeID_\<close> goes
  through \<open>count32\<close> or \<open>to_NodeID\<close>.  An operation with a possibly undefined result returns an
  option: \<open>None\<close> is a read or write outside an array, a signed overflow, or a loop that never ends.  \<open>None\<close> also stands for a value that does not fit its
  \<^verbatim>\<open>NodeID_\<close>: there a conversion or an atomic addition wraps to a negative number, and no theorem says what the code makes of it.  The loops that may not end are
  \<open>partial_function (option)\<close>, so a theorem that a program returns \<open>Some\<close> includes that it ends.
  \<^verbatim>\<open>exit\<close> and \<^verbatim>\<open>assert\<close> are the left summand of \<open>'a result\<close>; assertions are enabled, as the makefile builds the programs.  A loop is \<open>foldM\<close> over the values
  of its variable, and \<open>foldM_rule\<close> with its variants is the loop rule.  Template parameters are
  function arguments.  Of the standard library sort, unique, remove, copy, max_element, set_intersection, hash maps,
  priority queues and the extractors of streams are modelled by what the C++ standard says of them.

  \<^bold>\<open>Arguments of the model.\<close>  What the programs take from outside src/ is an argument: the options \<^verbatim>\<open>getopt\<close> splits off, \<^verbatim>\<open>stod\<close> and the printing of
  doubles, the files (a map from names to bytes), what the system answers to \<^verbatim>\<open>open\<close> and \<^verbatim>\<open>mmap\<close>, the numbers
  of the random engines and the order \<^verbatim>\<open>shuffle\<close> gives, the order in which a hash table is walked, and the comparison of two doubles in the
  heuristic of the triangle counter.  Theorems hold for all their values, or name what they need: \<open>fair_draws\<close> says that drawing
  vertices hits one with a neighbour again and again.  Floating-point code is exact arithmetic of an ordered field with a rounding after each
  operation, \<open>fl\<close> for \<^verbatim>\<open>float\<close> and \<open>db\<close> for \<^verbatim>\<open>double\<close>; the theorems on PageRank and betweenness instantiate both with the identity, so they
  speak of exact arithmetic.

  \<^bold>\<open>Parallel code.\<close>  Three ways, each where it fits.  Interleaved steps: \<open>set_bit_atomic\<close> of several threads (Bitmap), and the stores of the allocator against
  the polls of a worker, where each poll may see any prefix of the stores (SharedGraph), and the threads of the top-down step of bfs.cc (BFSParallel, over the
  team of Threads).  The polled word is a plain int; a compiler that reads it once gives all polls the first value (\<open>wait_for_master_hoisted\<close>), so theorems on workers say what holds once a poll
  has shown the word, or assume that one does.  A team of any number of threads with any assignment of the work: delta-stepping (SSSP)
  and the blocked prefix sum (Builder).  Otherwise the loop runs in the order of its
  variable, which is what the serial build does; where the result could depend on the order a theorem says that it
  does not (\<open>construction_order_free\<close>), and the specifications of the kernels determine their results or, for trees, the class of them.
\<close>

section \<open>Theories and code\<close>

text \<open>
  \<^bold>\<open>Containers and atomics.\<close>  Atomics: platform_atomics.h, each wrapper one indivisible step on a cell.  PVector: pvector.h, every operation; \<^verbatim>\<open>reserve\<close> leaves
  the program, so does a \<^verbatim>\<open>push_back\<close> that has to grow.  Bitmap: bitmap.h; the locale \<open>bit_set\<close> is what kernels use of it.
  SlidingQueue: sliding_queue.h; the locale \<open>append_queue\<close> is the contract of the queue and of a buffer over it, interpreted for the queue, for the buffer, and
  for all that was pushed since the last reset.  Worklist: the loop over a growing vector in the verifiers.

  \<^bold>\<open>The graph.\<close>  Graph: graph.h without the shared constructor; \<open>csr_wf\<close> is its invariant, \<open>adj\<close> the neighbour list of a vertex, and the locales \<open>graph_view\<close> and \<open>undirected_view\<close> what
  kernels rely on.  SharedMemory and SharedGraph: the shared constructor of graph.h with \<^verbatim>\<open>assign_sizes\<close> and \<^verbatim>\<open>assign_data\<close>, the layout of the region word by
  word, and a worker's view.  Dmalloc: dmalloc.h (mapping, flush, clearing) with allocator.cc and converter.cc.

  \<^bold>\<open>Construction.\<close>  CommandLine: command_line.h as a hierarchy of extensible records.  Generator: generator.h.  Reader and Writer: reader.h and writer.h, the text formats and the serialized format byte by byte.
  Builder, CSRBuild: degree counts, prefix sums, \<^verbatim>\<open>MakeCSR\<close>, \<^verbatim>\<open>SquishCSR\<close> of builder.h and what they compute.  Construction: \<^verbatim>\<open>MakeGraphFromEL\<close> and \<^verbatim>\<open>MakeGraph\<close>.
  Relabel: \<^verbatim>\<open>RelabelByDegree\<close>.

  \<^bold>\<open>Kernels.\<close>  Bench: benchmark.h (source picker, TopK, trials).  TC: tc.cc.  Forest, CC, CCCheck: cc.cc; CCSV: the kernel of cc_sv.cc, whose verifier and statistics are those of cc.cc word for word.
  Distance (balls, layers, search trees), BFS, BFSParallel (\<^verbatim>\<open>TDStep\<close> thread by thread, on the locale \<open>team\<close> of Threads), BFSCheck: bfs.cc.  ShortestPath, SSSP, SSSPCheck, SSSPMain: sssp.cc with the weighted builder.  PageRank, PageRankMain: pr.cc.
  Betweenness, ParallelBFS, Brandes, BCCheck, BCMain: bc.cc.  Programs: the mains of tc, cc, cc_sv and bfs.
\<close>

section \<open>What is shown\<close>

text \<open>
  \<^bold>\<open>Programs.\<close>  \<open>tc_main_counts\<close>, \<open>bfs_main_trees\<close>, \<open>sssp_main_distances\<close>, \<open>pr_main_scores\<close>, \<open>bc_main_scores\<close>, \<open>cc_main_labels\<close> and \<open>cc_sv_main_labels\<close> go from the command
  line to the log: for a generated edge list that fits the 32-bit ints of the builder and the region (for sssp, a graph in a .wsg file) each run has the result the edge list determines, and each
  verification passes (in pr, where the iteration limit is large enough for the tolerance).  Generated graphs stop sssp at an assertion (\<open>sssp_generated_fails\<close>).  The abstract results are stated without the algorithms: sets of three mutually adjacent vertices, breadth-first trees, lengths of shortest walks,
  solutions of the PageRank equation, shares of shortest paths (lists of walks, \<open>paths\<close>), smallest connected vertices.

  \<^bold>\<open>Kernels and verifiers.\<close>  Each kernel returns its abstract result on every well-formed graph (\<open>DOBFS_tree\<close>, \<open>Hybrid_triangles\<close>, \<open>Afforest_components\<close>,
  \<open>ShiloachVishkin_components\<close>, \<open>DeltaStep_shortest\<close>, \<open>PageRankPull_converges\<close>, \<open>Brandes_scores\<close>), ends, and stays inside its arrays.  Each verifier returns for every input and accepts exactly the right results
  (\<open>BFSVerifier_correct\<close>, \<open>CCVerifier_correct\<close>, \<open>SSSPVerifier_correct\<close>, \<open>PRVerifier_decides\<close>, \<open>BCVerifier_decides\<close>).
  \<open>TDStep_interleaved\<close>: the top-down step does the same under every schedule of its threads.
  Betweenness rests on \<open>dependency_recursion\<close>, the theorem of Brandes, with \<open>counted_settled\<close> for the path counts, which kernel and verifier share.

  \<^bold>\<open>The shared graph.\<close>  \<open>master_publishes\<close>: the allocator stores header, row sizes, neighbours and rows, and the synchronisation word once, last.  \<open>worker_sees_rows\<close>,
  \<open>allocator_worker_agree\<close>, \<open>allocator_main_serves\<close>: a worker sees all of the graph or none.  \<open>flush_covers\<close>: the flush reaches every line.  \<open>MakeGraph_allocates\<close>, \<open>construction_order_free\<close>: the graph is the simple
  undirected graph of the edge list.  \<open>wsg_round_trip\<close>: what the writer writes the reader reads.

  \<^bold>\<open>Bounds and fuel.\<close>  \<open>pr_loop\<close> counts down the iteration limit, as the code does.  The builder counts degrees in 32-bit ints and \<^verbatim>\<open>GenIndex\<close> takes the number of offsets as one, so
  its theorems assume \<open>edges_fit\<close>: ids below \<open>2 ^ 31 - 2\<close>, and no vertex the end of \<open>2 ^ 31\<close> edges of the list.  The hypothesis is exact: without it construction has no result
  (\<open>MakeGraphFromEL_fit\<close>), and lists of fewer than \<open>2 ^ 30\<close> edges with such ids meet it (\<open>edges_fit_short\<close>).  \<^verbatim>\<open>RelabelByDegree\<close> and files have the same bounds on degrees and ids.
  The graph is bounded by the mapped region (\<open>fits\<close>); the triangle count is compared modulo \<open>2 ^ 64\<close>.  \<open>DeltaStep_shortest\<close> needs room in the frontier array: \<open>DeltaStep_overflow\<close> shows that the code can write
  behind it.  A quotient by 0 in bc.cc has no result (the machine has a NaN), so \<open>Brandes_scores\<close> asks for a source with a neighbour; in pr.cc it is 0, and no vertex reads it.

  \<^bold>\<open>Errors.\<close>  \<open>ReadFile_no_edges\<close>, \<open>serialized_undirected_edges\<close>, \<open>MakeGraphFromEL_only_symmetrized\<close>, \<open>converter_never_writes\<close>, \<open>clears_another_device\<close>, \<open>stale_synch_attaches\<close> state what the code does where
  it leaves the program, reads an unset field or trusts an old region.
\<close>

section \<open>Not modelled\<close>

text \<open>
  The in-place builder (builder.h, \<^verbatim>\<open>MakeCSRInPlace\<close>) is modelled up to its first \<^verbatim>\<open>resize\<close>, which leaves the program, as does every \<^verbatim>\<open>resize\<close> of a \<^verbatim>\<open>pvector\<close>; the rest is not reached.  So is the body of \<^verbatim>\<open>MakeUniformEL\<close>
  behind its exit.  The shared constructor is modelled for entries of one 32-bit word; for the weighted graph, with entries of two, it is an argument of \<open>sssp_main\<close>.
  Timing (timer.h), the printing functions (util.h, \<^verbatim>\<open>PrintStats\<close>, \<^verbatim>\<open>print_data\<close>, \<^verbatim>\<open>print_neighs\<close> of graph.h) and the hooks of the gem5 simulator (m5_mmap, m5ops, m5op_x86.S)
  do not change a result; of the analyses what they print is modelled (\<open>PrintBFSStats\<close>, \<open>PrintCompStats\<close>, \<open>PrintTopScores\<close>).
  Not shown: error bounds for rounded arithmetic; the parallel loops of cc.cc, cc_sv.cc and bc.cc, and of bfs.cc beyond the top-down step, under all interleavings of their steps (their atomic operations are single steps and the order
  of the loops is fixed); caches and the ordering of the stores of another host beyond that of a prefix.
\<close>

end
